(* ===== verification/Prelude.thy ===== *)
theory Prelude
  imports Main "HOL-Library.Word"
begin

text \<open>
  Shared vocabulary of the development: the C integer types that the Dis sources use, the C view of
  a pointer as a function from offsets to bytes, and the lemma collections that the component
  theories extend.

  \<^item> \<open>byte_simps\<close> collects the facts that turn shifts, masks and bitwise operations of the byte
    codecs into linear arithmetic;
  \<^item> \<open>mem_simps\<close> collects the read-over-write facts of the byte memory;
  \<^item> \<open>vm_defs\<close> collects the definitions of the straight-line virtual machine primitives.
\<close>

unbundle bit_operations_syntax

named_theorems byte_simps \<open>bit operations of the codecs as linear arithmetic\<close>
named_theorems mem_simps \<open>read-over-write facts of byte memory\<close>
named_theorems vm_defs \<open>straight-line primitives of the virtual machine\<close>

section \<open>C types\<close>

type_synonym byte = "8 word"    \<comment> \<open>\<open>uchar\<close>, \<open>BYTE\<close>\<close>
type_synonym u16 = "16 word"    \<comment> \<open>\<open>ushort\<close>\<close>
type_synonym u32 = "32 word"    \<comment> \<open>\<open>ulong\<close>, and the bits of a \<open>WORD\<close>\<close>
type_synonym u64 = "64 word"    \<comment> \<open>the bits of a \<open>LONG\<close> or a \<open>REAL\<close>\<close>

text \<open>A \<open>uchar*\<close> (or \<open>char*\<close>): what is found at each offset from the pointer.\<close>

type_synonym cptr = "nat \<Rightarrow> byte"

definition ptr_add :: "cptr \<Rightarrow> nat \<Rightarrow> cptr" where
  "ptr_add p k = (\<lambda>i. p (k + i))"

definition holds :: "cptr \<Rightarrow> byte list \<Rightarrow> bool" where
  "holds p bs = (\<forall>i < length bs. p i = bs ! i)"

definition bytes_at :: "cptr \<Rightarrow> nat \<Rightarrow> byte list" where
  "bytes_at p n = map p [0..<n]"

lemma ptr_add_0 [simp]: "ptr_add p 0 = p"
  by (simp add: ptr_add_def)

lemma ptr_add_add [simp]: "ptr_add (ptr_add p j) k = ptr_add p (j + k)"
  by (simp add: ptr_add_def add.assoc)

lemma ptr_add_apply [simp]: "ptr_add p k i = p (k + i)"
  by (simp add: ptr_add_def)

lemma holds_Nil [simp]: "holds p []"
  by (simp add: holds_def)

lemma holds_append [simp]:
  "holds p (xs @ ys) \<longleftrightarrow> holds p xs \<and> holds (ptr_add p (length xs)) ys"
proof -
  have "(\<forall>i < length xs + length ys. p i = (xs @ ys) ! i) \<longleftrightarrow>
      (\<forall>i < length xs. p i = xs ! i) \<and> (\<forall>i < length ys. p (length xs + i) = ys ! i)"
    (is "?l \<longleftrightarrow> ?r")
  proof
    assume l: ?l
    show ?r
    proof (intro conjI allI impI)
      fix i assume "i < length xs" then show "p i = xs ! i"
        using l [rule_format, of i] by (simp add: nth_append)
    next
      fix i assume "i < length ys" then show "p (length xs + i) = ys ! i"
        using l [rule_format, of "length xs + i"] by simp
    qed
  next
    assume r: ?r
    show ?l
    proof (intro allI impI)
      fix i assume i: "i < length xs + length ys"
      show "p i = (xs @ ys) ! i"
      proof (cases "i < length xs")
        case True then show ?thesis using r by (simp add: nth_append)
      next
        case False
        then have "i = length xs + (i - length xs)" "i - length xs < length ys" using i by auto
        then show ?thesis using r False by (metis nth_append)
      qed
    qed
  qed
  then show ?thesis by (simp add: holds_def)
qed

lemma holds_Cons [simp]: "holds p (x # xs) \<longleftrightarrow> p 0 = x \<and> holds (ptr_add p 1) xs"
  using holds_append [of p "[x]" xs] by (simp add: holds_def)

lemma holds_bytes_at [simp]: "holds p (bytes_at p n)"
  by (simp add: holds_def bytes_at_def)

lemma length_bytes_at [simp]: "length (bytes_at p n) = n"
  by (simp add: bytes_at_def)

lemma holds_iff_bytes_at: "holds p bs \<longleftrightarrow> bytes_at p (length bs) = bs"
  unfolding holds_def bytes_at_def list_eq_iff_nth_eq by simp

text \<open>The pointer to the first element of an array, reading zero past its end.\<close>

definition of_bytes :: "byte list \<Rightarrow> cptr" where
  "of_bytes bs = (\<lambda>i. if i < length bs then bs ! i else 0)"

lemma holds_of_bytes [simp]: "holds (of_bytes bs) bs"
  by (simp add: holds_def of_bytes_def)

section \<open>Bit operations as arithmetic\<close>

lemma or_shift_add:
  fixes a c :: int
  assumes "0 \<le> c" "c < 2 ^ k"
  shows "(a * 2 ^ k) OR c = a * 2 ^ k + c"
proof -
  have c: "take_bit k c = c"
    using assms by (simp add: take_bit_eq_mod)
  have "push_bit k a AND take_bit k c = 0"
    by (rule bit_eqI) (auto simp: bit_simps)
  then have "push_bit k a OR take_bit k c = push_bit k a + take_bit k c"
    by (metis disjunctive_add_eq_or)
  then show ?thesis
    by (simp add: c push_bit_eq_mult)
qed

lemma xor_shift_add:
  fixes a c :: int
  assumes "0 \<le> c" "c < 2 ^ k"
  shows "c XOR (a * 2 ^ k) = c + a * 2 ^ k"
proof -
  have c: "take_bit k c = c"
    using assms by (simp add: take_bit_eq_mod)
  have "take_bit k c AND push_bit k a = 0"
    by (rule bit_eqI) (auto simp: bit_simps)
  then have "take_bit k c XOR push_bit k a = take_bit k c + push_bit k a"
    by (metis disjunctive_add_eq_xor)
  then show ?thesis
    by (simp add: c push_bit_eq_mult)
qed

lemma and_shift:
  fixes a b :: int
  shows "b AND (a * 2 ^ k) = (b div 2 ^ k AND a) * 2 ^ k"
proof -
  have "b AND push_bit k a = push_bit k (drop_bit k b AND a)"
    by (rule bit_eqI) (auto simp: bit_simps)
  then show ?thesis
    by (simp add: push_bit_eq_mult drop_bit_eq_div)
qed

lemma mod_reduce:
  fixes x m k :: int
  assumes "0 \<le> x" "x < m"
  shows "(x + k * m) mod m = x"
  using assms by simp

lemma and_mask_mod [byte_simps]:
  "(x :: int) AND 63 = x mod 64" "(x :: int) AND 255 = x mod 256"
  "(x :: int) AND 2047 = x mod 2048" "(x :: int) AND 65535 = x mod 65536"
  "(x :: int) AND 7 = x mod 8" "(x :: int) AND 15 = x mod 16"
  using take_bit_eq_mask [of 6 x] take_bit_eq_mask [of 8 x] take_bit_eq_mask [of 11 x]
    take_bit_eq_mask [of 16 x] take_bit_eq_mask [of 3 x] take_bit_eq_mask [of 4 x]
  by (simp_all add: take_bit_eq_mod mask_eq_exp_minus_1)

lemma uint_byte_range [simp]: "0 \<le> uint (b :: byte)" "uint (b :: byte) < 256"
  using uint_lt2p [of b] by simp_all

text \<open>The C conversions of an \<open>int\<close> to \<open>uchar\<close> and to \<open>ushort\<close>.\<close>

definition uchar :: "int \<Rightarrow> byte" where
  "uchar x = word_of_int x"

definition ushort :: "int \<Rightarrow> u16" where
  "ushort x = word_of_int x"

lemma uint_uchar [simp]: "uint (uchar x) = x mod 256"
  by (simp add: uchar_def uint_word_of_int)

lemma uint_ushort [simp]: "uint (ushort x) = x mod 65536"
  by (simp add: ushort_def uint_word_of_int)

lemma uchar_uint [simp]: "uchar (uint b) = b"
  by (simp add: uchar_def)

lemma ushort_uint [simp]: "ushort (uint b) = b"
  by (simp add: ushort_def)

lemma byte_eqI: "uint (a :: byte) = uint b \<Longrightarrow> a = b"
  by (simp add: word_uint_eq_iff)

end
