(* ===== verification/Rune.thy ===== *)
theory Rune
  imports Prelude
begin

text \<open>
  The UTF-8 codec of \<open>lib9/rune.c\<close> and the string walkers of \<open>lib9/utflen.c\<close>,
  \<open>lib9/utfrune.c\<close> and \<open>interp/runt.c\<close>: one definition per C function. A \<open>Rune\<close> is a
  16-bit word. A function that stores through a pointer returns the stored value beside its result;
  a \<open>char*\<close> argument is the function from offsets to bytes.
  The lemmas give the codec's contract: decoding inverts encoding, whatever follows the encoded
  bytes; a multi-byte sequence is accepted only in its shortest form; a decode looks at no byte
  beyond those \<open>fullrune\<close> asks for.
\<close>

type_synonym rune = u16

section \<open>Constants of lib9/rune.c\<close>

definition Bit1 :: nat where "Bit1 = 7"
definition Bitx :: nat where "Bitx = 6"
definition Bit2 :: nat where "Bit2 = 5"
definition Bit3 :: nat where "Bit3 = 4"
definition Bit4 :: nat where "Bit4 = 3"

definition T1 :: int where "T1 = (push_bit (Bit1 + 1) 1 - 1) XOR 255"
definition Tx :: int where "Tx = (push_bit (Bitx + 1) 1 - 1) XOR 255"
definition T2 :: int where "T2 = (push_bit (Bit2 + 1) 1 - 1) XOR 255"
definition T3 :: int where "T3 = (push_bit (Bit3 + 1) 1 - 1) XOR 255"
definition T4 :: int where "T4 = (push_bit (Bit4 + 1) 1 - 1) XOR 255"

definition Rune1 :: int where "Rune1 = push_bit (Bit1 + 0 * Bitx) 1 - 1"
definition Rune2 :: int where "Rune2 = push_bit (Bit2 + 1 * Bitx) 1 - 1"
definition Rune3 :: int where "Rune3 = push_bit (Bit3 + 2 * Bitx) 1 - 1"

definition Maskx :: int where "Maskx = push_bit Bitx 1 - 1"
definition Testx :: int where "Testx = Maskx XOR 255"

definition UTFmax :: nat where "UTFmax = 3"
definition Runeself :: int where "Runeself = 128"
definition Runesync :: int where "Runesync = 128"
definition Runeerror :: rune where "Runeerror = 128"

definition Bad :: rune where "Bad = Runeerror"

lemmas rune_shift_defs = Bit1_def Bitx_def Bit2_def Bit3_def Bit4_def

lemma rune_consts [byte_simps]:
  "T1 = 0" "Tx = 128" "T2 = 192" "T3 = 224" "T4 = 240"
  "Rune1 = 127" "Rune2 = 2047" "Rune3 = 65535" "Maskx = 63" "Testx = 192" "Bitx = 6"
  by (simp_all add: T1_def Tx_def T2_def T3_def T4_def Rune1_def Rune2_def Rune3_def
      Maskx_def Testx_def rune_shift_defs push_bit_eq_mult)

section \<open>lib9/rune.c\<close>

definition chartorune :: "cptr \<Rightarrow> rune \<times> nat" where
  "chartorune str =
    (let c = uint (str 0)
     in if c < Tx then (ushort c, 1)
        else let c1 = uint (str 1) XOR Tx
        in if c1 AND Testx \<noteq> 0 then (Bad, 1)
        else if c < T3 then
          (if c < T2 then (Bad, 1)
           else let l = (push_bit Bitx c OR c1) AND Rune2
                in if l \<le> Rune1 then (Bad, 1) else (ushort l, 2))
        else let c2 = uint (str 2) XOR Tx
        in if c2 AND Testx \<noteq> 0 then (Bad, 1)
        else if c < T4 then
          (let l = (push_bit Bitx (push_bit Bitx c OR c1) OR c2) AND Rune3
           in if l \<le> Rune2 then (Bad, 1) else (ushort l, 3))
        else (Bad, 1))"

text \<open>\<open>runetochar\<close> returns the bytes it stores at \<open>str\<close>; their number is its C result.\<close>

definition runetochar :: "rune \<Rightarrow> byte list" where
  "runetochar rune =
    (let c = uint rune
     in if c \<le> Rune1 then [uchar c]
        else if c \<le> Rune2 then
          [uchar (T2 OR drop_bit (1 * Bitx) c),
           uchar (Tx OR (c AND Maskx))]
        else
          [uchar (T3 OR drop_bit (2 * Bitx) c),
           uchar (Tx OR (drop_bit (1 * Bitx) c AND Maskx)),
           uchar (Tx OR (c AND Maskx))])"

definition runelen :: "int \<Rightarrow> nat" where
  "runelen c = (if c \<le> Rune1 then 1 else if c \<le> Rune2 then 2 else 3)"

text \<open>The loop \<open>while(l--)\<close> of \<open>runenlen\<close>, over the runes it reads.\<close>

fun runenlen_loop :: "rune list \<Rightarrow> nat \<Rightarrow> nat" where
  "runenlen_loop [] n = n"
| "runenlen_loop (r # rs) n =
    (let c = uint r
     in if c \<le> Rune1 then runenlen_loop rs (n + 1)
        else if c \<le> Rune2 then runenlen_loop rs (n + 2)
        else runenlen_loop rs (n + 3))"

definition runenlen :: "rune list \<Rightarrow> nat" where
  "runenlen r = runenlen_loop r 0"

definition fullrune :: "cptr \<Rightarrow> nat \<Rightarrow> bool" where
  "fullrune str n =
    (if n > 0 then
       let c = uint (str 0)
       in if c < Tx then True
          else if n > 1 then (c < T3 \<or> n > 2)
          else False
     else False)"

section \<open>String walkers\<close>

text \<open>\<open>utflen\<close> walks to the terminating NUL, which C cannot bound: \<open>None\<close> is a string without one.\<close>

partial_function (option) utflen_loop :: "cptr \<Rightarrow> nat \<Rightarrow> nat option" where
  "utflen_loop s n =
    (let c = uint (s 0)
     in if c < Runeself then
          (if c = 0 then Some n else utflen_loop (ptr_add s 1) (n + 1))
        else utflen_loop (ptr_add s (snd (chartorune s))) (n + 1))"

definition utflen :: "cptr \<Rightarrow> nat option" where
  "utflen s = utflen_loop s 0"

text \<open>
  \<open>utfrune\<close> for a rune outside the one-byte range (below \<open>Runesync\<close> the C calls \<open>strchr\<close>):
  the offset of its first occurrence, \<open>Some None\<close> for the null pointer.
\<close>

partial_function (option) strchr_loop :: "cptr \<Rightarrow> byte \<Rightarrow> nat \<Rightarrow> nat option option" where
  "strchr_loop s c k =
    (if c = 0 then (if s k = 0 then Some (Some k) else strchr_loop s c (k + 1))
     else if s k = 0 then Some None
     else if s k = c then Some (Some k)
     else strchr_loop s c (k + 1))"

partial_function (option) utfrune_loop :: "cptr \<Rightarrow> int \<Rightarrow> nat \<Rightarrow> nat option option" where
  "utfrune_loop s c k =
    (let c1 = uint (s k)
     in if c1 < Runeself then
          (if c1 = 0 then Some None
           else if c1 = c then Some (Some k)
           else utfrune_loop s c (k + 1))
        else let rn = chartorune (ptr_add s k)
        in if uint (fst rn) = c then Some (Some k)
           else utfrune_loop s c (k + snd rn))"

definition utfrune :: "cptr \<Rightarrow> int \<Rightarrow> nat option option" where
  "utfrune s c =
    (if c < Runesync then strchr_loop s (uchar c) 0 else utfrune_loop s c 0)"

text \<open>
  \<open>utfnlen\<close> of \<open>interp/runt.c\<close>: the number of runes in the first \<open>nb\<close> bytes and how many
  bytes they take, stopping before an incomplete sequence.
\<close>

lemma chartorune_pos: "snd (chartorune s) > 0" and chartorune_le: "snd (chartorune s) \<le> UTFmax"
  by (simp_all add: chartorune_def Let_def UTFmax_def)

function utfnlen_loop :: "cptr \<Rightarrow> nat \<Rightarrow> nat \<Rightarrow> nat \<Rightarrow> nat \<times> nat" where
  "utfnlen_loop starts nb s n =
    (if s < nb then
       let c = uint (starts s)
       in if c < Runeself then utfnlen_loop starts nb (s + 1) (n + 1)
          else if s + UTFmax \<le> nb \<or> fullrune (ptr_add starts s) (nb - s) then
            utfnlen_loop starts nb (s + snd (chartorune (ptr_add starts s))) (n + 1)
          else (n, s)
     else (n, s))"
  by pat_completeness auto
termination
  by (relation "measure (\<lambda>(starts, nb, s, n). nb - s)")
    (auto simp: chartorune_pos intro: diff_less_mono2)

declare utfnlen_loop.simps [simp del]

definition utfnlen :: "cptr \<Rightarrow> nat \<Rightarrow> nat \<times> nat" where
  "utfnlen s nb = utfnlen_loop s nb 0 0"

section \<open>The codec as arithmetic\<close>

lemma xor_high_bit:
  fixes b :: int
  assumes "0 \<le> b" "b < 256"
  shows "b XOR 128 = (if b < 128 then b + 128 else b - 128)"
proof (cases "b < 128")
  case True
  then show ?thesis using xor_shift_add [of b 7 1] assms by simp
next
  case False
  then have "(b - 128) XOR 128 = b"
    using xor_shift_add [of "b - 128" 7 1] assms by simp
  then have "b XOR 128 = b - 128"
    by (metis bit.xor_self xor.assoc xor.right_neutral)
  then show ?thesis using False by simp
qed

lemma and_192:
  fixes b :: int
  assumes "0 \<le> b" "b < 256"
  shows "b AND 192 = 0 \<longleftrightarrow> b < 64"
proof -
  have "b div 64 AND 3 = (b div 64) mod 4"
    using take_bit_eq_mask [of 2 "b div 64"]
    by (simp add: take_bit_eq_mod mask_eq_exp_minus_1)
  then have "b AND 192 = (b div 64) mod 4 * 64"
    using and_shift [of b 3 6] by simp
  moreover have "(b div 64) mod 4 = b div 64" using assms by simp
  moreover have "b div 64 = 0 \<longleftrightarrow> b < 64" using assms by (auto simp: zdiv_eq_0_iff)
  ultimately show ?thesis by simp
qed

lemma xor_192_test:
  fixes b :: int
  assumes "0 \<le> b" "b < 256"
  shows "(b XOR 128) AND 192 = 0 \<longleftrightarrow> 128 \<le> b \<and> b < 192"
  using and_192 [of "b XOR 128"] assms by (auto simp: xor_high_bit)

lemma push_or:
  fixes c d :: int
  assumes "0 \<le> d" "d < 64"
  shows "push_bit 6 c OR d = c * 64 + d"
  using or_shift_add [of d 6 c] assms by (simp add: push_bit_eq_mult)

lemma chartorune_1: "uint (s 0) < 128 \<Longrightarrow> chartorune s = (ushort (uint (s 0)), 1)"
  by (simp add: chartorune_def rune_consts)

lemma chartorune_bad2:
  assumes "128 \<le> uint (s 0)" "uint (s 1) < 128 \<or> 192 \<le> uint (s 1)"
  shows "chartorune s = (Runeerror, 1)"
proof -
  have "(uint (s 1) XOR 128) AND 192 \<noteq> 0"
    using xor_192_test [of "uint (s 1)"] assms(2) by auto
  then show ?thesis using assms(1) by (simp add: chartorune_def rune_consts Let_def Bad_def)
qed

lemma chartorune_2:
  fixes s defines "c \<equiv> uint (s 0)" and "d \<equiv> uint (s 1)"
  assumes "128 \<le> c" "c < 224" "128 \<le> d" "d < 192"
  shows "chartorune s =
    (if c < 194 then (Runeerror, 1) else (ushort ((c - 192) * 64 + (d - 128)), 2))"
proof -
  have x: "d XOR 128 = d - 128" "(d - 128) AND 192 = 0"
    using xor_high_bit [of d] and_192 [of "d - 128"] assms by (auto simp: d_def)
  have o: "push_bit 6 c OR (d - 128) = c * 64 + (d - 128)"
    using assms by (intro push_or) auto
  have m: "(c * 64 + (d - 128)) mod 2048 = (c - 192) * 64 + (d - 128)" if "192 \<le> c"
    using mod_reduce [of "(c - 192) * 64 + (d - 128)" 2048 6] assms that by (simp add: algebra_simps)
  have n: "(c - 192) * 64 + (d - 128) \<le> 127 \<longleftrightarrow> c < 194" if "192 \<le> c"
    by (cases "c < 194") (use assms(3-6) in simp_all)
  have "chartorune s = (if c < 192 then (Runeerror, 1)
      else if (c * 64 + (d - 128)) mod 2048 \<le> 127 then (Runeerror, 1)
      else (ushort ((c * 64 + (d - 128)) mod 2048), 2))"
    unfolding chartorune_def Let_def rune_consts Bad_def c_def [symmetric] d_def [symmetric] x(1) o
      and_mask_mod
    using assms(3-4) x(2) by simp
  also have "\<dots> = (if c < 194 then (Runeerror, 1)
      else (ushort ((c - 192) * 64 + (d - 128)), 2))"
  proof (cases "c < 192")
    case False
    then have "192 \<le> c" by simp
    with m n show ?thesis by simp
  qed simp
  finally show ?thesis .
qed

lemma chartorune_3:
  fixes s defines "c \<equiv> uint (s 0)" and "d \<equiv> uint (s 1)" and "e \<equiv> uint (s 2)"
  assumes "224 \<le> c" "128 \<le> d" "d < 192"
  shows "chartorune s =
    (if e < 128 \<or> 192 \<le> e \<or> 240 \<le> c \<or> (c = 224 \<and> d < 160) then (Runeerror, 1)
     else (ushort ((c - 224) * 4096 + (d - 128) * 64 + (e - 128)), 3))"
proof -
  have r: "c < 256" "0 \<le> e" "e < 256" by (simp_all add: c_def e_def)
  have x: "d XOR 128 = d - 128" "(d - 128) AND 192 = 0"
    using xor_high_bit [of d] and_192 [of "d - 128"] assms by (auto simp: d_def)
  show ?thesis
  proof (cases "e < 128 \<or> 192 \<le> e")
    case True
    then have "(e XOR 128) AND 192 \<noteq> 0" using xor_192_test [OF r(2,3)] by auto
    then show ?thesis
      unfolding chartorune_def Let_def rune_consts Bad_def c_def [symmetric] d_def [symmetric]
        e_def [symmetric] x(1)
      using assms(4-6) x(2) True by auto
  next
    case False
    then have y: "e XOR 128 = e - 128" "(e - 128) AND 192 = 0"
      using xor_high_bit [of e] and_192 [of "e - 128"] r by auto
    have o: "push_bit 6 c OR (d - 128) = c * 64 + (d - 128)"
      "push_bit 6 (c * 64 + (d - 128)) OR (e - 128) = (c * 64 + (d - 128)) * 64 + (e - 128)"
      using assms False by (intro push_or; simp)+
    have m: "((c * 64 + (d - 128)) * 64 + (e - 128)) mod 65536
        = (c - 224) * 4096 + (d - 128) * 64 + (e - 128)" if "c < 240"
      using mod_reduce [of "(c - 224) * 4096 + (d - 128) * 64 + (e - 128)" 65536 14]
        assms(4-6) that False by (simp add: algebra_simps)
    have n: "(c - 224) * 4096 + (d - 128) * 64 + (e - 128) \<le> 2047 \<longleftrightarrow> c = 224 \<and> d < 160"
      by (cases "c = 224"; cases "d < 160") (use assms(4-6) False in simp_all)
    show ?thesis
    proof (cases "c < 240")
      case True
      show ?thesis
        unfolding chartorune_def Let_def rune_consts Bad_def c_def [symmetric] d_def [symmetric]
          e_def [symmetric] x(1) y(1) o and_mask_mod m [OF True] n
        using assms(4-6) x(2) y(2) True False by simp
    next
      case c: False
      show ?thesis
        unfolding chartorune_def Let_def rune_consts Bad_def c_def [symmetric] d_def [symmetric]
          e_def [symmetric] x(1) y(1)
        using assms(4-6) x(2) y(2) c by simp
    qed
  qed
qed

lemma runetochar_arith:
  "runetochar r =
    (let c = uint r in
     if c < 128 then [uchar c]
     else if c < 2048 then [uchar (192 + c div 64), uchar (128 + c mod 64)]
     else [uchar (224 + c div 4096), uchar (128 + c div 64 mod 64),
           uchar (128 + c mod 64)])"
proof -
  define c where c: "c = uint r"
  have r: "0 \<le> c" "c < 65536"
    using uint_lt2p [of r] by (simp_all add: c)
  have t2: "c < 2048 \<Longrightarrow> 192 OR (c div 64) = 192 + c div 64"
    using or_shift_add [of "c div 64" 6 3] r by simp
  have t3: "224 OR (c div 4096) = 224 + c div 4096"
    using or_shift_add [of "c div 4096" 5 7] r by simp
  have tx: "128 OR (x mod 64) = 128 + x mod 64" for x :: int
    using or_shift_add [of "x mod 64" 6 2] by simp
  show ?thesis
    using t2 t3 by (auto simp: runetochar_def byte_simps Let_def c [symmetric] drop_bit_eq_div tx)
qed
section \<open>The contract of the codec\<close>

lemma uint_rune_range [simp]: "0 \<le> uint (r :: rune)" "uint (r :: rune) < 65536"
  using uint_lt2p [of r] by simp_all

lemma uint_rune_div: "uint (r :: rune) div 4096 < 16" "0 \<le> uint (r :: rune) div 4096"
proof -
  have "uint r \<le> 65535" using uint_lt2p [of r] by (simp del: uint_rune_range)
  then have "uint r div 4096 \<le> 65535 div 4096" by (rule zdiv_mono1) simp
  then show "uint r div 4096 < 16" by simp
qed (simp add: pos_imp_zdiv_nonneg_iff)

lemma split_4096: "(x :: int) = x div 4096 * 4096 + x div 64 mod 64 * 64 + x mod 64"
proof -
  have "x div 4096 = x div 64 div 64" by (simp add: zdiv_zmult2_eq [symmetric])
  then show ?thesis
    using mult_div_mod_eq [of 64 x] mult_div_mod_eq [of 64 "x div 64"] by linarith
qed

lemma runetochar_cases:
  obtains (one) "uint r < 128" "runetochar r = [uchar (uint r)]"
  | (two) "128 \<le> uint r" "uint r < 2048"
      "runetochar r = [uchar (192 + uint r div 64), uchar (128 + uint r mod 64)]"
  | (three) "2048 \<le> uint r"
      "runetochar r = [uchar (224 + uint r div 4096),
         uchar (128 + uint r div 64 mod 64), uchar (128 + uint r mod 64)]"
  by (cases "uint r < 128"; cases "uint r < 2048") (auto simp: runetochar_arith Let_def)

lemma chartorune_enc:
  assumes "holds s (runetochar r)"
  shows "chartorune s = (r, length (runetochar r))"
proof (cases r rule: runetochar_cases)
  case one
  then have "uint (s 0) = uint r" using assms by simp
  then show ?thesis using one by (simp add: chartorune_1)
next
  case two
  then have s: "uint (s 0) = 192 + uint r div 64" "uint (s (Suc 0)) = 128 + uint r mod 64"
    using assms by simp_all
  have "194 \<le> uint (s 0)" "uint (s 0) < 224"
    using two by (simp_all add: s)
  moreover have "uint r div 64 * 64 + uint r mod 64 = uint r"
    by simp
  ultimately show ?thesis
    using two(3) by (subst chartorune_2) (simp_all add: s)
next
  case three
  have hi: "uint r div 4096 < 16" "0 \<le> uint r div 4096"
    by (rule uint_rune_div)+
  then have s: "uint (s 0) = 224 + uint r div 4096" "uint (s (Suc 0)) = 128 + uint r div 64 mod 64"
    "uint (s 2) = 128 + uint r mod 64"
    using assms three(2) by (simp_all add: numeral_2_eq_2)
  define x y z where xyz: "x = uint r div 4096" "y = uint r div 64 mod 64" "z = uint r mod 64"
  have eq: "uint r = x * 4096 + y * 64 + z"
    unfolding xyz by (rule split_4096)
  have rng: "0 \<le> x" "x < 16" "0 \<le> y" "y < 64" "0 \<le> z" "z < 64"
    using hi by (simp_all add: xyz)
  have "chartorune s = (ushort (x * 4096 + y * 64 + z), 3)"
    using s rng three(1) eq unfolding xyz [symmetric] by (subst chartorune_3) auto
  then show ?thesis using three(2) by (simp add: eq [symmetric])
qed

text \<open>C14: a rune that \<open>runetochar\<close> has written is read back by \<open>chartorune\<close>, from any bytes that
  start with its encoding, and exactly the encoding is consumed.\<close>

theorem chartorune_runetochar:
  assumes "holds s (runetochar r)"
  shows "chartorune s = (r, length (runetochar r))"
  using assms by (rule chartorune_enc)

text \<open>C24: whatever \<open>chartorune\<close> returns, the bytes it consumed are the encoding of that rune, except
  for one bad byte, which is returned as \<open>Runeerror\<close>: no overlong or truncated form is accepted.\<close>

theorem chartorune_canonical:
  assumes "chartorune s = (r, n)"
  shows "bytes_at s n = runetochar r \<or> (r = Runeerror \<and> n = 1 \<and> 128 \<le> uint (s 0))"
proof -
  define c d e where c: "c = uint (s 0)" and d: "d = uint (s 1)" and e: "e = uint (s 2)"
  note cde = c d e
  have rng: "0 \<le> c" "c < 256" "0 \<le> d" "d < 256" "0 \<le> e" "e < 256" by (simp_all add: cde)
  have bk: "uchar c = s 0" "uchar d = s 1" "uchar e = s 2"
    by (simp_all add: cde)
  consider "c < 128" | "128 \<le> c" and "d < 128 \<or> 192 \<le> d"
    | "128 \<le> c" and "c < 224" and "128 \<le> d" and "d < 192"
    | "224 \<le> c" and "128 \<le> d" and "d < 192"
    by linarith
  then show ?thesis
  proof cases
    case 1
    then have "r = ushort c" "n = 1"
      using assms by (simp_all add: chartorune_1 cde)
    moreover have "uint (ushort c) = c"
      using 1 rng by (simp add:)
    ultimately show ?thesis
      using 1 by (simp add: runetochar_arith bytes_at_def bk)
  next
    case 2
    then show ?thesis using assms chartorune_bad2 [of s] by (auto simp: cde)
  next
    case 3
    show ?thesis
    proof (cases "c < 194")
      case True
      then show ?thesis using assms 3 chartorune_2 [of s] by (auto simp: cde)
    next
      case False
      define l where "l = (c - 192) * 64 + (d - 128)"
      have rl: "r = ushort l" "n = 2"
        using assms 3 False chartorune_2 [of s] by (auto simp: cde l_def)
      have l: "128 \<le> l" "l < 2048" "l div 64 = c - 192" "l mod 64 = d - 128"
        using 3 False mod_reduce [of "d - 128" 64 "c - 192"]
        by (simp_all add: l_def div_add1_eq add.commute)
      then have "uint r = l" by (simp add: rl)
      then show ?thesis using l rl(2) bk
        by (simp add: runetochar_arith bytes_at_def Let_def eval_nat_numeral)
    qed
  next
    case 4
    show ?thesis
    proof (cases "e < 128 \<or> 192 \<le> e \<or> 240 \<le> c \<or> (c = 224 \<and> d < 160)")
      case True
      then show ?thesis using assms 4 chartorune_3 [of s] by (auto simp: cde)
    next
      case False
      define l where "l = (c - 224) * 4096 + (d - 128) * 64 + (e - 128)"
      have rl: "r = ushort l" "n = 3"
        using assms 4 False chartorune_3 [of s] by (auto simp: cde l_def)
      have l1: "2048 \<le> l"
        by (cases "c = 224") (use 4 False in \<open>simp_all add: l_def\<close>)
      have q: "l = ((c - 224) * 64 + (d - 128)) * 64 + (e - 128)" by (simp add: l_def)
      have l2: "l mod 64 = e - 128" "l div 64 = (c - 224) * 64 + (d - 128)"
        using 4 False mod_reduce [of "e - 128" 64 "(c - 224) * 64 + (d - 128)"]
        by (simp_all add: q div_add1_eq add.commute)
      have l3: "l div 64 mod 64 = d - 128" "l div 4096 = c - 224" "l < 65536"
      proof -
        show "l div 64 mod 64 = d - 128" using 4 mod_reduce [of "d - 128" 64 "c - 224"] by (simp add: l2 add.commute)
        have "l div 4096 = l div 64 div 64" by (simp add: zdiv_zmult2_eq [symmetric])
        then show "l div 4096 = c - 224" using 4 False by (simp add: l2 div_add1_eq)
        show "l < 65536" using 4 False by (simp add: l_def)
      qed
      have "uint r = l" using l1 l3 by (simp add: rl)
      then show ?thesis using l1 l2(1) l3 rl(2) bk
        by (simp add: runetochar_arith bytes_at_def Let_def eval_nat_numeral)
    qed
  qed
qed

lemma fullrune_enough:
  assumes "fullrune s n" "\<forall>i < n. t i = s i"
  shows "chartorune t = chartorune s \<and> snd (chartorune s) \<le> n"
proof -
  define c where c: "c = uint (s 0)"
  have n: "0 < n" and 0: "t 0 = s 0"
    using assms by (auto simp: fullrune_def split: if_splits)
  consider "c < 128" | "128 \<le> c" and "1 < n" and "c < 224" | "224 \<le> c" and "2 < n"
    using assms(1) by (fastforce simp: fullrune_def rune_consts c Let_def split: if_splits)
  then show ?thesis
  proof cases
    case 1
    then show ?thesis using n 0 by (simp add: chartorune_1 c)
  next
    case 2
    then have "t 1 = s 1" using assms(2) by simp
    then show ?thesis using 2 0 by (auto simp: chartorune_def c rune_consts Let_def)
  next
    case 3
    then have "t 1 = s 1" "t 2 = s 2" using assms(2) by simp_all
    then show ?thesis using 3 0 by (auto simp: chartorune_def c rune_consts Let_def)
  qed
qed

text \<open>When \<open>fullrune\<close> accepts a prefix of \<open>n\<close> bytes, \<open>chartorune\<close> depends on these bytes only and
  consumes at most \<open>n\<close>.\<close>

theorem fullrune_local:
  assumes "fullrune s n" "\<forall>i < n. t i = s i"
  shows "chartorune t = chartorune s \<and> snd (chartorune s) \<le> n"
  using assms by (rule fullrune_enough)

lemma length_runetochar: "length (runetochar r) = runelen (uint r)"
  by (simp add: runetochar_def runelen_def Let_def)

lemma runenlen_loop_eq: "runenlen_loop rs n = n + length (concat (map runetochar rs))"
  by (induction rs arbitrary: n) (simp_all add: length_runetochar runelen_def Let_def)

theorem runenlen_eq: "runenlen rs = length (concat (map runetochar rs))"
  by (simp add: runenlen_def runenlen_loop_eq)

lemma runetochar_ascii: "uint r < 128 \<Longrightarrow> runetochar r = [uchar (uint r)]"
  by (simp add: runetochar_arith Let_def)

lemma runetochar_multi:
  assumes "128 \<le> uint r"
  shows "128 \<le> uint (hd (runetochar r))"
proof (cases r rule: runetochar_cases)
  case two
  then have "uint r div 64 < 32" "0 \<le> uint r div 64"
    by (simp_all add: div_less_iff_less_mult pos_imp_zdiv_nonneg_iff)
  then show ?thesis using two by simp
next
  case three
  have "uint r div 4096 < 16" "0 \<le> uint r div 4096"
    by (rule uint_rune_div)+
  then show ?thesis using three by simp
qed (use assms in simp)

lemma runetochar_nonempty [simp]: "runetochar r \<noteq> []"
  by (simp add: runetochar_def Let_def)

lemma length_runetochar_le: "length (runetochar r) \<le> UTFmax"
  by (simp add: length_runetochar runelen_def UTFmax_def)

lemma holds_hd: "holds s bs \<Longrightarrow> bs \<noteq> [] \<Longrightarrow> s 0 = hd bs"
  by (cases bs) simp_all

lemma fullrune_runetochar:
  assumes "holds s (runetochar r)" "length (runetochar r) \<le> n"
  shows "fullrune s n"
  using assms runetochar_multi [of r]
  by (cases r rule: runetochar_cases)
    (auto simp: fullrune_def rune_consts)

definition utf_encode :: "rune list \<Rightarrow> byte list" where
  "utf_encode rs = concat (map runetochar rs)"

lemma utf_encode_simps [simp]:
  "utf_encode [] = []" "utf_encode (r # rs) = runetochar r @ utf_encode rs"
  "utf_encode (rs @ ts) = utf_encode rs @ utf_encode ts"
  by (simp_all add: utf_encode_def)

lemma utfnlen_loop_encode:
  assumes "holds (ptr_add st s) (utf_encode rs)" "s + length (utf_encode rs) = nb"
  shows "utfnlen_loop st nb s n = (n + length rs, nb)"
  using assms
proof (induction rs arbitrary: s n)
  case Nil
  then show ?case by (simp add: utfnlen_loop.simps)
next
  case (Cons r rs)
  let ?k = "length (runetochar r)"
  have h: "holds (ptr_add st s) (runetochar r)"
    using Cons.prems by (simp del: ptr_add_apply)
  have IH: "utfnlen_loop st nb (s + ?k) (n + 1) = (n + 1 + length rs, nb)"
    using Cons.prems by (intro Cons.IH) (simp_all del: ptr_add_apply)
  have "0 < ?k" by simp
  then have lt: "s < nb" using Cons.prems(2) by (simp del: length_greater_0_conv)
  have hd: "st s = hd (runetochar r)"
    using holds_hd [OF h] by simp
  show ?case
  proof (cases "uint r < 128")
    case True
    then have "st s = uchar (uint r)" "?k = 1" using hd by (simp_all add: runetochar_ascii)
    then show ?thesis using IH lt True
      by (subst utfnlen_loop.simps) (simp add: Runeself_def)
  next
    case False
    then have "\<not> uint (st s) < 128" using hd runetochar_multi [of r] by simp
    moreover have "fullrune (ptr_add st s) (nb - s)"
      using Cons.prems(2) by (intro fullrune_runetochar [OF h]) simp
    moreover have "snd (chartorune (ptr_add st s)) = ?k"
      using chartorune_enc [OF h] by simp
    ultimately show ?thesis using IH lt
      by (subst utfnlen_loop.simps) (simp add: Runeself_def)
  qed
qed

text \<open>the length of a piece of memory in characters. \<open>utfnlen\<close> counts exactly the runes of an encoding and
  consumes all of it.\<close>

theorem utfnlen_encode:
  assumes "holds s (utf_encode rs)"
  shows "utfnlen s (length (utf_encode rs)) = (length rs, length (utf_encode rs))"
  using utfnlen_loop_encode [of s 0 rs] assms by (simp add: utfnlen_def)

lemma utfnlen_loop_bounds:
  assumes "utfnlen_loop st nb s n = (n', s')" "s \<le> nb" "n \<le> s"
  shows "s \<le> s' \<and> s' \<le> nb \<and> n' \<le> s' \<and> nb - s' < UTFmax"
  using assms
proof (induction st nb s n rule: utfnlen_loop.induct)
  case (1 st nb s n)
  let ?p = "ptr_add st s"
  consider "\<not> s < nb" | "s < nb" and "uint (st s) < Runeself"
    | "s < nb" and "\<not> uint (st s) < Runeself" and "s + UTFmax \<le> nb \<or> fullrune ?p (nb - s)"
    | "s < nb" and "\<not> uint (st s) < Runeself" and "\<not> (s + UTFmax \<le> nb \<or> fullrune ?p (nb - s))"
    by blast
  then show ?case
  proof cases
    case 1
    then show ?thesis using "1.prems" by (simp add: utfnlen_loop.simps UTFmax_def)
  next
    case 2
    then show ?thesis using "1.prems" "1.IH"(1)
      by (simp add: utfnlen_loop.simps [of st nb s n])
  next
    case 3
    then have le: "s + snd (chartorune ?p) \<le> nb"
      using chartorune_le [of ?p] fullrune_enough [of ?p "nb - s" ?p] by auto
    then show ?thesis using 3 "1.prems" "1.IH"(2) chartorune_pos [of ?p]
      by (simp add: utfnlen_loop.simps [of st nb s n])
  next
    case 4
    then show ?thesis using "1.prems"
      by (auto simp: utfnlen_loop.simps [of st nb s n] UTFmax_def)
  qed
qed

lemma utflen_loop_encode:
  assumes "holds s (utf_encode rs @ [0])" "0 \<notin> set rs"
  shows "utflen_loop s n = Some (n + length rs)"
  using assms
proof (induction rs arbitrary: s n)
  case Nil
  then show ?case by (simp add: utflen_loop.simps Runeself_def)
next
  case (Cons r rs)
  let ?k = "length (runetochar r)"
  have h: "holds s (runetochar r)"
    using Cons.prems(1) by (simp del: ptr_add_apply)
  have IH: "utflen_loop (ptr_add s ?k) (n + 1) = Some (n + 1 + length rs)"
    using Cons.prems by (intro Cons.IH) (simp_all del: ptr_add_apply)
  have hd: "s 0 = hd (runetochar r)"
    using holds_hd [OF h] by simp
  show ?case
  proof (cases "uint r < 128")
    case True
    moreover have "uint r \<noteq> 0" using Cons.prems(2) by (auto simp: uint_0_iff)
    ultimately show ?thesis using IH hd
      by (subst utflen_loop.simps) (simp add: runetochar_ascii Runeself_def)
  next
    case False
    then have "\<not> uint (s 0) < 128" using hd runetochar_multi [of r] by simp
    then show ?thesis using IH chartorune_enc [OF h]
      by (subst utflen_loop.simps) (simp add: Runeself_def)
  qed
qed

text \<open>on a zero-terminated encoding \<open>utflen\<close> stops at the zero and returns the number of runes.\<close>

theorem utflen_encode:
  assumes "holds s (utf_encode rs @ [0])" "0 \<notin> set rs"
  shows "utflen s = Some (length rs)"
  using utflen_loop_encode [OF assms, of 0] by (simp add: utflen_def)

lemma utfrune_loop_encode:
  assumes "holds (ptr_add s k) (utf_encode rs @ [0])" "0 \<notin> set rs"
  shows "utfrune_loop s (uint c) k =
    Some (if c \<in> set rs then Some (k + length (utf_encode (takeWhile (\<lambda>r. r \<noteq> c) rs))) else None)"
  using assms
proof (induction rs arbitrary: k)
  case Nil
  then show ?case by (simp add: utfrune_loop.simps Runeself_def)
next
  case (Cons r rs)
  let ?k = "length (runetochar r)"
  have h: "holds (ptr_add s k) (runetochar r)"
    using Cons.prems(1) by (simp del: ptr_add_apply)
  have IH: "utfrune_loop s (uint c) (k + ?k) = Some (if c \<in> set rs
      then Some (k + ?k + length (utf_encode (takeWhile (\<lambda>r. r \<noteq> c) rs))) else None)"
    using Cons.prems by (intro Cons.IH) (simp_all del: ptr_add_apply)
  have hd: "s k = hd (runetochar r)"
    using holds_hd [OF h] by simp
  have eq: "uint r = uint c \<longleftrightarrow> r = c" by (simp add: word_uint_eq_iff)
  show ?case
  proof (cases "uint r < 128")
    case True
    moreover have "uint r \<noteq> 0" using Cons.prems(2) by (auto simp: uint_0_iff)
    ultimately show ?thesis using IH hd eq
      by (subst utfrune_loop.simps) (auto simp add: runetochar_ascii Runeself_def)
  next
    case False
    then have "\<not> uint (s k) < 128" using hd runetochar_multi [of r] by simp
    then show ?thesis using IH chartorune_enc [OF h] eq
      by (subst utfrune_loop.simps) (auto simp add: Runeself_def)
  qed
qed

text \<open>\<open>utfrune\<close> finds the first occurrence of a rune above 127 in a zero-terminated encoding, or says that
  there is none.\<close>

theorem utfrune_encode:
  assumes "holds s (utf_encode rs @ [0])" "0 \<notin> set rs" "128 \<le> uint c"
  shows "utfrune s (uint c) = Some
    (if c \<in> set rs then Some (length (utf_encode (takeWhile (\<lambda>r. r \<noteq> c) rs))) else None)"
  using utfrune_loop_encode [of s 0 rs c] assms by (simp add: utfrune_def Runesync_def)

lemma utfrune_encode_witness:
  "utfrune (of_bytes (utf_encode [65, 0x20AC, 66] @ [0])) (uint (0x20AC :: rune)) = Some (Some 1)"
  using utfrune_encode [OF holds_of_bytes, of "[65, 0x20AC, 66]" "0x20AC"]
  by (simp add: runetochar_arith)

lemma utflen_encode_witness:
  "utflen (of_bytes (utf_encode [65, 0x20AC, 66] @ [0])) = Some 3"
  using utflen_encode [OF holds_of_bytes, of "[65, 0x20AC, 66]"] by simp

lemma chartorune_runetochar_witness:
  "chartorune (of_bytes (runetochar 0x20AC)) = (0x20AC, 3)"
  using chartorune_runetochar [OF holds_of_bytes, of "0x20AC"] by (simp add: runetochar_arith)

lemma chartorune_canonical_witness:
  "chartorune (of_bytes [0xC0, 0x80]) = (Runeerror, 1) \<and>
   bytes_at (of_bytes (runetochar 0x3B1)) 2 = runetochar 0x3B1"
proof
  show "chartorune (of_bytes [0xC0, 0x80]) = (Runeerror, 1)"
    by (subst chartorune_2) (simp_all add: of_bytes_def)
  have "chartorune (of_bytes (runetochar 0x3B1)) = (0x3B1, 2)"
    by (subst chartorune_2) (simp_all add: of_bytes_def runetochar_arith ushort_def)
  then show "bytes_at (of_bytes (runetochar 0x3B1)) 2 = runetochar 0x3B1"
    using chartorune_canonical [of "of_bytes (runetochar 0x3B1)" "0x3B1" 2] by simp
qed

lemma fullrune_local_witness:
  "chartorune (of_bytes [0xCE, 0xB1, 7]) = chartorune (of_bytes [0xCE, 0xB1])
    \<and> snd (chartorune (of_bytes [0xCE, 0xB1])) \<le> 2"
proof (rule fullrune_local)
  show "fullrune (of_bytes [0xCE, 0xB1]) 2"
    by (simp add: fullrune_def of_bytes_def rune_consts Let_def)
  show "\<forall>i < 2. of_bytes [0xCE, 0xB1, 7] i = of_bytes [0xCE, 0xB1] i"
    by (auto simp: of_bytes_def less_Suc_eq numeral_2_eq_2)
qed

lemma utfnlen_encode_witness:
  "utfnlen (of_bytes (utf_encode [0x20AC, 66])) (length (utf_encode [0x20AC, 66])) =
    (2, length (utf_encode [0x20AC, 66]))"
  using utfnlen_encode [OF holds_of_bytes, of "[0x20AC, 66]"] by simp

end
