(* ===== verification/Isa.thy ===== *)
theory Isa
  imports Prelude
begin

text \<open>
  The instruction set of \<open>include/isa.h\<close>: the opcodes with the numbers the C enum gives them, the addressing-mode bits of an instruction's \<open>add\<close> byte, the item kinds of a
  module's data section, and the macros that pack and unpack them.
\<close>

section \<open>Opcodes\<close>

definition INOP :: nat where "INOP = 0"
definition IALT :: nat where "IALT = 1"
definition INBALT :: nat where "INBALT = 2"
definition IGOTO :: nat where "IGOTO = 3"
definition ICALL :: nat where "ICALL = 4"
definition IFRAME :: nat where "IFRAME = 5"
definition ISPAWN :: nat where "ISPAWN = 6"
definition IRUNT :: nat where "IRUNT = 7"
definition ILOAD :: nat where "ILOAD = 8"
definition IMCALL :: nat where "IMCALL = 9"
definition IMSPAWN :: nat where "IMSPAWN = 10"
definition IMFRAME :: nat where "IMFRAME = 11"
definition IRET :: nat where "IRET = 12"
definition IJMP :: nat where "IJMP = 13"
definition ICASE :: nat where "ICASE = 14"
definition IEXIT :: nat where "IEXIT = 15"
definition INEW :: nat where "INEW = 16"
definition INEWA :: nat where "INEWA = 17"
definition INEWCB :: nat where "INEWCB = 18"
definition INEWCW :: nat where "INEWCW = 19"
definition INEWCF :: nat where "INEWCF = 20"
definition INEWCP :: nat where "INEWCP = 21"
definition INEWCM :: nat where "INEWCM = 22"
definition INEWCMP :: nat where "INEWCMP = 23"
definition ISEND :: nat where "ISEND = 24"
definition IRECV :: nat where "IRECV = 25"
definition ICONSB :: nat where "ICONSB = 26"
definition ICONSW :: nat where "ICONSW = 27"
definition ICONSP :: nat where "ICONSP = 28"
definition ICONSF :: nat where "ICONSF = 29"
definition ICONSM :: nat where "ICONSM = 30"
definition ICONSMP :: nat where "ICONSMP = 31"
definition IHEADB :: nat where "IHEADB = 32"
definition IHEADW :: nat where "IHEADW = 33"
definition IHEADP :: nat where "IHEADP = 34"
definition IHEADF :: nat where "IHEADF = 35"
definition IHEADM :: nat where "IHEADM = 36"
definition IHEADMP :: nat where "IHEADMP = 37"
definition ITAIL :: nat where "ITAIL = 38"
definition ILEA :: nat where "ILEA = 39"
definition IINDX :: nat where "IINDX = 40"
definition IMOVP :: nat where "IMOVP = 41"
definition IMOVM :: nat where "IMOVM = 42"
definition IMOVMP :: nat where "IMOVMP = 43"
definition IMOVB :: nat where "IMOVB = 44"
definition IMOVW :: nat where "IMOVW = 45"
definition IMOVF :: nat where "IMOVF = 46"
definition ICVTBW :: nat where "ICVTBW = 47"
definition ICVTWB :: nat where "ICVTWB = 48"
definition ICVTFW :: nat where "ICVTFW = 49"
definition ICVTWF :: nat where "ICVTWF = 50"
definition ICVTCA :: nat where "ICVTCA = 51"
definition ICVTAC :: nat where "ICVTAC = 52"
definition ICVTWC :: nat where "ICVTWC = 53"
definition ICVTCW :: nat where "ICVTCW = 54"
definition ICVTFC :: nat where "ICVTFC = 55"
definition ICVTCF :: nat where "ICVTCF = 56"
definition IADDB :: nat where "IADDB = 57"
definition IADDW :: nat where "IADDW = 58"
definition IADDF :: nat where "IADDF = 59"
definition ISUBB :: nat where "ISUBB = 60"
definition ISUBW :: nat where "ISUBW = 61"
definition ISUBF :: nat where "ISUBF = 62"
definition IMULB :: nat where "IMULB = 63"
definition IMULW :: nat where "IMULW = 64"
definition IMULF :: nat where "IMULF = 65"
definition IDIVB :: nat where "IDIVB = 66"
definition IDIVW :: nat where "IDIVW = 67"
definition IDIVF :: nat where "IDIVF = 68"
definition IMODW :: nat where "IMODW = 69"
definition IMODB :: nat where "IMODB = 70"
definition IANDB :: nat where "IANDB = 71"
definition IANDW :: nat where "IANDW = 72"
definition IORB :: nat where "IORB = 73"
definition IORW :: nat where "IORW = 74"
definition IXORB :: nat where "IXORB = 75"
definition IXORW :: nat where "IXORW = 76"
definition ISHLB :: nat where "ISHLB = 77"
definition ISHLW :: nat where "ISHLW = 78"
definition ISHRB :: nat where "ISHRB = 79"
definition ISHRW :: nat where "ISHRW = 80"
definition IINSC :: nat where "IINSC = 81"
definition IINDC :: nat where "IINDC = 82"
definition IADDC :: nat where "IADDC = 83"
definition ILENC :: nat where "ILENC = 84"
definition ILENA :: nat where "ILENA = 85"
definition ILENL :: nat where "ILENL = 86"
definition IBEQB :: nat where "IBEQB = 87"
definition IBNEB :: nat where "IBNEB = 88"
definition IBLTB :: nat where "IBLTB = 89"
definition IBLEB :: nat where "IBLEB = 90"
definition IBGTB :: nat where "IBGTB = 91"
definition IBGEB :: nat where "IBGEB = 92"
definition IBEQW :: nat where "IBEQW = 93"
definition IBNEW :: nat where "IBNEW = 94"
definition IBLTW :: nat where "IBLTW = 95"
definition IBLEW :: nat where "IBLEW = 96"
definition IBGTW :: nat where "IBGTW = 97"
definition IBGEW :: nat where "IBGEW = 98"
definition IBEQF :: nat where "IBEQF = 99"
definition IBNEF :: nat where "IBNEF = 100"
definition IBLTF :: nat where "IBLTF = 101"
definition IBLEF :: nat where "IBLEF = 102"
definition IBGTF :: nat where "IBGTF = 103"
definition IBGEF :: nat where "IBGEF = 104"
definition IBEQC :: nat where "IBEQC = 105"
definition IBNEC :: nat where "IBNEC = 106"
definition IBLTC :: nat where "IBLTC = 107"
definition IBLEC :: nat where "IBLEC = 108"
definition IBGTC :: nat where "IBGTC = 109"
definition IBGEC :: nat where "IBGEC = 110"
definition ISLICEA :: nat where "ISLICEA = 111"
definition ISLICELA :: nat where "ISLICELA = 112"
definition ISLICEC :: nat where "ISLICEC = 113"
definition IINDW :: nat where "IINDW = 114"
definition IINDF :: nat where "IINDF = 115"
definition IINDB :: nat where "IINDB = 116"
definition INEGF :: nat where "INEGF = 117"
definition IMOVL :: nat where "IMOVL = 118"
definition IADDL :: nat where "IADDL = 119"
definition ISUBL :: nat where "ISUBL = 120"
definition IDIVL :: nat where "IDIVL = 121"
definition IMODL :: nat where "IMODL = 122"
definition IMULL :: nat where "IMULL = 123"
definition IANDL :: nat where "IANDL = 124"
definition IORL :: nat where "IORL = 125"
definition IXORL :: nat where "IXORL = 126"
definition ISHLL :: nat where "ISHLL = 127"
definition ISHRL :: nat where "ISHRL = 128"
definition IBNEL :: nat where "IBNEL = 129"
definition IBLTL :: nat where "IBLTL = 130"
definition IBLEL :: nat where "IBLEL = 131"
definition IBGTL :: nat where "IBGTL = 132"
definition IBGEL :: nat where "IBGEL = 133"
definition IBEQL :: nat where "IBEQL = 134"
definition ICVTLF :: nat where "ICVTLF = 135"
definition ICVTFL :: nat where "ICVTFL = 136"
definition ICVTLW :: nat where "ICVTLW = 137"
definition ICVTWL :: nat where "ICVTWL = 138"
definition ICVTLC :: nat where "ICVTLC = 139"
definition ICVTCL :: nat where "ICVTCL = 140"
definition IHEADL :: nat where "IHEADL = 141"
definition ICONSL :: nat where "ICONSL = 142"
definition INEWCL :: nat where "INEWCL = 143"
definition ICASEC :: nat where "ICASEC = 144"
definition IINDL :: nat where "IINDL = 145"
definition IMOVPC :: nat where "IMOVPC = 146"
definition ITCMP :: nat where "ITCMP = 147"

lemmas opcode_defs =
  INOP_def IALT_def INBALT_def IGOTO_def ICALL_def IFRAME_def
  ISPAWN_def IRUNT_def ILOAD_def IMCALL_def IMSPAWN_def IMFRAME_def
  IRET_def IJMP_def ICASE_def IEXIT_def INEW_def INEWA_def
  INEWCB_def INEWCW_def INEWCF_def INEWCP_def INEWCM_def INEWCMP_def
  ISEND_def IRECV_def ICONSB_def ICONSW_def ICONSP_def ICONSF_def
  ICONSM_def ICONSMP_def IHEADB_def IHEADW_def IHEADP_def IHEADF_def
  IHEADM_def IHEADMP_def ITAIL_def ILEA_def IINDX_def IMOVP_def
  IMOVM_def IMOVMP_def IMOVB_def IMOVW_def IMOVF_def ICVTBW_def
  ICVTWB_def ICVTFW_def ICVTWF_def ICVTCA_def ICVTAC_def ICVTWC_def
  ICVTCW_def ICVTFC_def ICVTCF_def IADDB_def IADDW_def IADDF_def
  ISUBB_def ISUBW_def ISUBF_def IMULB_def IMULW_def IMULF_def
  IDIVB_def IDIVW_def IDIVF_def IMODW_def IMODB_def IANDB_def
  IANDW_def IORB_def IORW_def IXORB_def IXORW_def ISHLB_def
  ISHLW_def ISHRB_def ISHRW_def IINSC_def IINDC_def IADDC_def
  ILENC_def ILENA_def ILENL_def IBEQB_def IBNEB_def IBLTB_def
  IBLEB_def IBGTB_def IBGEB_def IBEQW_def IBNEW_def IBLTW_def
  IBLEW_def IBGTW_def IBGEW_def IBEQF_def IBNEF_def IBLTF_def
  IBLEF_def IBGTF_def IBGEF_def IBEQC_def IBNEC_def IBLTC_def
  IBLEC_def IBGTC_def IBGEC_def ISLICEA_def ISLICELA_def ISLICEC_def
  IINDW_def IINDF_def IINDB_def INEGF_def IMOVL_def IADDL_def
  ISUBL_def IDIVL_def IMODL_def IMULL_def IANDL_def IORL_def
  IXORL_def ISHLL_def ISHRL_def IBNEL_def IBLTL_def IBLEL_def
  IBGTL_def IBGEL_def IBEQL_def ICVTLF_def ICVTFL_def ICVTLW_def
  ICVTWL_def ICVTLC_def ICVTCL_def IHEADL_def ICONSL_def INEWCL_def
  ICASEC_def IINDL_def IMOVPC_def ITCMP_def

text \<open>The opcodes in the order of the enum; \<open>MAXDIS\<close> is \<open>ITCMP+1\<close>.\<close>

definition opcodes :: "nat list" where
  "opcodes =
    [INOP, IALT, INBALT, IGOTO, ICALL, IFRAME,
     ISPAWN, IRUNT, ILOAD, IMCALL, IMSPAWN, IMFRAME,
     IRET, IJMP, ICASE, IEXIT, INEW, INEWA,
     INEWCB, INEWCW, INEWCF, INEWCP, INEWCM, INEWCMP,
     ISEND, IRECV, ICONSB, ICONSW, ICONSP, ICONSF,
     ICONSM, ICONSMP, IHEADB, IHEADW, IHEADP, IHEADF,
     IHEADM, IHEADMP, ITAIL, ILEA, IINDX, IMOVP,
     IMOVM, IMOVMP, IMOVB, IMOVW, IMOVF, ICVTBW,
     ICVTWB, ICVTFW, ICVTWF, ICVTCA, ICVTAC, ICVTWC,
     ICVTCW, ICVTFC, ICVTCF, IADDB, IADDW, IADDF,
     ISUBB, ISUBW, ISUBF, IMULB, IMULW, IMULF,
     IDIVB, IDIVW, IDIVF, IMODW, IMODB, IANDB,
     IANDW, IORB, IORW, IXORB, IXORW, ISHLB,
     ISHLW, ISHRB, ISHRW, IINSC, IINDC, IADDC,
     ILENC, ILENA, ILENL, IBEQB, IBNEB, IBLTB,
     IBLEB, IBGTB, IBGEB, IBEQW, IBNEW, IBLTW,
     IBLEW, IBGTW, IBGEW, IBEQF, IBNEF, IBLTF,
     IBLEF, IBGTF, IBGEF, IBEQC, IBNEC, IBLTC,
     IBLEC, IBGTC, IBGEC, ISLICEA, ISLICELA, ISLICEC,
     IINDW, IINDF, IINDB, INEGF, IMOVL, IADDL,
     ISUBL, IDIVL, IMODL, IMULL, IANDL, IORL,
     IXORL, ISHLL, ISHRL, IBNEL, IBLTL, IBLEL,
     IBGTL, IBGEL, IBEQL, ICVTLF, ICVTFL, ICVTLW,
     ICVTWL, ICVTLC, ICVTCL, IHEADL, ICONSL, INEWCL,
     ICASEC, IINDL, IMOVPC, ITCMP]"

definition MAXDIS :: nat where "MAXDIS = ITCMP + 1"

lemma opcodes_enum: "opcodes = [0..<MAXDIS]"
  by code_simp

section \<open>Constants\<close>

definition XMAGIC :: int where "XMAGIC = 819248"
definition SMAGIC :: int where "SMAGIC = 923426"

definition AMP :: int where "AMP = 0x00"
definition AFP :: int where "AFP = 0x01"
definition AIMM :: int where "AIMM = 0x02"
definition AXXX :: int where "AXXX = 0x03"
definition AIND :: int where "AIND = 0x04"
definition AMASK :: int where "AMASK = 0x07"

definition ARM :: int where "ARM = 0xC0"
definition AXNON :: int where "AXNON = 0x00"
definition AXIMM :: int where "AXIMM = 0x40"
definition AXINF :: int where "AXINF = 0x80"
definition AXINM :: int where "AXINM = 0xC0"

definition DEFZ :: int where "DEFZ = 0"
definition DEFB :: int where "DEFB = 1"
definition DEFW :: int where "DEFW = 2"
definition DEFS :: int where "DEFS = 3"
definition DEFF :: int where "DEFF = 4"
definition DEFA :: int where "DEFA = 5"
definition DIND :: int where "DIND = 6"
definition DAPOP :: int where "DAPOP = 7"
definition DEFL :: int where "DEFL = 8"

definition DADEPTH :: nat where "DADEPTH = 4"
definition IBY2WD :: nat where "IBY2WD = 4"
definition IBY2LG :: nat where "IBY2LG = 8"

definition MUSTCOMPILE :: int where "MUSTCOMPILE = 1"
definition DONTCOMPILE :: int where "DONTCOMPILE = 2"
definition SHAREMP :: int where "SHAREMP = 4"

text \<open>\<open>DTYPE\<close>, \<open>DBYTE\<close>, \<open>DLEN\<close> and the operand-mode packing macros.\<close>

definition DMAX :: int where "DMAX = push_bit 4 1"
definition DTYPE :: "int \<Rightarrow> int" where "DTYPE x = drop_bit 4 x"
definition DBYTE :: "int \<Rightarrow> int \<Rightarrow> int" where "DBYTE x l = push_bit 4 x OR l"
definition DLEN :: "int \<Rightarrow> int" where "DLEN x = x AND (DMAX - 1)"

definition SRC :: "int \<Rightarrow> int" where "SRC x = push_bit 3 x"
definition DST :: "int \<Rightarrow> int" where "DST x = push_bit 0 x"
definition USRC :: "int \<Rightarrow> int" where "USRC x = drop_bit 3 x AND AMASK"
definition UDST :: "int \<Rightarrow> int" where "UDST x = x AND AMASK"
definition UXSRC :: "int \<Rightarrow> int" where "UXSRC x = x AND push_bit 3 AMASK"
definition UXDST :: "int \<Rightarrow> int" where "UXDST x = x AND push_bit 0 AMASK"

lemmas isa_consts = XMAGIC_def SMAGIC_def AMP_def AFP_def AIMM_def AXXX_def AIND_def AMASK_def
  ARM_def AXNON_def AXIMM_def AXINF_def AXINM_def DEFZ_def DEFB_def DEFW_def DEFS_def DEFF_def
  DEFA_def DIND_def DAPOP_def DEFL_def

lemma DTYPE_DLEN_DBYTE:
  assumes "0 \<le> l" "l < DMAX"
  shows "DTYPE (DBYTE k l) = k" "DLEN (DBYTE k l) = l"
proof -
  have l: "0 \<le> l" "l < 16" using assms by (simp_all add: DMAX_def push_bit_eq_mult)
  have b: "DBYTE k l = l + k * 16"
    using or_shift_add [of l 4 k] l by (simp add: DBYTE_def push_bit_eq_mult)
  show "DTYPE (DBYTE k l) = k"
    using l by (simp add: b DTYPE_def drop_bit_eq_div)
  show "DLEN (DBYTE k l) = l"
    using l mod_reduce [of l 16 k] by (simp add: b DLEN_def DMAX_def push_bit_eq_mult and_mask_mod)
qed

end
