(* ===== verification/Vmstate.thy ===== *)
theory Vmstate
  imports Rune Isa
begin

text \<open>
  The state of the virtual machine: the C structs of \<open>include/interp.h\<close>, the byte memory that
  Dis programs address, and the small state-and-error monad in which the operations are written.

  Memory is split the way the C types split it. Bytes that Dis instructions reach through
  \<open>R.s\<close>, \<open>R.m\<close> and \<open>R.d\<close> (frames, module data, array and list elements, string data, the
  instructions themselves) are in \<open>v_mem\<close>, at the little-endian, 32-bit layout of the 386 targets.
  Each kind of C struct has a store of its own, a partial map from addresses to records: reading
  a struct at an address that holds none is a fault, as the processor trap is in the C code.

  An operation is a function from states to outcomes: \<open>Ok\<close> with a result, \<open>Raise\<close> for a call of
  \<open>error()\<close> (with the state as that call leaves it), \<open>Fault\<close> for a trap or a panic.
\<close>

section \<open>Addresses\<close>

type_synonym addr = nat

definition nil :: addr where "nil = 0"
definition H :: addr where "H = 4294967295"  \<comment> \<open>\<open>((void*)(-1))\<close>\<close>

definition sizeof_Heap :: nat where "sizeof_Heap = 12"
definition sizeof_Array :: nat where "sizeof_Array = 16"
definition sizeof_List :: nat where "sizeof_List = 24"
definition sizeof_Channel :: nat where "sizeof_Channel = 24"
definition sizeof_String :: nat where "sizeof_String = 16"
definition sizeof_Inst :: nat where "sizeof_Inst = 12"
definition sizeof_Modl :: nat where "sizeof_Modl = 8"
definition sizeof_Modlink :: nat where "sizeof_Modlink = 16"
definition sizeof_Rune :: nat where "sizeof_Rune = 2"

definition H2D :: "addr \<Rightarrow> addr" where "H2D x = x + sizeof_Heap"
definition D2H :: "addr \<Rightarrow> addr" where "D2H x = x - sizeof_Heap"

lemma D2H_H2D [simp]: "D2H (H2D h) = h"
  by (simp add: D2H_def H2D_def)

text \<open>The offset of \<open>data\<close> in a \<open>String\<close> and in a \<open>List\<close>.\<close>

definition str_data :: "addr \<Rightarrow> addr" where "str_data s = s + 12"
definition list_data :: "addr \<Rightarrow> addr" where "list_data l = l + 8"
definition SEXTYPE :: "addr \<Rightarrow> addr" where "SEXTYPE f = f - 16"

section \<open>Operand locations and registers\<close>

text \<open>
  What \<open>R.s\<close>, \<open>R.m\<close> and \<open>R.d\<close> can point at: memory, the register \<open>R.t\<close>, or a C variable whose
  only use is to be read through the pointer (the local \<open>c\<close> of \<open>altcomm\<close>, the \<open>tail\<close> and
  \<open>mid\<close> fields of a struct store).
\<close>

datatype loc = Mem addr | RegT | Tmp u32

record REG =
  r_PC :: addr
  r_MP :: addr
  r_FP :: addr
  r_SP :: addr
  r_TS :: addr
  r_EX :: addr
  r_M :: addr
  r_IC :: int
  r_xpc :: addr
  r_s :: loc
  r_d :: loc
  r_m :: loc
  r_t :: u32
  r_st :: u32
  r_dt :: u32

section \<open>The C structs of include/interp.h\<close>

text \<open>
  The header of a \<open>Frame\<close> and the \<open>reg\<close> part of a \<open>Stkext\<close> are in byte memory, since frames are
  copied and cleared as bytes: these are the addresses of their fields.
\<close>

definition f_lr :: "addr \<Rightarrow> addr" where "f_lr f = f"
definition f_fp :: "addr \<Rightarrow> addr" where "f_fp f = f + 4"
definition f_mr :: "addr \<Rightarrow> addr" where "f_mr f = f + 8"
definition f_t :: "addr \<Rightarrow> addr" where "f_t f = f + 12"

definition x_TR :: "addr \<Rightarrow> addr" where "x_TR x = x"
definition x_SP :: "addr \<Rightarrow> addr" where "x_SP x = x + 4"
definition x_TS :: "addr \<Rightarrow> addr" where "x_TS x = x + 8"
definition x_EX :: "addr \<Rightarrow> addr" where "x_EX x = x + 12"
definition x_fu :: "addr \<Rightarrow> addr" where "x_fu x = x + 16"

record Array =
  a_len :: u32
  a_t :: addr
  a_root :: addr
  a_data :: addr

record List =
  l_tail :: addr
  l_t :: addr

text \<open>The data movers that \<open>newc\<close> installs in a channel.\<close>

datatype mover = Movb | Movw | Movf | Movl | Movp | Movm | Movtmp | Movtmpsafe

record Channel =
  c_send :: addr
  c_sendalt :: addr
  c_recv :: addr
  c_recvalt :: addr
  c_mover :: mover
  c_mid :: u32

record String =
  s_len :: int
  s_max :: int
  s_tmp :: addr

text \<open>The \<open>free\<close> and \<open>mark\<close> function pointers of a type descriptor.\<close>

datatype freefn = Free_nil | Freearray | Freestring | Freelist | Freemodlink | Freechan | Freeheap
datatype markfn = Mark_nil | Markarray | Noptrs | Marklist | Markmodl | Markheap

record Type =
  t_ref :: int
  t_free :: freefn
  t_mark :: markfn
  t_size :: int
  t_nogc :: int
  t_np :: int
  t_destroy :: addr
  t_initialize :: addr
  t_map :: "byte list"

text \<open>\<open>Linkpc\<close>: a builtin's C function, known by its name, or an instruction address.\<close>

datatype linkpc = Runt string | Pc addr

record Link =
  k_sig :: u32
  k_m :: addr
  k_frame :: addr
  k_u :: linkpc
  k_name :: "byte list"

record Modl =
  ml_u :: linkpc
  ml_frame :: addr

record Modlink =
  ml_MP :: addr
  ml_m :: addr
  ml_links :: "Modl list"

record Module =
  m_ref :: int
  m_compiled :: bool
  m_shared :: bool
  m_ss :: u32
  m_rt :: u32
  m_mtime :: u32
  m_orig :: addr
  m_prog :: addr
  m_mp :: addr
  m_type :: "addr list"
  m_entry :: addr
  m_entryt :: addr
  m_name :: "byte list"
  m_path :: "byte list"
  m_link :: addr
  m_ext :: "Link list"

datatype pstate =
  Palt | Psend | Precv | Pdebug | Pready | Prelease | Pexiting | Pbroken | Pdead

record Prog =
  p_R :: REG
  p_link :: addr
  p_comm :: addr
  p_ptr :: loc
  p_state :: pstate
  p_kill :: bool
  p_pid :: int
  p_grp :: int
  p_quanta :: int
  p_prev :: addr
  p_next :: addr
  p_addrun :: "string option"
  p_osenv :: addr

record Heap =
  h_color :: int
  h_ref :: u32
  h_t :: addr

definition propagator :: int where "propagator = 3"

text \<open>
  The floating-point unit: what the hardware and the C library do with \<open>REAL\<close> bit patterns. The
  interpreter only passes these patterns around, so they are left abstract.
\<close>

record fpu =
  fp_neg :: "u64 \<Rightarrow> u64"
  fp_add :: "u64 \<Rightarrow> u64 \<Rightarrow> u64"
  fp_sub :: "u64 \<Rightarrow> u64 \<Rightarrow> u64"
  fp_mul :: "u64 \<Rightarrow> u64 \<Rightarrow> u64"
  fp_div :: "u64 \<Rightarrow> u64 \<Rightarrow> u64"
  fp_eq :: "u64 \<Rightarrow> u64 \<Rightarrow> bool"
  fp_lt :: "u64 \<Rightarrow> u64 \<Rightarrow> bool"
  fp_of_int :: "int \<Rightarrow> u64"
  fp_trunc :: "u64 \<Rightarrow> int"
  fp_zero :: u64
  fp_half :: u64
  fp_scan :: "cptr \<Rightarrow> u64"       \<comment> \<open>\<open>strtod\<close>\<close>
  fp_print :: "u64 \<Rightarrow> byte list"  \<comment> \<open>\<open>sprint "%g"\<close>\<close>

section \<open>The machine\<close>

text \<open>
  \<open>v_alloc\<close> is the storage allocator: the block it would carve out of free storage for a
  request, given the blocks in use; \<open>v_blks\<close> holds these with their usable sizes (\<open>msize\<close>);
  \<open>v_immut\<close> says which are marked immutable.
  \<open>v_nalloc\<close> and \<open>v_nfree\<close> are the pool's counters. \<open>v_freed\<close> is the history of the blocks given back
  to the heap pool, newest first; only the collector's model reads it, to do the same to the pool.
\<close>

record vm =
  v_mem :: "addr \<Rightarrow> byte"
  v_R :: REG
  v_heaps :: "addr \<rightharpoonup> Heap"
  v_arrays :: "addr \<rightharpoonup> Array"
  v_lists :: "addr \<rightharpoonup> List"
  v_strings :: "addr \<rightharpoonup> String"
  v_chans :: "addr \<rightharpoonup> Channel"
  v_modlinks :: "addr \<rightharpoonup> Modlink"
  v_types :: "addr \<rightharpoonup> Type"
  v_mods :: "addr \<rightharpoonup> Module"
  v_progs :: "addr \<rightharpoonup> Prog"
  v_modules :: addr
  v_runhd :: addr
  v_runtl :: addr
  v_head :: addr
  v_tail :: addr
  v_pidnum :: int
  v_xrand :: u32
  v_mutator :: int
  v_gccolor :: u32
  v_gchalt :: nat
  v_nprop :: bool
  v_alloc :: "(addr \<rightharpoonup> nat) \<Rightarrow> int \<Rightarrow> (addr \<times> nat) option"
  v_blks :: "addr \<rightharpoonup> nat"
  v_immut :: "addr \<Rightarrow> bool"
  v_nalloc :: nat
  v_nfree :: nat
  v_freed :: "addr list"
  v_fpu :: fpu

section \<open>Outcomes\<close>

datatype 'a outcome = Ok 'a vm | Raise string vm | Fault

type_synonym 'a M = "vm \<Rightarrow> 'a outcome"

definition ret :: "'a \<Rightarrow> 'a M" where
  "ret a = (\<lambda>st. Ok a st)"

definition bindM :: "'a M \<Rightarrow> ('a \<Rightarrow> 'b M) \<Rightarrow> 'b M" where
  "bindM f k = (\<lambda>st. case f st of Ok a st' \<Rightarrow> k a st' | Raise e st' \<Rightarrow> Raise e st' | Fault \<Rightarrow> Fault)"

definition error :: "string \<Rightarrow> 'a M" where
  "error e = (\<lambda>st. Raise e st)"

definition fault :: "'a M" where
  "fault = (\<lambda>st. Fault)"

definition gets :: "(vm \<Rightarrow> 'a) \<Rightarrow> 'a M" where
  "gets f = (\<lambda>st. Ok (f st) st)"

definition upd :: "(vm \<Rightarrow> vm) \<Rightarrow> unit M" where
  "upd f = (\<lambda>st. Ok () (f st))"

definition skip :: "unit M" where
  "skip = (\<lambda>st. Ok () st)"

text \<open>A sequence of statements.\<close>

fun steps :: "unit M list \<Rightarrow> unit M" where
  "steps [] = skip"
| "steps (m # ms) = bindM m (\<lambda>_. steps ms)"

definition iff :: "bool \<Rightarrow> unit M \<Rightarrow> unit M" where
  "iff b m = (if b then m else skip)"

text \<open>Follow a pointer into one of the struct stores.\<close>

definition deref :: "(vm \<Rightarrow> addr \<rightharpoonup> 'a) \<Rightarrow> addr \<Rightarrow> 'a M" where
  "deref f p = (\<lambda>st. case f st p of None \<Rightarrow> Fault | Some x \<Rightarrow> Ok x st)"

lemmas monad_defs = ret_def bindM_def error_def fault_def gets_def upd_def skip_def iff_def
  deref_def

declare monad_defs [vm_defs]

lemma bind_assoc: "bindM (bindM f g) h = bindM f (\<lambda>a. bindM (g a) h)"
  by (rule ext) (simp add: bindM_def split: outcome.splits)

lemma bind_ret [simp]: "bindM (ret a) k = k a"
  by (simp add: bindM_def ret_def)

lemma bind_Ok: "f st = Ok a st' \<Longrightarrow> bindM f k st = k a st'"
  by (simp add: bindM_def)

lemma bind_eq_Ok:
  "bindM f k st = Ok b st'' \<longleftrightarrow> (\<exists>a st'. f st = Ok a st' \<and> k a st' = Ok b st'')"
  by (simp add: bindM_def split: outcome.splits)

section \<open>Byte memory\<close>

definition ld8 :: "(addr \<Rightarrow> byte) \<Rightarrow> addr \<Rightarrow> byte" where
  "ld8 m a = m a"

definition ld16 :: "(addr \<Rightarrow> byte) \<Rightarrow> addr \<Rightarrow> u16" where
  "ld16 m a = word_cat (m (a + 1)) (m a)"

definition ld32 :: "(addr \<Rightarrow> byte) \<Rightarrow> addr \<Rightarrow> u32" where
  "ld32 m a = word_cat (ld16 m (a + 2)) (ld16 m a)"

definition ld64 :: "(addr \<Rightarrow> byte) \<Rightarrow> addr \<Rightarrow> u64" where
  "ld64 m a = word_cat (ld32 m (a + 4)) (ld32 m a)"

definition st8 :: "(addr \<Rightarrow> byte) \<Rightarrow> addr \<Rightarrow> byte \<Rightarrow> addr \<Rightarrow> byte" where
  "st8 m a v = m(a := v)"

definition st16 :: "(addr \<Rightarrow> byte) \<Rightarrow> addr \<Rightarrow> u16 \<Rightarrow> addr \<Rightarrow> byte" where
  "st16 m a v = st8 (st8 m a (ucast v)) (a + 1) (ucast (drop_bit 8 v))"

definition st32 :: "(addr \<Rightarrow> byte) \<Rightarrow> addr \<Rightarrow> u32 \<Rightarrow> addr \<Rightarrow> byte" where
  "st32 m a v = st16 (st16 m a (ucast v)) (a + 2) (ucast (drop_bit 16 v))"

definition st64 :: "(addr \<Rightarrow> byte) \<Rightarrow> addr \<Rightarrow> u64 \<Rightarrow> addr \<Rightarrow> byte" where
  "st64 m a v = st32 (st32 m a (ucast v)) (a + 4) (ucast (drop_bit 32 v))"

text \<open>\<open>memmove\<close> (the areas may overlap) and \<open>memset\<close>.\<close>

definition memmove :: "addr \<Rightarrow> addr \<Rightarrow> nat \<Rightarrow> (addr \<Rightarrow> byte) \<Rightarrow> addr \<Rightarrow> byte" where
  "memmove d s n m = (\<lambda>a. if d \<le> a \<and> a < d + n then m (s + (a - d)) else m a)"

definition memset :: "addr \<Rightarrow> byte \<Rightarrow> nat \<Rightarrow> (addr \<Rightarrow> byte) \<Rightarrow> addr \<Rightarrow> byte" where
  "memset d c n m = (\<lambda>a. if d \<le> a \<and> a < d + n then c else m a)"

definition store_bytes :: "addr \<Rightarrow> byte list \<Rightarrow> (addr \<Rightarrow> byte) \<Rightarrow> addr \<Rightarrow> byte" where
  "store_bytes d bs m = (\<lambda>a. if d \<le> a \<and> a < d + length bs then bs ! (a - d) else m a)"

text \<open>The addresses of an area.\<close>

definition area :: "addr \<Rightarrow> nat \<Rightarrow> addr set" where
  "area a n = {a ..< a + n}"

section \<open>Read over write\<close>

lemma ld_cong:
  "(\<And>i. i < 2 \<Longrightarrow> m (a + i) = n (b + i)) \<Longrightarrow> ld16 m a = ld16 n b"
  "(\<And>i. i < 4 \<Longrightarrow> m (a + i) = n (b + i)) \<Longrightarrow> ld32 m a = ld32 n b"
  "(\<And>i. i < 8 \<Longrightarrow> m (a + i) = n (b + i)) \<Longrightarrow> ld64 m a = ld64 n b"
proof -
  have 16: "ld16 m a = ld16 n b" if "\<And>i. i < 2 \<Longrightarrow> m (a + i) = n (b + i)" for m n a b
    using that [of 0] that [of 1] by (simp add: ld16_def)
  have 32: "ld32 m a = ld32 n b" if h: "\<And>i. i < 4 \<Longrightarrow> m (a + i) = n (b + i)" for m n a b
  proof -
    have "m (a + 2 + i) = n (b + 2 + i)" if "i < 2" for i
      using h [of "2 + i"] that by (simp add: ac_simps)
    moreover have "m (a + i) = n (b + i)" if "i < 2" for i
      using h [of i] that by simp
    ultimately show ?thesis using 16 [of m a n b] 16 [of m "a + 2" n "b + 2"]
      by (simp add: ld32_def)
  qed
  show "(\<And>i. i < 2 \<Longrightarrow> m (a + i) = n (b + i)) \<Longrightarrow> ld16 m a = ld16 n b" by (rule 16)
  show "(\<And>i. i < 4 \<Longrightarrow> m (a + i) = n (b + i)) \<Longrightarrow> ld32 m a = ld32 n b" by (rule 32)
  assume h: "\<And>i. i < 8 \<Longrightarrow> m (a + i) = n (b + i)"
  have "m (a + 4 + i) = n (b + 4 + i)" if "i < 4" for i
    using h [of "4 + i"] that by (simp add: ac_simps)
  moreover have "m (a + i) = n (b + i)" if "i < 4" for i
    using h [of i] that by simp
  ultimately show "ld64 m a = ld64 n b" using 32 [of m a n b] 32 [of m "a + 4" n "b + 4"]
    by (simp add: ld64_def)
qed

text \<open>A store changes nothing outside its area.\<close>

lemma st_outside [mem_simps]:
  "x \<noteq> a \<Longrightarrow> st8 m a v8 x = m x"
  "x < a \<or> a + 2 \<le> x \<Longrightarrow> st16 m a v16 x = m x"
  "x < a \<or> a + 4 \<le> x \<Longrightarrow> st32 m a v32 x = m x"
  "x < a \<or> a + 8 \<le> x \<Longrightarrow> st64 m a v64 x = m x"
  by (auto simp: st8_def st16_def st32_def st64_def)

lemma ld_st_other [mem_simps]:
  "b + 4 \<le> a \<or> a + 4 \<le> b \<Longrightarrow> ld32 (st32 m a v) b = ld32 m b"
  "b + 4 \<le> a \<or> a + 1 \<le> b \<Longrightarrow> ld32 (st8 m a v8) b = ld32 m b"
  "b + 4 \<le> a \<or> a + 2 \<le> b \<Longrightarrow> ld32 (st16 m a v16) b = ld32 m b"
  "b + 4 \<le> a \<or> a + 8 \<le> b \<Longrightarrow> ld32 (st64 m a v64) b = ld32 m b"
  "b + 2 \<le> a \<or> a + 4 \<le> b \<Longrightarrow> ld16 (st32 m a v) b = ld16 m b"
  "b + 2 \<le> a \<or> a + 2 \<le> b \<Longrightarrow> ld16 (st16 m a v16) b = ld16 m b"
  "b + 2 \<le> a \<or> a + 1 \<le> b \<Longrightarrow> ld16 (st8 m a v8) b = ld16 m b"
  "b + 8 \<le> a \<or> a + 4 \<le> b \<Longrightarrow> ld64 (st32 m a v) b = ld64 m b"
  "b + 8 \<le> a \<or> a + 8 \<le> b \<Longrightarrow> ld64 (st64 m a v64) b = ld64 m b"
  by (auto intro!: ld_cong st_outside)

lemma cat_split:
  "(word_cat (ucast (drop_bit 8 v16) :: byte) (ucast v16 :: byte) :: u16) = v16"
  "(word_cat (ucast (drop_bit 16 v32) :: u16) (ucast v32 :: u16) :: u32) = v32"
  "(word_cat (ucast (drop_bit 32 v64) :: u32) (ucast v64 :: u32) :: u64) = v64"
  by (rule bit_word_eqI; auto simp: bit_word_cat_iff bit_simps; fail)+

lemma ld_st_same [mem_simps, simp]:
  "ld16 (st16 m a v16) a = v16"
  "ld32 (st32 m a v32) a = v32"
  "ld64 (st64 m a v64) a = v64"
proof -
  show 16: "ld16 (st16 m a v16) a = v16" for m a v16
    by (simp add: ld16_def st16_def st8_def cat_split)
  show 32: "ld32 (st32 m a v32) a = v32" for m a v32
    by (simp add: ld32_def st32_def ld_st_other 16 cat_split)
  show "ld64 (st64 m a v64) a = v64"
    by (simp add: ld64_def st64_def ld_st_other 32 cat_split)
qed

lemma memmove_apply [mem_simps]:
  "i < n \<Longrightarrow> memmove d s n m (d + i) = m (s + i)"
  "x < d \<or> d + n \<le> x \<Longrightarrow> memmove d s n m x = m x"
  by (auto simp: memmove_def)

lemma store_bytes_apply [mem_simps]:
  "i < length bs \<Longrightarrow> store_bytes d bs m (d + i) = bs ! i"
  "x < d \<or> d + length bs \<le> x \<Longrightarrow> store_bytes d bs m x = m x"
  by (auto simp: store_bytes_def)

lemma memset_apply [mem_simps]:
  "i < n \<Longrightarrow> memset d c n m (d + i) = c"
  "x < d \<or> d + n \<le> x \<Longrightarrow> memset d c n m x = m x"
  by (auto simp: memset_def)

lemma ld_memmove [mem_simps]:
  "i + 4 \<le> n \<Longrightarrow> ld32 (memmove d s n m) (d + i) = ld32 m (s + i)"
  "b + 4 \<le> d \<or> d + n \<le> b \<Longrightarrow> ld32 (memmove d s n m) b = ld32 m b"
  "i + 2 \<le> n \<Longrightarrow> ld16 (memmove d s n m) (d + i) = ld16 m (s + i)"
  "b + 2 \<le> d \<or> d + n \<le> b \<Longrightarrow> ld16 (memmove d s n m) b = ld16 m b"
proof -
  show "i + 4 \<le> n \<Longrightarrow> ld32 (memmove d s n m) (d + i) = ld32 m (s + i)"
    by (rule ld_cong) (metis add.assoc add_less_cancel_left memmove_apply(1) order_less_le_trans)
  show "i + 2 \<le> n \<Longrightarrow> ld16 (memmove d s n m) (d + i) = ld16 m (s + i)"
    by (rule ld_cong) (metis add.assoc add_less_cancel_left memmove_apply(1) order_less_le_trans)
qed (auto intro!: ld_cong memmove_apply)

end
