(* ===== verification/Loop.thy ===== *)
theory Loop
  imports Vmstate "HOL-Library.While_Combinator"
begin

text \<open>
  Loops of the C code along linked structures, which need not end: \<open>loop body s\<close> runs \<open>body\<close> on the variables
  of the loop until it returns \<open>Inr\<close> with the result. The state of the iteration is the outcome so far, so a loop
  stops at the first \<open>Raise\<close> or \<open>Fault\<close>. A loop that never ends has no result; it is \<open>Fault\<close>, as a trap is. There
  is no bound on the iterations.
\<close>

definition turning :: "('s + 'b) outcome \<Rightarrow> bool" where
  "turning r = (case r of Ok (Inl s) st \<Rightarrow> True | _ \<Rightarrow> False)"

definition turn :: "('s \<Rightarrow> ('s + 'b) M) \<Rightarrow> ('s + 'b) outcome \<Rightarrow> ('s + 'b) outcome" where
  "turn body r = (case r of Ok (Inl s) st \<Rightarrow> body s st | _ \<Rightarrow> r)"

definition left :: "('s + 'b) outcome option \<Rightarrow> 'b outcome" where
  "left r = (case r of Some (Ok (Inr b) st) \<Rightarrow> Ok b st | Some (Raise e st) \<Rightarrow> Raise e st | _ \<Rightarrow> Fault)"

definition loop :: "('s \<Rightarrow> ('s + 'b) M) \<Rightarrow> 's \<Rightarrow> 'b M" where
  "loop body s = (\<lambda>st. left (while_option turning (turn body) (Ok (Inl s) st)))"

definition again :: "'s \<Rightarrow> ('s + 'b) M" where "again s = ret (Inl s)"
definition leave :: "'b \<Rightarrow> ('s + 'b) M" where "leave b = ret (Inr b)"

lemma turn_simps [simp]:
  "turning (Ok (Inl s) st)" "\<not> turning (Ok (Inr b) st)" "\<not> turning (Raise e st)" "\<not> turning Fault"
  "turn body (Ok (Inl s) st) = body s st"
  by (simp_all add: turning_def turn_def)

lemma turningE: "turning r \<Longrightarrow> \<exists>s st. r = Ok (Inl s) st"
  by (auto simp: turning_def split: outcome.splits sum.splits)

text \<open>The loop unrolled once.\<close>

lemma loop_unfold: "loop body s = bindM (body s) (\<lambda>r. case r of Inl s \<Rightarrow> loop body s | Inr b \<Rightarrow> ret b)"
proof
  fix st
  have step: "while_option turning (turn body) (Ok (Inl s) st) = while_option turning (turn body) (body s st)"
    by (subst while_option_unfold) simp
  have stop: "while_option turning (turn body) r = Some r" if "\<not> turning r" for r
    using that by (subst while_option_unfold) simp
  show "loop body s st = bindM (body s) (\<lambda>r. case r of Inl s \<Rightarrow> loop body s | Inr b \<Rightarrow> ret b) st"
  proof (cases "body s st")
    case (Ok r st')
    then show ?thesis by (cases r) (simp_all add: loop_def step bindM_def ret_def stop left_def)
  qed (simp_all add: loop_def step bindM_def stop left_def)
qed

text \<open>What every turn keeps holds when the loop is left.\<close>

lemma loop_invariant:
  assumes "loop body s st = Ok b st'" "I s st"
    and "\<And>s st s' st'. I s st \<Longrightarrow> body s st = Ok (Inl s') st' \<Longrightarrow> I s' st'"
    and "\<And>s st b st'. I s st \<Longrightarrow> body s st = Ok (Inr b) st' \<Longrightarrow> J b st'"
  shows "J b st'"
proof -
  define P where "P r = (case r of Ok (Inl s) st \<Rightarrow> I s st | Ok (Inr b) st \<Rightarrow> J b st | _ \<Rightarrow> True)" for r
  have w: "while_option turning (turn body) (Ok (Inl s) st) = Some (Ok (Inr b) st')"
    using assms(1) by (auto simp: loop_def left_def split: option.splits outcome.splits sum.splits)
  have "P (Ok (Inr b) st')"
  proof (rule while_option_rule [OF _ w])
    show "P (Ok (Inl s) st)" using assms(2) by (simp add: P_def)
    fix r assume r: "P r" "turning r"
    then obtain s st where "r = Ok (Inl s) st" using turningE by blast
    then show "P (turn body r)" using r assms(3,4)
      by (auto simp: P_def split: outcome.splits sum.splits)
  qed
  then show ?thesis by (simp add: P_def)
qed

text \<open>Two loops agree when their bodies do wherever the loops get.\<close>

lemma loop_cong:
  assumes "I st" "\<And>s st. I st \<Longrightarrow> body s st = body' s st" "\<And>s st s' st'. I st \<Longrightarrow> body s st = Ok s' st' \<Longrightarrow> I st'"
  shows "loop body s st = loop body' s st"
proof -
  define P where "P r = (case r of Ok (Inl s) st \<Rightarrow> I st | _ \<Rightarrow> True)" for r :: "('a + 'b) outcome"
  have "map_option id (while_option turning (turn body) (Ok (Inl s) st)) = while_option turning (turn body') (id (Ok (Inl s) st))"
  proof (rule while_option_commute_invariant [where P = P])
    show "P (Ok (Inl s) st)" using assms(1) by (simp add: P_def)
    fix r assume r: "P r"
    show "turning r = turning (id r)" by simp
    assume "turning r"
    then obtain s st where e: "r = Ok (Inl s) st" using turningE by blast
    then have "I st" using r by (simp add: P_def)
    then show "P (turn body r)" "id (turn body r) = turn body' (id r)" using assms(2,3) e
      by (auto simp: P_def split: outcome.splits sum.splits)
  qed
  then show ?thesis by (simp add: loop_def option.map_id)
qed

lemmas loop_defs = again_def leave_def

end
