(* ===== verification/Heapc.thy ===== *)
theory Heapc
  imports Loop
begin

text \<open>
  The reference-counted heap of \<open>interp/heap.c\<close>, with \<open>unload\<close> and \<open>destroylinks\<close> (from
  \<open>load.c\<close> and \<open>link.c\<close>), which destroying a module link calls.

  \<open>destroy\<close> and the \<open>free\<close> functions of the type descriptors call each other. The depth of that
  recursion is limited by the code itself: each level holds \<open>gclock\<close>, and \<open>destroy\<close> returns once
  \<open>gchalt\<close> is above 256. The definitions follow the levels: \<open>destroy_n n\<close> is \<open>destroy\<close> with at
  most \<open>n\<close> levels below, and the \<open>free\<close> functions take the \<open>destroy\<close> they call as \<open>D\<close>.
\<close>

section \<open>Static type descriptors\<close>

definition Tarray :: addr where "Tarray = 16"
definition Tstring :: addr where "Tstring = 64"
definition Tlist :: addr where "Tlist = 112"
definition Tmodlink :: addr where "Tmodlink = 160"
definition Tchannel :: addr where "Tchannel = 208"
definition Tptr :: addr where "Tptr = 256"
definition Tbyte :: addr where "Tbyte = 304"

definition type_of ::
  "freefn \<Rightarrow> markfn \<Rightarrow> nat \<Rightarrow> int \<Rightarrow> byte list \<Rightarrow> Type" where
  "type_of fr mk sz nogc tmap = \<lparr>t_ref = 1, t_free = fr, t_mark = mk, t_size = int sz, t_nogc = nogc,
     t_np = int (length tmap), t_destroy = nil, t_initialize = nil, t_map = tmap\<rparr>"

definition static_types :: "addr \<rightharpoonup> Type" where
  "static_types = [
     Tarray \<mapsto> type_of Freearray Markarray sizeof_Array 1 [],
     Tstring \<mapsto> type_of Freestring Noptrs sizeof_String 1 [],
     Tlist \<mapsto> type_of Freelist Marklist sizeof_List 1 [],
     Tmodlink \<mapsto> type_of Freemodlink Markmodl 0 0 [],
     Tchannel \<mapsto> type_of Freechan Noptrs sizeof_Channel 0 [],
     Tptr \<mapsto> type_of Free_nil Markheap 4 1 [0x80],
     Tbyte \<mapsto> type_of Free_nil Mark_nil 1 1 []]"

section \<open>Loads and stores\<close>

definition getp :: "addr \<Rightarrow> addr M" where
  "getp a = gets (\<lambda>st. unat (ld32 (v_mem st) a))"

definition setm :: "((addr \<Rightarrow> byte) \<Rightarrow> addr \<Rightarrow> byte) \<Rightarrow> unit M" where
  "setm f = upd (\<lambda>st. st\<lparr>v_mem := f (v_mem st)\<rparr>)"

definition setp :: "addr \<Rightarrow> addr \<Rightarrow> unit M" where
  "setp a v = setm (\<lambda>m. st32 m a (of_nat v))"

definition set_heap :: "addr \<Rightarrow> Heap \<Rightarrow> unit M" where
  "set_heap h x = upd (\<lambda>st. st\<lparr>v_heaps := (v_heaps st)(h \<mapsto> x)\<rparr>)"

definition set_type :: "addr \<Rightarrow> Type \<Rightarrow> unit M" where
  "set_type t x = upd (\<lambda>st. st\<lparr>v_types := (v_types st)(t \<mapsto> x)\<rparr>)"

definition set_array :: "addr \<Rightarrow> Array \<Rightarrow> unit M" where
  "set_array a x = upd (\<lambda>st. st\<lparr>v_arrays := (v_arrays st)(a \<mapsto> x)\<rparr>)"

definition set_list :: "addr \<Rightarrow> List \<Rightarrow> unit M" where
  "set_list l x = upd (\<lambda>st. st\<lparr>v_lists := (v_lists st)(l \<mapsto> x)\<rparr>)"

definition set_str :: "addr \<Rightarrow> String \<Rightarrow> unit M" where
  "set_str s x = upd (\<lambda>st. st\<lparr>v_strings := (v_strings st)(s \<mapsto> x)\<rparr>)"

definition set_chan :: "addr \<Rightarrow> Channel \<Rightarrow> unit M" where
  "set_chan c x = upd (\<lambda>st. st\<lparr>v_chans := (v_chans st)(c \<mapsto> x)\<rparr>)"

definition set_modlink :: "addr \<Rightarrow> Modlink \<Rightarrow> unit M" where
  "set_modlink l x = upd (\<lambda>st. st\<lparr>v_modlinks := (v_modlinks st)(l \<mapsto> x)\<rparr>)"

definition set_mod :: "addr \<Rightarrow> Module \<Rightarrow> unit M" where
  "set_mod m x = upd (\<lambda>st. st\<lparr>v_mods := (v_mods st)(m \<mapsto> x)\<rparr>)"

lemmas heap_prims = getp_def setm_def setp_def set_heap_def set_type_def set_array_def set_list_def
  set_str_def set_chan_def set_modlink_def set_mod_def

declare heap_prims [vm_defs]

section \<open>Allocation: poolalloc, poolfree, malloc, free\<close>

text \<open>
  A request to the pool allocator is answered by \<open>v_alloc\<close>. What a block holds is arbitrary, so
  memory is left as it is. The C \<open>poolfree\<close> keeps its tree links and tails in the blocks that are free;
  they are in the model of the pool (\<open>Alloc\<close>), not in the bytes of \<open>v_mem\<close>, so what \<open>v_mem\<close> has at the
  addresses of a block that was freed means nothing.
\<close>

definition poolalloc :: "int \<Rightarrow> addr M" where
  "poolalloc n = (\<lambda>st.
     case v_alloc st (v_blks st) n of
       None \<Rightarrow> Ok nil (st\<lparr>v_nalloc := Suc (v_nalloc st)\<rparr>)
     | Some (a, sz) \<Rightarrow>
         Ok a (st\<lparr>v_blks := (v_blks st)(a \<mapsto> sz), v_nalloc := Suc (v_nalloc st)\<rparr>))"

definition poolfree :: "addr \<Rightarrow> unit M" where
  "poolfree h = upd (\<lambda>st. st\<lparr>
     v_heaps := (v_heaps st)(h := None),
     v_arrays := (v_arrays st)(H2D h := None),
     v_lists := (v_lists st)(H2D h := None),
     v_strings := (v_strings st)(H2D h := None),
     v_chans := (v_chans st)(H2D h := None),
     v_modlinks := (v_modlinks st)(H2D h := None),
     v_blks := (v_blks st)(h := None),
     v_nfree := Suc (v_nfree st),
     v_freed := h # v_freed st\<rparr>)"

definition poolimmutable :: "addr \<Rightarrow> unit M" where
  "poolimmutable h = upd (\<lambda>st. st\<lparr>v_immut := (v_immut st)(h := True)\<rparr>)"

definition malloc :: "int \<Rightarrow> addr M" where
  "malloc n = bindM (poolalloc n) (\<lambda>v.
     bindM (iff (v \<noteq> nil) (setm (memset v 0 (nat n)))) (\<lambda>_. ret v))"

definition free :: "addr \<Rightarrow> unit M" where
  "free p = (if p = nil then skip else upd (\<lambda>st. st\<lparr>
     v_blks := (v_blks st)(p := None), v_nfree := Suc (v_nfree st)\<rparr>))"

definition free_type :: "addr \<Rightarrow> unit M" where
  "free_type t = steps [upd (\<lambda>st. st\<lparr>v_types := (v_types st)(t := None)\<rparr>), free t]"

definition gclock :: "unit M" where
  "gclock = upd (\<lambda>st. st\<lparr>v_gchalt := Suc (v_gchalt st)\<rparr>)"

definition gcunlock :: "unit M" where
  "gcunlock = upd (\<lambda>st. st\<lparr>v_gchalt := v_gchalt st - 1\<rparr>)"

definition Setmark :: "addr \<Rightarrow> unit M" where
  "Setmark h = bindM (deref v_heaps h) (\<lambda>x. bindM (gets v_mutator) (\<lambda>mut.
     iff (h_color x \<noteq> mut)
       (steps [set_heap h (x\<lparr>h_color := propagator\<rparr>), upd (\<lambda>st. st\<lparr>v_nprop := True\<rparr>)])))"

section \<open>Reference counts\<close>

definition heapref :: "addr \<Rightarrow> u32 M" where
  "heapref v = bindM (deref v_heaps (D2H v)) (\<lambda>h. ret (h_ref h))"

text \<open>\<open>D2H(v)->ref++\<close> and \<open>t->ref++\<close>.\<close>

definition inc_ref :: "addr \<Rightarrow> unit M" where
  "inc_ref h = bindM (deref v_heaps h) (\<lambda>x. set_heap h (x\<lparr>h_ref := h_ref x + 1\<rparr>))"

definition inc_type :: "addr \<Rightarrow> unit M" where
  "inc_type t = bindM (deref v_types t) (\<lambda>x. set_type t (x\<lparr>t_ref := t_ref x + 1\<rparr>))"

definition freetype :: "addr \<Rightarrow> unit M" where
  "freetype t = (if t = nil then skip else
     bindM (deref v_types t) (\<lambda>x.
       if t_ref x - 1 > 0 then set_type t (x\<lparr>t_ref := t_ref x - 1\<rparr>)
       else steps [free (t_initialize x), free_type t]))"

section \<open>Pointer maps\<close>

text \<open>The body of \<open>freeptrs\<close>'s loop for the words at \<open>w\<close> that the map byte \<open>c\<close> describes.\<close>

definition freebit :: "(addr \<Rightarrow> unit M) \<Rightarrow> addr \<Rightarrow> byte \<Rightarrow> nat \<Rightarrow> unit M" where
  "freebit D w c i = iff (bit c i) (bindM (getp (w + 4 * (7 - i))) (\<lambda>x. iff (x \<noteq> H) (D x)))"

fun freemap :: "(addr \<Rightarrow> unit M) \<Rightarrow> addr \<Rightarrow> byte list \<Rightarrow> unit M" where
  "freemap D w [] = skip"
| "freemap D w (c # p) = steps [
     iff (c \<noteq> 0) (steps (map (freebit D w c) [0, 1, 2, 3, 4, 5, 6, 7])),
     freemap D (w + 32) p]"

definition freeptrs :: "(addr \<Rightarrow> unit M) \<Rightarrow> addr \<Rightarrow> addr \<Rightarrow> unit M" where
  "freeptrs D v t = bindM (deref v_types t) (\<lambda>x.
     if t_np x = 0 then skip else freemap D v (t_map x))"

definition incbit :: "addr \<Rightarrow> byte \<Rightarrow> nat \<Rightarrow> unit M" where
  "incbit w c j = iff (bit c (7 - j)) (bindM (getp (w + 4 * j)) (\<lambda>wp.
     iff (wp \<noteq> H) (steps [inc_ref (D2H wp), Setmark (D2H wp)])))"

fun incmap :: "addr \<Rightarrow> byte list \<Rightarrow> unit M" where
  "incmap w [] = skip"
| "incmap w (c # p) = steps [
     iff (c \<noteq> 0) (steps (map (incbit w c) [0, 1, 2, 3, 4, 5, 6, 7])),
     incmap (w + 32) p]"

definition incmem :: "addr \<Rightarrow> addr \<Rightarrow> unit M" where
  "incmem vw t = bindM (deref v_types t) (\<lambda>x. incmap vw (t_map x))"

text \<open>In \<open>safemem\<close> the cursor \<open>q\<close> advances only on a set bit.\<close>

fun safebits :: "(addr \<Rightarrow> unit M) \<Rightarrow> addr \<Rightarrow> byte \<Rightarrow> nat list \<Rightarrow> unit M" where
  "safebits f q c [] = skip"
| "safebits f q c (i # is) =
     (if bit c i then
        bindM (getp q) (\<lambda>wp. steps [iff (wp \<noteq> H) (f (D2H wp)), safebits f (q + 4) c is])
      else safebits f q c is)"

fun safemap :: "(addr \<Rightarrow> unit M) \<Rightarrow> addr \<Rightarrow> byte list \<Rightarrow> unit M" where
  "safemap f w [] = skip"
| "safemap f w (c # p) = steps [
     iff (c \<noteq> 0) (safebits f w c [7, 6, 5, 4, 3, 2, 1, 0]),
     safemap f (w + 32) p]"

definition safemem :: "addr \<Rightarrow> addr \<Rightarrow> (addr \<Rightarrow> unit M) \<Rightarrow> unit M" where
  "safemem vw t f = bindM (deref v_types t) (\<lambda>x. safemap f vw (t_map x))"

definition initbit :: "addr \<Rightarrow> byte \<Rightarrow> nat \<Rightarrow> (addr \<Rightarrow> byte) \<Rightarrow> addr \<Rightarrow> byte" where
  "initbit w c i m = (if bit c i then st32 m (w + 4 * (7 - i)) (of_nat H) else m)"

fun initmap :: "addr \<Rightarrow> byte list \<Rightarrow> (addr \<Rightarrow> byte) \<Rightarrow> addr \<Rightarrow> byte" where
  "initmap w [] m = m"
| "initmap w (c # p) m =
     initmap (w + 32) p (if c \<noteq> 0 then fold (initbit w c) [0, 1, 2, 3, 4, 5, 6, 7] m else m)"

definition initmem :: "addr \<Rightarrow> addr \<Rightarrow> unit M" where
  "initmem t vw = bindM (deref v_types t) (\<lambda>x. setm (initmap vw (t_map x)))"

section \<open>The free functions\<close>

definition freechan :: "addr \<Rightarrow> unit M" where
  "freechan h = bindM (deref v_chans (H2D h)) (\<lambda>c.
     iff (c_mover c = Movtmp) (freetype (unat (c_mid c))))"

definition freestring :: "addr \<Rightarrow> unit M" where
  "freestring h = bindM (deref v_strings (H2D h)) (\<lambda>s. iff (s_tmp s \<noteq> nil) (free (s_tmp s)))"

fun freeelems :: "(addr \<Rightarrow> unit M) \<Rightarrow> nat \<Rightarrow> nat \<Rightarrow> addr \<Rightarrow> addr \<Rightarrow> unit M" where
  "freeelems D 0 sz v t = skip"
| "freeelems D (Suc n) sz v t = steps [freeptrs D v t, freeelems D n sz (v + sz) t]"

definition freearray :: "(addr \<Rightarrow> unit M) \<Rightarrow> addr \<Rightarrow> unit M" where
  "freearray D h = bindM (deref v_arrays (H2D h)) (\<lambda>a. bindM (deref v_types (a_t a)) (\<lambda>t. steps [
     if a_root a \<noteq> H then D (a_root a)
     else iff (t_np t \<noteq> 0) (freeelems D (nat (sint (a_len a))) (nat (t_size t)) (a_data a) (a_t a)),
     bindM (deref v_types (a_t a)) (\<lambda>t. steps [
       set_type (a_t a) (t\<lparr>t_ref := t_ref t - 1\<rparr>),
       iff (t_ref t = 1) (free_type (a_t a))])]))"

definition dec_type :: "addr \<Rightarrow> unit M" where
  "dec_type t = bindM (deref v_types t) (\<lambda>x. set_type t (x\<lparr>t_ref := t_ref x - 1\<rparr>))"

text \<open>The loop along the tails, which stops at the first cell that somebody else refers to.\<close>

definition freetail :: "(addr \<Rightarrow> unit M) \<Rightarrow> addr \<Rightarrow> addr \<Rightarrow> unit M" where
  "freetail D t = loop (\<lambda>l.
     if l = H then leave ()
     else bindM (deref v_heaps (D2H l)) (\<lambda>th. bindM (set_heap (D2H l) (th\<lparr>h_ref := h_ref th - 1\<rparr>)) (\<lambda>_.
       if h_ref th \<noteq> 1 then leave ()
       else bindM (iff (t \<noteq> nil) (steps [freeptrs D (list_data l) t, dec_type t])) (\<lambda>_.
         bindM (deref v_lists l) (\<lambda>c. bindM (poolfree (D2H l)) (\<lambda>_. again (l_tail c)))))))"

definition freelist :: "(addr \<Rightarrow> unit M) \<Rightarrow> addr \<Rightarrow> unit M" where
  "freelist D h = bindM (deref v_lists (H2D h)) (\<lambda>l. let t = l_t l in steps [
     iff (t \<noteq> nil) (steps [freeptrs D (list_data (H2D h)) t, dec_type t]),
     bindM (deref v_lists (H2D h)) (\<lambda>l. freetail D t (l_tail l)),
     iff (t \<noteq> nil) (bindM (deref v_types t) (\<lambda>x. iff (t_ref x = 0) (free_type t)))])"

definition freeheap :: "(addr \<Rightarrow> unit M) \<Rightarrow> addr \<Rightarrow> unit M" where
  "freeheap D h = bindM (deref v_heaps h) (\<lambda>x. freeptrs D (H2D h) (h_t x))"

section \<open>Unloading a module\<close>

definition destroylinks :: "addr \<Rightarrow> unit M" where
  "destroylinks m = bindM (deref v_mods m) (\<lambda>x. set_mod m (x\<lparr>m_ext := []\<rparr>))"

fun freetypes :: "addr list \<Rightarrow> unit M" where
  "freetypes [] = skip"
| "freetypes (t # ts) = steps [freetype t, freetypes ts]"

text \<open>Unlink \<open>m\<close> from \<open>modules\<close>: \<open>prev\<close> is the module whose \<open>link\<close> field \<open>last\<close> points to.\<close>

definition unlinkmod :: "addr \<Rightarrow> unit M" where
  "unlinkmod m = bindM (gets v_modules) (\<lambda>mm. loop (\<lambda>(prev, mm).
     if mm = nil then leave ()
     else if mm = m then bindM (deref v_mods m) (\<lambda>x. bindM
       (case prev of
          None \<Rightarrow> upd (\<lambda>st. st\<lparr>v_modules := m_link x\<rparr>)
        | Some p \<Rightarrow> bindM (deref v_mods p) (\<lambda>y. set_mod p (y\<lparr>m_link := m_link x\<rparr>))) leave)
     else bindM (deref v_mods mm) (\<lambda>y. again (Some mm, m_link y))) (None, mm))"

definition free_mod :: "addr \<Rightarrow> unit M" where
  "free_mod m = steps [upd (\<lambda>st. st\<lparr>v_mods := (v_mods st)(m := None)\<rparr>), free m]"

text \<open>
  A copied module (\<open>dupmod\<close>) refers to its original through \<open>orig\<close>; only modules of the list
  \<open>modules\<close>, which are originals, are copied, so the chain has one link. \<open>ORIGDEPTH\<close> bounds it.
\<close>

definition ORIGDEPTH :: nat where "ORIGDEPTH = 4"

fun unload_n :: "(addr \<Rightarrow> unit M) \<Rightarrow> nat \<Rightarrow> addr \<Rightarrow> unit M" where
  "unload_n D n m = bindM (deref v_mods m) (\<lambda>x. steps [
     set_mod m (x\<lparr>m_ref := m_ref x - 1\<rparr>),
     if m_ref x - 1 > 0 then skip
     else if m_ref x - 1 = -1 then fault
     else steps [
       unlinkmod m,
       D (m_mp x),
       if m_orig x \<noteq> nil then (case n of 0 \<Rightarrow> fault | Suc k \<Rightarrow> unload_n D k (m_orig x))
       else steps [
         destroylinks m,
         freetypes (m_type x),
         free (m_prog x)],
       free_mod m]])"

declare unload_n.simps [simp del]

definition freemodlink :: "(addr \<Rightarrow> unit M) \<Rightarrow> addr \<Rightarrow> unit M" where
  "freemodlink D h = bindM (deref v_modlinks (H2D h)) (\<lambda>ml. unload_n D ORIGDEPTH (ml_m ml))"

section \<open>destroy\<close>

text \<open>The call \<open>t->free(h)\<close>; a null function pointer traps.\<close>

definition call_free :: "(addr \<Rightarrow> unit M) \<Rightarrow> freefn \<Rightarrow> addr \<Rightarrow> unit M" where
  "call_free D f h =
    (case f of
       Free_nil \<Rightarrow> fault
     | Freearray \<Rightarrow> freearray D h
     | Freestring \<Rightarrow> freestring h
     | Freelist \<Rightarrow> freelist D h
     | Freemodlink \<Rightarrow> freemodlink D h
     | Freechan \<Rightarrow> freechan h
     | Freeheap \<Rightarrow> freeheap D h)"

fun destroy_n :: "nat \<Rightarrow> addr \<Rightarrow> unit M" where
  "destroy_n n v =
    (if v = H then skip
     else bindM (deref v_heaps (D2H v)) (\<lambda>h. steps [
       set_heap (D2H v) (h\<lparr>h_ref := h_ref h - 1\<rparr>),
       bindM (gets v_gchalt) (\<lambda>g.
         if h_ref h - 1 > 0 \<or> g > 256 then skip
         else steps [
           iff (h_t h \<noteq> nil) (bindM (deref v_types (h_t h)) (\<lambda>t. steps [
             gclock,
             (case n of
                0 \<Rightarrow> fault
              | Suc k \<Rightarrow> call_free (destroy_n k) (t_free t) (D2H v)),
             gcunlock,
             freetype (h_t h)])),
           poolfree (D2H v)])]))"

declare destroy_n.simps [simp del]

text \<open>At \<open>gchalt = g\<close> there are at most \<open>257 - g\<close> levels that free something.\<close>

definition destroy :: "addr \<Rightarrow> unit M" where
  "destroy v = bindM (gets v_gchalt) (\<lambda>g. destroy_n (257 - g) v)"

definition unload :: "addr \<Rightarrow> unit M" where
  "unload m = unload_n destroy ORIGDEPTH m"

section \<open>Allocating heap blocks\<close>

text \<open>The value of an \<open>int\<close> expression: arithmetic wraps at 32 bits.\<close>

definition cint :: "int \<Rightarrow> int" where
  "cint x = sint (word_of_int x :: u32)"

text \<open>What \<open>nheap\<close>, \<open>heap\<close> and \<open>heapz\<close> have in common.\<close>

definition new_heap :: "int \<Rightarrow> addr \<Rightarrow> addr M" where
  "new_heap n t = bindM (poolalloc (cint (int sizeof_Heap + n))) (\<lambda>h.
     if h = nil then error ''heap full''
     else bindM (gets v_mutator) (\<lambda>mut.
       bindM (set_heap h \<lparr>h_color = mut, h_ref = 1, h_t = t\<rparr>) (\<lambda>_. ret h)))"

definition nheap :: "int \<Rightarrow> addr M" where
  "nheap n = new_heap n nil"

definition heapz :: "addr \<Rightarrow> addr M" where
  "heapz t = bindM (deref v_types t) (\<lambda>x. bindM (new_heap (t_size x) t) (\<lambda>h.
     bindM (steps [
       inc_type t,
       setm (memset (H2D h) 0 (nat (t_size x))),
       iff (t_np x \<noteq> 0) (initmem t (H2D h))]) (\<lambda>_. ret h)))"

definition heap :: "addr \<Rightarrow> addr M" where
  "heap t = bindM (deref v_types t) (\<lambda>x. bindM (new_heap (t_size x) t) (\<lambda>h.
     bindM (steps [
       inc_type t,
       iff (t_np x \<noteq> 0) (initmem t (H2D h))]) (\<lambda>_. ret h)))"

definition set_ht :: "addr \<Rightarrow> addr \<Rightarrow> unit M" where
  "set_ht h t = bindM (deref v_heaps h) (\<lambda>x. set_heap h (x\<lparr>h_t := t\<rparr>))"

text \<open>Call \<open>f\<close> on the \<open>n\<close> elements of size \<open>sz\<close> from \<open>p\<close>.\<close>

fun foreach :: "nat \<Rightarrow> nat \<Rightarrow> addr \<Rightarrow> (addr \<Rightarrow> unit M) \<Rightarrow> unit M" where
  "foreach 0 sz p f = skip"
| "foreach (Suc n) sz p f = steps [f p, foreach n sz (p + sz) f]"

definition initarray :: "addr \<Rightarrow> addr \<Rightarrow> unit M" where
  "initarray t a = steps [
     inc_type t,
     bindM (deref v_types t) (\<lambda>x. iff (t_np x \<noteq> 0) (bindM (deref v_arrays a) (\<lambda>y.
       foreach (nat (sint (a_len y))) (nat (t_size x)) (a_data y) (initmem t))))]"

text \<open>
  \<open>arraycpy\<close> recurs on arrays of arrays. The compiler nests initialised arrays at most
  \<open>DADEPTH\<close> deep, which bounds the recursion on the data of a module.
\<close>

fun arraycpy_n :: "nat \<Rightarrow> addr \<Rightarrow> addr M" where
  "arraycpy_n n sa =
    (if sa = H then ret H
     else bindM (deref v_arrays sa) (\<lambda>x. bindM (deref v_types (a_t x)) (\<lambda>ty.
       bindM (nheap (cint (int sizeof_Array + t_size ty * sint (a_len x)))) (\<lambda>dh.
       let da = H2D dh; len = nat (sint (a_len x)); dat = da + sizeof_Array in
       bindM (steps [
         set_ht dh Tarray,
         inc_type Tarray,
         inc_type (a_t x),
         set_array da \<lparr>a_len = a_len x, a_t = a_t x, a_root = H, a_data = dat\<rparr>,
         if a_t x = Tarray then
           (case n of
              0 \<Rightarrow> fault
            | Suc k \<Rightarrow> foreach len 4 0 (\<lambda>i. bindM (getp (a_data x + i)) (\<lambda>sp.
                bindM (arraycpy_n k sp) (\<lambda>dp. setp (dat + i) dp))))
         else steps [
           setm (memmove dat (a_data x) (nat (sint (a_len x) * t_size ty))),
           foreach len (nat (t_size ty)) dat (\<lambda>e. incmem e (a_t x))]])
       (\<lambda>_. ret da)))))"

declare arraycpy_n.simps [simp del]

definition arraycpy :: "addr \<Rightarrow> addr M" where
  "arraycpy sa = arraycpy_n DADEPTH sa"

definition mpbit :: "addr \<Rightarrow> byte \<Rightarrow> nat \<Rightarrow> unit M" where
  "mpbit w c j = iff (bit c (7 - j)) (bindM (getp (w + 4 * j)) (\<lambda>wp.
     iff (wp \<noteq> H) (bindM (deref v_heaps (D2H wp)) (\<lambda>h.
       if h_t h = Tarray then bindM (arraycpy wp) (setp (w + 4 * j))
       else steps [inc_ref (D2H wp), Setmark (D2H wp)]))))"

fun mpmap :: "addr \<Rightarrow> byte list \<Rightarrow> unit M" where
  "mpmap w [] = skip"
| "mpmap w (c # p) = steps [
     iff (c \<noteq> 0) (steps (map (mpbit w c) [0, 1, 2, 3, 4, 5, 6, 7])),
     mpmap (w + 32) p]"

definition newmp :: "addr \<Rightarrow> addr \<Rightarrow> addr \<Rightarrow> unit M" where
  "newmp dst src t = bindM (deref v_types t) (\<lambda>x. steps [
     setm (memmove dst src (nat (t_size x))),
     mpmap dst (t_map x)])"

section \<open>A machine for the witnesses\<close>

definition zero_R :: REG where
  "zero_R = \<lparr>r_PC = nil, r_MP = nil, r_FP = nil, r_SP = nil, r_TS = nil, r_EX = nil, r_M = nil,
     r_IC = 0, r_xpc = nil, r_s = Mem nil, r_d = Mem nil, r_m = Mem nil, r_t = 0, r_st = 0, r_dt = 0\<rparr>"

text \<open>Nothing but the static type descriptors; the witnesses add what they need.\<close>

definition zero_vm :: vm where
  "zero_vm = \<lparr>v_mem = (\<lambda>_. 0), v_R = zero_R, v_heaps = Map.empty, v_arrays = Map.empty,
     v_lists = Map.empty, v_strings = Map.empty, v_chans = Map.empty, v_modlinks = Map.empty,
     v_types = static_types, v_mods = Map.empty, v_progs = Map.empty, v_modules = nil, v_runhd = nil,
     v_runtl = nil, v_head = nil, v_tail = nil, v_pidnum = 0, v_xrand = -1, v_mutator = 0,
     v_gccolor = 3, v_gchalt = 0, v_nprop = False, v_alloc = (\<lambda>_ _. None), v_blks = Map.empty,
     v_immut = (\<lambda>_. False), v_nalloc = 0, v_nfree = 0, v_freed = [],
     v_fpu = \<lparr>fp_neg = id, fp_add = (+), fp_sub = (-), fp_mul = (*), fp_div = (div), fp_eq = (=),
       fp_lt = (<), fp_of_int = word_of_int, fp_trunc = uint, fp_zero = 0, fp_half = 0,
       fp_scan = (\<lambda>_. 0), fp_print = (\<lambda>_. [])\<rparr>\<rparr>"

end
