(* ===== verification/Regs.thy ===== *)
theory Regs
  imports Heapc "HOL-Library.Signed_Division"
begin

text \<open>
  The operands of an instruction: the macros \<open>B(r)\<close>, \<open>W(r)\<close>, \<open>V(r)\<close>, \<open>P(r)\<close>, \<open>T(r)\<close> of
  \<open>xec.c\<close> and \<open>string.c\<close> as reads and writes through \<open>R.s\<close>, \<open>R.m\<close> and \<open>R.d\<close>, and the
  assignments to \<open>R\<close> itself. The macros \<open>S\<close>, \<open>A\<close>, \<open>L\<close>, \<open>C\<close> read a pointer like \<open>P\<close>.
\<close>

definition loc32 :: "loc \<Rightarrow> vm \<Rightarrow> u32" where
  "loc32 l st = (case l of Mem a \<Rightarrow> ld32 (v_mem st) a | RegT \<Rightarrow> r_t (v_R st) | Tmp v \<Rightarrow> v)"

definition loc8 :: "loc \<Rightarrow> vm \<Rightarrow> byte" where
  "loc8 l st = (case l of Mem a \<Rightarrow> ld8 (v_mem st) a | RegT \<Rightarrow> ucast (r_t (v_R st)) | Tmp v \<Rightarrow> ucast v)"

text \<open>A 64-bit read at \<open>R.t\<close> continues in \<open>R.st\<close>, the next field.\<close>

definition loc64 :: "loc \<Rightarrow> vm \<Rightarrow> u64" where
  "loc64 l st = (case l of Mem a \<Rightarrow> ld64 (v_mem st) a
     | RegT \<Rightarrow> word_cat (r_st (v_R st)) (r_t (v_R st)) | Tmp v \<Rightarrow> ucast v)"

definition getB :: "(REG \<Rightarrow> loc) \<Rightarrow> byte M" where "getB r = gets (\<lambda>st. loc8 (r (v_R st)) st)"
definition getW :: "(REG \<Rightarrow> loc) \<Rightarrow> u32 M" where "getW r = gets (\<lambda>st. loc32 (r (v_R st)) st)"
definition getV :: "(REG \<Rightarrow> loc) \<Rightarrow> u64 M" where "getV r = gets (\<lambda>st. loc64 (r (v_R st)) st)"
definition getP :: "(REG \<Rightarrow> loc) \<Rightarrow> addr M" where "getP r = gets (\<lambda>st. unat (loc32 (r (v_R st)) st))"

text \<open>The address an operand register holds; only memory has one.\<close>

definition getA :: "(REG \<Rightarrow> loc) \<Rightarrow> addr M" where
  "getA r = bindM (gets (\<lambda>st. r (v_R st))) (\<lambda>l. case l of Mem a \<Rightarrow> ret a | _ \<Rightarrow> fault)"

definition upd_R :: "(REG \<Rightarrow> REG) \<Rightarrow> unit M" where
  "upd_R f = upd (\<lambda>st. st\<lparr>v_R := f (v_R st)\<rparr>)"

definition put32 :: "loc \<Rightarrow> u32 \<Rightarrow> unit M" where
  "put32 l v = (case l of
     Mem a \<Rightarrow> setm (\<lambda>m. st32 m a v)
   | RegT \<Rightarrow> upd_R (\<lambda>R. R\<lparr>r_t := v\<rparr>)
   | Tmp _ \<Rightarrow> skip)"

definition put8 :: "loc \<Rightarrow> byte \<Rightarrow> unit M" where
  "put8 l v = (case l of
     Mem a \<Rightarrow> setm (\<lambda>m. st8 m a v)
   | RegT \<Rightarrow> upd_R (\<lambda>R. R\<lparr>r_t := (r_t R AND NOT 0xFF) OR ucast v\<rparr>)
   | Tmp _ \<Rightarrow> skip)"

definition put64 :: "loc \<Rightarrow> u64 \<Rightarrow> unit M" where
  "put64 l v = (case l of
     Mem a \<Rightarrow> setm (\<lambda>m. st64 m a v)
   | RegT \<Rightarrow> upd_R (\<lambda>R. R\<lparr>r_t := ucast v, r_st := ucast (drop_bit 32 v)\<rparr>)
   | Tmp _ \<Rightarrow> skip)"

definition setB :: "(REG \<Rightarrow> loc) \<Rightarrow> byte \<Rightarrow> unit M" where
  "setB r v = bindM (gets (\<lambda>st. r (v_R st))) (\<lambda>l. put8 l v)"
definition setW :: "(REG \<Rightarrow> loc) \<Rightarrow> u32 \<Rightarrow> unit M" where
  "setW r v = bindM (gets (\<lambda>st. r (v_R st))) (\<lambda>l. put32 l v)"
definition setV :: "(REG \<Rightarrow> loc) \<Rightarrow> u64 \<Rightarrow> unit M" where
  "setV r v = bindM (gets (\<lambda>st. r (v_R st))) (\<lambda>l. put64 l v)"
definition setP :: "(REG \<Rightarrow> loc) \<Rightarrow> addr \<Rightarrow> unit M" where
  "setP r v = setW r (of_nat v)"

lemmas reg_prims = loc32_def loc8_def loc64_def getB_def getW_def getV_def getP_def getA_def
  upd_R_def put32_def put8_def put64_def setB_def setW_def setV_def setP_def

declare reg_prims [vm_defs]

text \<open>\<open>destroy(*sp); *sp = ns;\<close> with \<open>sp = R.d\<close>, as most operations that produce a pointer end.\<close>

definition replace_d :: "addr \<Rightarrow> unit M" where
  "replace_d ns = steps [bindM (getP r_d) destroy, setP r_d ns]"

definition set_len :: "addr \<Rightarrow> int \<Rightarrow> unit M" where
  "set_len s l = bindM (deref v_strings s) (\<lambda>x. set_str s (x\<lparr>s_len := l\<rparr>))"

section \<open>Messages\<close>

definition Tbounds :: string where "Tbounds = ''bounds exceeded''"
definition Tnilptr :: string where "Tnilptr = ''nil pointer''"
definition Tmodule :: string where "Tmodule = ''module not loaded''"

end
