(* ===== verification/Conv.thy ===== *)
theory Conv
  imports Rune "HOL-Library.Monad_Syntax"
begin

text \<open>
  Numbers and text: \<open>numbconv\<close> of \<open>lib9/doprint.c\<close> (the conversions \<open>%d\<close>, \<open>%o\<close>, \<open>%x\<close> of
  \<open>print\<close>), \<open>strtol\<close> of \<open>libk/strtol.c\<close> and \<open>strtoll\<close> of \<open>lib9/strtoll.c\<close>. The string
  scans have no bound of their own: \<open>None\<close> is a scan that does not end.
\<close>

section \<open>numbconv\<close>

definition IDIGIT :: nat where "IDIGIT = 30"

text \<open>
  The loop that fills \<open>s\<close> from position \<open>i\<close> downwards; the result is \<open>s\<close> from the last position
  written. \<open>v\<close> is the magnitude, at the width of the value. \<open>f2\<close> is the precision.
\<close>

fun numb_loop :: "nat \<Rightarrow> bool \<Rightarrow> int option \<Rightarrow> nat \<Rightarrow> nat \<Rightarrow> byte list \<Rightarrow> byte list" where
  "numb_loop b ucase f2 i v acc =
    (let n = v mod b + 48;
         n = (if n > 57 then n + (97 - 58) - (if ucase then 32 else 0) else n);
         acc = of_nat n # acc
     in if i < 2 then acc
        else
          let v = v div b in
          if (\<exists>p \<in> set_option f2. int i \<ge> int IDIGIT - p) \<or> v > 0
          then numb_loop b ucase f2 (i - 1) v acc
          else acc)"

declare numb_loop.simps [simp del]

record numfmt =
  nf_chr :: char
  nf_f2 :: "int option"
  nf_unsign :: bool
  nf_sharp :: bool

definition numbase :: "char \<Rightarrow> nat" where
  "numbase c = (if c = CHR ''u'' \<or> c = CHR ''d'' then 10 else if c = CHR ''o'' then 8 else 16)"

text \<open>
  \<open>v\<close> is the argument after the integer promotions; \<open>w\<close> is the width of the variable that holds
  it, 32 for \<open>v\<close> and 64 for \<open>vl\<close>.
\<close>

definition numbconv :: "numfmt \<Rightarrow> nat \<Rightarrow> int \<Rightarrow> byte list" where
  "numbconv fp w v =
    (let b = numbase (nf_chr fp); ucase = (nf_chr fp = CHR ''X'');
         f = (\<not> (nf_unsign fp \<or> nf_chr fp = CHR ''u'') \<and> v < 0);
         v = (if f then - v else v);
         s = numb_loop b ucase (nf_f2 fp) (IDIGIT - 2) (nat (v mod 2 ^ w)) [];
         s = (if nf_sharp fp then
                if b = 8 then (if hd s \<noteq> 48 then 48 # s else s)
                else if b = 16 then 48 # (if ucase then 88 else 120) # s else s
              else s)
     in if f then 45 # s else s)"

definition fmt_d :: numfmt where
  "fmt_d = \<lparr>nf_chr = CHR ''d'', nf_f2 = None, nf_unsign = False, nf_sharp = False\<rparr>"

text \<open>\<open>sprint(s, "%d", v)\<close> and \<open>sprint(s, "%lld", v)\<close>, without the final zero.\<close>

definition sprint_d :: "int \<Rightarrow> byte list" where
  "sprint_d v = numbconv fmt_d 32 v"

definition sprint_lld :: "int \<Rightarrow> byte list" where
  "sprint_lld v = numbconv fmt_d 64 v"

section \<open>strtol, strtoll\<close>

definition isspace :: "byte \<Rightarrow> bool" where
  "isspace c \<longleftrightarrow> c = 32 \<or> c = 9 \<or> c = 10 \<or> c = 12 \<or> c = 13 \<or> c = 11"

partial_function (option) skip_space :: "cptr \<Rightarrow> nat \<Rightarrow> nat option" where
  "skip_space s p = (if isspace (s p) then skip_space s (p + 1) else Some p)"

definition scan_sign :: "cptr \<Rightarrow> nat \<Rightarrow> nat \<times> bool" where
  "scan_sign s p = (if s p = 45 \<or> s p = 43 then (p + 1, s p = 45) else (p, False))"

text \<open>The base and where the digits start; \<open>None\<close> for a base out of range.\<close>

definition scan_base :: "cptr \<Rightarrow> int \<Rightarrow> nat \<Rightarrow> (nat \<times> int) option" where
  "scan_base s base p =
    (if base = 0 then
       (if s p \<noteq> 48 then Some (p, 10)
        else if s (p + 1) = 120 \<or> s (p + 1) = 88 then Some (p + 2, 16) else Some (p, 8))
     else if base = 16 \<and> s p = 48 then
       (if s (p + 1) = 120 \<or> s (p + 1) = 88 then Some (p + 2, base) else Some (p, base))
     else if base < 0 \<or> 36 < base then None
     else Some (p, base))"

text \<open>The value of a digit; \<open>base\<close> for what is not one (bytes above 127 are negative chars).\<close>

definition digit :: "int \<Rightarrow> byte \<Rightarrow> int" where
  "digit base c =
    (let k = sint c in
     if 48 \<le> k \<and> k \<le> 57 then k - 48
     else if 97 \<le> k \<and> k \<le> 122 then k - 97 + 10
     else if 65 \<le> k \<and> k \<le> 90 then k - 65 + 10
     else base)"

partial_function (option) strtol_digits ::
  "cptr \<Rightarrow> int \<Rightarrow> nat \<Rightarrow> u32 \<Rightarrow> bool \<Rightarrow> nat \<Rightarrow> (nat \<times> u32 \<times> bool \<times> nat) option" where
  "strtol_digits s base p n ovfl ndig =
    (let v = digit base (s p) in
     if v \<ge> base then Some (p, n, ovfl, ndig)
     else
       let nn = n * word_of_int base + word_of_int v in
       strtol_digits s base (p + 1) nn (ovfl \<or> nn <s n) (ndig + 1))"

text \<open>The value and \<open>*endptr\<close>, as an offset from \<open>nptr\<close>.\<close>

definition strtol :: "cptr \<Rightarrow> int \<Rightarrow> (u32 \<times> nat) option" where
  "strtol nptr base = do {
     p \<leftarrow> skip_space nptr 0;
     let (p, neg) = scan_sign nptr p;
     case scan_base nptr base p of
       None \<Rightarrow> Some (0, 0)
     | Some (p, base) \<Rightarrow> do {
         (p, n, ovfl, ndig) \<leftarrow> strtol_digits nptr base p 0 False 0;
         Some ((if ovfl then (if neg then word_of_int (- 2147483648) else word_of_int 2147483647)
                else if neg then - n else n),
               if ndig = 0 then 0 else p) } }"

partial_function (option) strtoll_digits ::
  "cptr \<Rightarrow> int \<Rightarrow> nat \<Rightarrow> u64 \<Rightarrow> nat \<Rightarrow> (nat \<times> u64 \<times> nat) option" where
  "strtoll_digits s base p n ndig =
    (let v = digit base (s p) in
     if v \<ge> base then Some (p, n, ndig)
     else strtoll_digits s base (p + 1) (n * word_of_int base + word_of_int v) (ndig + 1))"

definition strtoll :: "cptr \<Rightarrow> int \<Rightarrow> (u64 \<times> nat) option" where
  "strtoll nptr base = do {
     p \<leftarrow> skip_space nptr 0;
     let (p, neg) = scan_sign nptr p;
     case scan_base nptr base p of
       None \<Rightarrow> Some (0, 0)
     | Some (p, base) \<Rightarrow> do {
         (p, n, ndig) \<leftarrow> strtoll_digits nptr base p 0 0;
         Some (if neg then - n else n, if ndig = 0 then 0 else p) } }"

section \<open>Decimal numbers read back\<close>

text \<open>The decimal digits of a number, most significant first.\<close>

fun decimal :: "nat \<Rightarrow> nat list" where
  "decimal v = (if v < 10 then [v] else decimal (v div 10) @ [v mod 10])"

declare decimal.simps [simp del]

definition digit_bytes :: "nat list \<Rightarrow> byte list" where
  "digit_bytes ds = map (\<lambda>d. of_nat (d + 48)) ds"

lemma numb_loop_decimal:
  "v < 10 ^ i \<Longrightarrow> 1 \<le> i \<Longrightarrow> numb_loop 10 u None i v acc = digit_bytes (decimal v) @ acc"
proof (induction i arbitrary: v acc)
  case (Suc i)
  show ?case
  proof (cases "v < 10")
    case True
    then have "v div 10 = 0" "v mod 10 = v" by simp_all
    then show ?thesis using True
      by (subst numb_loop.simps, subst decimal.simps) (simp add: Let_def digit_bytes_def)
  next
    case False
    then have "i \<noteq> 0" using Suc.prems by (cases i) auto
    moreover have "v div 10 < 10 ^ i" using Suc.prems(1) by (simp add: less_mult_imp_div_less)
    moreover have "0 < v div 10" using False by simp
    moreover have "v mod 10 + 48 \<le> 57" using mod_less_divisor [of 10 v] by simp
    ultimately show ?thesis using Suc.IH [of "v div 10"] False
      by (subst numb_loop.simps, subst decimal.simps) (auto simp: Let_def digit_bytes_def not_less)
  qed
qed simp

definition value10 :: "nat \<Rightarrow> nat list \<Rightarrow> nat" where
  "value10 n ds = foldl (\<lambda>n d. n * 10 + d) n ds"

lemma value10_simps [simp]:
  "value10 n [] = n" "value10 n (d # ds) = value10 (n * 10 + d) ds"
  "value10 n (xs @ ys) = value10 (value10 n xs) ys"
  by (simp_all add: value10_def)

lemma value10_decimal: "value10 0 (decimal v) = v"
proof (induction v rule: decimal.induct)
  case (1 v)
  then show ?case by (subst decimal.simps) simp
qed

lemma decimal_digits: "d \<in> set (decimal v) \<Longrightarrow> d < 10"
proof (induction v rule: decimal.induct)
  case (1 v)
  then show ?case by (subst (asm) (2) decimal.simps) (auto split: if_splits)
qed

lemma decimal_not_Nil [simp]: "decimal v \<noteq> []"
  by (subst decimal.simps) simp

lemma value10_ge: "n \<le> value10 n ds"
proof (induction ds arbitrary: n)
  case (Cons d ds)
  have "n \<le> n * 10 + d" by simp
  also have "\<dots> \<le> value10 (n * 10 + d) ds" by (rule Cons.IH)
  finally show ?case by simp
qed simp

lemma digit_byte: "d < 10 \<Longrightarrow> digit 10 (of_nat (d + 48)) = int d"
proof -
  have "\<forall>d \<in> set [0 ..< 10]. digit 10 (of_nat (d + 48)) = int d" by code_simp
  then show "d < 10 \<Longrightarrow> digit 10 (of_nat (d + 48)) = int d" by (simp only: set_upt atLeastLessThan_iff) simp
qed

lemma sint_small: "k < 2 ^ 31 \<Longrightarrow> sint (of_nat k :: u32) = int k"
proof -
  assume "k < 2 ^ 31"
  then have k: "int k < 2 ^ 31" by simp
  have "of_nat k = (word_of_int (int k) :: u32)" by simp
  then have "sint (of_nat k :: u32) = signed_take_bit 31 (int k)" using sint_sbintrunc' [where 'a = 32, of "int k"] by simp
  also have "\<dots> = int k" by (rule signed_take_bit_int_eq_self) (use k in simp_all)
  finally show ?thesis .
qed

text \<open>Digits whose value stays below $2^{31}$ do not set the overflow flag.\<close>

lemma strtol_digits_scan:
  "holds (ptr_add s p) (digit_bytes ds) \<Longrightarrow> (\<forall>d \<in> set ds. d < 10) \<Longrightarrow> value10 n ds < 2 ^ 31 \<Longrightarrow>
   strtol_digits s 10 p (of_nat n) ov k =
     strtol_digits s 10 (p + length ds) (of_nat (value10 n ds)) ov (k + length ds)"
proof (induction ds arbitrary: p n k)
  case (Cons d ds)
  note p = Cons.prems(1) [unfolded digit_bytes_def list.map holds_Cons ptr_add_add, folded digit_bytes_def]
  have h: "s p = of_nat (d + 48)" "holds (ptr_add s (p + 1)) (digit_bytes ds)"
    by (rule p [THEN conjunct1, unfolded ptr_add_apply add_0_right], rule p [THEN conjunct2])
  have d: "digit 10 (s p) = int d" unfolding h(1) by (rule digit_byte) (use Cons.prems(2) in simp)
  have lt: "n * 10 + d < 2 ^ 31" using value10_ge [of "n * 10 + d" ds] Cons.prems(3) by simp
  let ?nn = "of_nat n * word_of_int 10 + word_of_int (int d) :: u32"
  have nn: "?nn = of_nat (n * 10 + d)" by (simp add: mult.commute)
  have "sint (of_nat (n * 10 + d) :: u32) = int (n * 10 + d)" "sint (of_nat n :: u32) = int n"
    using lt sint_small [of "n * 10 + d"] sint_small [of n] by simp_all
  then have "\<not> ?nn <s of_nat n" unfolding nn by (simp add: word_sless_alt)
  then show ?case using Cons.IH [OF h(2), of "n * 10 + d" "k + 1"] Cons.prems d nn
    by (subst strtol_digits.simps) (simp add: Let_def)
qed (simp add: digit_bytes_def)


lemma digit_zero: "digit 10 0 = 10"
  by (simp add: digit_def)

lemma strtol_digits_end: "s p = 0 \<Longrightarrow> strtol_digits s 10 p n ov k = Some (p, n, ov, k)"
  by (subst strtol_digits.simps) (simp add: digit_zero)

text \<open>The magnitude of the least number is the only one that sets the flag.\<close>

lemma strtol_digits_decimal:
  assumes h: "holds (ptr_add s p) (digit_bytes (decimal v) @ [0])" and v: "v \<le> 2 ^ 31"
  shows "strtol_digits s 10 p 0 False 0 = Some (p + length (decimal v), of_nat v, v = 2 ^ 31, length (decimal v))"
proof (cases "v = 2 ^ 31")
  case False
  then have lt: "v < 2 ^ 31" using v by simp
  have "s (p + length (decimal v)) = 0" using h by (simp add: digit_bytes_def)
  moreover have "holds (ptr_add s p) (digit_bytes (decimal v))" using h by (simp only: holds_append)
  ultimately show ?thesis
    using strtol_digits_scan [of s p "decimal v" 0 False 0] decimal_digits lt False
    by (simp add: value10_decimal strtol_digits_end)
next
  case True
  let ?w = "214748364 :: nat"
  have d: "decimal v = decimal ?w @ [8]" unfolding True by (subst decimal.simps) simp
  have h1: "holds (ptr_add s p) (digit_bytes (decimal ?w))" "s (p + length (decimal ?w)) = of_nat (8 + 48)"
      "s (p + length (decimal ?w) + 1) = 0"
    using h unfolding d by (simp_all add: digit_bytes_def)
  have e: "strtol_digits s 10 p 0 False 0 =
      strtol_digits s 10 (p + length (decimal ?w)) (of_nat ?w) False (length (decimal ?w))"
    using strtol_digits_scan [OF h1(1), of 0 False 0] decimal_digits by (simp add: value10_decimal)
  have "digit 10 (s (p + length (decimal ?w))) = 8" unfolding h1(2) using digit_byte [of 8] by simp
  then have "strtol_digits s 10 p 0 False 0 =
      strtol_digits s 10 (p + length (decimal ?w) + 1) 2147483648 True (length (decimal ?w) + 1)"
    unfolding e by (subst strtol_digits.simps) (simp add: Let_def word_sless_alt)
  then show ?thesis unfolding d using strtol_digits_end [of s "p + length (decimal ?w) + 1", OF h1(3)] True by simp
qed

lemma sprint_d_decimal:
  assumes "- (2 ^ 31) \<le> v" "v < 2 ^ 31"
  shows "sprint_d v = (if v < 0 then [45] else []) @ digit_bytes (decimal (nat \<bar>v\<bar>))"
proof -
  have n: "nat (\<bar>v\<bar> mod 2 ^ 32) = nat \<bar>v\<bar>" using assms by simp
  have "nat \<bar>v\<bar> < 10 ^ 28" using assms by simp
  then have "numb_loop 10 u None 28 (nat \<bar>v\<bar>) [] = digit_bytes (decimal (nat \<bar>v\<bar>))" for u
    using numb_loop_decimal [of "nat \<bar>v\<bar>" 28] by simp
  then show ?thesis using n
    by (cases "v < 0") (simp_all add: sprint_d_def numbconv_def fmt_d_def numbase_def IDIGIT_def Let_def)
qed

lemma skip_space_none: "\<not> isspace (s p) \<Longrightarrow> skip_space s p = Some p"
  by (subst skip_space.simps) simp

lemma digit_byte_facts:
  "d < 10 \<Longrightarrow> \<not> isspace (of_nat (d + 48)) \<and> of_nat (d + 48) \<noteq> (45 :: byte) \<and> of_nat (d + 48) \<noteq> (43 :: byte)"
proof -
  have "\<forall>d \<in> set [0 ..< 10]. \<not> isspace (of_nat (d + 48)) \<and> of_nat (d + 48) \<noteq> (45 :: byte) \<and>
      of_nat (d + 48) \<noteq> (43 :: byte)" by code_simp
  then show "d < 10 \<Longrightarrow> \<not> isspace (of_nat (d + 48)) \<and> of_nat (d + 48) \<noteq> (45 :: byte) \<and>
      of_nat (d + 48) \<noteq> (43 :: byte)" by (simp only: set_upt atLeastLessThan_iff) simp
qed

lemma strtol_sprint:
  assumes v: "- (2 ^ 31) \<le> v" "v < 2 ^ 31" and h: "holds p (sprint_d v @ [0])"
  shows "strtol p 10 = Some (word_of_int v, length (sprint_d v))"
proof -
  let ?n = "nat \<bar>v\<bar>" and ?k = "if v < 0 then 1 else (0 :: nat)"
  note s = sprint_d_decimal [OF v]
  have n: "?n \<le> 2 ^ 31" "?n = 2 ^ 31 \<longleftrightarrow> v = - (2 ^ 31)" using v by auto
  have hd: "holds (ptr_add p ?k) (digit_bytes (decimal ?n) @ [0])"
    using h unfolding s by (cases "v < 0") simp_all
  obtain d ds where d: "decimal ?n = d # ds" by (cases "decimal ?n") auto
  then have d10: "d < 10" using decimal_digits [of d ?n] by simp
  have pk: "p ?k = of_nat (d + 48)" using hd d by (simp add: digit_bytes_def)
  have sk: "skip_space p 0 = Some 0 \<and> scan_sign p 0 = (?k, v < 0)"
  proof (cases "v < 0")
    case True
    then have "p 0 = 45" using h unfolding s by simp
    then show ?thesis using True by (simp add: skip_space_none isspace_def scan_sign_def)
  next
    case False
    then show ?thesis using pk digit_byte_facts [OF d10] by (simp add: skip_space_none scan_sign_def)
  qed
  have "strtol_digits p 10 ?k 0 False 0 = Some (?k + length (decimal ?n), of_nat ?n, ?n = 2 ^ 31, length (decimal ?n))"
    by (rule strtol_digits_decimal [OF hd n(1)])
  moreover have "length (sprint_d v) = ?k + length (decimal ?n)" unfolding s by (simp add: digit_bytes_def)
  moreover have "(of_nat ?n :: u32) = word_of_int \<bar>v\<bar>" by simp
  ultimately show ?thesis using sk n(2)
    by (auto simp: strtol_def scan_base_def)
qed

text \<open>C28: a 32-bit number printed with \<open>%d\<close> is read back by \<open>strtol\<close> in base 10, which stops exactly
  at the end of the digits. This covers the least number, whose magnitude overflows on the way.\<close>

theorem strtol_reads_sprint:
  assumes "- (2 ^ 31) \<le> v" "v < 2 ^ 31" "holds p (sprint_d v @ [0])"
  shows "strtol p 10 = Some (word_of_int v, length (sprint_d v))"
  using assms by (rule strtol_sprint)

theorem strtol_reads_sprint_witness:
  "strtol (of_bytes (sprint_d (- 2147483648) @ [0])) 10 = Some (0x80000000, 11) \<and>
   strtol (of_bytes (sprint_d 42 @ [0])) 10 = Some (42, 2)"
proof -
  have "length (sprint_d (- 2147483648)) = 11" "length (sprint_d 42) = 2"
    by (simp_all add: sprint_d_decimal digit_bytes_def decimal.simps)
  then show ?thesis
    using strtol_reads_sprint [of "- 2147483648", OF _ _ holds_of_bytes]
      strtol_reads_sprint [of 42, OF _ _ holds_of_bytes] by simp
qed

text \<open>The flag only says that a partial value went down. A number with ten digits can overflow to a larger
  one, and is then returned modulo $2^{32}$ instead of the limit.\<close>

lemma strtol_missed_overflow:
  "strtol (of_bytes (digit_bytes [9, 9, 9, 9, 9, 9, 9, 9, 9, 9] @ [0])) 10 = Some (1410065407, 10)"
  by (simp add: strtol_def skip_space_none isspace_def of_bytes_def digit_bytes_def scan_sign_def scan_base_def
      strtol_digits.simps digit_def word_sless_alt)

end
