(* ===== verification/Str.thy ===== *)
theory Str
  imports Regs Conv
begin

text \<open>
  The strings of \<open>interp/string.c\<close>. A string is ASCII bytes (\<open>len\<close> not negative) or 16-bit runes
  (\<open>len\<close> negative), at offset 12 of its block. \<open>runes_of\<close> is the abstraction: the list of
  characters; the lemmas state each operation over it.
\<close>

section \<open>Constants\<close>

definition Sascii :: "addr \<Rightarrow> nat \<Rightarrow> addr" where "Sascii s i = str_data s + i"       \<comment> \<open>\<open>&s->Sascii[i]\<close>\<close>
definition Srune :: "addr \<Rightarrow> nat \<Rightarrow> addr" where "Srune s i = str_data s + 2 * i"   \<comment> \<open>\<open>&s->Srune[i]\<close>\<close>

definition ascii :: "addr \<Rightarrow> nat \<Rightarrow> byte M" where
  "ascii s i = gets (\<lambda>st. ld8 (v_mem st) (Sascii s i))"

definition rune :: "addr \<Rightarrow> nat \<Rightarrow> u16 M" where
  "rune s i = gets (\<lambda>st. ld16 (v_mem st) (Srune s i))"

definition str_lens :: "addr \<Rightarrow> int M" where
  "str_lens s = bindM (deref v_strings s) (\<lambda>x. ret (s_len x))"

section \<open>Allocation: newstring, stringdup, splitc\<close>

definition msize :: "addr \<Rightarrow> nat M" where
  "msize p = bindM (deref v_blks p) ret"

definition newstring :: "int \<Rightarrow> addr M" where
  "newstring nb = bindM (nheap (cint (int sizeof_String + nb))) (\<lambda>h.
     bindM (steps [set_ht h Tstring, inc_type Tstring]) (\<lambda>_.
     bindM (msize h) (\<lambda>sz.
     bindM (set_str (H2D h) \<lparr>s_len = nb, s_max = int sz - int (sizeof_String + sizeof_Heap), s_tmp = nil\<rparr>)
       (\<lambda>_. ret (H2D h)))))"

text \<open>\<open>ns->len = -l; ns->max /= sizeof(Rune)\<close>.\<close>

definition as_runes :: "addr \<Rightarrow> int \<Rightarrow> unit M" where
  "as_runes ns l = bindM (deref v_strings ns) (\<lambda>x.
     set_str ns (x\<lparr>s_len := - l, s_max := s_max x div int sizeof_Rune\<rparr>))"

definition stringdup :: "addr \<Rightarrow> addr M" where
  "stringdup s = (if s = H then ret H
     else bindM (str_lens s) (\<lambda>len.
       if len \<ge> 0 then
         bindM (newstring len) (\<lambda>ns.
         bindM (setm (memmove (Sascii ns 0) (Sascii s 0) (nat len))) (\<lambda>_. ret ns))
       else
         bindM (newstring (- len * int sizeof_Rune)) (\<lambda>ns.
         bindM (steps [as_runes ns (- len),
                 setm (memmove (Srune ns 0) (Srune s 0) (nat (- len) * sizeof_Rune))]) (\<lambda>_. ret ns))))"

text \<open>\<open>cvtup\<close>: widen the bytes of \<open>s\<close> to runes at \<open>r\<close>.\<close>

fun cvtup_loop :: "nat \<Rightarrow> addr \<Rightarrow> addr \<Rightarrow> unit M" where
  "cvtup_loop 0 r bp = skip"
| "cvtup_loop (Suc n) r bp = steps [
     setm (\<lambda>m. st16 m r (ucast (ld8 m bp))),
     cvtup_loop n (r + 2) (bp + 1)]"

definition cvtup :: "addr \<Rightarrow> addr \<Rightarrow> unit M" where
  "cvtup r s = bindM (str_lens s) (\<lambda>len. cvtup_loop (nat len) r (Sascii s 0))"

definition splitc :: "loc \<Rightarrow> bool \<Rightarrow> addr M" where
  "splitc s expand = bindM (gets (\<lambda>st. unat (loc32 s st))) (\<lambda>ss. bindM (str_lens ss) (\<lambda>len.
     bindM (if expand \<and> len > 0 then
             bindM (newstring (len * int sizeof_Rune)) (\<lambda>ns.
             bindM (steps [as_runes ns len, cvtup (Srune ns 0) ss]) (\<lambda>_. ret ns))
           else stringdup ss) (\<lambda>ns.
     bindM (steps [
       bindM (deref v_heaps (D2H ss)) (\<lambda>h. set_heap (D2H ss) (h\<lparr>h_ref := h_ref h - 1\<rparr>)),
       put32 s (of_nat ns)]) (\<lambda>_. ret ns))))"

section \<open>Comparison\<close>

text \<open>\<open>strncmp\<close> compares at most \<open>n\<close> bytes and stops at a zero byte.\<close>

fun strncmp :: "nat \<Rightarrow> cptr \<Rightarrow> cptr \<Rightarrow> int" where
  "strncmp 0 p q = 0"
| "strncmp (Suc n) p q =
    (if p 0 < q 0 then -1 else if p 0 > q 0 then 1
     else if p 0 = 0 then 0 else strncmp n (ptr_add p 1) (ptr_add q 1))"

text \<open>The loops of \<open>stringcmp\<close> on runes: \<open>None\<close> when \<open>n\<close> characters agree.\<close>

fun cmploop :: "nat \<Rightarrow> (nat \<Rightarrow> int) \<Rightarrow> (nat \<Rightarrow> int) \<Rightarrow> nat \<Rightarrow> int option" where
  "cmploop 0 f g i = None"
| "cmploop (Suc n) f g i =
    (if f i \<noteq> g i then Some (if f i < g i then -1 else 1) else cmploop n f g (Suc i))"

text \<open>The length of a string and its bytes and runes; \<open>H\<close> is the empty string \<open>snil\<close>.\<close>

definition str_view :: "addr \<Rightarrow> int M" where
  "str_view s = (if s = H then ret 0 else str_lens s)"

definition stringcmp :: "addr \<Rightarrow> addr \<Rightarrow> int M" where
  "stringcmp s1 s2 = bindM (str_view s1) (\<lambda>l1. bindM (str_view s2) (\<lambda>l2. bindM (gets v_mem) (\<lambda>m.
     let n1 = \<bar>l1\<bar>; n2 = \<bar>l2\<bar>; n = nat (min n1 n2);
         a1 = (\<lambda>i. sint (ld8 m (Sascii s1 i))); a2 = (\<lambda>i. sint (ld8 m (Sascii s2 i)));
         u1 = (\<lambda>i. uint (ld16 m (Srune s1 i))); u2 = (\<lambda>i. uint (ld16 m (Srune s2 i)))
     in ret
      (if l1 \<ge> 0 \<and> l2 \<ge> 0 then
         (let c = strncmp n (\<lambda>i. m (Sascii s1 i)) (\<lambda>i. m (Sascii s2 i)) in if c = 0 then n1 - n2 else c)
       else
         (case cmploop n (if l1 < 0 then u1 else a1) (if l2 < 0 then u2 else a2) 0 of
            Some c \<Rightarrow> c
          | None \<Rightarrow> n1 - n2)))))"

section \<open>Indexing: indc, insc, lenc\<close>

definition indc :: "unit M" where
  "indc = bindM (getW r_m) (\<lambda>v. bindM (getP r_s) (\<lambda>ss.
     if ss = H then error Tbounds
     else bindM (str_lens ss) (\<lambda>l.
       if l < 0 then
         (if uint v \<ge> - l then error Tbounds
          else bindM (rune ss (unat v)) (\<lambda>c. setW r_d (ucast c)))
       else
         (if uint v \<ge> l then error Tbounds
          else bindM (ascii ss (unat v)) (\<lambda>c. setW r_d (scast c))))))"

text \<open>\<open>insc\<close> after the destination has been made unique: the two branches of the store.\<close>

definition insc_rune :: "addr \<Rightarrow> int \<Rightarrow> nat \<Rightarrow> u32 \<Rightarrow> addr M" where
  "insc_rune ss l v r = bindM (deref v_strings ss) (\<lambda>x.
     let put = (\<lambda>s. setm (\<lambda>m. st16 m (Srune s v) (ucast r))) in
     if int v < l then bindM (put ss) (\<lambda>_. ret ss)
     else if int v < s_max x then bindM (steps [set_len ss (- (int v + 1)), put ss]) (\<lambda>_. ret ss)
     else if int v \<noteq> l then error Tbounds
     else bindM (newstring ((int v + 1 + int (v div 4)) * int sizeof_Rune)) (\<lambda>ns.
       bindM (steps [
         setm (memmove (Srune ns 0) (Srune ss 0) (nat (- s_len x) * sizeof_Rune)),
         put ns,
         as_runes ns (int v + 1)]) (\<lambda>_. ret ns)))"

definition insc_ascii :: "addr \<Rightarrow> int \<Rightarrow> nat \<Rightarrow> u32 \<Rightarrow> addr M" where
  "insc_ascii ss l v r = bindM (deref v_strings ss) (\<lambda>x.
     let put = (\<lambda>s. setm (\<lambda>m. st8 m (Sascii s v) (ucast r))) in
     if int v < l then bindM (put ss) (\<lambda>_. ret ss)
     else if int v < s_max x then bindM (steps [set_len ss (int v + 1), put ss]) (\<lambda>_. ret ss)
     else if int v \<noteq> l then error Tbounds
     else bindM (newstring (int v + 1 + int (v div 4))) (\<lambda>ns.
       bindM (steps [
         setm (memmove (Sascii ns 0) (Sascii ss 0) (nat l)),
         put ns,
         set_len ns (int v + 1)]) (\<lambda>_. ret ns)))"

definition insc :: "unit M" where
  "insc = bindM (getW r_s) (\<lambda>r. bindM (getW r_m) (\<lambda>v. bindM (getP r_d) (\<lambda>ss0.
     let expand = sint r \<ge> Runeself in
     bindM (if ss0 = H then
             bindM (newstring 0) (\<lambda>ss.
               if expand then
                 bindM (deref v_strings ss) (\<lambda>x.
                 bindM (set_str ss (x\<lparr>s_max := s_max x div int sizeof_Rune\<rparr>)) (\<lambda>_.
                 insc_rune ss 0 (unat v) r))
               else bindM (str_lens ss) (\<lambda>l. insc_ascii ss l (unat v) r))
           else
             bindM (heapref ss0) (\<lambda>n.
             bindM (if n > 1 \<or> expand then bindM (gets (\<lambda>st. r_d (v_R st))) (\<lambda>d. splitc d expand)
                   else ret ss0) (\<lambda>ss.
             bindM (str_lens ss) (\<lambda>l.
               if l < 0 then insc_rune ss (- l) (unat v) r else insc_ascii ss l (unat v) r))))
     (\<lambda>ss. bindM (getP r_d) (\<lambda>old. iff (ss \<noteq> old) (replace_d ss))))))"

definition lenc :: "unit M" where
  "lenc = bindM (getP r_s) (\<lambda>ss.
     if ss = H then setW r_d 0 else bindM (str_lens ss) (\<lambda>l. setW r_d (word_of_int \<bar>l\<bar>)))"

section \<open>Slices and concatenation\<close>

definition slicer :: "u32 \<Rightarrow> u32 \<Rightarrow> addr \<Rightarrow> addr M" where
  "slicer start v ds =
    (if ds = H then if start = 0 \<and> v = 0 then ret H else error Tbounds
     else bindM (str_lens ds) (\<lambda>len.
       let nc = uint v - uint start in
       if len < 0 then
         (if v < start \<or> uint v > - len then error Tbounds
          else bindM (newstring (nc * int sizeof_Rune)) (\<lambda>ns.
            bindM (steps [as_runes ns nc,
                    setm (memmove (Srune ns 0) (Srune ds (unat start)) (nat nc * sizeof_Rune))]) (\<lambda>_. ret ns)))
       else
         (if v < start \<or> uint v > len then error Tbounds
          else bindM (newstring nc) (\<lambda>ns.
            bindM (setm (memmove (Sascii ns 0) (Sascii ds (unat start)) (nat nc))) (\<lambda>_. ret ns)))))"

definition slicec :: "unit M" where
  "slicec = bindM (getW r_s) (\<lambda>start. bindM (getW r_m) (\<lambda>v. bindM (getP r_d) (\<lambda>ds.
     bindM (slicer start v ds) replace_d)))"

definition addstring :: "addr \<Rightarrow> addr \<Rightarrow> addr M" where
  "addstring s1 s2 =
    (if s1 = H then (if s2 \<noteq> H then stringdup s2 else ret H)
     else if s2 = H then stringdup s1
     else bindM (str_lens s1) (\<lambda>n1. bindM (str_lens s2) (\<lambda>n2.
       if n1 < 0 then
         (let l = - n1 + \<bar>n2\<bar>; l1 = nat (- n1) in
          bindM (newstring (l * int sizeof_Rune)) (\<lambda>ns.
          bindM (steps [as_runes ns l,
            setm (memmove (Srune ns 0) (Srune s1 0) (l1 * sizeof_Rune)),
            if n2 < 0 then setm (memmove (Srune ns l1) (Srune s2 0) (nat (- n2) * sizeof_Rune))
            else cvtup (Srune ns l1) s2]) (\<lambda>_. ret ns)))
       else if n2 < 0 then
         (let l = n1 + - n2 in
          bindM (newstring (l * int sizeof_Rune)) (\<lambda>ns.
          bindM (steps [as_runes ns l,
            cvtup (Srune ns 0) s1,
            setm (memmove (Srune ns (nat n1)) (Srune s2 0) (nat (- n2) * sizeof_Rune))]) (\<lambda>_. ret ns)))
       else
         bindM (newstring (n1 + n2)) (\<lambda>ns.
         bindM (steps [
            setm (memmove (Sascii ns 0) (Sascii s1 0) (nat n1)),
            setm (memmove (Sascii ns (nat n1)) (Sascii s2 0) (nat n2))]) (\<lambda>_. ret ns)))))"

definition addc :: "unit M" where
  "addc = bindM (getP r_m) (\<lambda>s1. bindM (getP r_s) (\<lambda>s2. bindM (addstring s1 s2) replace_d))"

section \<open>C strings: string2c, c2string\<close>

text \<open>The conversion loop of \<open>string2c\<close>: the bytes that the runes from \<open>r\<close> give.\<close>

fun string2c_bytes :: "u16 list \<Rightarrow> byte list" where
  "string2c_bytes [] = []"
| "string2c_bytes (c # cs) =
    (if uint c < Runeself then ucast c # string2c_bytes cs else runetochar c @ string2c_bytes cs)"

definition runes_at :: "(addr \<Rightarrow> byte) \<Rightarrow> addr \<Rightarrow> nat \<Rightarrow> u16 list" where
  "runes_at m a n = map (\<lambda>i. ld16 m (a + 2 * i)) [0..<n]"

text \<open>
  The result is what the returned pointer points at; a null pointer (no memory) traps at the
  caller's first use.
\<close>

definition string2c :: "addr \<Rightarrow> cptr M" where
  "string2c s = (if s = H then ret (of_bytes [])
     else bindM (deref v_strings s) (\<lambda>x.
       if s_len x \<ge> 0 then
         bindM (setm (\<lambda>m. st8 m (Sascii s (nat (s_len x))) 0)) (\<lambda>_.
         gets (\<lambda>st i. v_mem st (Sascii s i)))
       else
         let nc = - s_len x; l = nc * int UTFmax + int UTFmax in
         bindM (if s_tmp x \<noteq> nil then msize (s_tmp x) else ret 0) (\<lambda>sz.
         bindM (if s_tmp x = nil \<or> int sz < l then
                 bindM (free (s_tmp x)) (\<lambda>_. bindM (malloc l) (\<lambda>p.
                 bindM (set_str s (x\<lparr>s_tmp := p\<rparr>)) (\<lambda>_. ret p)))
               else ret (s_tmp x)) (\<lambda>p.
         if p = nil then fault
         else
           bindM (setm (\<lambda>m. store_bytes p (string2c_bytes (runes_at m (Srune s 0) (nat nc)) @ [0]) m))
             (\<lambda>_. gets (\<lambda>st i. v_mem st (p + i)))))))"

text \<open>
  \<open>c2string\<close> first counts: the ASCII prefix, then one character for each sequence that starts
  before the end.
\<close>

fun ascii_prefix :: "cptr \<Rightarrow> nat \<Rightarrow> nat \<Rightarrow> nat" where
  "ascii_prefix p 0 l = l"
| "ascii_prefix p (Suc len) l =
    (if uint (p l) \<ge> Runeself then l else ascii_prefix p len (l + 1))"

function c2count :: "cptr \<Rightarrow> nat \<Rightarrow> nat \<Rightarrow> nat \<Rightarrow> nat" where
  "c2count cs len p l =
    (if p < len then
       c2count cs len (if uint (cs p) < Runeself then p + 1 else p + snd (chartorune (ptr_add cs p))) (l + 1)
     else l)"
  by auto
termination
  by (relation "measure (\<lambda>(cs, len, p, l). len - p)")
     (use chartorune_pos in \<open>auto intro: diff_less_mono2\<close>)

function c2runes :: "cptr \<Rightarrow> nat \<Rightarrow> nat \<Rightarrow> u16 list" where
  "c2runes cs len p =
    (if p < len then
       let (r, n) = chartorune (ptr_add cs p) in r # c2runes cs len (p + n)
     else [])"
  by auto
termination
proof (relation "measure (\<lambda>(cs, len, p). len - p)")
  fix cs :: cptr and len p :: nat and x r n
  assume "p < len" "x = chartorune (ptr_add cs p)" "(r, n) = x"
  then have "0 < n" using chartorune_pos [of "ptr_add cs p"] by (metis snd_conv)
  then show "((cs, len, p + n), cs, len, p) \<in> measure (\<lambda>(cs, len, p). len - p)"
    using \<open>p < len\<close> by simp
qed simp

declare c2count.simps [simp del] c2runes.simps [simp del]

definition rune_bytes :: "u16 list \<Rightarrow> byte list" where
  "rune_bytes rs = concat (map (\<lambda>r. [ucast r, ucast (drop_bit 8 r)]) rs)"

definition c2string :: "cptr \<Rightarrow> int \<Rightarrow> addr M" where
  "c2string cs len =
    (let l = ascii_prefix cs (nat len) 0 in
     if l = nat len then
       bindM (newstring (int l)) (\<lambda>s.
       bindM (setm (store_bytes (Sascii s 0) (bytes_at cs l))) (\<lambda>_. ret s))
     else
       let l = c2count cs (nat len) l l in
       bindM (newstring (int l * int sizeof_Rune)) (\<lambda>s.
       bindM (steps [as_runes s (int l),
         setm (store_bytes (Srune s 0) (rune_bytes (c2runes cs (nat len) 0)))]) (\<lambda>_. ret s)))"

text \<open>Arrays of bytes.\<close>

definition mem2array :: "byte list option \<Rightarrow> int \<Rightarrow> addr M" where
  "mem2array va n = bindM (nheap (cint (int sizeof_Array + n))) (\<lambda>h.
     bindM (steps [
       set_ht h Tarray,
       inc_type Tarray,
       inc_type Tbyte,
       set_array (H2D h) \<lparr>a_len = word_of_int n, a_t = Tbyte, a_root = H, a_data = H2D h + sizeof_Array\<rparr>,
       (case va of Some bs \<Rightarrow> setm (store_bytes (H2D h + sizeof_Array) bs) | None \<Rightarrow> skip)])
     (\<lambda>_. ret (H2D h)))"

definition retnstr :: "cptr \<Rightarrow> int \<Rightarrow> loc \<Rightarrow> unit M" where
  "retnstr s n d = bindM (if n \<noteq> 0 then c2string s n else ret H) (\<lambda>s1. steps [
     bindM (gets (\<lambda>st. unat (loc32 d st))) destroy,
     put32 d (of_nat s1)])"

section \<open>Conversions\<close>

definition mem_bytes :: "addr \<Rightarrow> nat \<Rightarrow> byte list M" where
  "mem_bytes a n = gets (\<lambda>st. map (\<lambda>i. v_mem st (a + i)) [0..<n])"

definition cvtca :: "unit M" where
  "cvtca = bindM (getP r_s) (\<lambda>ss.
     bindM (if ss = H then mem2array None 0
           else bindM (str_lens ss) (\<lambda>len.
             if len < 0 then
               bindM (gets (\<lambda>st. runes_at (v_mem st) (Srune ss 0) (nat (- len)))) (\<lambda>rs.
               bindM (mem2array None (int (runenlen rs))) (\<lambda>a.
               bindM (deref v_arrays a) (\<lambda>x.
               bindM (setm (store_bytes (a_data x) (concat (map runetochar rs)))) (\<lambda>_. ret a))))
             else bindM (mem_bytes (Sascii ss 0) (nat len)) (\<lambda>bs. mem2array (Some bs) len)))
     replace_d)"

text \<open>The recount of \<open>cvtac\<close> when a sequence is cut off at the end: each stray byte counts one.\<close>

function ac_count :: "cptr \<Rightarrow> nat \<Rightarrow> nat \<Rightarrow> nat" where
  "ac_count p len s =
    (if s < len then
       Suc (ac_count p len
         (if fullrune (ptr_add p s) (len - s) then s + snd (chartorune (ptr_add p s)) else s + 1))
     else 0)"
  by auto
termination
  by (relation "measure (\<lambda>(p, len, s). len - s)")
     (use chartorune_pos in \<open>auto intro: diff_less_mono2\<close>)

declare ac_count.simps [simp del]

fun ac_runes :: "cptr \<Rightarrow> nat \<Rightarrow> nat \<Rightarrow> u16 list" where
  "ac_runes p 0 s = []"
| "ac_runes p (Suc nc) s =
    (let (r, n) = chartorune (ptr_add p s) in r # ac_runes p nc (s + n))"

definition cvtac :: "unit M" where
  "cvtac = bindM (getP r_s) (\<lambda>a.
     bindM (if a = H then ret H
           else bindM (deref v_arrays a) (\<lambda>x. bindM (gets (\<lambda>st i. v_mem st (a_data x + i))) (\<lambda>p.
             let len = nat (sint (a_len x)); (nc, nb) = utfnlen p len in
             if nc = len then
               bindM (newstring (int nc)) (\<lambda>ds.
               bindM (setm (memmove (Sascii ds 0) (a_data x) nc)) (\<lambda>_. ret ds))
             else
               let nc = (if len \<noteq> nb then ac_count p len 0 else nc) in
               bindM (newstring (int nc * int sizeof_Rune)) (\<lambda>ds.
               bindM (steps [as_runes ds (int nc),
                 setm (store_bytes (Srune ds 0) (rune_bytes (ac_runes p nc 0)))]) (\<lambda>_. ret ds)))))
     replace_d)"

text \<open>A scan of \<open>strtol\<close> or \<open>strtoll\<close> that runs off memory traps.\<close>

definition scanned :: "('a \<times> nat) option \<Rightarrow> 'a M" where
  "scanned o1 = (case o1 of Some (v, e) \<Rightarrow> ret v | None \<Rightarrow> fault)"

definition cvtcw :: "unit M" where
  "cvtcw = bindM (getP r_s) (\<lambda>s. if s = H then error Tbounds
     else bindM (string2c s) (\<lambda>p. bindM (scanned (strtol p 10)) (setW r_d)))"

definition cvtcl :: "unit M" where
  "cvtcl = bindM (getP r_s) (\<lambda>s. bindM (string2c s) (\<lambda>p. bindM (scanned (strtoll p 10)) (setV r_d)))"

text \<open>\<open>ds->len = sprint(ds->Sascii, ...)\<close>: the text and its final zero are stored.\<close>

definition sprint_new :: "int \<Rightarrow> byte list \<Rightarrow> unit M" where
  "sprint_new n bs = bindM (newstring n) (\<lambda>ds. steps [
     setm (store_bytes (Sascii ds 0) (bs @ [0])),
     set_len ds (int (length bs)),
     replace_d ds])"

definition cvtwc :: "unit M" where
  "cvtwc = bindM (getW r_s) (\<lambda>v. sprint_new 16 (sprint_d (sint v)))"

definition cvtlc :: "unit M" where
  "cvtlc = bindM (getV r_s) (\<lambda>v. sprint_new 16 (sprint_lld (sint v)))"

end
