(* ===== verification/Moves.thy ===== *)
theory Moves
  imports Str
begin

text \<open>
  The data movement operations of \<open>interp/xec.c\<close> that channels use as well: \<open>newc\<close> stores one
  of them in a channel and \<open>isend\<close> and \<open>irecv\<close> call it through \<open>c->mover\<close>.
\<close>

definition movb :: "unit M" where "movb = bindM (getB r_s) (setB r_d)"
definition movw :: "unit M" where "movw = bindM (getW r_s) (setW r_d)"
definition movf :: "unit M" where "movf = bindM (getV r_s) (setV r_d)"
definition movl :: "unit M" where "movl = bindM (getV r_s) (setV r_d)"

definition movm :: "unit M" where
  "movm = bindM (getA r_d) (\<lambda>d. bindM (getA r_s) (\<lambda>s. bindM (getW r_m) (\<lambda>n.
     setm (memmove d s (unat n)))))"

text \<open>Take a reference: \<open>h->ref++; Setmark(h)\<close> unless the pointer is \<open>H\<close>.\<close>

definition take_ref :: "addr \<Rightarrow> unit M" where
  "take_ref sv = iff (sv \<noteq> H) (steps [inc_ref (D2H sv), Setmark (D2H sv)])"

definition movp :: "unit M" where
  "movp = bindM (getP r_s) (\<lambda>sv. steps [
     take_ref sv,
     bindM (getP r_d) destroy,
     setP r_d sv])"

text \<open>Move a structure with pointers; \<open>R.M->type[i]\<close> past the end of the table is a fault.\<close>

definition mod_type :: "nat \<Rightarrow> addr M" where
  "mod_type i = bindM (gets (\<lambda>st. r_M (v_R st))) (\<lambda>m. bindM (deref v_mods m) (\<lambda>x.
     if i < length (m_type x) then ret (m_type x ! i) else fault))"

definition mov_struct :: "addr \<Rightarrow> unit M \<Rightarrow> unit M" where
  "mov_struct t safe = bindM (getA r_s) (\<lambda>s. bindM (getA r_d) (\<lambda>d. bindM (deref v_types t) (\<lambda>x. steps [
     incmem s t,
     safe,
     freeptrs destroy d t,
     setm (memmove d s (nat (t_size x)))])))"

definition movmp :: "unit M" where
  "movmp = bindM (getW r_m) (\<lambda>i. bindM (mod_type (unat i)) (\<lambda>t. mov_struct t skip))"

definition movtmp :: "unit M" where
  "movtmp = bindM (getP r_m) (\<lambda>t. mov_struct t skip)"

definition movtmpsafe :: "unit M" where
  "movtmpsafe = bindM (getP r_m) (\<lambda>t. bindM (getA r_s) (\<lambda>s.
     mov_struct t (safemem s t poolimmutable)))"

definition call_mover :: "mover \<Rightarrow> unit M" where
  "call_mover f = (case f of Movb \<Rightarrow> movb | Movw \<Rightarrow> movw | Movf \<Rightarrow> movf | Movl \<Rightarrow> movl
     | Movp \<Rightarrow> movp | Movm \<Rightarrow> movm | Movtmp \<Rightarrow> movtmp | Movtmpsafe \<Rightarrow> movtmpsafe)"

end
