(* ===== verification/Stackc.thy ===== *)
theory Stackc
  imports Moves
begin

text \<open>
  Stack extents, \<open>interp/stack.c\<close> and \<open>destroystack\<close> of \<open>xec.c\<close>. The first frame of an extent has
  no type of its own (\<open>f->t\<close> is nil): its type is the extent's \<open>TR\<close>, found 16 bytes before it.
\<close>

definition set_prog :: "addr \<Rightarrow> Prog \<Rightarrow> unit M" where
  "set_prog p x = upd (\<lambda>st. st\<lparr>v_progs := (v_progs st)(p \<mapsto> x)\<rparr>)"

text \<open>\<open>t = f->t; if(t == nil) t = SEXTYPE(f)->reg.TR\<close>.\<close>

definition frame_type :: "addr \<Rightarrow> addr M" where
  "frame_type f = bindM (getp (f_t f)) (\<lambda>t. if t = nil then getp (x_TR (SEXTYPE f)) else ret t)"

definition type_size :: "addr \<Rightarrow> nat M" where
  "type_size t = bindM (deref v_types t) (\<lambda>x. ret (nat (t_size x)))"

definition newstack :: "addr \<Rightarrow> unit M" where
  "newstack p = bindM (getP r_s) (\<lambda>f. bindM (frame_type f) (\<lambda>t.
     bindM (steps [setp (f_lr f) nil, setp (f_mr f) nil, setp (f_fp f) nil]) (\<lambda>_.
     bindM (deref v_progs p) (\<lambda>x. bindM (deref v_mods (r_M (p_R x))) (\<lambda>m.
     let l = uint (m_ss m) in
     bindM (poolalloc l) (\<lambda>ns.
       if ns = nil then error ''no memory''
       else bindM (type_size t) (\<lambda>sz. steps [
         setp (x_TR ns) t,
         setp (x_SP ns) nil,
         setp (x_TS ns) nil,
         setp (x_EX ns) nil,
         set_prog p (x\<lparr>p_R := (p_R x)\<lparr>r_EX := ns, r_TS := ns + nat l, r_SP := x_fu ns + sz,
           r_FP := x_fu ns\<rparr>\<rparr>),
         setm (memmove (x_fu ns) f sz),
         setp (f_t (x_fu ns)) nil])))))))"

text \<open>\<open>extend\<close> takes the frame's type in \<open>R.s\<close> and leaves the new frame there.\<close>

definition extend :: "addr \<Rightarrow> addr M" where
  "extend t = bindM (gets v_R) (\<lambda>R. bindM (deref v_mods (r_M R)) (\<lambda>m.
     let l = uint (m_ss m) in
     bindM (poolalloc l) (\<lambda>ns.
       if ns = nil then error ''no memory''
       else bindM (type_size t) (\<lambda>sz. let f = x_fu ns in
         bindM (steps [
           setp (x_TR ns) t,
           setp (x_SP ns) (r_SP R),
           setp (x_TS ns) (r_TS R),
           setp (x_EX ns) (r_EX R),
           setp (f_t f) nil,
           setp (f_mr f) nil,
           upd_R (\<lambda>R. R\<lparr>r_s := Mem f, r_EX := ns, r_TS := ns + nat l, r_SP := f + sz\<rparr>),
           initmem t f]) (\<lambda>_. ret f)))))"

definition unextend :: "addr \<Rightarrow> unit M" where
  "unextend f = (let sx = SEXTYPE f in
     bindM (getp (x_SP sx)) (\<lambda>sp. bindM (getp (x_TS sx)) (\<lambda>ts. bindM (getp (x_EX sx)) (\<lambda>ex. steps [
       upd_R (\<lambda>R. R\<lparr>r_SP := sp, r_TS := ts, r_EX := ex\<rparr>),
       bindM (getp (x_TR sx)) (freeptrs destroy f),
       free sx]))))"

definition unframe :: "unit M" where
  "unframe = bindM (gets (\<lambda>st. r_FP (v_R st))) (\<lambda>f. bindM (frame_type f) (\<lambda>t.
     bindM (type_size t) (\<lambda>sz. steps [
       upd_R (\<lambda>R. R\<lparr>r_SP := r_FP R + sz\<rparr>),
       bindM (getP r_s) (\<lambda>f. bindM (getp (f_t f)) (\<lambda>t. iff (t = nil) (
         let sx = SEXTYPE f in
         bindM (getp (x_TS sx)) (\<lambda>ts. bindM (getp (x_EX sx)) (\<lambda>ex. steps [
           upd_R (\<lambda>R. R\<lparr>r_TS := ts, r_EX := ex\<rparr>),
           free sx])))))])))"

text \<open>\<open>destroystack\<close>: the frames of an extent from \<open>fp\<close> up to \<open>sp\<close>, then the extent below.\<close>

definition destroyframes :: "addr \<Rightarrow> addr \<Rightarrow> addr \<Rightarrow> unit M" where
  "destroyframes sx fp sp = loop (\<lambda>fp.
     if fp = sp then leave ()
     else bindM (getp (f_t fp)) (\<lambda>t. bindM (if t = nil then getp (x_TR sx) else ret t) (\<lambda>t.
       bindM (type_size t) (\<lambda>sz. bindM (getp (f_mr fp)) (\<lambda>m. bindM (steps [
         freeptrs destroy fp t,
         iff (m \<noteq> nil) (unload m)]) (\<lambda>_. again (fp + sz))))))) fp"

definition destroyexts :: "addr \<Rightarrow> addr \<Rightarrow> unit M" where
  "destroyexts ex sp = loop (\<lambda>(ex, sp).
     if ex = nil then leave ()
     else bindM (destroyframes ex (x_fu ex) sp) (\<lambda>_.
       bindM (getp (x_EX ex)) (\<lambda>ex'. bindM (getp (x_SP ex)) (\<lambda>sp'.
       bindM (free ex) (\<lambda>_. again (ex', sp')))))) (ex, sp)"

definition destroystack :: "REG \<Rightarrow> unit M" where
  "destroystack reg = steps [
     destroyexts (r_EX reg) (r_SP reg),
     unload (r_M reg)]"

end
