(* ===== verification/Linked.thy ===== *)
theory Linked
  imports Vmstate "HOL-Library.Monad_Syntax"
begin

text \<open>
  Singly linked lists in the heap, as the run queue (through \<open>link\<close>), the queues of a channel
  (through \<open>comm\<close>), the list of progs (\<open>next\<close>) and the list of modules (\<open>link\<close>) use them: the
  searches these have in common, the abstraction \<open>lseg\<close> of a list segment, and what the two kinds
  of update, linking in at the end and unlinking, do to it. A list ends at nil.
\<close>

type_synonym nextfn = "addr \<Rightarrow> addr option"

text \<open>The search for \<open>p\<close>: the element before it (nil at the head), \<open>None\<close> when it is not there.\<close>

partial_function (option) findprev :: "nextfn \<Rightarrow> addr \<Rightarrow> addr \<Rightarrow> addr \<Rightarrow> addr option option" where
  "findprev next p prev f =
    (if f = nil then Some None
     else if f = p then Some (Some prev)
     else (case next f of None \<Rightarrow> None | Some g \<Rightarrow> findprev next p f g))"

text \<open>The last element.\<close>

partial_function (option) lastcomm :: "nextfn \<Rightarrow> addr \<Rightarrow> addr option" where
  "lastcomm next f =
    (case next f of None \<Rightarrow> None | Some g \<Rightarrow> if g = nil then Some f else lastcomm next g)"

text \<open>The element at a position, or nil.\<close>

partial_function (option) nth_prog :: "nextfn \<Rightarrow> int \<Rightarrow> addr \<Rightarrow> addr option" where
  "nth_prog next n p =
    (if p = nil \<or> n = 0 then Some p
     else (case next p of None \<Rightarrow> None | Some q \<Rightarrow> nth_prog next (n - 1) q))"

partial_function (option) count_progs :: "nextfn \<Rightarrow> nat \<Rightarrow> addr \<Rightarrow> nat option" where
  "count_progs next n p =
    (if p = nil then Some n
     else (case next p of None \<Rightarrow> None | Some q \<Rightarrow> count_progs next (n + 1) q))"

section \<open>Segments\<close>

fun lseg :: "nextfn \<Rightarrow> addr \<Rightarrow> addr list \<Rightarrow> addr \<Rightarrow> bool" where
  "lseg nx p [] q = (p = q)"
| "lseg nx p (x # xs) q = (p = x \<and> x \<noteq> nil \<and> (case nx x of None \<Rightarrow> False | Some n \<Rightarrow> lseg nx n xs q))"

text \<open>A whole list without repetition.\<close>

definition llist :: "nextfn \<Rightarrow> addr \<Rightarrow> addr list \<Rightarrow> bool" where
  "llist nx p xs \<longleftrightarrow> lseg nx p xs nil \<and> distinct xs"

lemma lseg_append:
  "lseg nx p (xs @ ys) q \<longleftrightarrow> (\<exists>r. lseg nx p xs r \<and> lseg nx r ys q)"
  by (induction xs arbitrary: p) (auto split: option.splits)

lemma lseg_nil_iff: "lseg nx nil xs nil \<longleftrightarrow> xs = []"
  by (cases xs) auto

lemma lseg_head: "lseg nx p (x # xs) q \<Longrightarrow> p = x"
  by simp

lemma lseg_not_nil: "lseg nx p xs q \<Longrightarrow> x \<in> set xs \<Longrightarrow> x \<noteq> nil \<and> nx x \<noteq> None"
  by (induction xs arbitrary: p) (auto split: option.splits)

lemma lseg_cong:
  "(\<And>x. x \<in> set xs \<Longrightarrow> nx x = nx' x) \<Longrightarrow> lseg nx p xs q \<longleftrightarrow> lseg nx' p xs q"
  by (induction xs arbitrary: p) (auto split: option.splits)

lemma lseg_upd_other [simp]: "x \<notin> set xs \<Longrightarrow> lseg (nx(x := v)) p xs q \<longleftrightarrow> lseg nx p xs q"
  by (rule lseg_cong) auto

lemma lseg_unique: "lseg nx p xs nil \<Longrightarrow> lseg nx p ys nil \<Longrightarrow> xs = ys"
proof (induction xs arbitrary: p ys)
  case Nil
  then show ?case by (cases ys) auto
next
  case (Cons x xs)
  then show ?case by (cases ys) (auto split: option.splits)
qed

text \<open>The link out of the last element.\<close>

lemma lseg_last:
  "lseg nx p xs nil \<Longrightarrow> xs \<noteq> [] \<Longrightarrow> nx (last xs) = Some nil"
  by (induction xs arbitrary: p) (auto split: option.splits)

lemma lseg_snoc:
  assumes "lseg nx p xs nil" "xs \<noteq> []" "distinct xs" "q \<notin> set xs" "q \<noteq> nil"
    and nx': "nx' q = Some nil" "nx' (last xs) = Some q"
      "\<And>x. x \<in> set xs \<Longrightarrow> x \<noteq> last xs \<Longrightarrow> nx' x = nx x"
  shows "lseg nx' p (xs @ [q]) nil"
  using assms
proof (induction xs arbitrary: p)
  case (Cons x xs)
  obtain n where n: "nx x = Some n" "lseg nx n xs nil" using Cons.prems(1) by (auto split: option.splits)
  show ?case
  proof (cases "xs = []")
    case True
    then show ?thesis using Cons.prems by auto
  next
    case False
    then have "lseg nx' n (xs @ [q]) nil"
      using Cons.prems by (intro Cons.IH n(2) False) auto
    moreover have "x \<noteq> last xs" using Cons.prems(3) False last_in_set [of xs] by auto
    then have x: "nx' x = Some n" using Cons.prems(8) [of x] n False by simp
    ultimately show ?thesis using Cons.prems(1) x by simp
  qed
qed simp

text \<open>Unlinking an inner element: its predecessor is linked to its successor.\<close>

lemma lseg_unlink:
  assumes "lseg nx p (xs @ a # x # ys) q" "distinct (xs @ a # x # ys)" "nx x = Some n"
  shows "lseg (nx(a \<mapsto> n)) p (xs @ a # ys) q"
proof -
  have "lseg nx n ys q" and "lseg nx p xs a" and "a \<noteq> nil"
    using assms by (auto simp: lseg_append split: option.splits)
  then show ?thesis using assms(2) by (auto simp: lseg_append)
qed

section \<open>The searches\<close>

lemma findprev_lseg:
  assumes "lseg nx f xs nil" "x \<in> set xs" "distinct xs"
  shows "findprev nx x prev f =
    Some (Some (if x = hd xs then prev else last (takeWhile (\<lambda>y. y \<noteq> x) xs)))"
  using assms
proof (induction xs arbitrary: f prev)
  case (Cons a xs)
  obtain n where n: "nx a = Some n" "lseg nx n xs nil" "f = a" "a \<noteq> nil"
    using Cons.prems by (auto split: option.splits)
  show ?case
  proof (cases "x = a")
    case True
    then show ?thesis using n by (subst findprev.simps) simp
  next
    case False
    then have "findprev nx x a n = Some (Some (if x = hd xs then a else last (takeWhile (\<lambda>y. y \<noteq> x) xs)))"
      using Cons n by simp
    moreover have "x \<noteq> hd xs \<Longrightarrow> takeWhile (\<lambda>y. y \<noteq> x) xs \<noteq> []"
      using False Cons.prems by (cases xs) auto
    moreover have "x = hd xs \<Longrightarrow> takeWhile (\<lambda>y. y \<noteq> x) xs = []"
      using False Cons.prems by (cases xs) auto
    ultimately show ?thesis using n False by (subst findprev.simps) auto
  qed
qed simp

lemma findprev_absent:
  "lseg nx f xs nil \<Longrightarrow> x \<notin> set xs \<Longrightarrow> x \<noteq> nil \<Longrightarrow> findprev nx x prev f = Some None"
proof (induction xs arbitrary: f prev)
  case Nil
  then show ?case by (subst findprev.simps) simp
next
  case (Cons a xs)
  obtain n where "nx a = Some n" "lseg nx n xs nil" "f = a" "a \<noteq> nil"
    using Cons.prems by (auto split: option.splits)
  then show ?case using Cons by (subst findprev.simps) auto
qed

text \<open>The same by position.\<close>

lemma findprev_at:
  assumes "lseg nx f (us @ x # ys) nil" "distinct (us @ x # ys)"
  shows "findprev nx x nil f = Some (Some (if us = [] then nil else last us))"
proof -
  have "takeWhile (\<lambda>y. y \<noteq> x) (us @ x # ys) = us"
    using assms(2) by (subst takeWhile_append2) auto
  moreover have "us \<noteq> [] \<Longrightarrow> x \<noteq> hd (us @ x # ys)" using assms(2) by (cases us) auto
  ultimately show ?thesis using findprev_lseg [OF assms(1), of x nil] assms(2) by auto
qed

lemma lastcomm_lseg:
  "lseg nx f xs nil \<Longrightarrow> xs \<noteq> [] \<Longrightarrow> lastcomm nx f = Some (last xs)"
proof (induction xs arbitrary: f)
  case (Cons a xs)
  obtain n where n: "nx a = Some n" "lseg nx n xs nil" "f = a"
    using Cons.prems by (auto split: option.splits)
  show ?case
  proof (cases xs)
    case Nil
    then show ?thesis using n by (subst lastcomm.simps) simp
  next
    case (Cons b ys)
    then have "n \<noteq> nil" "lastcomm nx n = Some (last xs)" using Cons.IH n by auto
    then show ?thesis using n Cons by (subst lastcomm.simps) simp
  qed
qed simp

lemma nth_prog_lseg:
  "lseg nx p xs nil \<Longrightarrow> nth_prog nx (int n) p = Some (if n < length xs then xs ! n else nil)"
proof (induction xs arbitrary: p n)
  case Nil
  then show ?case by (subst nth_prog.simps) simp
next
  case (Cons a xs)
  obtain m where m: "nx a = Some m" "lseg nx m xs nil" "p = a" "a \<noteq> nil"
    using Cons.prems by (auto split: option.splits)
  show ?case
  proof (cases n)
    case 0
    then show ?thesis using m by (subst nth_prog.simps) simp
  next
    case (Suc k)
    then show ?thesis using m Cons.IH [OF m(2), of k] by (subst nth_prog.simps) simp
  qed
qed

lemma count_progs_lseg: "lseg nx p xs nil \<Longrightarrow> count_progs nx n p = Some (n + length xs)"
proof (induction xs arbitrary: p n)
  case Nil
  then show ?case by (subst count_progs.simps) simp
next
  case (Cons a xs)
  obtain m where "nx a = Some m" "lseg nx m xs nil" "p = a" "a \<noteq> nil"
    using Cons.prems by (auto split: option.splits)
  then show ?case using Cons.IH [of m "n + 1"] by (subst count_progs.simps) simp
qed

section \<open>Queues\<close>

text \<open>
  What the scheduler and the channels rely on in a queue: \<open>holds_q st xs\<close> says that the queue of
  state \<open>st\<close> is the list \<open>xs\<close>; putting an element that is allowed in succeeds and appends it, and
  taking from a queue that is not empty succeeds and removes the first.
\<close>

locale fifo =
  fixes holds_q :: "vm \<Rightarrow> addr list \<Rightarrow> bool"
    and okq :: "vm \<Rightarrow> addr \<Rightarrow> bool"
    and putq :: "addr \<Rightarrow> unit M"
    and getq :: "addr M"
  assumes putq: "holds_q st xs \<Longrightarrow> okq st p \<Longrightarrow> p \<notin> set xs \<Longrightarrow>
      \<exists>st'. putq p st = Ok () st' \<and> holds_q st' (xs @ [p]) \<and> (\<forall>q. okq st q \<longrightarrow> okq st' q)"
    and getq: "holds_q st (x # xs) \<Longrightarrow>
      \<exists>st'. getq st = Ok x st' \<and> holds_q st' xs \<and> (\<forall>q. okq st q \<longrightarrow> okq st' q)"
begin

fun put_all :: "addr list \<Rightarrow> unit M" where
  "put_all [] = skip"
| "put_all (p # ps) = bindM (putq p) (\<lambda>_. put_all ps)"

fun get_all :: "nat \<Rightarrow> addr list M" where
  "get_all 0 = ret []"
| "get_all (Suc n) = bindM getq (\<lambda>x. bindM (get_all n) (\<lambda>xs. ret (x # xs)))"

lemma put_all_ok:
  "holds_q st xs \<Longrightarrow> \<forall>p \<in> set ps. okq st p \<Longrightarrow> distinct ps \<Longrightarrow> set ps \<inter> set xs = {} \<Longrightarrow>
    \<exists>st'. put_all ps st = Ok () st' \<and> holds_q st' (xs @ ps)"
proof (induction ps arbitrary: st xs)
  case (Cons p ps)
  obtain st' where s: "putq p st = Ok () st'" "holds_q st' (xs @ [p])" "\<forall>q. okq st q \<longrightarrow> okq st' q"
    using putq [of st xs p] Cons.prems by auto
  then show ?case using Cons.IH [of st' "xs @ [p]"] Cons.prems by (auto simp: bindM_def)
qed (auto simp: skip_def)

lemma get_all_ok:
  "holds_q st (xs @ ys) \<Longrightarrow> \<exists>st'. get_all (length xs) st = Ok xs st' \<and> holds_q st' ys"
proof (induction xs arbitrary: st)
  case (Cons x xs)
  obtain st' where s: "getq st = Ok x st'" "holds_q st' (xs @ ys)"
    using getq [of st x "xs @ ys"] Cons.prems by auto
  then obtain st'' where "get_all (length xs) st' = Ok xs st''" "holds_q st'' ys"
    using Cons.IH by blast
  then show ?case using s by (auto simp: bindM_def ret_def)
qed (auto simp: ret_def)

text \<open>Elements come out in the order in which they went in.\<close>

lemma first_in_first_out:
  assumes "holds_q st []" "\<forall>p \<in> set ps. okq st p" "distinct ps"
  shows "\<exists>st'. bindM (put_all ps) (\<lambda>_. get_all (length ps)) st = Ok ps st' \<and> holds_q st' []"
proof -
  obtain st' where s: "put_all ps st = Ok () st'" "holds_q st' ps"
    using put_all_ok [OF assms(1,2,3)] by auto
  then show ?thesis using get_all_ok [of st' ps "[]"] by (auto simp: bindM_def)
qed

end

end
