(* ===== verification/Sched.thy ===== *)
theory Sched
  imports Stackc Linked
begin

text \<open>
  The scheduler's queues (\<open>emu/dis.c\<close>): the run queue, singly linked through \<open>link\<close> from
  \<open>isched.runhd\<close> to \<open>isched.runtl\<close>, and the list of all progs, doubly linked through \<open>prev\<close> and
  \<open>next\<close>. The prog that runs is the head of the run queue.

  What leaves the virtual machine (waking a kernel process, telling a debugger or a waiting parent)
  is given by the record \<open>kern\<close>, which the operations that need it take as their argument.
\<close>

record kern =
  k_wakeup :: "addr \<Rightarrow> unit M"            \<comment> \<open>\<open>Wakeup(o->rend)\<close>\<close>
  k_swiproc :: "addr \<Rightarrow> unit M"           \<comment> \<open>interrupt the kernel process that runs the prog\<close>
  k_tell :: "addr \<Rightarrow> unit M"              \<comment> \<open>\<open>tellsomeone\<close>\<close>
  k_dbgexit :: "addr \<Rightarrow> unit M"
  k_debugged :: "addr \<Rightarrow> bool M"          \<comment> \<open>\<open>env->debug != nil\<close>\<close>
  k_closeenv :: "addr \<Rightarrow> unit M"          \<comment> \<open>\<open>closepgrp\<close> and \<open>closefgrp\<close>, released\<close>
  k_copyenv :: "addr \<Rightarrow> addr \<Rightarrow> unit M"  \<comment> \<open>the new prog's \<open>Osenv\<close> from its parent's\<close>

section \<open>Fields\<close>

definition prog :: "addr \<Rightarrow> Prog M" where
  "prog p = deref v_progs p"

definition upd_prog :: "addr \<Rightarrow> (Prog \<Rightarrow> Prog) \<Rightarrow> unit M" where
  "upd_prog p f = bindM (prog p) (\<lambda>x. set_prog p (f x))"

definition set_state :: "addr \<Rightarrow> pstate \<Rightarrow> unit M" where
  "set_state p s = upd_prog p (\<lambda>x. x\<lparr>p_state := s\<rparr>)"

definition set_link :: "addr \<Rightarrow> addr \<Rightarrow> unit M" where
  "set_link p q = upd_prog p (\<lambda>x. x\<lparr>p_link := q\<rparr>)"

definition set_runhd :: "addr \<Rightarrow> unit M" where
  "set_runhd p = upd (\<lambda>st. st\<lparr>v_runhd := p\<rparr>)"

definition set_runtl :: "addr \<Rightarrow> unit M" where
  "set_runtl p = upd (\<lambda>st. st\<lparr>v_runtl := p\<rparr>)"

definition set_head :: "addr \<Rightarrow> unit M" where
  "set_head p = upd (\<lambda>st. st\<lparr>v_head := p\<rparr>)"

definition set_tail :: "addr \<Rightarrow> unit M" where
  "set_tail p = upd (\<lambda>st. st\<lparr>v_tail := p\<rparr>)"

lemmas sched_prims = prog_def upd_prog_def set_prog_def set_state_def set_link_def set_runhd_def
  set_runtl_def set_head_def set_tail_def

declare sched_prims [vm_defs]

section \<open>The run queue\<close>

definition currun :: "addr M" where
  "currun = gets v_runhd"

text \<open>\<open>cwakeme\<close> is the only function that \<open>p->addrun\<close> is set to.\<close>

definition cwakeme :: "kern \<Rightarrow> addr \<Rightarrow> unit M" where
  "cwakeme K p = steps [upd_prog p (\<lambda>x. x\<lparr>p_addrun := None\<rparr>), k_wakeup K p]"

definition enqueue :: "addr \<Rightarrow> unit M" where
  "enqueue p = steps [
     set_state p Pready,
     set_link p nil,
     bindM (gets v_runhd) (\<lambda>hd. bindM (gets v_runtl) (\<lambda>tl.
       if hd = nil then set_runhd p else set_link tl p)),
     set_runtl p]"

definition addrun :: "kern \<Rightarrow> addr \<Rightarrow> unit M" where
  "addrun K p = bindM (prog p) (\<lambda>x. if p_addrun x \<noteq> None then cwakeme K p else enqueue p)"

definition delrun :: "pstate \<Rightarrow> addr M" where
  "delrun s = bindM (gets v_runhd) (\<lambda>p.
     bindM (steps [
       set_state p s,
       bindM (prog p) (\<lambda>x. steps [
         set_runhd (p_link x),
         iff (p_link x = nil) (set_runtl nil)])]) (\<lambda>_. ret p))"

definition links_of :: "(addr \<rightharpoonup> Prog) \<Rightarrow> nextfn" where
  "links_of ps p = map_option p_link (ps p)"

abbreviation plink :: "vm \<Rightarrow> nextfn" where
  "plink st \<equiv> links_of (v_progs st)"

definition delrunq :: "addr \<Rightarrow> unit M" where
  "delrunq p = bindM (gets (\<lambda>st. findprev (plink st) p nil (v_runhd st))) (\<lambda>r.
     case r of
       None \<Rightarrow> fault
     | Some None \<Rightarrow> skip
     | Some (Some prev) \<Rightarrow> bindM (prog p) (\<lambda>x. steps [
         (if prev = nil then set_runhd (p_link x) else set_link prev (p_link x)),
         bindM (gets v_runtl) (\<lambda>tl. iff (p = tl) (set_runtl prev))]))"

definition delruntail :: "pstate \<Rightarrow> addr M" where
  "delruntail s = bindM (gets v_runtl) (\<lambda>p.
     bindM (steps [delrunq p, set_state p s]) (\<lambda>_. ret p))"

text \<open>\<open>pushrun\<close>, and the last statements of \<open>acquire\<close>: to the front of the queue.\<close>

definition pushfront :: "addr \<Rightarrow> unit M" where
  "pushfront p = steps [
     set_state p Pready,
     bindM (gets v_runhd) (set_link p),
     set_runhd p,
     bindM (prog p) (\<lambda>x. iff (p_link x = nil) (set_runtl p))]"

definition pushrun :: "addr \<Rightarrow> unit M" where
  "pushrun p = bindM (prog p) (\<lambda>x. if p_addrun x \<noteq> None then fault else pushfront p)"

text \<open>\<open>vmachine\<close> after a quantum: the head goes to the tail.\<close>

definition rotate :: "unit M" where
  "rotate = bindM (gets v_runhd) (\<lambda>hd. bindM (gets v_runtl) (\<lambda>tl.
     iff (hd \<noteq> tl \<and> hd \<noteq> nil) (bindM (prog hd) (\<lambda>r. steps [
       set_runhd (p_link r),
       set_link hd nil,
       set_link tl hd,
       set_runtl hd]))))"

section \<open>Saving and restoring the registers\<close>

definition isave :: "addr M" where
  "isave = bindM (delrun Prelease) (\<lambda>p. bindM (gets v_R) (\<lambda>R.
     bindM (upd_prog p (\<lambda>x. x\<lparr>p_R := R\<rparr>)) (\<lambda>_. ret p)))"

definition irestore :: "addr \<Rightarrow> unit M" where
  "irestore p = bindM (prog p) (\<lambda>x. upd_R (\<lambda>_. (p_R x)\<lparr>r_IC := 1\<rparr>))"

section \<open>The list of progs\<close>

definition pnext :: "vm \<Rightarrow> addr \<Rightarrow> addr option" where
  "pnext st p = map_option p_next (v_progs st p)"

definition scan :: "addr option \<Rightarrow> addr M" where
  "scan r = (case r of None \<Rightarrow> fault | Some p \<Rightarrow> ret p)"

definition progn :: "int \<Rightarrow> addr M" where
  "progn n = bindM (gets (\<lambda>st. nth_prog (pnext st) n (v_head st))) scan"

partial_function (option) find_pid :: "(addr \<rightharpoonup> Prog) \<Rightarrow> int \<Rightarrow> addr \<Rightarrow> addr option" where
  "find_pid ps pid p =
    (if p = nil then Some nil
     else (case ps p of
         None \<Rightarrow> None
       | Some x \<Rightarrow> if p_pid x = pid then Some p else find_pid ps pid (p_next x)))"

definition progpid :: "int \<Rightarrow> addr M" where
  "progpid pid = bindM (gets (\<lambda>st. find_pid (v_progs st) pid (v_head st))) scan"

definition nprog :: "nat M" where
  "nprog = bindM (gets (\<lambda>st. count_progs (pnext st) 0 (v_head st)))
     (\<lambda>r. case r of None \<Rightarrow> fault | Some n \<Rightarrow> ret n)"

definition zero_prog :: Prog where
  "zero_prog = \<lparr>p_R = zero_R, p_link = nil, p_comm = nil, p_ptr = Mem nil, p_state = Palt,
     p_kill = False, p_pid = 0, p_grp = 0, p_quanta = 0, p_prev = nil, p_next = nil,
     p_addrun = None, p_osenv = nil\<rparr>"

definition sizeof_Prog :: int where "sizeof_Prog = 128"
definition sizeof_Osenv :: int where "sizeof_Osenv = 512"

text \<open>\<open>n->osenv\<close> is the memory after the \<open>Prog\<close>; \<open>p\<close> nil is the first prog.\<close>

definition newprog :: "kern \<Rightarrow> addr \<Rightarrow> addr M" where
  "newprog K p = bindM (malloc (sizeof_Prog + sizeof_Osenv)) (\<lambda>n.
     if n = nil then fault
     else bindM (steps [
       set_prog n zero_prog,
       addrun K n,
       upd (\<lambda>st. st\<lparr>v_pidnum := v_pidnum st + 1\<rparr>),
       bindM (gets v_pidnum) (\<lambda>pid. upd_prog n (\<lambda>x. x\<lparr>p_pid := pid, p_grp := pid\<rparr>)),
       bindM (gets v_tail) (\<lambda>tl.
         if tl \<noteq> nil then steps [
           upd_prog n (\<lambda>x. x\<lparr>p_prev := tl\<rparr>),
           upd_prog tl (\<lambda>x. x\<lparr>p_next := n\<rparr>)]
         else steps [
           set_head n,
           upd_prog n (\<lambda>x. x\<lparr>p_prev := nil\<rparr>)]),
       set_tail n,
       upd_prog n (\<lambda>x. x\<lparr>p_osenv := n + nat sizeof_Prog, p_quanta := 2048\<rparr>),
       iff (p \<noteq> nil) (bindM (prog p) (\<lambda>y. steps [
         upd_prog n (\<lambda>x. x\<lparr>p_grp := p_grp y\<rparr>),
         k_copyenv K n p]))]) (\<lambda>_. ret n))"

definition free_prog :: "addr \<Rightarrow> unit M" where
  "free_prog p = steps [upd (\<lambda>st. st\<lparr>v_progs := (v_progs st)(p := None)\<rparr>), free p]"

definition unlink_prog :: "addr \<Rightarrow> unit M" where
  "unlink_prog p = steps [
     bindM (prog p) (\<lambda>x.
       if p_prev x \<noteq> nil then upd_prog (p_prev x) (\<lambda>y. y\<lparr>p_next := p_next x\<rparr>)
       else set_head (p_next x)),
     bindM (prog p) (\<lambda>x.
       if p_next x \<noteq> nil then upd_prog (p_next x) (\<lambda>y. y\<lparr>p_prev := p_prev x\<rparr>)
       else set_tail (p_prev x))]"

definition delprog :: "kern \<Rightarrow> addr \<Rightarrow> unit M" where
  "delprog K p = steps [
     unlink_prog p,
     k_closeenv K p,
     k_tell K p,
     bindM (gets v_runhd) (\<lambda>hd. iff (p = hd) (bindM (prog p) (\<lambda>x. steps [
       set_runhd (p_link x),
       iff (p_link x = nil) (set_runtl nil)]))),
     set_state p Pdead,
     free_prog p]"

section \<open>The run queue as a list\<close>

definition rq :: "vm \<Rightarrow> addr list \<Rightarrow> bool" where
  "rq st xs \<longleftrightarrow> llist (plink st) (v_runhd st) xs \<and> v_runtl st = (if xs = [] then nil else last xs)"

definition okprog :: "vm \<Rightarrow> addr \<Rightarrow> bool" where
  "okprog st p \<longleftrightarrow> p \<noteq> nil \<and> v_progs st p \<noteq> None"

text \<open>What the queue operations leave alone: everything but the links and the scheduler states.\<close>

definition core :: "Prog \<Rightarrow> Prog" where
  "core x = x\<lparr>p_link := nil, p_state := Pready\<rparr>"

definition unsched :: "vm \<Rightarrow> vm" where
  "unsched st = st\<lparr>v_progs := Map.empty, v_runhd := nil, v_runtl := nil\<rparr>"

definition sched_frame :: "vm \<Rightarrow> vm \<Rightarrow> bool" where
  "sched_frame st st' \<longleftrightarrow> unsched st' = unsched st \<and>
    (\<forall>q. map_option core (v_progs st' q) = map_option core (v_progs st q))"

lemma links_of_upd [simp]: "links_of (ps(p \<mapsto> x)) = (links_of ps)(p \<mapsto> p_link x)"
  by (auto simp: links_of_def fun_eq_iff)

lemma links_of_None [simp]: "links_of ps p = None \<longleftrightarrow> ps p = None"
  by (simp add: links_of_def)

lemma unsched_simps [simp]:
  "unsched (st\<lparr>v_progs := ps\<rparr>) = unsched st" "unsched (st\<lparr>v_runhd := a\<rparr>) = unsched st"
  "unsched (st\<lparr>v_runtl := a\<rparr>) = unsched st"
  by (simp_all add: unsched_def)

lemma core_simps [simp]:
  "core (x\<lparr>p_link := a\<rparr>) = core x" "core (x\<lparr>p_state := s\<rparr>) = core x"
  by (simp_all add: core_def)

lemma sched_frame_refl [simp]: "sched_frame st st"
  by (simp add: sched_frame_def)

lemma sched_frame_trans: "sched_frame a b \<Longrightarrow> sched_frame b c \<Longrightarrow> sched_frame a c"
  by (auto simp: sched_frame_def)

lemma sched_frame_ok: "sched_frame st st' \<Longrightarrow> okprog st' p = okprog st p"
  by (metis (no_types, lifting) None_eq_map_option_iff okprog_def sched_frame_def)

lemma sched_frame_prog:
  "sched_frame st st' \<Longrightarrow> v_progs st q = Some x \<Longrightarrow> \<exists>y. v_progs st' q = Some y \<and> core y = core x"
  unfolding sched_frame_def by (metis map_option_eq_Some)

lemma rq_okprog: "rq st xs \<Longrightarrow> p \<in> set xs \<Longrightarrow> okprog st p"
  unfolding rq_def llist_def okprog_def using lseg_not_nil links_of_None by metis

lemma rq_unique: "rq st xs \<Longrightarrow> rq st ys \<Longrightarrow> xs = ys"
  by (auto simp: rq_def llist_def dest: lseg_unique)

lemma rq_head: "rq st xs \<Longrightarrow> v_runhd st = (if xs = [] then nil else hd xs)"
  by (cases xs) (auto simp: rq_def llist_def)

lemma enqueue_rq:
  assumes "rq st xs" "okprog st p" "p \<notin> set xs"
  shows "\<exists>st'. enqueue p st = Ok () st' \<and> rq st' (xs @ [p]) \<and> sched_frame st st' \<and>
    map_option p_state (v_progs st' p) = Some Pready"
proof -
  obtain x where x: "v_progs st p = Some x" "p \<noteq> nil" using assms(2) by (auto simp: okprog_def)
  show ?thesis
  proof (cases "xs = []")
    case True
    then have "v_runhd st = nil" using assms(1) by (simp add: rq_head)
    then show ?thesis using x True
      by (auto simp: enqueue_def vm_defs rq_def llist_def sched_frame_def)
  next
    case False
    let ?t = "last xs"
    have t: "v_runtl st = ?t" "v_runhd st \<noteq> nil" "?t \<noteq> p"
      using assms False by (auto simp: rq_def llist_def lseg_nil_iff)
    obtain y where y: "v_progs st ?t = Some y"
      using rq_okprog [OF assms(1), of ?t] False by (auto simp: okprog_def)
    have "enqueue p st = Ok () (st\<lparr>v_progs := (v_progs st)(p \<mapsto> x\<lparr>p_state := Pready, p_link := nil\<rparr>,
        ?t \<mapsto> y\<lparr>p_link := p\<rparr>), v_runtl := p\<rparr>)" (is "_ = Ok () ?st")
      using x y t by (simp add: enqueue_def vm_defs)
    moreover have "lseg (plink ?st) (v_runhd st) (xs @ [p]) nil"
      using assms(1,3) t False x by (intro lseg_snoc [where nx = "plink st"]) (auto simp: rq_def llist_def)
    ultimately show ?thesis
      using assms(1,3) x y t by (auto simp: rq_def llist_def sched_frame_def)
  qed
qed

lemma delrun_rq:
  assumes "rq st (p # xs)"
  shows "\<exists>st'. delrun s st = Ok p st' \<and> rq st' xs \<and> sched_frame st st' \<and>
    map_option p_state (v_progs st' p) = Some s"
proof -
  obtain x where x: "v_progs st p = Some x" "p \<noteq> nil"
    using rq_okprog [OF assms, of p] by (auto simp: okprog_def)
  have l: "lseg (plink st) (p_link x) xs nil" "v_runhd st = p" "p \<notin> set xs" "distinct xs"
    using assms x by (auto simp: rq_def llist_def links_of_def)
  then have "p_link x = nil \<longleftrightarrow> xs = []"
    by (cases xs) auto
  then show ?thesis using x l assms
    by (auto simp: delrun_def vm_defs rq_def llist_def sched_frame_def)
qed

lemma pushfront_rq:
  assumes "rq st xs" "okprog st p" "p \<notin> set xs"
  shows "\<exists>st'. pushfront p st = Ok () st' \<and> rq st' (p # xs) \<and> sched_frame st st'"
proof -
  obtain x where x: "v_progs st p = Some x" "p \<noteq> nil" using assms(2) by (auto simp: okprog_def)
  have "v_runhd st = nil \<longleftrightarrow> xs = []" using assms(1) rq_okprog [OF assms(1), of "hd xs"]
    by (cases xs) (auto simp: rq_head okprog_def)
  then show ?thesis using x assms
    by (auto simp: pushfront_def vm_defs rq_def llist_def sched_frame_def)
qed

lemma delrunq_rq:
  assumes "rq st xs" "p \<noteq> nil"
  shows "\<exists>st'. delrunq p st = Ok () st' \<and> rq st' (remove1 p xs) \<and> sched_frame st st'"
proof (cases "p \<in> set xs")
  case False
  then have "findprev (plink st) p nil (v_runhd st) = Some None"
    using assms by (auto simp: rq_def llist_def intro: findprev_absent)
  then show ?thesis using False assms by (auto simp: delrunq_def vm_defs remove1_idem)
next
  case True
  obtain us ys where xs: "xs = us @ p # ys" "p \<notin> set us" using split_list_first [OF True] by blast
  have r: "lseg (plink st) (v_runhd st) (us @ p # ys) nil" "distinct (us @ p # ys)"
    and tl: "v_runtl st = last xs"
    using assms xs by (auto simp: rq_def llist_def)
  obtain x where x: "v_progs st p = Some x" using rq_okprog [OF assms(1) True] by (auto simp: okprog_def)
  have f: "findprev (plink st) p nil (v_runhd st) = Some (Some (if us = [] then nil else last us))"
    using findprev_at [OF r] .
  have e: "remove1 p xs = us @ ys" using xs by (simp add: remove1_append)
  have nx: "plink st p = Some (p_link x)" using x by (simp add: links_of_def)
  show ?thesis
  proof (cases us rule: rev_cases)
    case Nil
    then have "lseg (plink st) (p_link x) ys nil" using r nx by simp
    moreover have "p = last xs \<longleftrightarrow> ys = []" using xs r Nil by auto
    ultimately show ?thesis unfolding e using Nil f x xs r tl assms(2)
      by (auto simp: delrunq_def vm_defs rq_def llist_def sched_frame_def)
  next
    case (snoc vs a)
    obtain y where y: "v_progs st a = Some y"
      using rq_okprog [OF assms(1), of a] xs snoc by (auto simp: okprog_def)
    have a: "a \<noteq> nil" "a \<noteq> p" using rq_okprog [OF assms(1), of a] xs snoc by (auto simp: okprog_def)
    have "lseg ((plink st)(a \<mapsto> p_link x)) (v_runhd st) (vs @ a # ys) nil"
      using r nx unfolding snoc by (intro lseg_unlink [of _ _ _ a p]) auto
    moreover have "p = last xs \<longleftrightarrow> ys = []" using xs r by auto
    ultimately show ?thesis unfolding e using snoc f x y a xs r tl
      by (auto simp: delrunq_def vm_defs rq_def llist_def sched_frame_def)
  qed
qed

lemma rotate_rq:
  assumes "rq st xs"
  shows "\<exists>st'. Sched.rotate st = Ok () st' \<and> rq st' (rotate1 xs) \<and> sched_frame st st'"
proof (cases "length xs \<ge> 2")
  case False
  then have "xs = [] \<or> (\<exists>a. xs = [a])" by (cases xs rule: remdups_adj.cases) auto
  then have "v_runhd st = v_runtl st" "rotate1 xs = xs" using assms by (auto simp: rq_def llist_def)
  then show ?thesis using assms by (auto simp: Sched.rotate_def vm_defs)
next
  case True
  then obtain a ys where xs: "xs = a # ys" "ys \<noteq> []" by (cases xs; cases "tl xs") auto
  obtain x y where x: "v_progs st a = Some x" "a \<noteq> nil" and y: "v_progs st (last ys) = Some y"
    using rq_okprog [OF assms, of a] rq_okprog [OF assms, of "last ys"] xs by (auto simp: okprog_def)
  have l: "lseg (plink st) (p_link x) ys nil" "v_runhd st = a" "v_runtl st = last ys" "a \<notin> set ys"
      "distinct ys"
    using assms xs x by (auto simp: rq_def llist_def links_of_def)
  have "last ys \<noteq> a" using l(4) last_in_set [OF xs(2)] by auto
  note l = l this
  have "Sched.rotate st = Ok () (st\<lparr>v_runhd := p_link x, v_progs := (v_progs st)(a \<mapsto> x\<lparr>p_link := nil\<rparr>,
      last ys \<mapsto> y\<lparr>p_link := a\<rparr>), v_runtl := a\<rparr>)" (is "_ = Ok () ?st")
    using x y l by (simp add: Sched.rotate_def vm_defs)
  moreover have "lseg (plink ?st) (p_link x) (ys @ [a]) nil"
    using l xs x by (intro lseg_snoc [where nx = "plink st"]) auto
  ultimately show ?thesis using xs l x y by (auto simp: rq_def llist_def sched_frame_def)
qed


interpretation runq: fifo rq okprog enqueue "delrun Prelease"
proof
  show "\<exists>st'. enqueue p st = Ok () st' \<and> rq st' (xs @ [p]) \<and> (\<forall>q. okprog st q \<longrightarrow> okprog st' q)"
    if "rq st xs" "okprog st p" "p \<notin> set xs" for st xs p
    using enqueue_rq [OF that] sched_frame_ok by blast
  show "\<exists>st'. delrun Prelease st = Ok x st' \<and> rq st' xs \<and> (\<forall>q. okprog st q \<longrightarrow> okprog st' q)"
    if "rq st (x # xs)" for st x xs
    using delrun_rq [OF that] sched_frame_ok by blast
qed

text \<open>\<open>addrun\<close> on a prog that no kernel process waits for.\<close>

lemma addrun_enqueue:
  assumes "v_progs st p = Some x" "p_addrun x = None"
  shows "addrun K p st = enqueue p st"
  using assms by (simp add: addrun_def vm_defs)

text \<open>The scheduler over \<open>n\<close> quanta in which no prog blocks or is created.\<close>

fun quanta :: "nat \<Rightarrow> unit M" where
  "quanta 0 = skip"
| "quanta (Suc n) = bindM Sched.rotate (\<lambda>_. quanta n)"

lemma quanta_rq:
  "rq st xs \<Longrightarrow> \<exists>st'. quanta n st = Ok () st' \<and> rq st' (List.rotate n xs) \<and> sched_frame st st'"
proof (induction n arbitrary: st xs)
  case 0
  then show ?case by (auto simp: skip_def)
next
  case (Suc n)
  obtain st1 where 1: "Sched.rotate st = Ok () st1" "rq st1 (rotate1 xs)" "sched_frame st st1"
    using rotate_rq [OF Suc.prems] by blast
  obtain st2 where 2: "quanta n st1 = Ok () st2" "rq st2 (List.rotate n (rotate1 xs))" "sched_frame st1 st2"
    using Suc.IH [OF 1(2)] by blast
  have "List.rotate (Suc n) xs = List.rotate n (rotate1 xs)"
    by (simp only: rotate_Suc rotate1_rotate_swap)
  then show ?case using 1 2 sched_frame_trans by (auto simp: bindM_def)
qed

text \<open>A kernel whose services do nothing.\<close>

definition ex_kern :: kern where
  "ex_kern = \<lparr>k_wakeup = (\<lambda>_. skip), k_swiproc = (\<lambda>_. skip), k_tell = (\<lambda>_. skip), k_dbgexit = (\<lambda>_. skip),
     k_debugged = (\<lambda>_. ret False), k_closeenv = (\<lambda>_. skip), k_copyenv = (\<lambda>_ _. skip)\<rparr>"

text \<open>A machine for the witnesses: three progs at addresses 1000, 2000, 3000 in the run queue.\<close>

definition ex_sched :: vm where
  "ex_sched = zero_vm\<lparr>v_progs := [1000 \<mapsto> zero_prog\<lparr>p_link := 2000\<rparr>,
     2000 \<mapsto> zero_prog\<lparr>p_link := 3000\<rparr>, 3000 \<mapsto> zero_prog, 4000 \<mapsto> zero_prog],
     v_runhd := 1000, v_runtl := 3000\<rparr>"

lemma ex_sched_rq: "rq ex_sched [1000, 2000, 3000]"
  by (simp add: rq_def llist_def ex_sched_def links_of_def zero_prog_def nil_def)

lemma set_state_rq:
  assumes "rq st xs" "v_progs st p = Some x"
  shows "\<exists>st'. set_state p s st = Ok () st' \<and> rq st' xs \<and> sched_frame st st'"
proof -
  have "(links_of (v_progs st))(p \<mapsto> p_link x) = links_of (v_progs st)"
    using assms(2) by (auto simp: links_of_def fun_eq_iff)
  then show ?thesis using assms
    by (auto simp: vm_defs rq_def sched_frame_def)
qed

lemma delruntail_rq:
  assumes "rq st xs" "xs \<noteq> []"
  shows "\<exists>st'. delruntail s st = Ok (last xs) st' \<and> rq st' (butlast xs) \<and> sched_frame st st'"
proof -
  have t: "v_runtl st = last xs" "distinct xs" using assms by (auto simp: rq_def llist_def)
  have ok: "okprog st (last xs)" using rq_okprog [OF assms(1)] assms(2) by simp
  have r: "remove1 (last xs) xs = butlast xs"
    using t(2) assms(2) by (cases xs rule: rev_cases) (auto simp: remove1_append)
  obtain st1 where 1: "delrunq (last xs) st = Ok () st1" "rq st1 (butlast xs)" "sched_frame st st1"
    using delrunq_rq [OF assms(1), of "last xs"] ok r by (auto simp: okprog_def)
  obtain y where "v_progs st1 (last xs) = Some y"
    using sched_frame_ok [OF 1(3)] ok by (auto simp: okprog_def)
  then obtain st2 where "set_state (last xs) s st1 = Ok () st2" "rq st2 (butlast xs)" "sched_frame st1 st2"
    using set_state_rq [OF 1(2)] by blast
  then show ?thesis using 1 t sched_frame_trans
    by (auto simp: delruntail_def bindM_def gets_def ret_def skip_def)
qed

text \<open>C9: \<open>addrun\<close>, \<open>pushrun\<close>, \<open>delrun\<close>, \<open>delruntail\<close>, \<open>delrunq\<close> and \<open>rotate\<close> refine appending, prepending, taking
  the first, taking the last, removing and putting the first last on the list of ready progs that the links from
  \<open>isched.runhd\<close> represent, with \<open>isched.runtl\<close> always its last element; nothing but the links and
  the scheduler states changes.\<close>

theorem run_queue_refinement:
  assumes "rq st xs"
  shows "(\<forall>p x. v_progs st p = Some x \<and> p \<noteq> nil \<and> p_addrun x = None \<and> p \<notin> set xs \<longrightarrow>
        (\<exists>st'. addrun K p st = Ok () st' \<and> rq st' (xs @ [p]) \<and> sched_frame st st' \<and>
          map_option p_state (v_progs st' p) = Some Pready) \<and>
        (\<exists>st'. pushrun p st = Ok () st' \<and> rq st' (p # xs) \<and> sched_frame st st')) \<and>
    (xs \<noteq> [] \<longrightarrow>
        (\<exists>st'. delrun s st = Ok (hd xs) st' \<and> rq st' (tl xs) \<and> sched_frame st st' \<and>
          map_option p_state (v_progs st' (hd xs)) = Some s) \<and>
        (\<exists>st'. delruntail s st = Ok (last xs) st' \<and> rq st' (butlast xs) \<and> sched_frame st st')) \<and>
    (\<forall>q. q \<noteq> nil \<longrightarrow>
        (\<exists>st'. delrunq q st = Ok () st' \<and> rq st' (remove1 q xs) \<and> sched_frame st st')) \<and>
    (\<exists>st'. Sched.rotate st = Ok () st' \<and> rq st' (rotate1 xs) \<and> sched_frame st st')"
proof (intro conjI allI impI)
  show "\<exists>st'. Sched.rotate st = Ok () st' \<and> rq st' (rotate1 xs) \<and> sched_frame st st'" by (rule rotate_rq [OF assms])
  fix p x assume p: "v_progs st p = Some x \<and> p \<noteq> nil \<and> p_addrun x = None \<and> p \<notin> set xs"
  then have ok: "okprog st p" by (simp add: okprog_def)
  show "\<exists>st'. addrun K p st = Ok () st' \<and> rq st' (xs @ [p]) \<and> sched_frame st st' \<and>
      map_option p_state (v_progs st' p) = Some Pready"
    using enqueue_rq [OF assms ok] p by (simp add: addrun_enqueue)
  have "pushrun p st = pushfront p st" using p by (simp add: pushrun_def vm_defs)
  then show "\<exists>st'. pushrun p st = Ok () st' \<and> rq st' (p # xs) \<and> sched_frame st st'"
    using pushfront_rq [OF assms ok] p by simp
next
  assume "xs \<noteq> []"
  then obtain a ys where xs: "xs = a # ys" by (cases xs) auto
  show "\<exists>st'. delrun s st = Ok (hd xs) st' \<and> rq st' (tl xs) \<and> sched_frame st st' \<and>
      map_option p_state (v_progs st' (hd xs)) = Some s"
    using delrun_rq [of st a ys s] assms unfolding xs by simp
  show "\<exists>st'. delruntail s st = Ok (last xs) st' \<and> rq st' (butlast xs) \<and> sched_frame st st'"
    using delruntail_rq [OF assms \<open>xs \<noteq> []\<close>] .
next
  fix q :: addr assume "q \<noteq> nil"
  then show "\<exists>st'. delrunq q st = Ok () st' \<and> rq st' (remove1 q xs) \<and> sched_frame st st'"
    using delrunq_rq [OF assms] by blast
qed

theorem run_queue_refinement_witness:
  "\<exists>st'. delrunq 2000 ex_sched = Ok () st' \<and> rq st' [1000, 3000]"
proof -
  have "\<forall>q. q \<noteq> nil \<longrightarrow> (\<exists>st'. delrunq q ex_sched = Ok () st' \<and> rq st' (remove1 q [1000, 2000, 3000])
      \<and> sched_frame ex_sched st')"
    using run_queue_refinement [OF ex_sched_rq] by blast
  moreover have "(2000 :: addr) \<noteq> nil" by (simp add: nil_def)
  moreover have "remove1 2000 [1000, 2000, 3000] = [1000, 3000 :: addr]" by simp
  ultimately show ?thesis by metis
qed

text \<open>C35: round robin. After \<open>n\<close> quanta in which no prog blocks, the run queue is rotated by \<open>n\<close>: the prog at
  position \<open>i\<close> runs after \<open>i\<close> quanta, so none waits longer than the queue is long.\<close>

theorem round_robin:
  assumes "rq st xs"
  shows "\<exists>st'. quanta n st = Ok () st' \<and> rq st' (List.rotate n xs) \<and> sched_frame st st' \<and>
    (n < length xs \<longrightarrow> currun st' = Ok (xs ! n) st')"
proof -
  obtain st' where q: "quanta n st = Ok () st'" "rq st' (List.rotate n xs)" "sched_frame st st'"
    using quanta_rq [OF assms] by blast
  have "v_runhd st' = xs ! n" if "n < length xs"
    using rq_head [OF q(2)] that hd_rotate_conv_nth [of xs n] by (auto split: if_splits)
  then show ?thesis using q by (auto simp: currun_def gets_def)
qed

theorem round_robin_witness: "\<exists>st'. quanta 2 ex_sched = Ok () st' \<and> currun st' = Ok 3000 st'"
  using round_robin [OF ex_sched_rq, of 2] by auto

text \<open>Progs that become ready one after another on an empty queue run in that order.\<close>

theorem ready_order:
  assumes "rq st []" "\<forall>p \<in> set ps. okprog st p" "distinct ps"
  shows "\<exists>st'. bindM (runq.put_all ps) (\<lambda>_. runq.get_all (length ps)) st = Ok ps st' \<and> rq st' []"
  using assms by (rule runq.first_in_first_out)

theorem ready_order_witness:
  "\<exists>st'. bindM (runq.put_all [3000, 1000]) (\<lambda>_. runq.get_all 2)
      (ex_sched\<lparr>v_runhd := nil, v_runtl := nil\<rparr>) = Ok [3000, 1000] st' \<and> rq st' []"
proof -
  let ?st = "ex_sched\<lparr>v_runhd := nil, v_runtl := nil\<rparr>" and ?ps = "[3000, 1000 :: addr]"
  have "rq ?st []" "\<forall>p \<in> set ?ps. okprog ?st p" "distinct ?ps" and l: "2 = length ?ps"
    by (simp_all add: rq_def llist_def okprog_def ex_sched_def nil_def)
  from ready_order [OF this(1-3)] show ?thesis unfolding l .
qed

end
