(* ===== verification/Flow.thy ===== *)
theory Flow
  imports Heapc
begin

text \<open>
  Relations between states that operations follow. \<open>follows Q m\<close>: when \<open>m\<close> succeeds, the state before and the
  state after are related by \<open>Q\<close>. The locale \<open>flow\<close> carries a reflexive and transitive relation through the
  statements of the model and its loops; the locale \<open>release_relation\<close> carries one that the primitives of the heap
  follow through all that destroying a value does.
\<close>

named_theorems flow_intros \<open>operations that follow a relation\<close>

definition follows :: "(vm \<Rightarrow> vm \<Rightarrow> bool) \<Rightarrow> 'a M \<Rightarrow> bool" where
  "follows Q m \<longleftrightarrow> (\<forall>st a st'. m st = Ok a st' \<longrightarrow> Q st st')"

lemma followsD: "follows Q m \<Longrightarrow> m st = Ok a st' \<Longrightarrow> Q st st'"
  by (auto simp: follows_def)

locale flow =
  fixes Q :: "vm \<Rightarrow> vm \<Rightarrow> bool"
  assumes refl: "Q st st" and trans: "Q st st' \<Longrightarrow> Q st' st'' \<Longrightarrow> Q st st''"

context flow begin

lemma pure [flow_intros]: "follows Q (ret v)" "follows Q skip" "follows Q fault" "follows Q (error e)" "follows Q (gets f)"
  "follows Q (deref s p)" "follows Q (getp a)"
  by (auto simp: follows_def vm_defs getp_def refl split: option.splits)

lemma bind [flow_intros]: "follows Q m \<Longrightarrow> (\<And>a. follows Q (k a)) \<Longrightarrow> follows Q (bindM m k)"
  unfolding follows_def bindM_def by (auto split: outcome.splits) (metis trans)

lemma seq [flow_intros]: "follows Q (steps [])" "follows Q m \<Longrightarrow> follows Q (steps ms) \<Longrightarrow> follows Q (steps (m # ms))"
  by (auto intro: flow_intros)

lemma conds [flow_intros]:
  "follows Q u \<Longrightarrow> follows Q (iff b u)" "follows Q m \<Longrightarrow> follows Q n \<Longrightarrow> follows Q (if b then m else n)"
  by (auto simp: iff_def intro: flow_intros)

lemma alternatives [flow_intros]:
  "follows Q m \<Longrightarrow> (\<And>x. follows Q (f x)) \<Longrightarrow> follows Q (case r of None \<Rightarrow> m | Some x \<Rightarrow> f x)"
  "follows Q m \<Longrightarrow> (\<And>k. follows Q (h k)) \<Longrightarrow> follows Q (case i of 0 \<Rightarrow> m | Suc k \<Rightarrow> h k)"
  by (auto split: option.splits nat.splits)

lemma seq_map [flow_intros]: "(\<And>i. follows Q (f i)) \<Longrightarrow> follows Q (steps (map f is))"
  by (induction "is") (auto intro!: flow_intros)

lemma each [flow_intros]: "(\<And>a. follows Q (f a)) \<Longrightarrow> follows Q (foreach n sz a f)"
  by (induction n sz a f rule: foreach.induct) (auto intro!: flow_intros)

lemma loops [flow_intros]: "follows Q (again s)" "follows Q (leave b)" "(\<And>s. follows Q (body s)) \<Longrightarrow> follows Q (loop body s)"
proof -
  show "follows Q (again s)" "follows Q (leave b)" by (simp_all add: loop_defs pure)
  assume body: "\<And>s. follows Q (body s)"
  have "Q st0 st'" if "loop body s st0 = Ok a st'" for st0 a st'
    by (rule loop_invariant [OF that, of "\<lambda>s st. Q st0 st"]) (use body in \<open>auto simp: follows_def intro: refl trans\<close>)
  then show "follows Q (loop body s)" by (simp add: follows_def)
qed

end

text \<open>What releasing values does to the state, one primitive at a time.\<close>

locale release_relation = flow +
  assumes store: "follows Q (set_heap h x)" "follows Q (set_type t y)" "follows Q (set_mod m z)"
    and give_back: "follows Q (poolfree h)" "follows Q (free a)" "follows Q (free_type t)" "follows Q (free_mod m)"
    and unlink: "follows Q (upd (\<lambda>st. st\<lparr>v_modules := l\<rparr>))"
    and lock: "follows Q gclock" "follows Q gcunlock"

context release_relation begin

lemma freetype: "follows Q (freetype t)" "follows Q (dec_type t)"
  unfolding freetype_def dec_type_def by (intro flow_intros store give_back)+

lemma freemap: "(\<And>v. follows Q (D v)) \<Longrightarrow> follows Q (freemap D w p)"
  by (induction D w p rule: freemap.induct) (auto simp del: steps.simps simp: freebit_def intro!: flow_intros)

lemma freeptrs: "(\<And>v. follows Q (D v)) \<Longrightarrow> follows Q (freeptrs D v t)"
  unfolding freeptrs_def by (intro flow_intros freemap)

lemma freearray: "(\<And>v. follows Q (D v)) \<Longrightarrow> follows Q (freearray D h)"
proof -
  assume D: "\<And>v. follows Q (D v)"
  have "follows Q (freeelems D n sz v t)" for n sz v t
    by (induction n arbitrary: v) (auto simp del: steps.simps intro!: flow_intros freeptrs D)
  then show ?thesis unfolding freearray_def by (intro flow_intros store give_back D)
qed

lemma freelist: "(\<And>v. follows Q (D v)) \<Longrightarrow> follows Q (freelist D h)"
  unfolding freelist_def Let_def freetail_def by (intro flow_intros freeptrs freetype store give_back)

lemma unload_n: "(\<And>v. follows Q (D v)) \<Longrightarrow> follows Q (unload_n D n m)"
proof (induction n arbitrary: m)
  have t: "follows Q (freetypes ts)" for ts by (induction ts) (auto simp del: steps.simps intro!: flow_intros freetype)
  have l: "follows Q (unlinkmod m)" for m unfolding unlinkmod_def case_prod_beta by (intro flow_intros store unlink)
  case 0
  show ?case unfolding unload_n.simps [of D 0] destroylinks_def nat.case by (intro flow_intros store give_back t l 0)
next
  have t: "follows Q (freetypes ts)" for ts by (induction ts) (auto simp del: steps.simps intro!: flow_intros freetype)
  have l: "follows Q (unlinkmod m)" for m unfolding unlinkmod_def case_prod_beta by (intro flow_intros store unlink)
  case (Suc n)
  show ?case unfolding unload_n.simps [of D "Suc n"] destroylinks_def nat.case by (intro flow_intros store give_back t l Suc)
qed

lemma call_free: "(\<And>v. follows Q (D v)) \<Longrightarrow> follows Q (call_free D f h)"
  unfolding call_free_def freestring_def freemodlink_def freechan_def freeheap_def
  by (cases f) (auto simp del: steps.simps intro!: flow_intros freearray freelist unload_n freeptrs freetype give_back)

lemma destroy: "follows Q (destroy v)"
proof -
  have "follows Q (destroy_n n v)" for n v
  proof (induction n arbitrary: v)
    case 0
    show ?case unfolding destroy_n.simps [of 0] nat.case by (intro flow_intros store give_back lock freetype)
  next
    case (Suc n)
    show ?case unfolding destroy_n.simps [of "Suc n"] nat.case
      by (intro flow_intros store give_back lock freetype call_free Suc)
  qed
  then show ?thesis unfolding destroy_def by (intro flow_intros)
qed

lemma unload: "follows Q (unload m)"
  unfolding unload_def by (intro unload_n destroy)

end

end
