(* ===== verification/Chan.thy ===== *)
theory Chan
  imports Sched Flow
begin

text \<open>
  Channels: creation, \<open>isend\<close> and \<open>irecv\<close> (\<open>interp/xec.c\<close>), the three passes of \<open>alt\<close>
  (\<open>interp/alt.c\<close>), and \<open>killprog\<close> (\<open>emu/dis.c\<close>), which takes a prog out of whatever it waits
  for.
\<close>

section \<open>Fields\<close>

definition chan :: "addr \<Rightarrow> Channel M" where
  "chan c = deref v_chans c"

definition upd_chan :: "addr \<Rightarrow> (Channel \<Rightarrow> Channel) \<Rightarrow> unit M" where
  "upd_chan c f = bindM (chan c) (\<lambda>x. set_chan c (f x))"

definition set_comm :: "addr \<Rightarrow> addr \<Rightarrow> unit M" where
  "set_comm p q = upd_prog p (\<lambda>x. x\<lparr>p_comm := q\<rparr>)"

definition comms_of :: "(addr \<rightharpoonup> Prog) \<Rightarrow> nextfn" where
  "comms_of ps p = map_option p_comm (ps p)"

abbreviation pcomm :: "vm \<Rightarrow> nextfn" where
  "pcomm st \<equiv> comms_of (v_progs st)"

section \<open>Creation\<close>

definition cnewc :: "mover \<Rightarrow> addr M" where
  "cnewc mv = bindM (heap Tchannel) (\<lambda>h.
     bindM (set_chan (H2D h) \<lparr>c_send = nil, c_sendalt = nil, c_recv = nil, c_recvalt = nil,
        c_mover = mv, c_mid = 0\<rparr>) (\<lambda>_. ret (H2D h)))"

text \<open>\<open>newc\<close> destroys the old channel before it makes the new one.\<close>

definition newc :: "mover \<Rightarrow> addr M" where
  "newc mv = bindM (getP r_d) (\<lambda>old. bindM (destroy old) (\<lambda>_. bindM (cnewc mv) (\<lambda>c.
     bindM (setP r_d c) (\<lambda>_. ret c))))"

definition newcl :: "unit M" where "newcl = bindM (newc Movl) (\<lambda>_. skip)"
definition newcb :: "unit M" where "newcb = bindM (newc Movb) (\<lambda>_. skip)"
definition newcw :: "unit M" where "newcw = bindM (newc Movw) (\<lambda>_. skip)"
definition newcf :: "unit M" where "newcf = bindM (newc Movf) (\<lambda>_. skip)"
definition newcp :: "unit M" where "newcp = bindM (newc Movp) (\<lambda>_. skip)"

definition newcm :: "unit M" where
  "newcm = bindM (newc Movm) (\<lambda>c. bindM (getW r_s) (\<lambda>w. upd_chan c (\<lambda>x. x\<lparr>c_mid := w\<rparr>)))"

definition newcmp :: "unit M" where
  "newcmp = bindM (newc Movtmp) (\<lambda>c. bindM (getW r_s) (\<lambda>i. bindM (mod_type (unat i)) (\<lambda>t. steps [
     upd_chan c (\<lambda>x. x\<lparr>c_mid := of_nat t\<rparr>),
     inc_type t])))"

section \<open>Pulling out of an alt\<close>

text \<open>
  An \<open>Alt\<close> is in memory: \<open>nsend\<close>, \<open>nrecv\<close>, then a channel and a data pointer for each item, the
  sends first.
\<close>

definition alt_nsend :: "addr \<Rightarrow> nat M" where "alt_nsend a = gets (\<lambda>st. nat (sint (ld32 (v_mem st) a)))"
definition alt_nrecv :: "addr \<Rightarrow> nat M" where "alt_nrecv a = gets (\<lambda>st. nat (sint (ld32 (v_mem st) (a + 4))))"
definition alt_c :: "addr \<Rightarrow> nat \<Rightarrow> addr M" where "alt_c a i = getp (a + 8 + 8 * i)"
definition alt_ptr :: "addr \<Rightarrow> nat \<Rightarrow> addr M" where "alt_ptr a i = getp (a + 12 + 8 * i)"

text \<open>Is the item an array of channels?\<close>

definition is_array :: "addr \<Rightarrow> bool M" where
  "is_array c = bindM (deref v_heaps (D2H c)) (\<lambda>h. ret (h_t h = Tarray))"

definition put_prog_d :: "addr \<Rightarrow> u32 \<Rightarrow> unit M" where
  "put_prog_d p v = bindM (prog p) (\<lambda>x. put32 (r_d (p_R x)) v)"

definition set_ptr :: "addr \<Rightarrow> loc \<Rightarrow> unit M" where
  "set_ptr p l = upd_prog p (\<lambda>x. x\<lparr>p_ptr := l\<rparr>)"

text \<open>
  The loop of \<open>altunmark\<close> over the channels from \<open>ca\<close>: \<open>n\<close> is the index, \<open>k\<close> the number left,
  \<open>sel\<close> the selected channel (\<open>*sel\<close>); the result is \<open>*sel\<close> afterwards.
\<close>

fun altunmark_loop ::
  "nat \<Rightarrow> nat \<Rightarrow> addr \<Rightarrow> addr \<Rightarrow> addr \<Rightarrow> int \<Rightarrow> addr \<Rightarrow> nat \<Rightarrow> addr M" where
  "altunmark_loop 0 n ca ptr p sr sel dn = ret sel"
| "altunmark_loop (Suc k) n ca ptr p sr sel dn = bindM (getp ca) (\<lambda>c.
     bindM (iff (c \<noteq> H) (bindM (chan c) (\<lambda>x. iff (c_recvalt x = p) (upd_chan c (\<lambda>x. x\<lparr>c_recvalt := nil\<rparr>))))) (\<lambda>_.
     bindM (iff (sr = 1 \<and> sel = c) (steps [
         put_prog_d p (of_nat dn),
         set_ptr p (Mem (ptr + 4)),
         setm (\<lambda>m. st32 m ptr (of_nat n))])) (\<lambda>_.
     altunmark_loop k (n + 1) (ca + 4) ptr p sr (if sr = 1 \<and> sel = c then nil else sel) dn)))"

definition altunmark :: "addr \<Rightarrow> addr \<Rightarrow> addr \<Rightarrow> int \<Rightarrow> addr \<Rightarrow> nat \<Rightarrow> addr M" where
  "altunmark c ptr p sr sel dn = bindM (deref v_arrays c) (\<lambda>a.
     altunmark_loop (nat (sint (a_len a))) 0 (a_data a) ptr p sr sel dn)"

fun altdone_send :: "nat \<Rightarrow> nat \<Rightarrow> addr \<Rightarrow> addr \<Rightarrow> addr \<Rightarrow> int \<Rightarrow> addr M" where
  "altdone_send 0 n a p sel sr = ret sel"
| "altdone_send (Suc k) n a p sel sr = bindM (alt_c a n) (\<lambda>c. bindM (chan c) (\<lambda>x.
     bindM (iff (c_sendalt x = p) (upd_chan c (\<lambda>x. x\<lparr>c_sendalt := nil\<rparr>))) (\<lambda>_.
     bindM (iff (sr = 0 \<and> c = sel) (bindM (alt_ptr a n) (\<lambda>ptr. steps [
         set_ptr p (Mem ptr),
         put_prog_d p (of_nat n)]))) (\<lambda>_.
     altdone_send k (n + 1) a p (if sr = 0 \<and> c = sel then nil else sel) sr))))"

fun altdone_recv :: "nat \<Rightarrow> nat \<Rightarrow> addr \<Rightarrow> addr \<Rightarrow> addr \<Rightarrow> int \<Rightarrow> unit M" where
  "altdone_recv 0 n a p sel sr = skip"
| "altdone_recv (Suc k) n a p sel sr = bindM (alt_c a n) (\<lambda>c. bindM (is_array c) (\<lambda>arr.
     bindM (if arr then bindM (alt_ptr a n) (\<lambda>ptr. altunmark c ptr p sr sel n)
       else bindM (chan c) (\<lambda>x.
         bindM (iff (c_recvalt x = p) (upd_chan c (\<lambda>x. x\<lparr>c_recvalt := nil\<rparr>))) (\<lambda>_.
         bindM (iff (sr = 1 \<and> c = sel) (bindM (alt_ptr a n) (\<lambda>ptr. steps [
             set_ptr p (Mem ptr),
             put_prog_d p (of_nat n)]))) (\<lambda>_.
         ret (if sr = 1 \<and> c = sel then nil else sel))))) (\<lambda>sel.
     altdone_recv k (n + 1) a p sel sr)))"

definition altdone :: "addr \<Rightarrow> addr \<Rightarrow> addr \<Rightarrow> int \<Rightarrow> unit M" where
  "altdone a p sel sr = bindM (alt_nsend a) (\<lambda>ns. bindM (altdone_send ns 0 a p sel sr) (\<lambda>sel.
     bindM (alt_nsend a) (\<lambda>ns. bindM (alt_nrecv a) (\<lambda>nr. altdone_recv nr ns a p sel sr))))"

text \<open>\<open>altdone(p->R.s, ...)\<close>: the \<open>Alt\<close> a prog waits in.\<close>

definition altdone_of :: "addr \<Rightarrow> addr \<Rightarrow> int \<Rightarrow> unit M" where
  "altdone_of p sel sr = bindM (prog p) (\<lambda>x.
     case r_s (p_R x) of Mem a \<Rightarrow> altdone a p sel sr | _ \<Rightarrow> fault)"

section \<open>Send and receive\<close>

text \<open>Append the prog to the queue that starts at \<open>h0\<close>; \<open>sethd\<close> stores a new first prog.\<close>

definition comm_append :: "addr \<Rightarrow> (addr \<Rightarrow> unit M) \<Rightarrow> addr \<Rightarrow> unit M" where
  "comm_append h0 sethd p =
    (if h0 = nil then sethd p
     else bindM (gets (\<lambda>st. lastcomm (pcomm st) h0)) (\<lambda>r. bindM (scan r) (\<lambda>f. set_comm f p)))"

text \<open>
  The two queues of a channel are handled alike; \<open>fld\<close> and \<open>wr\<close> are the field, \<open>send\<close> or \<open>recv\<close>.
  \<open>queue_get\<close> takes a prog that is known to wait there.
\<close>

type_synonym chanfield = "Channel \<Rightarrow> addr"
type_synonym chanupd = "(addr \<Rightarrow> addr) \<Rightarrow> Channel \<Rightarrow> Channel"

definition queue_put :: "chanfield \<Rightarrow> chanupd \<Rightarrow> addr \<Rightarrow> addr \<Rightarrow> unit M" where
  "queue_put fld wr c p = steps [
     set_comm p nil,
     bindM (chan c) (\<lambda>x. comm_append (fld x) (\<lambda>p. upd_chan c (wr (\<lambda>_. p))) p)]"

definition queue_get :: "chanfield \<Rightarrow> chanupd \<Rightarrow> addr \<Rightarrow> addr M" where
  "queue_get fld wr c = bindM (chan c) (\<lambda>x. let p = fld x in
     bindM (prog p) (\<lambda>y. bindM (upd_chan c (wr (\<lambda>_. p_comm y))) (\<lambda>_. ret p)))"

definition isend :: "kern \<Rightarrow> unit M" where
  "isend K = bindM (getP r_d) (\<lambda>c. bindM (chan c) (\<lambda>x.
     if c_recv x = nil \<and> c_recvalt x = nil then
       bindM (delrun Psend) (\<lambda>p. bindM (gets v_R) (\<lambda>R. steps [
         upd_prog p (\<lambda>y. y\<lparr>p_ptr := r_s R, p_R := (p_R y)\<lparr>r_d := r_d R\<rparr>\<rparr>),
         upd_R (\<lambda>R. R\<lparr>r_IC := 1, r_t := 1\<rparr>),
         queue_put c_send c_send_update c p]))
     else
       bindM (if c_recvalt x \<noteq> nil then
                let p = c_recvalt x in
                bindM (steps [upd_chan c (\<lambda>x. x\<lparr>c_recvalt := nil\<rparr>), altdone_of p c 1]) (\<lambda>_. ret p)
              else queue_get c_recv c_recv_update c) (\<lambda>p.
       bindM (prog p) (\<lambda>y. bindM (chan c) (\<lambda>x. steps [
         upd_R (\<lambda>R. R\<lparr>r_m := Tmp (c_mid x), r_d := p_ptr y\<rparr>),
         call_mover (c_mover x),
         addrun K p,
         upd_R (\<lambda>R. R\<lparr>r_t := 0\<rparr>)])))))"

definition irecv :: "kern \<Rightarrow> unit M" where
  "irecv K = bindM (getP r_s) (\<lambda>c. bindM (chan c) (\<lambda>x.
     if c_send x = nil \<and> c_sendalt x = nil then
       bindM (delrun Precv) (\<lambda>p. bindM (gets v_R) (\<lambda>R. steps [
         upd_prog p (\<lambda>y. y\<lparr>p_ptr := r_d R, p_R := (p_R y)\<lparr>r_s := r_s R\<rparr>\<rparr>),
         upd_R (\<lambda>R. R\<lparr>r_IC := 1, r_t := 1\<rparr>),
         queue_put c_recv c_recv_update c p]))
     else
       bindM (if c_sendalt x \<noteq> nil then
                let p = c_sendalt x in
                bindM (steps [upd_chan c (\<lambda>x. x\<lparr>c_sendalt := nil\<rparr>), altdone_of p c 0]) (\<lambda>_. ret p)
              else queue_get c_send c_send_update c) (\<lambda>p.
       bindM (prog p) (\<lambda>y. bindM (chan c) (\<lambda>x. steps [
         upd_R (\<lambda>R. R\<lparr>r_m := Tmp (c_mid x), r_s := p_ptr y\<rparr>),
         call_mover (c_mover x),
         addrun K p,
         upd_R (\<lambda>R. R\<lparr>r_t := 0\<rparr>)])))))"

section \<open>alt\<close>

definition some_sender :: "Channel \<Rightarrow> bool" where
  "some_sender x \<longleftrightarrow> c_send x \<noteq> nil \<or> c_sendalt x \<noteq> nil"

fun altmark_loop :: "nat \<Rightarrow> addr \<Rightarrow> addr \<Rightarrow> nat \<Rightarrow> nat M" where
  "altmark_loop 0 ca p nrdy = ret nrdy"
| "altmark_loop (Suc k) ca p nrdy = bindM (getp ca) (\<lambda>c.
     if c = H then altmark_loop k (ca + 4) p nrdy
     else bindM (chan c) (\<lambda>x.
       bindM (upd_chan c (\<lambda>x. x\<lparr>c_recvalt := p\<rparr>)) (\<lambda>_.
       altmark_loop k (ca + 4) p (if some_sender x then nrdy + 1 else nrdy))))"

definition altmark :: "addr \<Rightarrow> addr \<Rightarrow> nat M" where
  "altmark c p = bindM (deref v_arrays c) (\<lambda>a. altmark_loop (nat (sint (a_len a))) (a_data a) p 0)"

fun altrdy_recv :: "nat \<Rightarrow> nat \<Rightarrow> addr \<Rightarrow> addr \<Rightarrow> nat \<Rightarrow> nat M" where
  "altrdy_recv 0 n a p nrdy = ret nrdy"
| "altrdy_recv (Suc k) n a p nrdy = bindM (alt_c a n) (\<lambda>c. bindM (is_array c) (\<lambda>arr.
     bindM (if arr then bindM (altmark c p) (\<lambda>r. ret (nrdy + r))
       else bindM (chan c) (\<lambda>x. bindM (upd_chan c (\<lambda>x. x\<lparr>c_recvalt := p\<rparr>)) (\<lambda>_.
         ret (if some_sender x then nrdy + 1 else nrdy)))) (\<lambda>nrdy.
     altrdy_recv k (n + 1) a p nrdy)))"

fun altrdy_send :: "nat \<Rightarrow> nat \<Rightarrow> addr \<Rightarrow> addr \<Rightarrow> nat \<Rightarrow> nat M" where
  "altrdy_send 0 n a p nrdy = ret nrdy"
| "altrdy_send (Suc k) n a p nrdy = bindM (alt_c a n) (\<lambda>c. bindM (chan c) (\<lambda>x.
     bindM (if c_recv x \<noteq> nil \<or> c_recvalt x \<noteq> nil then
              if c_recvalt x = p then
                bindM (altdone a p nil (-1)) (\<lambda>_. error ''alt send and receive on same chan'')
              else ret (nrdy + 1)
            else ret nrdy) (\<lambda>nrdy.
     bindM (upd_chan c (\<lambda>x. x\<lparr>c_sendalt := p\<rparr>)) (\<lambda>_. altrdy_send k (n + 1) a p nrdy))))"

definition altrdy :: "addr \<Rightarrow> addr \<Rightarrow> nat M" where
  "altrdy a p = bindM (alt_nsend a) (\<lambda>ns. bindM (alt_nrecv a) (\<lambda>nr.
     bindM (altrdy_recv nr ns a p 0) (altrdy_send ns 0 a p)))"

text \<open>
  The loops of \<open>altcomm\<close> count \<open>which\<close> down over the ready items; \<open>Inl\<close> is the count that is
  left, \<open>Inr ()\<close> that the communication took place.
\<close>

fun altcomm_send :: "kern \<Rightarrow> nat \<Rightarrow> nat \<Rightarrow> addr \<Rightarrow> int \<Rightarrow> (int + unit) M" where
  "altcomm_send K 0 n a which = ret (Inl which)"
| "altcomm_send K (Suc k) n a which = bindM (alt_c a n) (\<lambda>c. bindM (chan c) (\<lambda>x.
     if c_recvalt x \<noteq> nil \<or> c_recv x \<noteq> nil then
       if which = 0 then
         bindM (setW r_d (of_nat n)) (\<lambda>_. bindM (alt_ptr a n) (\<lambda>ptr.
         bindM (upd_R (\<lambda>R. R\<lparr>r_s := Mem ptr, r_d := Tmp (of_nat c)\<rparr>)) (\<lambda>_.
         bindM (isend K) (\<lambda>_. ret (Inr ())))))
       else altcomm_send K k (n + 1) a (which - 1)
     else altcomm_send K k (n + 1) a which))"

fun altcomm_array :: "kern \<Rightarrow> nat \<Rightarrow> nat \<Rightarrow> addr \<Rightarrow> nat \<Rightarrow> addr \<Rightarrow> int \<Rightarrow> (int + unit) M" where
  "altcomm_array K 0 an ca n ptr which = ret (Inl which)"
| "altcomm_array K (Suc k) an ca n ptr which = bindM (getp ca) (\<lambda>c.
     if c = H then altcomm_array K k (an + 1) (ca + 4) n ptr which
     else bindM (chan c) (\<lambda>x.
       if some_sender x then
         if which = 0 then
           bindM (setW r_d (of_nat n)) (\<lambda>_.
           bindM (upd_R (\<lambda>R. R\<lparr>r_s := Tmp (of_nat c), r_d := Mem (ptr + 4)\<rparr>)) (\<lambda>_.
           bindM (setm (\<lambda>m. st32 m ptr (of_nat an))) (\<lambda>_.
           bindM (irecv K) (\<lambda>_. ret (Inr ())))))
         else altcomm_array K k (an + 1) (ca + 4) n ptr (which - 1)
       else altcomm_array K k (an + 1) (ca + 4) n ptr which))"

fun altcomm_recv :: "kern \<Rightarrow> nat \<Rightarrow> nat \<Rightarrow> addr \<Rightarrow> int \<Rightarrow> unit M" where
  "altcomm_recv K 0 n a which = skip"
| "altcomm_recv K (Suc k) n a which = bindM (alt_c a n) (\<lambda>c. bindM (is_array c) (\<lambda>arr.
     if arr then
       bindM (deref v_arrays c) (\<lambda>r. bindM (alt_ptr a n) (\<lambda>ptr.
       bindM (altcomm_array K (nat (sint (a_len r))) 0 (a_data r) n ptr which) (\<lambda>res.
         case res of Inr _ \<Rightarrow> skip | Inl which \<Rightarrow> altcomm_recv K k (n + 1) a which)))
     else bindM (chan c) (\<lambda>x.
       if some_sender x then
         if which = 0 then
           bindM (setW r_d (of_nat n)) (\<lambda>_. bindM (alt_ptr a n) (\<lambda>ptr.
           bindM (upd_R (\<lambda>R. R\<lparr>r_s := Tmp (of_nat c), r_d := Mem ptr\<rparr>)) (\<lambda>_. irecv K)))
         else altcomm_recv K k (n + 1) a (which - 1)
       else altcomm_recv K k (n + 1) a which)))"

definition altcomm :: "kern \<Rightarrow> addr \<Rightarrow> int \<Rightarrow> unit M" where
  "altcomm K a which = bindM (alt_nsend a) (\<lambda>ns. bindM (altcomm_send K ns 0 a which) (\<lambda>res.
     case res of Inr _ \<Rightarrow> skip
     | Inl which \<Rightarrow> bindM (alt_nrecv a) (\<lambda>nr. altcomm_recv K nr ns a which)))"

text \<open>The random number of \<open>xecalt\<close>: a shift register over 31 bits.\<close>

definition next_xrand :: "u32 \<Rightarrow> u32" where
  "next_xrand x = (let y = x + x in if y <s 0 then y XOR 0x88888EEF else y)"

definition xecalt :: "kern \<Rightarrow> bool \<Rightarrow> unit M" where
  "xecalt K block = bindM currun (\<lambda>p. bindM (getA r_s) (\<lambda>a. bindM (altrdy a p) (\<lambda>nrdy.
     if nrdy = 0 then
       if block then bindM (delrun Palt) (\<lambda>_. bindM (gets v_R) (\<lambda>R. steps [
         upd_prog p (\<lambda>y. y\<lparr>p_R := (p_R y)\<lparr>r_s := r_s R, r_d := r_d R\<rparr>\<rparr>),
         upd_R (\<lambda>R. R\<lparr>r_IC := 1, r_t := 1\<rparr>)]))
       else bindM (alt_nsend a) (\<lambda>ns. bindM (alt_nrecv a) (\<lambda>nr. steps [
         setW r_d (of_nat (ns + nr)),
         altdone a p nil (-1)]))
     else bindM (upd (\<lambda>st. st\<lparr>v_xrand := next_xrand (v_xrand st)\<rparr>)) (\<lambda>_.
       bindM (gets v_xrand) (\<lambda>x. steps [
         altcomm K a (sint x mod int nrdy),
         altdone a p nil (-1)])))))"

definition alt :: "kern \<Rightarrow> unit M" where
  "alt K = steps [upd_R (\<lambda>R. R\<lparr>r_t := 0\<rparr>), xecalt K True]"

definition nbalt :: "kern \<Rightarrow> unit M" where
  "nbalt K = xecalt K False"

section \<open>killprog\<close>

text \<open>The loop at \<open>delcomm\<close>: unlink \<open>p\<close> from the queue that starts at \<open>h0\<close>.\<close>

definition delcomm :: "addr \<Rightarrow> (addr \<Rightarrow> unit M) \<Rightarrow> addr \<Rightarrow> unit M" where
  "delcomm h0 sethd p = bindM (gets (\<lambda>st. findprev (pcomm st) p nil h0)) (\<lambda>r.
     case r of
       None \<Rightarrow> fault
     | Some None \<Rightarrow> skip
     | Some (Some prev) \<Rightarrow> bindM (prog p) (\<lambda>x.
         if prev = nil then sethd (p_comm x) else set_comm prev (p_comm x)))"

text \<open>\<open>*(Channel**)(p->R.d)\<close>: the channel a blocked prog waits on.\<close>

definition chan_at :: "loc \<Rightarrow> addr M" where
  "chan_at l = gets (\<lambda>st. unat (loc32 l st))"

definition unblock :: "kern \<Rightarrow> addr \<Rightarrow> Prog \<Rightarrow> bool M" where
  "unblock K p x =
    (let go = (\<lambda>m. bindM m (\<lambda>_. ret True)) in
     case p_state x of
       Palt \<Rightarrow> go (altdone_of p nil (-1))
     | Psend \<Rightarrow> go (bindM (chan_at (r_d (p_R x))) (\<lambda>c. bindM (chan c) (\<lambda>y.
         delcomm (c_send y) (\<lambda>q. upd_chan c (\<lambda>y. y\<lparr>c_send := q\<rparr>)) p)))
     | Precv \<Rightarrow> go (bindM (chan_at (r_s (p_R x))) (\<lambda>c. bindM (chan c) (\<lambda>y.
         delcomm (c_recv y) (\<lambda>q. upd_chan c (\<lambda>y. y\<lparr>c_recv := q\<rparr>)) p)))
     | Pready \<Rightarrow> go (delrunq p)
     | Prelease \<Rightarrow> bindM (steps [
         upd_prog p (\<lambda>x. x\<lparr>p_kill := True, p_state := Pexiting\<rparr>),
         k_swiproc K p]) (\<lambda>_. ret False)
     | Pexiting \<Rightarrow> ret False
     | Pbroken \<Rightarrow> ret True
     | Pdebug \<Rightarrow> ret True
     | Pdead \<Rightarrow> fault)"

text \<open>The result is whether the prog is gone.\<close>

definition killprog :: "kern \<Rightarrow> addr \<Rightarrow> bool M" where
  "killprog K p = bindM (gets v_runhd) (\<lambda>h0.
     if p = h0 then bindM (upd_prog p (\<lambda>x. x\<lparr>p_kill := True, p_state := Pexiting\<rparr>)) (\<lambda>_. ret False)
     else bindM (prog p) (\<lambda>x. bindM (unblock K p x) (\<lambda>go.
       if \<not> go then ret False
       else bindM (prog p) (\<lambda>x.
         if p_addrun x \<noteq> None then
           bindM (steps [
             upd_prog p (\<lambda>x. x\<lparr>p_kill := True\<rparr>),
             cwakeme K p,
             upd_prog p (\<lambda>x. x\<lparr>p_addrun := None\<rparr>)]) (\<lambda>_. ret False)
         else bindM (k_debugged K p) (\<lambda>dbg.
           if dbg then bindM (steps [set_state p Pbroken, k_dbgexit K p]) (\<lambda>_. ret False)
           else bindM (steps [
             set_state p Pexiting,
             gclock,
             bindM (prog p) (\<lambda>x. destroystack (p_R x)),
             delprog K p,
             gcunlock]) (\<lambda>_. ret True))))))"

section \<open>The queues of a channel as lists\<close>

definition commq :: "chanfield \<Rightarrow> addr \<Rightarrow> vm \<Rightarrow> addr list \<Rightarrow> bool" where
  "commq fld c st xs \<longleftrightarrow> (\<exists>x. v_chans st c = Some x \<and> llist (pcomm st) (fld x) xs)"

text \<open>A field of a channel and its update belong together.\<close>

definition chan_core :: "Channel \<Rightarrow> Channel" where
  "chan_core x = x\<lparr>c_send := nil, c_recv := nil\<rparr>"

definition field_ok :: "chanfield \<Rightarrow> chanupd \<Rightarrow> bool" where
  "field_ok fld wr \<longleftrightarrow> (\<forall>x f. fld (wr f x) = f (fld x) \<and> chan_core (wr f x) = chan_core x)"

lemma field_ok [simp]: "field_ok c_send c_send_update" "field_ok c_recv c_recv_update"
  by (simp_all add: field_ok_def chan_core_def)

lemma comms_of_upd [simp]: "comms_of (ps(p \<mapsto> x)) = (comms_of ps)(p \<mapsto> p_comm x)"
  by (auto simp: comms_of_def fun_eq_iff)

lemma comms_of_None [simp]: "comms_of ps p = None \<longleftrightarrow> ps p = None"
  by (simp add: comms_of_def)

text \<open>What the queue operations leave alone.\<close>

definition comm_core :: "Prog \<Rightarrow> Prog" where
  "comm_core x = x\<lparr>p_comm := nil\<rparr>"

definition unchan :: "vm \<Rightarrow> vm" where
  "unchan st = st\<lparr>v_progs := Map.empty, v_chans := Map.empty\<rparr>"

definition comm_frame :: "addr \<Rightarrow> vm \<Rightarrow> vm \<Rightarrow> bool" where
  "comm_frame c st st' \<longleftrightarrow> unchan st' = unchan st \<and>
    (\<forall>q. map_option comm_core (v_progs st' q) = map_option comm_core (v_progs st q)) \<and>
    (\<forall>d. d \<noteq> c \<longrightarrow> v_chans st' d = v_chans st d) \<and>
    map_option chan_core (v_chans st' c) = map_option chan_core (v_chans st c)"

lemma unchan_simps [simp]:
  "unchan (st\<lparr>v_progs := ps\<rparr>) = unchan st" "unchan (st\<lparr>v_chans := cs\<rparr>) = unchan st"
  by (simp_all add: unchan_def)

lemma comm_core_simps [simp]: "comm_core (x\<lparr>p_comm := a\<rparr>) = comm_core x"
  by (simp add: comm_core_def)

lemma comm_frame_trans: "comm_frame c a b \<Longrightarrow> comm_frame c b d \<Longrightarrow> comm_frame c a d"
  by (auto simp: comm_frame_def)

lemma comm_frame_ok: "comm_frame c st st' \<Longrightarrow> okprog st' p = okprog st p"
  by (metis (no_types, lifting) None_eq_map_option_iff okprog_def comm_frame_def)

lemma commq_okprog: "commq fld c st xs \<Longrightarrow> p \<in> set xs \<Longrightarrow> okprog st p"
  unfolding commq_def llist_def okprog_def using lseg_not_nil comms_of_None by metis

lemma queue_put_commq:
  assumes f: "field_ok fld wr" and q: "commq fld c st xs" and p: "okprog st p" "p \<notin> set xs"
  shows "\<exists>st'. queue_put fld wr c p st = Ok () st' \<and> commq fld c st' (xs @ [p]) \<and> comm_frame c st st'"
proof -
  obtain x where x: "v_progs st p = Some x" "p \<noteq> nil" using p(1) by (auto simp: okprog_def)
  obtain y where y: "v_chans st c = Some y" and l: "lseg (pcomm st) (fld y) xs nil" "distinct xs"
    using q by (auto simp: commq_def llist_def)
  show ?thesis
  proof (cases "xs = []")
    case True
    then have "fld y = nil" using l by simp
    then have "queue_put fld wr c p st = Ok () (st\<lparr>v_progs := (v_progs st)(p \<mapsto> x\<lparr>p_comm := nil\<rparr>),
        v_chans := (v_chans st)(c \<mapsto> wr (\<lambda>_. p) y)\<rparr>)"
      using x y by (simp add: queue_put_def comm_append_def set_comm_def chan_def upd_chan_def vm_defs)
    then show ?thesis using f x y True
      by (auto simp: commq_def llist_def field_ok_def comm_frame_def)
  next
    case False
    let ?t = "last xs"
    have t: "fld y \<noteq> nil" "?t \<noteq> p" using l False p(2) by (auto simp: lseg_nil_iff)
    obtain z where z: "v_progs st ?t = Some z"
      using commq_okprog [OF q, of ?t] False by (auto simp: okprog_def)
    have n: "lseg ((pcomm st)(p \<mapsto> nil)) (fld y) xs nil" using l(1) p(2) by simp
    have "queue_put fld wr c p st = Ok () (st\<lparr>v_progs := (v_progs st)(p \<mapsto> x\<lparr>p_comm := nil\<rparr>,
        ?t \<mapsto> z\<lparr>p_comm := p\<rparr>)\<rparr>)" (is "_ = Ok () ?st")
      using x y z t lastcomm_lseg [OF n False]
      by (simp add: queue_put_def comm_append_def set_comm_def chan_def upd_chan_def scan_def vm_defs)
    moreover have "lseg (pcomm ?st) (fld y) (xs @ [p]) nil"
      using l p(2) t False x by (intro lseg_snoc [where nx = "pcomm st"]) auto
    ultimately show ?thesis using l p(2) x y z t
      by (auto simp: commq_def llist_def comm_frame_def)
  qed
qed

lemma queue_get_commq:
  assumes f: "field_ok fld wr" and q: "commq fld c st (p # xs)"
  shows "\<exists>st'. queue_get fld wr c st = Ok p st' \<and> commq fld c st' xs \<and> comm_frame c st st'"
proof -
  obtain x where x: "v_progs st p = Some x" "p \<noteq> nil"
    using commq_okprog [OF q, of p] by (auto simp: okprog_def)
  obtain y where y: "v_chans st c = Some y" and l: "lseg (pcomm st) (fld y) (p # xs) nil" "distinct (p # xs)"
    using q by (auto simp: commq_def llist_def)
  have "fld y = p" "lseg (pcomm st) (p_comm x) xs nil" using l x by (simp_all add: comms_of_def)
  moreover from this have "queue_get fld wr c st = Ok p (st\<lparr>v_chans := (v_chans st)(c \<mapsto> wr (\<lambda>_. p_comm x) y)\<rparr>)"
    using x y by (simp add: queue_get_def chan_def upd_chan_def vm_defs)
  ultimately show ?thesis using f l y by (auto simp: commq_def llist_def field_ok_def comm_frame_def)
qed

lemma comm_fifo:
  assumes "field_ok fld wr"
  shows "fifo (commq fld c) okprog (queue_put fld wr c) (queue_get fld wr c)"
proof
  show "\<exists>st'. queue_put fld wr c p st = Ok () st' \<and> commq fld c st' (xs @ [p]) \<and>
      (\<forall>q. okprog st q \<longrightarrow> okprog st' q)"
    if "commq fld c st xs" "okprog st p" "p \<notin> set xs" for st xs p
    using queue_put_commq [OF assms that] comm_frame_ok [of c st] by auto
  show "\<exists>st'. queue_get fld wr c st = Ok x st' \<and> commq fld c st' xs \<and> (\<forall>q. okprog st q \<longrightarrow> okprog st' q)"
    if "commq fld c st (x # xs)" for st x xs
    using queue_get_commq [OF assms that] comm_frame_ok [of c st] by auto
qed

interpretation sendq: fifo "commq c_send c" okprog "queue_put c_send c_send_update c"
    "queue_get c_send c_send_update c" for c
  by (rule comm_fifo) simp

interpretation recvq: fifo "commq c_recv c" okprog "queue_put c_recv c_recv_update c"
    "queue_get c_recv c_recv_update c" for c
  by (rule comm_fifo) simp

text \<open>Unlinking a prog that is killed.\<close>

lemma delcomm_commq:
  assumes f: "field_ok fld wr" and q: "commq fld c st xs" and p: "p \<in> set xs"
    and c: "v_chans st c = Some y"
  shows "\<exists>st'. delcomm (fld y) (\<lambda>q. upd_chan c (wr (\<lambda>_. q))) p st = Ok () st' \<and>
    commq fld c st' (remove1 p xs) \<and> comm_frame c st st'"
proof -
  obtain us ys where xs: "xs = us @ p # ys" "p \<notin> set us" using split_list_first [OF p] by blast
  have l: "lseg (pcomm st) (fld y) (us @ p # ys) nil" "distinct (us @ p # ys)"
    using q c xs by (auto simp: commq_def llist_def)
  obtain x where x: "v_progs st p = Some x" using commq_okprog [OF q p] by (auto simp: okprog_def)
  have e: "remove1 p xs = us @ ys" using xs by (simp add: remove1_append)
  have nx: "pcomm st p = Some (p_comm x)" using x by (simp add: comms_of_def)
  show ?thesis
  proof (cases us rule: rev_cases)
    case Nil
    then have "delcomm (fld y) (\<lambda>q. upd_chan c (wr (\<lambda>_. q))) p st =
        Ok () (st\<lparr>v_chans := (v_chans st)(c \<mapsto> wr (\<lambda>_. p_comm x) y)\<rparr>)"
      using findprev_at [OF l] x c by (simp add: delcomm_def chan_def upd_chan_def vm_defs)
    moreover have "lseg (pcomm st) (p_comm x) ys nil" using l nx Nil by simp
    ultimately show ?thesis unfolding e using f l c Nil
      by (auto simp: commq_def llist_def field_ok_def comm_frame_def)
  next
    case (snoc vs a)
    obtain z where z: "v_progs st a = Some z" "a \<noteq> nil" "a \<noteq> p"
      using commq_okprog [OF q, of a] xs snoc by (auto simp: okprog_def)
    have "delcomm (fld y) (\<lambda>q. upd_chan c (wr (\<lambda>_. q))) p st =
        Ok () (st\<lparr>v_progs := (v_progs st)(a \<mapsto> z\<lparr>p_comm := p_comm x\<rparr>)\<rparr>)"
      using findprev_at [OF l] x z snoc by (simp add: delcomm_def set_comm_def vm_defs)
    moreover have "lseg ((pcomm st)(a \<mapsto> p_comm x)) (fld y) (vs @ a # ys) nil"
      using l nx unfolding snoc by (intro lseg_unlink [of _ _ _ a p]) auto
    ultimately show ?thesis unfolding e using l z snoc c
      by (auto simp: commq_def llist_def comm_frame_def)
  qed
qed

section \<open>Run queue and channel queues do not disturb each other\<close>

lemma sched_frame_comms: "sched_frame st st' \<Longrightarrow> pcomm st' = pcomm st"
proof (rule ext)
  fix q assume f: "sched_frame st st'"
  have "map_option p_comm (map_option core r) = map_option p_comm r" for r
    by (cases r) (simp_all add: core_def)
  then show "pcomm st' q = pcomm st q" using f unfolding comms_of_def sched_frame_def by metis
qed

lemma unsched_fields:
  assumes "unsched st' = unsched st"
  shows "v_chans st' = v_chans st" "v_R st' = v_R st" "v_mem st' = v_mem st"
  using arg_cong [OF assms, of v_chans] arg_cong [OF assms, of v_R] arg_cong [OF assms, of v_mem]
  by (simp_all add: unsched_def)

lemma sched_frame_commq: "sched_frame st st' \<Longrightarrow> commq fld c st' xs = commq fld c st xs"
  using sched_frame_comms [of st st'] unsched_fields [of st' st]
  by (simp add: commq_def sched_frame_def)

lemma comm_frame_links: "comm_frame c st st' \<Longrightarrow> plink st' = plink st"
proof (rule ext)
  fix q assume f: "comm_frame c st st'"
  have "map_option p_link (map_option comm_core r) = map_option p_link r" for r
    by (cases r) (simp_all add: comm_core_def)
  then show "plink st' q = plink st q" using f unfolding links_of_def comm_frame_def by metis
qed

lemma unchan_fields:
  assumes "unchan st' = unchan st"
  shows "v_runhd st' = v_runhd st" "v_runtl st' = v_runtl st" "v_R st' = v_R st" "v_mem st' = v_mem st"
  using arg_cong [OF assms, of v_runhd] arg_cong [OF assms, of v_runtl] arg_cong [OF assms, of v_R]
    arg_cong [OF assms, of v_mem]
  by (simp_all add: unchan_def)

lemma comm_frame_rq: "comm_frame c st st' \<Longrightarrow> rq st' xs = rq st xs"
  using comm_frame_links [of c st st'] unchan_fields [of st' st] by (simp add: rq_def comm_frame_def)

lemma comm_frame_prog:
  "comm_frame c st st' \<Longrightarrow> v_progs st q = Some x \<Longrightarrow> \<exists>y. v_progs st' q = Some y \<and> comm_core y = comm_core x"
  unfolding comm_frame_def by (metis map_option_eq_Some)

section \<open>Sending and receiving\<close>

lemma links_same: "ps p = Some y \<Longrightarrow> p_link y' = p_link y \<Longrightarrow> links_of (ps(p \<mapsto> y')) = links_of ps"
  by (auto simp: links_of_def fun_eq_iff)

lemma comms_same: "ps p = Some y \<Longrightarrow> p_comm y' = p_comm y \<Longrightarrow> comms_of (ps(p \<mapsto> y')) = comms_of ps"
  by (auto simp: comms_of_def fun_eq_iff)

text \<open>The first part of a blocking communication: the running prog leaves the run queue.\<close>

lemma block_prog:
  assumes q: "rq st (p # xs)"
    and f: "\<And>y. p_link (f y) = p_link y" "\<And>y. p_comm (f y) = p_comm y" "\<And>y. p_state (f y) = p_state y"
  shows "\<exists>st1 st2 y. delrun s st = Ok p st1 \<and> v_R st1 = v_R st \<and>
    steps (upd_prog p f # upd_R g # ms) st1 = steps ms st2 \<and> rq st2 xs \<and>
    (\<forall>fld c ys. commq fld c st2 ys = commq fld c st ys) \<and> v_R st2 = g (v_R st) \<and>
    v_mem st2 = v_mem st \<and> v_progs st2 p = Some (f y) \<and> p_state (f y) = s"
proof -
  obtain st1 where 1: "delrun s st = Ok p st1" "rq st1 xs" "sched_frame st st1"
      "map_option p_state (v_progs st1 p) = Some s"
    using delrun_rq [OF q] by blast
  then obtain y where y: "v_progs st1 p = Some y" "p_state y = s" by auto
  note u = unsched_fields [of st1 st]
  let ?st2 = "st1\<lparr>v_progs := (v_progs st1)(p \<mapsto> f y), v_R := g (v_R st1)\<rparr>"
  have "steps (upd_prog p f # upd_R g # ms) st1 = steps ms ?st2"
    using y by (simp add: vm_defs)
  moreover have "rq ?st2 xs" using 1(2) links_same [of "v_progs st1" p y "f y", OF y(1) f(1)] by (simp add: rq_def del: links_of_upd)
  moreover have "commq fld c ?st2 ys = commq fld c st ys" for fld c ys
    using sched_frame_commq [OF 1(3), of fld c ys] comms_same [of "v_progs st1" p y "f y", OF y(1) f(2)]
    by (simp add: commq_def del: comms_of_upd)
  ultimately show ?thesis using 1 y f(3) u by (fastforce simp: sched_frame_def)
qed

text \<open>The second part: it joins the channel's queue.\<close>

lemma join_queue:
  assumes fo: "field_ok fld wr" and q: "rq st xs" "commq fld c st ys" "v_progs st p = Some y" "p \<noteq> nil"
    "p \<notin> set ys"
  shows "\<exists>st'. steps [queue_put fld wr c p] st = Ok () st' \<and> rq st' xs \<and> commq fld c st' (ys @ [p]) \<and>
    v_R st' = v_R st \<and> v_mem st' = v_mem st \<and>
    (\<exists>z. v_progs st' p = Some z \<and> comm_core z = comm_core y)"
proof -
  obtain st' where s: "queue_put fld wr c p st = Ok () st'" "commq fld c st' (ys @ [p])" "comm_frame c st st'"
    using queue_put_commq [OF fo q(2)] q by (auto simp: okprog_def)
  then show ?thesis
    using comm_frame_rq [OF s(3), of xs] comm_frame_prog [OF s(3) q(3)] q(1) unchan_fields [of st' st]
    by (auto simp: comm_frame_def bindM_def skip_def)
qed

lemma comm_core_eq:
  assumes "comm_core z = comm_core y"
  shows "p_state z = p_state y" "p_ptr z = p_ptr y" "p_R z = p_R y" "p_link z = p_link y"
    "p_addrun z = p_addrun y"
  using arg_cong [OF assms, of p_state] arg_cong [OF assms, of p_ptr] arg_cong [OF assms, of p_R]
    arg_cong [OF assms, of p_link] arg_cong [OF assms, of p_addrun]
  by (simp_all add: comm_core_def)

text \<open>C15: a send on a channel where nobody receives. The running prog leaves the run queue, remembers where
  its data is, joins the end of the channel's send queue in state \<open>Psend\<close>, and its quantum ends.\<close>

theorem send_blocks:
  assumes "rq st (p # xs)" "loc32 (r_d (v_R st)) st = of_nat c" "c < 2 ^ 32"
    "v_chans st c = Some x" "c_recv x = nil" "c_recvalt x = nil"
    "commq c_send c st ys" "p \<notin> set ys"
  shows "\<exists>st' y. isend K st = Ok () st' \<and> rq st' xs \<and> commq c_send c st' (ys @ [p]) \<and>
    v_mem st' = v_mem st \<and> v_R st' = (v_R st)\<lparr>r_IC := 1, r_t := 1\<rparr> \<and>
    v_progs st' p = Some y \<and> p_state y = Psend \<and> p_ptr y = r_s (v_R st) \<and> r_d (p_R y) = r_d (v_R st)"
proof -
  let ?R = "v_R st"
  let ?f = "\<lambda>y :: Prog. y\<lparr>p_ptr := r_s ?R, p_R := (p_R y)\<lparr>r_d := r_d ?R\<rparr>\<rparr>"
  let ?g = "\<lambda>R :: REG. R\<lparr>r_IC := 1, r_t := 1\<rparr>"
  let ?ms = "[queue_put c_send c_send_update c p]"
  have c: "unat (loc32 (r_d (v_R st)) st) = c"
    using assms(2,3) by (simp add: unat_of_nat)
  obtain st1 st2 y where b: "delrun Psend st = Ok p st1" "v_R st1 = ?R"
      "steps (upd_prog p ?f # upd_R ?g # ?ms) st1 = steps ?ms st2" "rq st2 xs"
      "commq c_send c st2 ys" "v_R st2 = ?g ?R" "v_mem st2 = v_mem st" "v_progs st2 p = Some (?f y)"
      "p_state (?f y) = Psend"
    using block_prog [OF assms(1), of ?f Psend ?g ?ms] assms(7) by auto
  have p: "p \<noteq> nil" using rq_okprog [OF assms(1), of p] by (simp add: okprog_def)
  obtain st3 z where j: "steps ?ms st2 = Ok () st3" "rq st3 xs" "commq c_send c st3 (ys @ [p])"
      "v_R st3 = v_R st2" "v_mem st3 = v_mem st2" "v_progs st3 p = Some z" "comm_core z = comm_core (?f y)"
    using join_queue [OF field_ok(1) b(4,5,8) p assms(8)] by blast
  have "isend K st = Ok () st3"
    using assms(4,5,6) b(1,2,3) j(1) c
    by (simp add: isend_def getP_def chan_def gets_def deref_def bindM_def del: steps.simps)
  then show ?thesis
    using j b comm_core_eq [OF j(7)] by auto
qed


lemma comm_frame_chan:
  assumes "comm_frame c st st'" "v_chans st c = Some x"
  shows "\<exists>y. v_chans st' c = Some y \<and> chan_core y = chan_core x"
  using assms unfolding comm_frame_def by (metis map_option_eq_Some)

lemma chan_core_eq:
  assumes "chan_core y = chan_core x"
  shows "c_mover y = c_mover x" "c_mid y = c_mid x" "c_sendalt y = c_sendalt x" "c_recvalt y = c_recvalt x"
  using arg_cong [OF assms, of c_mover] arg_cong [OF assms, of c_mid] arg_cong [OF assms, of c_sendalt]
    arg_cong [OF assms, of c_recvalt]
  by (simp_all add: chan_core_def)

lemma commq_first:
  "commq fld c st (q # ys) \<Longrightarrow> v_chans st c = Some x \<Longrightarrow> fld x = q \<and> q \<noteq> nil"
  by (auto simp: commq_def llist_def)

text \<open>The last statements of a communication with a waiting prog: it becomes ready.\<close>

lemma wake_up:
  assumes q: "rq st xs" "v_progs st q = Some y" "q \<noteq> nil" "p_addrun y = None" "q \<notin> set xs"
  shows "\<exists>st'. steps [addrun K q, upd_R f] st = Ok () st' \<and> rq st' (xs @ [q]) \<and>
    v_mem st' = v_mem st \<and> v_R st' = f (v_R st) \<and> (\<forall>fld c ys. commq fld c st' ys = commq fld c st ys) \<and>
    map_option p_state (v_progs st' q) = Some Pready"
proof -
  obtain st1 where 1: "enqueue q st = Ok () st1" "rq st1 (xs @ [q])" "sched_frame st st1"
      "map_option p_state (v_progs st1 q) = Some Pready"
    using enqueue_rq [OF q(1), of q] q by (auto simp: okprog_def)
  note u = unsched_fields [of st1 st]
  have "rq (st1\<lparr>v_R := f (v_R st1)\<rparr>) (xs @ [q])" using 1(2) by (simp add: rq_def)
  moreover have "commq fld c (st1\<lparr>v_R := f (v_R st1)\<rparr>) ys = commq fld c st ys" for fld c ys
    using sched_frame_commq [OF 1(3), of fld c ys] by (simp add: commq_def)
  ultimately show ?thesis
    using 1 u addrun_enqueue [OF q(2,4), of K]
    by (auto simp: sched_frame_def bindM_def skip_def upd_R_def upd_def)
qed

text \<open>C10: a send of a word to a waiting receiver. The receiver at the head of the channel's queue gets the
  word where it asked for it, leaves that queue and joins the run queue; the sender goes on, and no
  other memory changes.\<close>

theorem send_to_receiver:
  assumes "rq st xs" "loc32 (r_d (v_R st)) st = of_nat c" "c < 2 ^ 32"
    "v_chans st c = Some x" "c_recvalt x = nil" "c_mover x = Movw"
    "commq c_recv c st (q # ys)" "v_progs st q = Some y" "p_ptr y = Mem a" "p_addrun y = None"
    "q \<notin> set xs"
  shows "\<exists>st'. isend K st = Ok () st' \<and> rq st' (xs @ [q]) \<and> commq c_recv c st' ys \<and>
    v_mem st' = st32 (v_mem st) a (loc32 (r_s (v_R st)) st) \<and> r_t (v_R st') = 0 \<and>
    map_option p_state (v_progs st' q) = Some Pready"
proof -
  have c: "unat (loc32 (r_d (v_R st)) st) = c" using assms(2,3) by (simp add: unat_of_nat)
  obtain st1 where g: "queue_get c_recv c_recv_update c st = Ok q st1" "commq c_recv c st1 ys"
      "comm_frame c st st1"
    using queue_get_commq [OF field_ok(2) assms(7)] by blast
  note u = unchan_fields [of st1 st]
  have u: "v_R st1 = v_R st" "v_mem st1 = v_mem st" using g(3) u by (simp_all add: comm_frame_def)
  obtain z where z: "v_progs st1 q = Some z" "comm_core z = comm_core y"
    using comm_frame_prog [OF g(3) assms(8)] by blast
  obtain x1 where x1: "v_chans st1 c = Some x1" "chan_core x1 = chan_core x"
    using comm_frame_chan [OF g(3) assms(4)] by blast
  have q: "q \<noteq> nil" "c_recv x = q" using commq_first [OF assms(7,4)] by simp_all
  let ?R = "(v_R st)\<lparr>r_m := Tmp (c_mid x1), r_d := Mem a\<rparr>"
  let ?v = "loc32 (r_s (v_R st)) st"
  let ?st2 = "st1\<lparr>v_R := ?R, v_mem := st32 (v_mem st) a ?v\<rparr>"
  let ?fin = "[addrun K q, upd_R (\<lambda>R. R\<lparr>r_t := 0\<rparr>)]"
  have v: "loc32 (r_s (v_R st)) (st1\<lparr>v_R := ?R\<rparr>) = ?v"
    using u by (simp add: loc32_def split: loc.splits)
  have "steps (upd_R (\<lambda>R. R\<lparr>r_m := Tmp (c_mid x1), r_d := p_ptr z\<rparr>) # call_mover (c_mover x1) # ?fin) st1
      = steps ?fin ?st2"
    using u v comm_core_eq [OF z(2)] chan_core_eq [OF x1(2)] assms(6,9)
    by (simp add: call_mover_def movw_def getW_def setW_def put32_def upd_R_def setm_def bindM_def
        gets_def upd_def)
  moreover have "rq ?st2 xs" using comm_frame_rq [OF g(3), of xs] assms(1) by (simp add: rq_def)
  then obtain st3 where e: "steps ?fin ?st2 = Ok () st3" "rq st3 (xs @ [q])" "v_mem st3 = v_mem ?st2"
      "v_R st3 = ?R\<lparr>r_t := 0\<rparr>" "commq c_recv c st3 ys = commq c_recv c ?st2 ys"
      "map_option p_state (v_progs st3 q) = Some Pready"
    using wake_up [of ?st2 xs q z K "\<lambda>R. R\<lparr>r_t := 0\<rparr>"] z q comm_core_eq [OF z(2)] assms(10,11) by auto
  moreover have "commq c_recv c ?st2 ys" using g(2) by (simp add: commq_def)
  moreover have "isend K st =
      steps (upd_R (\<lambda>R. R\<lparr>r_m := Tmp (c_mid x1), r_d := p_ptr z\<rparr>) # call_mover (c_mover x1) # ?fin) st1"
    using assms(4,5) q c g(1) z x1
    by (simp add: isend_def getP_def chan_def prog_def gets_def deref_def bindM_def del: steps.simps)
  ultimately show ?thesis by auto
qed

section \<open>Killing a blocked prog\<close>

text \<open>
  What the rest of \<open>killprog\<close> leaves of the queues once \<open>p\<close> is out of them: the links of the other progs, and the
  channels, of which some may be released with the values of the stack.
\<close>

definition rest :: "addr \<Rightarrow> vm \<Rightarrow> vm \<Rightarrow> bool" where
  "rest p st st' \<longleftrightarrow> (\<forall>q. q \<noteq> p \<longrightarrow> pcomm st' q = pcomm st q) \<and> (\<forall>d y. v_chans st' d = Some y \<longrightarrow> v_chans st d = Some y)"

lemma rest_same: "v_progs st' = v_progs st \<Longrightarrow> v_chans st' = v_chans st \<Longrightarrow> rest p st st'"
  by (simp add: rest_def)

text \<open>What is outside the virtual machine touches neither the queues nor the channels.\<close>

definition aloof :: "kern \<Rightarrow> bool" where
  "aloof K \<longleftrightarrow> (\<forall>p q. follows (rest p) (k_wakeup K q) \<and> follows (rest p) (k_tell K q) \<and> follows (rest p) (k_dbgexit K q) \<and>
     follows (rest p) (k_debugged K q) \<and> follows (rest p) (k_closeenv K q))"

lemma rest_prims:
  "follows (rest p) (set_heap h x)" "follows (rest p) (set_type t y)" "follows (rest p) (set_mod m z)"
  "follows (rest p) (Heapc.poolfree h)" "follows (rest p) (free a)" "follows (rest p) (free_type t)" "follows (rest p) (free_mod m)"
  "follows (rest p) (upd (\<lambda>st. st\<lparr>v_modules := l\<rparr>))" "follows (rest p) gclock" "follows (rest p) gcunlock"
  "follows (rest p) (set_runhd l)" "follows (rest p) (set_runtl l)" "follows (rest p) (set_head l)" "follows (rest p) (set_tail l)"
  unfolding follows_def
  by (auto simp: vm_defs Heapc.poolfree_def free_def free_type_def free_mod_def gclock_def gcunlock_def rest_def split: if_splits)

interpretation rest: release_relation "rest p"
  by unfold_locales (auto simp: rest_def intro: rest_prims)

lemma rest_upd_prog:
  assumes "\<And>x. p_comm (f x) = p_comm x"
  shows "follows (rest p) (upd_prog q f)"
  using assms by (auto simp: follows_def vm_defs rest_def comms_of_def split: option.splits)

lemma rest_free_prog: "follows (rest p) (free_prog p)"
  by (auto simp: follows_def free_prog_def free_def vm_defs rest_def comms_of_def split: if_splits)

lemma rest_destroystack: "follows (rest p) (destroystack reg)"
  unfolding destroystack_def destroyexts_def destroyframes_def case_prod_beta type_size_def
  by (intro flow_intros rest.pure rest.bind rest.seq rest.conds rest.loops rest.freeptrs rest.destroy rest.unload rest_prims)

lemma rest_delprog: "aloof K \<Longrightarrow> follows (rest p) (delprog K p)"
  unfolding delprog_def unlink_prog_def set_state_def prog_def
  by (intro rest.pure rest.bind rest.seq rest.conds rest_upd_prog rest_prims rest_free_prog) (auto simp: aloof_def)

lemma rest_commq:
  assumes "rest p st st'" "commq fld c st xs" "p \<notin> set xs" "v_chans st' c = Some y"
  shows "commq fld c st' xs"
proof -
  have y: "v_chans st c = Some y" using assms(1,4) by (simp add: rest_def)
  then have l: "llist (pcomm st) (fld y) xs" using assms(2) by (auto simp: commq_def)
  have "lseg (pcomm st') (fld y) xs nil \<longleftrightarrow> lseg (pcomm st) (fld y) xs nil"
    by (rule lseg_cong) (use assms(1,3) in \<open>auto simp: rest_def\<close>)
  then show ?thesis using l assms(4) by (auto simp: commq_def llist_def)
qed

lemma unblock_sender:
  assumes "v_progs st p = Some x" "p_state x = Psend" "unat (loc32 (r_d (p_R x)) st) = c"
    "commq c_send c st xs" "p \<in> set xs"
  shows "\<exists>st'. unblock K p x st = Ok True st' \<and> commq c_send c st' (remove1 p xs) \<and> comm_frame c st st'"
proof -
  obtain y where y: "v_chans st c = Some y" using assms(4) by (auto simp: commq_def)
  obtain st' where "delcomm (c_send y) (\<lambda>q. upd_chan c (\<lambda>x. x\<lparr>c_send := q\<rparr>)) p st = Ok () st'"
      "commq c_send c st' (remove1 p xs)" "comm_frame c st st'"
    using delcomm_commq [OF field_ok(1) assms(4,5) y] by blast
  then show ?thesis using assms(2,3) y
    by (simp add: unblock_def chan_at_def chan_def gets_def deref_def bindM_def ret_def)
qed

text \<open>The part of \<open>killprog\<close> after the switch.\<close>

definition finish :: "kern \<Rightarrow> addr \<Rightarrow> bool M" where
  "finish K p = bindM (prog p) (\<lambda>x.
     if p_addrun x \<noteq> None then
       bindM (steps [
         upd_prog p (\<lambda>x. x\<lparr>p_kill := True\<rparr>),
         cwakeme K p,
         upd_prog p (\<lambda>x. x\<lparr>p_addrun := None\<rparr>)]) (\<lambda>_. ret False)
     else bindM (k_debugged K p) (\<lambda>dbg.
       if dbg then bindM (steps [set_state p Pbroken, k_dbgexit K p]) (\<lambda>_. ret False)
       else bindM (steps [
         set_state p Pexiting,
         gclock,
         bindM (prog p) (\<lambda>x. destroystack (p_R x)),
         delprog K p,
         gcunlock]) (\<lambda>_. ret True)))"

lemma rest_finish: "aloof K \<Longrightarrow> follows (rest p) (finish K p)"
  unfolding finish_def prog_def cwakeme_def set_state_def
  by (intro rest.pure rest.bind rest.seq rest.conds rest_upd_prog rest_prims rest_destroystack rest_delprog) (auto simp: aloof_def)

lemma killprog_finish:
  assumes "p \<noteq> v_runhd st" "v_progs st p = Some x" "unblock K p x st = Ok True st1"
  shows "killprog K p st = finish K p st1"
  using assms by (simp add: killprog_def finish_def bindM_def gets_def prog_def deref_def)

lemma finish_gone: "finish K p st = Ok True st' \<Longrightarrow> v_progs st' p = None"
  by (auto simp: finish_def bind_eq_Ok ret_def delprog_def free_prog_def free_def gcunlock_def skip_def upd_def split: if_splits)

text \<open>C34: \<open>killprog\<close> of a prog that waits to send, and does not run. When it returns, and the channel was not
  released with the stack of the prog, the channel's queue has lost exactly that prog and the others are in it in their
  order; and when it says that the prog is gone there is none at its address. What it calls outside the virtual machine
  is assumed to leave progs and channels alone (others may run while the environment is closed).\<close>

theorem kill_sender:
  assumes "v_progs st p = Some x" "p_state x = Psend" "unat (loc32 (r_d (p_R x)) st) = c" "p \<noteq> v_runhd st"
    "commq c_send c st xs" "p \<in> set xs" "aloof K" "killprog K p st = Ok gone st'"
  shows "(\<forall>y. v_chans st' c = Some y \<longrightarrow> commq c_send c st' (remove1 p xs)) \<and> (gone \<longrightarrow> v_progs st' p = None)"
proof -
  obtain st1 where 1: "unblock K p x st = Ok True st1" "commq c_send c st1 (remove1 p xs)"
    using unblock_sender [OF assms(1-3,5,6)] by blast
  have k: "finish K p st1 = Ok gone st'" using killprog_finish [OF assms(4,1) 1(1)] assms(8) by simp
  have "p \<notin> set (remove1 p xs)" using assms(5) by (auto simp: commq_def llist_def)
  then have "commq c_send c st' (remove1 p xs)" if "v_chans st' c = Some y" for y
    using rest_commq [OF followsD [OF rest_finish [OF assms(7)] k] 1(2)] that by blast
  moreover have "v_progs st' p = None" if gone using finish_gone k that by simp
  ultimately show ?thesis by blast
qed

text \<open>progs blocked on a channel are served in the order in which they blocked.\<close>

theorem senders_in_order:
  assumes "commq c_send c st []" "\<forall>p \<in> set ps. okprog st p" "distinct ps"
  shows "\<exists>st'. bindM (sendq.put_all c ps) (\<lambda>_. sendq.get_all c (length ps)) st = Ok ps st' \<and>
    commq c_send c st' []"
  using assms by (rule sendq.first_in_first_out)

section \<open>The random choice of alt\<close>

lemma sint_nonneg_iff: "0 \<le> sint (x :: u32) \<longleftrightarrow> \<not> bit x 31"
  using bit_last_iff [of x] by auto

lemma double_bit: "bit (x + x :: u32) n \<longleftrightarrow> 0 < n \<and> n < 32 \<and> bit x (n - 1)"
proof -
  have "x + x = push_bit 1 x" by (simp add: push_bit_eq_mult)
  then show ?thesis by (auto simp: bit_simps)
qed

text \<open>C39: the generator of \<open>xecalt\<close> never yields a negative number, so the remainder that selects the
  ready channel is one, and it never gets stuck at zero.\<close>

theorem xrand_range:
  "0 \<le> sint (next_xrand x) \<and> (0 \<le> sint x \<and> x \<noteq> 0 \<longrightarrow> next_xrand x \<noteq> 0) \<and>
   (0 < n \<longrightarrow> 0 \<le> sint (next_xrand x) mod int n \<and> sint (next_xrand x) mod int n < int n)"
proof (intro conjI impI)
  have b: "bit (0x88888EEF :: u32) 31" "bit (0x88888EEF :: u32) 0" by simp_all
  show "0 \<le> sint (next_xrand x)"
  proof (cases "bit (x + x) 31")
    case True
    then have "x + x <s 0" using sint_nonneg_iff [of "x + x"] by (simp add: word_sless_alt)
    then have "next_xrand x = (x + x) XOR 0x88888EEF" by (simp add: next_xrand_def Let_def)
    then show ?thesis using True b by (simp only: sint_nonneg_iff bit_xor_iff)
  next
    case False
    then have "\<not> x + x <s 0" using sint_nonneg_iff [of "x + x"] by (simp add: word_sless_alt)
    then have "next_xrand x = x + x" by (simp only: next_xrand_def Let_def) simp
    then show ?thesis using False by (simp only: sint_nonneg_iff not_False_eq_True)
  qed
  assume x: "0 \<le> sint x \<and> x \<noteq> 0"
  obtain k where k: "bit x k" using x bit_eqI [of x 0] by auto
  then have "k < 31" using x sint_nonneg_iff [of x] bit_imp_le_length [of x k]
    by (cases "k = 31") auto
  then have "bit (x + x) (Suc k)" unfolding double_bit using k by simp
  then have "x + x \<noteq> 0" by (metis bit_0_eq bot_apply bot_bool_def)
  moreover have "(x + x) XOR 0x88888EEF \<noteq> 0"
  proof
    assume "(x + x) XOR 0x88888EEF = 0"
    then have "bit ((x + x) XOR 0x88888EEF) 0 = bit (0 :: u32) 0" by simp
    then show False using b unfolding bit_xor_iff double_bit by simp
  qed
  ultimately show "next_xrand x \<noteq> 0" by (simp add: next_xrand_def Let_def)
qed auto


text \<open>A machine with a channel at 500, whose address is at 8000: prog 1000 runs, 2000 and 3000 wait to
  send (\<open>s\<close>) or to receive a word at 9000 (\<open>r\<close>).\<close>

definition ex_chan :: "addr \<Rightarrow> addr \<Rightarrow> vm" where
  "ex_chan s r = zero_vm\<lparr>
     v_mem := st32 (st32 (\<lambda>_. 0) 8000 500) 7000 42,
     v_R := zero_R\<lparr>r_s := Mem 7000, r_d := Mem 8000\<rparr>,
     v_chans := [500 \<mapsto> \<lparr>c_send = s, c_sendalt = nil, c_recv = r, c_recvalt = nil, c_mover = Movw, c_mid = 0\<rparr>],
     v_progs := [1000 \<mapsto> zero_prog,
       2000 \<mapsto> zero_prog\<lparr>p_comm := 3000, p_state := Psend, p_ptr := Mem 9000, p_R := zero_R\<lparr>r_d := Mem 8000\<rparr>\<rparr>,
       3000 \<mapsto> zero_prog\<lparr>p_state := Psend, p_ptr := Mem 9004, p_R := zero_R\<lparr>r_d := Mem 8000\<rparr>\<rparr>],
     v_runhd := 1000, v_runtl := 1000\<rparr>"

lemma ex_chan_facts:
  "rq (ex_chan s r) [1000]"
  "loc32 (r_d (v_R (ex_chan s r))) (ex_chan s r) = of_nat 500"
  "loc32 (r_s (v_R (ex_chan s r))) (ex_chan s r) = 42"
  "v_chans (ex_chan s r) 500 = Some \<lparr>c_send = s, c_sendalt = nil, c_recv = r, c_recvalt = nil,
     c_mover = Movw, c_mid = 0\<rparr>"
  by (simp_all add: rq_def llist_def links_of_def ex_chan_def zero_prog_def nil_def loc32_def mem_simps)

theorem send_blocks_witness:
  "\<exists>st'. isend ex_kern (ex_chan 2000 nil) = Ok () st' \<and> rq st' [] \<and> commq c_send 500 st' [2000, 3000, 1000]"
proof -
  have "commq c_send 500 (ex_chan 2000 nil) [2000, 3000]" "(500 :: nat) < 2 ^ 32"
    by (simp_all add: commq_def llist_def comms_of_def ex_chan_def zero_prog_def nil_def)
  from send_blocks [OF ex_chan_facts(1,2) this(2) ex_chan_facts(4) _ _ this(1)]
  show ?thesis by (fastforce simp: nil_def)
qed

theorem send_to_receiver_witness:
  "\<exists>st'. isend ex_kern (ex_chan nil 2000) = Ok () st' \<and> rq st' [1000, 2000] \<and>
    commq c_recv 500 st' [3000] \<and> ld32 (v_mem st') 9000 = 42"
proof -
  let ?st = "ex_chan nil 2000"
  have q: "commq c_recv 500 ?st [2000, 3000]" "(500 :: nat) < 2 ^ 32"
    by (simp_all add: commq_def llist_def comms_of_def ex_chan_def zero_prog_def nil_def)
  have "\<exists>y. v_progs ?st 2000 = Some y \<and> p_ptr y = Mem 9000 \<and> p_addrun y = None"
    by (simp add: ex_chan_def zero_prog_def)
  then obtain y where "v_progs ?st 2000 = Some y" "p_ptr y = Mem 9000" "p_addrun y = None" by blast
  from send_to_receiver [OF ex_chan_facts(1,2) q(2) ex_chan_facts(4) _ _ q(1) this]
  show ?thesis unfolding ex_chan_facts(3) by fastforce
qed

text \<open>The second of two senders is killed; its module at 300 has another reference.\<close>

definition ex_kill :: vm where
  "ex_kill = (ex_chan 2000 nil)\<lparr>v_mods := [300 \<mapsto> \<lparr>m_ref = 2, m_compiled = False, m_shared = False, m_ss = 0, m_rt = 0, m_mtime = 0,
     m_orig = nil, m_prog = nil, m_mp = nil, m_type = [], m_entry = nil, m_entryt = nil, m_name = [], m_path = [], m_link = nil, m_ext = []\<rparr>],
     v_progs := (v_progs (ex_chan 2000 nil))(3000 \<mapsto> zero_prog\<lparr>p_state := Psend, p_ptr := Mem 9004,
       p_R := zero_R\<lparr>r_d := Mem 8000, r_M := 300\<rparr>\<rparr>)\<rparr>"

lemma no_stack: "destroyexts nil sp = skip"
  by (simp add: destroyexts_def loop_unfold [of _ "(nil, sp)"] leave_def, simp add: ret_def skip_def)

lemma ex_killed: "\<exists>st'. killprog ex_kern 3000 ex_kill = Ok True st' \<and> v_chans st' 500 \<noteq> None"
  by (simp add: killprog_def unblock_def delcomm_def ex_kern_def ex_kill_def ex_chan_def zero_prog_def zero_R_def zero_vm_def vm_defs chan_at_def
      chan_def upd_chan_def set_comm_def findprev.simps comms_of_def nil_def loc32_def mem_simps destroystack_def no_stack [unfolded nil_def]
      unload_def unload_n.simps delprog_def unlink_prog_def free_prog_def free_def gclock_def gcunlock_def ORIGDEPTH_def)

theorem kill_sender_witness:
  "\<exists>st'. killprog ex_kern 3000 ex_kill = Ok True st' \<and> commq c_send 500 st' [2000] \<and> v_progs st' 3000 = None"
proof -
  have q: "commq c_send 500 ex_kill [2000, 3000]"
    by (simp add: commq_def llist_def comms_of_def ex_kill_def ex_chan_def zero_prog_def nil_def)
  obtain x where x: "v_progs ex_kill 3000 = Some x" "p_state x = Psend" "unat (loc32 (r_d (p_R x)) ex_kill) = 500"
    by (simp add: ex_kill_def ex_chan_def zero_prog_def loc32_def mem_simps)
  have K: "aloof ex_kern" by (auto simp: aloof_def ex_kern_def intro: rest.pure)
  obtain st' where s: "killprog ex_kern 3000 ex_kill = Ok True st'" "v_chans st' 500 \<noteq> None"
    using ex_killed by blast
  have "(3000 :: addr) \<noteq> v_runhd ex_kill" by (simp add: ex_kill_def ex_chan_def)
  from kill_sender [OF x this q _ K s(1)] s show ?thesis by auto
qed

theorem senders_in_order_witness:
  "\<exists>st'. bindM (sendq.put_all 500 [3000, 2000]) (\<lambda>_. sendq.get_all 500 2) (ex_chan nil nil) =
    Ok [3000, 2000] st' \<and> commq c_send 500 st' []"
proof -
  let ?st = "ex_chan nil nil" and ?ps = "[3000, 2000 :: addr]"
  have "commq c_send 500 ?st []" "\<forall>p \<in> set ?ps. okprog ?st p" "distinct ?ps" and l: "2 = length ?ps"
    by (simp_all add: commq_def llist_def okprog_def ex_chan_def nil_def)
  from senders_in_order [OF this(1-3)] show ?thesis unfolding l .
qed

theorem xrand_range_witness: "next_xrand 1 \<noteq> 0 \<and> sint (next_xrand 1) mod 3 < 3"
  using xrand_range [of 1 3] by simp

end
