(* ===== verification/Disfile.thy ===== *)
theory Disfile
  imports Vmstate "HOL-Library.Monad_Syntax" "HOL-Library.Multiset"
begin

text \<open>
  The object format between the Limbo compiler and the loader. The first part is the compiler's
  emitter, \<open>limbo/dis.c\<close>: one definition per C function, over a record for \<open>bout\<close> and the
  static variables of the data cache; \<open>None\<close> is a call of \<open>fatal\<close>. The second part is the
  decoding of \<open>interp/load.c\<close>: variable-length operands, big-endian words and instructions, each
  returning its value with the number of bytes it takes. The lemmas are the round trips between
  the two.
\<close>

section \<open>Constants: discon, disword\<close>

definition discon :: "int \<Rightarrow> byte list option" where
  "discon val =
    (if - 64 \<le> val \<and> val \<le> 63 then Some [uchar (val AND NOT 0x80)]
     else if - 8192 \<le> val \<and> val \<le> 8191 then
       Some [uchar ((drop_bit 8 val AND NOT 0xC0) OR 0x80), uchar val]
     else if val < 0 \<and> drop_bit 29 val AND 7 \<noteq> 7 \<or> val > 0 \<and> drop_bit 29 val \<noteq> 0 then None
     else Some [uchar (drop_bit 24 val OR 0xC0), uchar (drop_bit 16 val),
                uchar (drop_bit 8 val), uchar val])"

definition disword :: "int \<Rightarrow> byte list" where
  "disword w = [uchar (drop_bit 24 w), uchar (drop_bit 16 w), uchar (drop_bit 8 w), uchar w]"

section \<open>Decoding: operand, disw\<close>

definition operand :: "cptr \<Rightarrow> int \<times> nat" where
  "operand cp =
    (let c = uint (cp 0); k = c AND 0xC0 in
     if k = 0x00 then (c, 1)
     else if k = 0x40 then (c OR NOT 0x7F, 1)
     else
       let e = (if c AND 0x20 \<noteq> 0 then c OR NOT 0x3F else c AND 0x3F) in
       if k = 0x80 then (push_bit 8 e OR uint (cp 1), 2)
       else (push_bit 24 e OR push_bit 16 (uint (cp 1)) OR push_bit 8 (uint (cp 2)) OR uint (cp 3), 4))"

definition disw :: "cptr \<Rightarrow> u32 \<times> nat" where
  "disw c =
    (push_bit 24 (ucast (c 0)) OR push_bit 16 (ucast (c 1)) OR push_bit 8 (ucast (c 2)) OR ucast (c 3),
     4)"

section \<open>Instructions\<close>

text \<open>The compiler's operand modes and addresses (\<open>limbo/limbo.h\<close>).\<close>

datatype amode = Aimm | Amp | Ampind | Afp | Afpind | Apc | Adesc | Aoff | Aerr | Anone

record Addr =
  ad_mode :: amode
  ad_reg :: int
  ad_offset :: int
  ad_iface :: int   \<comment> \<open>\<open>decl->iface->offset\<close>, for \<open>Aoff\<close>\<close>

record Cinst =
  ci_op :: nat
  ci_s :: Addr
  ci_m :: Addr
  ci_d :: Addr

fun dismode :: "amode \<Rightarrow> int" where
  "dismode Aimm = AIMM"
| "dismode Amp = AMP"
| "dismode Ampind = AMP OR AIND"
| "dismode Afp = AFP"
| "dismode Afpind = AFP OR AIND"
| "dismode Apc = AIMM"
| "dismode Adesc = AIMM"
| "dismode Aoff = AIMM"
| "dismode Aerr = AXXX"
| "dismode Anone = AXXX"

fun disregmode :: "amode \<Rightarrow> int" where
  "disregmode Aimm = AXIMM"
| "disregmode Amp = AXINM"
| "disregmode Ampind = AXNON"
| "disregmode Afp = AXINF"
| "disregmode Afpind = AXNON"
| "disregmode Apc = AXIMM"
| "disregmode Adesc = AXIMM"
| "disregmode Aoff = AXIMM"
| "disregmode Aerr = AXNON"
| "disregmode Anone = AXNON"

definition disaddr :: "Addr \<Rightarrow> byte list option" where
  "disaddr a =
    (case ad_mode a of
       Aimm \<Rightarrow> discon (ad_offset a)
     | Apc \<Rightarrow> discon (ad_offset a)
     | Adesc \<Rightarrow> discon (ad_offset a)
     | Aoff \<Rightarrow> discon (ad_iface a)
     | Afp \<Rightarrow> discon (ad_reg a)
     | Amp \<Rightarrow> discon (ad_reg a)
     | Afpind \<Rightarrow> do { x \<leftarrow> discon (ad_reg a); y \<leftarrow> discon (ad_offset a); Some (x @ y) }
     | Ampind \<Rightarrow> do { x \<leftarrow> discon (ad_reg a); y \<leftarrow> discon (ad_offset a); Some (x @ y) }
     | Aerr \<Rightarrow> discon 0
     | Anone \<Rightarrow> discon 0)"

definition disinst1 :: "Cinst \<Rightarrow> byte list option" where
  "disinst1 i = do {
     m \<leftarrow> (if ad_mode (ci_m i) \<noteq> Anone then disaddr (ci_m i) else Some []);
     s \<leftarrow> (if ad_mode (ci_s i) \<noteq> Anone then disaddr (ci_s i) else Some []);
     d \<leftarrow> (if ad_mode (ci_d i) \<noteq> Anone then disaddr (ci_d i) else Some []);
     Some (of_nat (ci_op i)
       # uchar (SRC (dismode (ad_mode (ci_s i))) OR DST (dismode (ad_mode (ci_d i)))
           OR disregmode (ad_mode (ci_m i)))
       # m @ s @ d) }"

text \<open>Concatenate what a list of emissions writes; any \<open>fatal\<close> stops the compiler.\<close>

fun emit_all :: "('a \<Rightarrow> byte list option) \<Rightarrow> 'a list \<Rightarrow> byte list option" where
  "emit_all f [] = Some []"
| "emit_all f (x # xs) = do { a \<leftarrow> f x; b \<leftarrow> emit_all f xs; Some (a @ b) }"

definition disinst :: "Cinst list \<Rightarrow> byte list option" where
  "disinst is = emit_all disinst1 is"

text \<open>
  The interpreter's instruction: \<open>Adr\<close> is a 32-bit union, \<open>imm\<close> and \<open>ind\<close> its whole, \<open>i.f\<close> and
  \<open>i.s\<close> its two halves.
\<close>

record Inst =
  i_op :: byte
  i_add :: byte
  i_reg :: u16
  i_s :: u32
  i_d :: u32

definition adr_if :: "u32 \<Rightarrow> u16" where "adr_if a = ucast a"
definition adr_is :: "u32 \<Rightarrow> u16" where "adr_is a = ucast (drop_bit 16 a)"
definition adr_ind :: "int \<Rightarrow> int \<Rightarrow> u32" where
  "adr_ind f s = word_cat (ushort s) (ushort f)"

lemma adr_ind_halves [simp]: "adr_if (adr_ind f s) = ushort f" "adr_is (adr_ind f s) = ushort s"
  unfolding adr_if_def adr_is_def adr_ind_def
  by (rule bit_word_eqI; auto simp: bit_word_cat_iff bit_simps; fail)+

text \<open>
  One iteration of the instruction loop of \<open>parsemod\<close>, before \<open>brpatch\<close>; the second result is
  whether the destination is immediate, when \<open>brpatch\<close> is called.
\<close>

definition read_s :: "int \<Rightarrow> cptr \<Rightarrow> u32 \<times> nat" where
  "read_s add p =
    (let x = UXSRC add in
     if x = SRC AFP \<or> x = SRC AMP \<or> x = SRC AIMM then
       (let (v, n) = operand p in (word_of_int v, n))
     else if x = SRC (AIND OR AFP) \<or> x = SRC (AIND OR AMP) then
       (let (f, n) = operand p; (s, k) = operand (ptr_add p n) in (adr_ind f s, n + k))
     else (0, 0))"

definition read_d :: "int \<Rightarrow> cptr \<Rightarrow> u32 \<times> nat" where
  "read_d add p =
    (let x = UXDST add in
     if x = DST AFP \<or> x = DST AMP \<or> x = DST AIMM then
       (let (v, n) = operand p in (word_of_int v, n))
     else if x = DST (AIND OR AFP) \<or> x = DST (AIND OR AMP) then
       (let (f, n) = operand p; (s, k) = operand (ptr_add p n) in (adr_ind f s, n + k))
     else (0, 0))"

definition read_reg :: "int \<Rightarrow> cptr \<Rightarrow> u16 \<times> nat" where
  "read_reg add p =
    (let x = add AND ARM in
     if x = AXIMM \<or> x = AXINF \<or> x = AXINM then
       (let (v, n) = operand p in (ushort v, n))
     else (0, 0))"

definition read_inst :: "cptr \<Rightarrow> Inst \<times> nat" where
  "read_inst istream =
    (let op = istream 0; add = istream 1; a = uint add;
         (reg, n) = read_reg a (ptr_add istream 2);
         (s, j) = read_s a (ptr_add istream (2 + n));
         (d, k) = read_d a (ptr_add istream (2 + n + j))
     in (\<lparr>i_op = op, i_add = add, i_reg = reg, i_s = s, i_d = d\<rparr>, 2 + n + j + k))"

text \<open>A counted loop over the stream: the loops over instructions, descriptors and data words.\<close>

fun read_many :: "(cptr \<Rightarrow> 'a \<times> nat) \<Rightarrow> nat \<Rightarrow> cptr \<Rightarrow> 'a list \<times> nat" where
  "read_many f 0 p = ([], 0)"
| "read_many f (Suc n) p =
    (let (x, k) = f p; (xs, j) = read_many f n (ptr_add p k) in (x # xs, k + j))"

lemma and_c0: "0 \<le> c \<Longrightarrow> c < 256 \<Longrightarrow> (c::int) AND 192 = c div 64 * 64"
  using and_shift [of c 3 6] take_bit_eq_mask [of 2 "c div 64"]
  by (simp add: take_bit_eq_mod mask_eq_exp_minus_1)

lemma and_20: "(c::int) AND 32 = (c div 32) mod 2 * 32"
  using and_shift [of c 1 5] by (simp add: and_one_eq)

lemma or_not_mask: "(c :: int) OR NOT (mask k) = take_bit k c - 2 ^ k"
proof -
  have 1: "c OR NOT (mask k) = NOT (mask k) OR take_bit k c"
    by (rule bit_eqI) (auto simp: bit_simps)
  have 2: "NOT (mask k :: int) = - 1 * 2 ^ k"
    by (simp add: not_int_def mask_eq_exp_minus_1)
  have 3: "- 1 * 2 ^ k OR take_bit k c = - 1 * 2 ^ k + take_bit k c"
    by (rule or_shift_add) simp_all
  have "c OR NOT (mask k) = - 1 * 2 ^ k + take_bit k c"
    unfolding 1 by (simp only: 2 3)
  then show ?thesis by simp
qed

lemma or_not:
  "0 \<le> c \<Longrightarrow> c < 128 \<Longrightarrow> (c::int) OR NOT 127 = c - 128"
  "(c::int) OR NOT 63 = c mod 64 - 64"
  using or_not_mask [of c 7] or_not_mask [of c 6]
  by (simp_all add: mask_eq_exp_minus_1 take_bit_eq_mod)

lemma push_or_8:
  fixes a b :: int
  assumes "0 \<le> b" "b < 256"
  shows "push_bit (8 + k) a OR push_bit k b = push_bit k (a * 256 + b)"
proof -
  have "push_bit (8 + k) a OR push_bit k b = push_bit k (push_bit 8 a OR b)"
    by (simp only: push_bit_or push_bit_push_bit add.commute)
  then show ?thesis
    using or_shift_add [of b 8 a] assms by (simp add: push_bit_eq_mult)
qed

lemma pushes:
  fixes b c d :: int
  assumes "0 \<le> b" "b < 256" "0 \<le> c" "c < 256" "0 \<le> d" "d < 256"
  shows "push_bit 8 e OR b = e * 256 + b"
    "push_bit 24 e OR push_bit 16 b OR push_bit 8 c OR d = e * 16777216 + b * 65536 + c * 256 + d"
proof -
  show "push_bit 8 e OR b = e * 256 + b"
    using push_or_8 [of b 0 e] assms by simp
  have "push_bit 24 e OR push_bit 16 b = push_bit 16 (e * 256 + b)"
    using push_or_8 [of b 16 e] assms by (simp del: push_bit_of_0)
  moreover have "push_bit 16 (e * 256 + b) OR push_bit 8 c = push_bit 8 ((e * 256 + b) * 256 + c)"
    using push_or_8 [of c 8 "e * 256 + b"] assms by simp
  moreover have "push_bit 8 ((e * 256 + b) * 256 + c) OR d = ((e * 256 + b) * 256 + c) * 256 + d"
    using push_or_8 [of d 0 "(e * 256 + b) * 256 + c"] assms by simp
  ultimately show "push_bit 24 e OR push_bit 16 b OR push_bit 8 c OR d
      = e * 16777216 + b * 65536 + c * 256 + d"
    unfolding or.assoc [symmetric] by (simp only: algebra_simps)
qed

lemma discon_heads:
  "\<forall>h \<in> set [-64..63]. uint (uchar (h AND NOT 0x80)) = h mod 128"
  "\<forall>h \<in> set [-32..31]. uint (uchar ((h AND NOT 0xC0) OR 0x80)) = 128 + h mod 64"
  "\<forall>h \<in> set [-32..31]. uint (uchar (h OR 0xC0)) = 192 + h mod 64"
  by code_simp+

lemma discon_head:
  "-64 \<le> h \<Longrightarrow> h \<le> 63 \<Longrightarrow> uint (uchar (h AND NOT 0x80)) = h mod 128"
  "-32 \<le> h \<Longrightarrow> h \<le> 31 \<Longrightarrow> uint (uchar ((h AND NOT 0xC0) OR 0x80)) = 128 + h mod 64"
  "-32 \<le> h \<Longrightarrow> h \<le> 31 \<Longrightarrow> uint (uchar (h OR 0xC0)) = 192 + h mod 64"
proof -
  have h: "h \<in> set [a..b]" if "a \<le> h" "h \<le> b" for a b using that by simp
  show "-64 \<le> h \<Longrightarrow> h \<le> 63 \<Longrightarrow> uint (uchar (h AND NOT 0x80)) = h mod 128"
    using discon_heads(1) h by blast
  show "-32 \<le> h \<Longrightarrow> h \<le> 31 \<Longrightarrow> uint (uchar ((h AND NOT 0xC0) OR 0x80)) = 128 + h mod 64"
    using discon_heads(2) h by blast
  show "-32 \<le> h \<Longrightarrow> h \<le> 31 \<Longrightarrow> uint (uchar (h OR 0xC0)) = 192 + h mod 64"
    using discon_heads(3) h by blast
qed

lemma operand_arith:
  fixes cp defines "c \<equiv> uint (cp 0)" and "b1 \<equiv> uint (cp 1)" and "b2 \<equiv> uint (cp 2)"
    and "b3 \<equiv> uint (cp 3)"
  shows "c < 64 \<Longrightarrow> operand cp = (c, 1)"
    "64 \<le> c \<Longrightarrow> c < 128 \<Longrightarrow> operand cp = (c - 128, 1)"
    "128 \<le> c \<Longrightarrow> c < 192 \<Longrightarrow>
      operand cp = ((if c < 160 then c - 128 else c - 192) * 256 + b1, 2)"
    "192 \<le> c \<Longrightarrow>
      operand cp = ((if c < 224 then c - 192 else c - 256) * 16777216 + b1 * 65536 + b2 * 256 + b3, 4)"
proof -
  have r: "0 \<le> c" "c < 256" "0 \<le> b1" "b1 < 256" "0 \<le> b2" "b2 < 256" "0 \<le> b3" "b3 < 256"
    by (simp_all add: c_def b1_def b2_def b3_def)
  note d = operand_def Let_def c_def [symmetric] b1_def [symmetric] b2_def [symmetric]
    b3_def [symmetric] and_c0 [OF r(1,2)] and_20
  show "c < 64 \<Longrightarrow> operand cp = (c, 1)"
    using r by (simp add: d)
  show "operand cp = (c - 128, 1)" if "64 \<le> c" "c < 128"
  proof -
    have "c div 64 = 1" using that by simp
    then show ?thesis
      unfolding d or_not(1) [OF r(1) that(2)] by simp
  qed
  show "operand cp = ((if c < 160 then c - 128 else c - 192) * 256 + b1, 2)"
    if "128 \<le> c" "c < 192"
  proof -
    have q: "c div 64 = 2" "(c div 32) mod 2 = 0 \<longleftrightarrow> c < 160"
      using that by (auto, presburger+)
    have "c mod 64 = c - 128" using that mod_reduce [of "c - 128" 64 2] by simp
    then show ?thesis
      unfolding d or_not(2) and_mask_mod pushes(1) [OF r(3,4,5,6,7,8)]
      using q by simp
  qed
  show "operand cp = ((if c < 224 then c - 192 else c - 256) * 16777216 + b1 * 65536 + b2 * 256 + b3, 4)"
    if "192 \<le> c"
  proof -
    have q: "c div 64 = 3" "(c div 32) mod 2 = 0 \<longleftrightarrow> c < 224"
      using that r by (auto, presburger+)
    have "c mod 64 = c - 192" using that r mod_reduce [of "c - 192" 64 3] by simp
    then show ?thesis
      unfolding d or_not(2) and_mask_mod pushes(2) [OF r(3,4,5,6,7,8)]
      using q by simp
  qed
qed

definition is_long :: "int \<Rightarrow> bool" where
  "is_long v \<longleftrightarrow> -2147483648 \<le> v \<and> v < 2147483648"

lemma discon_range:
  assumes "is_long v"
  shows "(v < 0 \<and> drop_bit 29 v AND 7 \<noteq> 7 \<or> v > 0 \<and> drop_bit 29 v \<noteq> 0)
    \<longleftrightarrow> v < -536870912 \<or> 536870912 \<le> v"
proof -
  have d: "drop_bit 29 v = v div 536870912" by (simp add: drop_bit_eq_div)
  have b: "-4 \<le> v div 536870912"
    using assms zdiv_mono1 [of "-2147483648" v 536870912] by (simp add: is_long_def)
  have m: "v div 536870912 < 0 \<Longrightarrow> (v div 536870912) mod 8 = v div 536870912 + 8"
    using b mod_reduce [of "v div 536870912 + 8" 8 "-1"] by simp
  show ?thesis
  proof (cases "v < 0")
    case True
    then have n: "v div 536870912 < 0" by (simp add: pos_imp_zdiv_neg_iff)
    have "v div 536870912 = -1 \<longleftrightarrow> -536870912 \<le> v"
    proof (cases "-536870912 \<le> v")
      case True
      then have "-1 \<le> v div 536870912" using zdiv_mono1 [of "-536870912" v 536870912] by simp
      then show ?thesis using n True by linarith
    next
      case False
      then have "v div 536870912 \<le> -2" using zdiv_mono1 [of v "-536870913" 536870912] by simp
      then show ?thesis using False by linarith
    qed
    moreover have "v div 536870912 + 8 = 7 \<longleftrightarrow> v div 536870912 = -1" by linarith
    ultimately show ?thesis using True m [OF n] by (simp only: d and_mask_mod) auto
  next
    case False
    then have "v div 536870912 = 0 \<longleftrightarrow> v < 536870912" by (auto simp: zdiv_eq_0_iff)
    then show ?thesis using False by (auto simp: d)
  qed
qed

lemma discon_None_iff:
  assumes "is_long v"
  shows "discon v = None \<longleftrightarrow> v < -536870912 \<or> 536870912 \<le> v"
  using discon_range [OF assms] by (auto simp: discon_def)

lemma div_between:
  fixes v :: int
  assumes "a * m \<le> v" "v < b * m" "0 < m"
  shows "a \<le> v div m" "v div m \<le> b - 1"
proof -
  have "(a * m) div m \<le> v div m" using assms(1,3) by (rule zdiv_mono1)
  then show "a \<le> v div m" using assms(3) by simp
  have "v div m \<le> (b * m - 1) div m" using assms by (intro zdiv_mono1) auto
  also have "(b * m - 1) div m = b - 1"
    using assms(3) div_mult_self3 [of m "b - 1" "m - 1"] by (simp add: algebra_simps)
  finally show "v div m \<le> b - 1" .
qed

lemma sign6:
  fixes h :: int
  assumes "-32 \<le> h" "h \<le> 31"
  shows "(if h mod 64 < 32 then h mod 64 else h mod 64 - 64) = h"
    "0 \<le> h mod 64" "h mod 64 < 64"
proof -
  have "h mod 64 = (if h < 0 then h + 64 else h)"
    using assms mod_reduce [of "h + 64" 64 "-1"] by simp
  then show "(if h mod 64 < 32 then h mod 64 else h mod 64 - 64) = h"
    using assms by simp
qed simp_all

lemma split_word:
  fixes v :: int
  shows "v div 16777216 * 16777216 + v div 65536 mod 256 * 65536 + v div 256 mod 256 * 256
      + v mod 256 = v"
proof -
  have "v div 65536 div 256 = v div 16777216" "v div 256 div 256 = v div 65536"
    by (simp_all add: zdiv_zmult2_eq [symmetric])
  then have "v div 16777216 * 256 + v div 65536 mod 256 = v div 65536"
      "v div 65536 * 256 + v div 256 mod 256 = v div 256"
    using div_mult_mod_eq [of "v div 65536" 256] div_mult_mod_eq [of "v div 256" 256] by simp_all
  then show ?thesis using div_mult_mod_eq [of v 256] by linarith
qed

lemma operand_discon:
  assumes v: "is_long v" and bs: "discon v = Some bs" and h: "holds p bs"
  shows "operand p = (v, length bs)"
proof -
  consider (one) "-64 \<le> v" "v \<le> 63"
    | (two) "\<not> (-64 \<le> v \<and> v \<le> 63)" "-8192 \<le> v" "v \<le> 8191"
    | (four) "\<not> (-64 \<le> v \<and> v \<le> 63)" "\<not> (-8192 \<le> v \<and> v \<le> 8191)"
    by blast
  then show ?thesis
  proof cases
    case one
    then have b: "bs = [uchar (v AND NOT 0x80)]" using bs by (simp add: discon_def)
    have c: "uint (p 0) = v mod 128" using h discon_head(1) [OF one] by (simp add: b)
    show ?thesis
    proof (cases "v < 0")
      case True
      then have "v mod 128 = v + 128" using one mod_reduce [of "v + 128" 128 "-1"] by simp
      then show ?thesis using operand_arith(2) [of p] c one True by (simp add: b)
    next
      case False
      then have "v mod 128 = v" using one by simp
      then show ?thesis using operand_arith(1) [of p] c one by (simp add: b)
    qed
  next
    case two
    let ?h = "v div 256"
    have b: "bs = [uchar ((?h AND NOT 0xC0) OR 0x80), uchar v]"
      using bs two by (simp add: discon_def drop_bit_eq_div)
    have r: "-32 \<le> ?h" "?h \<le> 31"
      using div_between [of "-32" 256 v 32] two by simp_all
    have c: "uint (p 0) = 128 + ?h mod 64" "uint (p 1) = v mod 256"
      using h discon_head(2) [OF r] by (simp_all add: b del: One_nat_def)
    have e: "(if uint (p 0) < 160 then uint (p 0) - 128 else uint (p 0) - 192) = ?h"
      using sign6(1) [OF r] by (auto simp: c split: if_splits)
    have "128 \<le> uint (p 0)" "uint (p 0) < 192" using sign6(2,3) [OF r] by (simp_all add: c)
    from operand_arith(3) [of p, OF this, unfolded e] show ?thesis
      by (simp add: b c del: One_nat_def)
  next
    case four
    let ?h = "v div 16777216"
    have ok: "\<not> (v < -536870912 \<or> 536870912 \<le> v)" using discon_None_iff [OF v] bs by simp
    have b: "bs = [uchar (?h OR 0xC0), uchar (v div 65536), uchar (v div 256), uchar v]"
    proof -
      have "discon v = Some [uchar (drop_bit 24 v OR 0xC0), uchar (drop_bit 16 v),
          uchar (drop_bit 8 v), uchar v]"
        unfolding discon_def discon_range [OF v] by (simp only: four ok if_False)
      then show ?thesis using bs by (simp add: drop_bit_eq_div)
    qed
    have r: "-32 \<le> ?h" "?h \<le> 31"
      using div_between [of "-32" 16777216 v 32] ok by simp_all
    have c: "uint (p 0) = 192 + ?h mod 64" "uint (p 1) = v div 65536 mod 256"
        "uint (p 2) = v div 256 mod 256" "uint (p 3) = v mod 256"
      using h discon_head(3) [OF r] by (simp_all add: b del: One_nat_def)
    have e: "(if uint (p 0) < 224 then uint (p 0) - 192 else uint (p 0) - 256) = ?h"
      using sign6(1) [OF r] by (auto simp: c split: if_splits)
    have "192 \<le> uint (p 0)" using sign6(2) [OF r] by (simp add: c)
    from operand_arith(4) [of p, OF this, unfolded e] show ?thesis
      unfolding c split_word by (simp add: b)
  qed
qed

section \<open>Round trips\<close>

text \<open>
  What the loader relies on for each kind of item: a decoder reads back, from any stream that
  starts with what the encoder wrote, the item's value and the length of its encoding. The counted
  loops over such items follow once.
\<close>

locale codec =
  fixes enc :: "'a \<Rightarrow> byte list option"
    and dec :: "cptr \<Rightarrow> 'b \<times> nat"
    and ok :: "'a \<Rightarrow> bool"
    and val :: "'a \<Rightarrow> 'b"
  assumes dec_enc: "ok a \<Longrightarrow> enc a = Some bs \<Longrightarrow> holds p bs \<Longrightarrow> dec p = (val a, length bs)"
begin

lemma read_many_emit_all:
  "list_all ok xs \<Longrightarrow> emit_all enc xs = Some bs \<Longrightarrow> holds p bs \<Longrightarrow>
    read_many dec (length xs) p = (map val xs, length bs)"
proof (induction xs arbitrary: bs p)
  case (Cons x xs)
  obtain a b where e: "enc x = Some a" "emit_all enc xs = Some b" "bs = a @ b"
    using Cons.prems(2) by (auto simp: bind_eq_Some_conv)
  then have "dec p = (val x, length a)" using dec_enc Cons.prems by simp
  then show ?case using Cons e by simp
qed simp

lemma enc_inj:
  assumes "ok a" "ok b" "enc a = Some bs" "enc b = Some bs"
  shows "val a = val b"
  using dec_enc [OF assms(1,3) holds_of_bytes] dec_enc [OF assms(2,4) holds_of_bytes] by simp

end

definition enc_word :: "int \<Rightarrow> byte list option" where
  "enc_word w = Some (disword w)"

lemma disw_disword:
  assumes "holds p (disword w)"
  shows "disw p = (word_of_int w, 4)"
proof -
  have "p 0 = uchar (drop_bit 24 w)" "p 1 = uchar (drop_bit 16 w)" "p 2 = uchar (drop_bit 8 w)"
      "p 3 = uchar w"
    using assms by (simp_all add: disword_def del: One_nat_def)
  moreover have "(push_bit 24 (ucast (uchar (drop_bit 24 w))) OR push_bit 16 (ucast (uchar (drop_bit 16 w)))
      OR push_bit 8 (ucast (uchar (drop_bit 8 w))) OR ucast (uchar w) :: u32) = word_of_int w"
  proof (rule bit_word_eqI)
    fix n
    show "bit (push_bit 24 (ucast (uchar (drop_bit 24 w))) OR push_bit 16 (ucast (uchar (drop_bit 16 w)))
      OR push_bit 8 (ucast (uchar (drop_bit 8 w))) OR ucast (uchar w) :: u32) n
        = bit (word_of_int w :: u32) n" if "n < LENGTH(32)"
      using that by (cases "n < 8"; cases "n < 16"; cases "n < 24") (auto simp: uchar_def bit_simps)
  qed
  ultimately show ?thesis by (simp add: disw_def)
qed

interpretation con: codec discon operand is_long "\<lambda>v. v"
  by unfold_locales (rule operand_discon)

interpretation wrd: codec enc_word disw "\<lambda>w. True" word_of_int
  by unfold_locales (auto simp: enc_word_def disw_disword disword_def)

text \<open>What the loader makes of a compiler address, and which instructions it can represent.\<close>

definition addr_ok :: "Addr \<Rightarrow> bool" where
  "addr_ok a \<longleftrightarrow> ad_mode a \<noteq> Aerr \<and> is_long (ad_offset a) \<and> is_long (ad_reg a) \<and> is_long (ad_iface a)"

definition mid_ok :: "Addr \<Rightarrow> bool" where
  "mid_ok a \<longleftrightarrow> addr_ok a \<and> ad_mode a \<noteq> Afpind \<and> ad_mode a \<noteq> Ampind"

definition cinst_ok :: "Cinst \<Rightarrow> bool" where
  "cinst_ok i \<longleftrightarrow> addr_ok (ci_s i) \<and> addr_ok (ci_d i) \<and> mid_ok (ci_m i)"

definition addr_val :: "Addr \<Rightarrow> int" where
  "addr_val a = (case ad_mode a of Aimm \<Rightarrow> ad_offset a | Apc \<Rightarrow> ad_offset a | Adesc \<Rightarrow> ad_offset a
     | Aoff \<Rightarrow> ad_iface a | Afp \<Rightarrow> ad_reg a | Amp \<Rightarrow> ad_reg a | _ \<Rightarrow> 0)"

definition addr_adr :: "Addr \<Rightarrow> u32" where
  "addr_adr a = (if ad_mode a = Afpind \<or> ad_mode a = Ampind then adr_ind (ad_reg a) (ad_offset a)
     else word_of_int (addr_val a))"

definition inst_val :: "Cinst \<Rightarrow> Inst" where
  "inst_val i = \<lparr>i_op = of_nat (ci_op i),
     i_add = uchar (SRC (dismode (ad_mode (ci_s i))) OR DST (dismode (ad_mode (ci_d i)))
           OR disregmode (ad_mode (ci_m i))),
     i_reg = ushort (addr_val (ci_m i)), i_s = addr_adr (ci_s i), i_d = addr_adr (ci_d i)\<rparr>"

text \<open>The addressing byte keeps the three modes apart.\<close>

lemma add_modes_all:
  "\<forall>s \<in> set [AMP, AFP, AIMM, AXXX, AIND OR AMP, AIND OR AFP].
   \<forall>d \<in> set [AMP, AFP, AIMM, AXXX, AIND OR AMP, AIND OR AFP].
   \<forall>m \<in> set [AXNON, AXIMM, AXINF, AXINM].
     uint (uchar (SRC s OR DST d OR m)) AND ARM = m
     \<and> UXSRC (uint (uchar (SRC s OR DST d OR m))) = SRC s
     \<and> UXDST (uint (uchar (SRC s OR DST d OR m))) = DST d"
  by code_simp

lemma mode_sets:
  "dismode s \<in> set [AMP, AFP, AIMM, AXXX, AIND OR AMP, AIND OR AFP]"
  "disregmode m \<in> set [AXNON, AXIMM, AXINF, AXINM]"
  by (cases s; simp add: or.commute) (cases m; simp)

lemma add_modes:
  fixes s d m :: amode
  defines "a \<equiv> uint (uchar (SRC (dismode s) OR DST (dismode d) OR disregmode m))"
  shows "a AND ARM = disregmode m" "UXSRC a = SRC (dismode s)" "UXDST a = DST (dismode d)"
  unfolding a_def using add_modes_all mode_sets by blast+

definition emit_addr :: "Addr \<Rightarrow> byte list option" where
  "emit_addr a = (if ad_mode a \<noteq> Anone then disaddr a else Some [])"

lemma SRC_eq [simp]: "SRC x = SRC y \<longleftrightarrow> x = y" "DST x = DST y \<longleftrightarrow> x = y"
  by (simp_all add: SRC_def DST_def push_bit_eq_mult)

lemmas mode_consts = AMP_def AFP_def AIMM_def AXXX_def AIND_def AXNON_def AXIMM_def AXINF_def
  AXINM_def

lemma read_addr:
  assumes ok: "addr_ok x" and e: "emit_addr x = Some bs" and h: "holds p bs"
  shows "UXSRC a = SRC (dismode (ad_mode x)) \<Longrightarrow> read_s a p = (addr_adr x, length bs)"
    "UXDST a = DST (dismode (ad_mode x)) \<Longrightarrow> read_d a p = (addr_adr x, length bs)"
proof -
  have one: "operand p = (v, length bs)" if "disaddr x = discon v" "ad_mode x \<noteq> Anone" "is_long v" for v
    using con.dec_enc [OF that(3) _ h] e that by (simp add: emit_addr_def)
  have two: "\<exists>n k. operand p = (ad_reg x, n) \<and> operand (ptr_add p n) = (ad_offset x, k)
      \<and> length bs = n + k" if m: "ad_mode x = Afpind \<or> ad_mode x = Ampind"
  proof -
    obtain b1 b2 where b: "discon (ad_reg x) = Some b1" "discon (ad_offset x) = Some b2" "bs = b1 @ b2"
      using e m by (auto simp: emit_addr_def disaddr_def bind_eq_Some_conv)
    then show ?thesis
      using con.dec_enc [OF _ b(1), of p] con.dec_enc [OF _ b(2), of "ptr_add p (length b1)"] h ok
      by (simp add: addr_ok_def)
  qed
  note simps = addr_adr_def addr_val_def disaddr_def addr_ok_def Let_def mode_consts
  show "read_s a p = (addr_adr x, length bs)" if "UXSRC a = SRC (dismode (ad_mode x))"
  proof (cases "ad_mode x")
    case Anone
    then show ?thesis using e by (simp add: read_s_def that emit_addr_def simps)
  qed (use one two ok in \<open>auto simp: read_s_def that simps\<close>)
  show "read_d a p = (addr_adr x, length bs)" if "UXDST a = DST (dismode (ad_mode x))"
  proof (cases "ad_mode x")
    case Anone
    then show ?thesis using e by (simp add: read_d_def that emit_addr_def simps)
  qed (use one two ok in \<open>auto simp: read_d_def that simps\<close>)
qed

lemma read_mid:
  assumes ok: "mid_ok x" and e: "emit_addr x = Some bs" and h: "holds p bs"
    and m: "a AND ARM = disregmode (ad_mode x)"
  shows "read_reg a p = (ushort (addr_val x), length bs)"
proof -
  have one: "operand p = (v, length bs)" if "disaddr x = discon v" "ad_mode x \<noteq> Anone" "is_long v" for v
    using con.dec_enc [OF that(3) _ h] e that by (simp add: emit_addr_def)
  note simps = addr_val_def disaddr_def addr_ok_def mid_ok_def Let_def mode_consts
  show ?thesis
  proof (cases "ad_mode x")
    case Anone
    then show ?thesis using e by (simp add: read_reg_def m emit_addr_def simps ushort_def)
  qed (use one ok in \<open>auto simp: read_reg_def m simps\<close>)
qed

lemma read_inst_disinst1:
  assumes ok: "cinst_ok i" and e: "disinst1 i = Some bs" and h: "holds p bs"
  shows "read_inst p = (inst_val i, length bs)"
proof -
  let ?add = "uchar (SRC (dismode (ad_mode (ci_s i))) OR DST (dismode (ad_mode (ci_d i)))
           OR disregmode (ad_mode (ci_m i)))"
  obtain m s d where b: "emit_addr (ci_m i) = Some m" "emit_addr (ci_s i) = Some s"
      "emit_addr (ci_d i) = Some d" "bs = of_nat (ci_op i) # ?add # m @ s @ d"
    using e unfolding disinst1_def emit_addr_def [symmetric] by (auto simp: bind_eq_Some_conv)
  have hs: "p 0 = of_nat (ci_op i)" "p 1 = ?add" "holds (ptr_add p 2) m"
      "holds (ptr_add p (2 + length m)) s" "holds (ptr_add p (2 + length m + length s)) d"
    using h unfolding b by (simp_all add: numeral_2_eq_2)
  have o: "addr_ok (ci_s i)" "addr_ok (ci_d i)" "mid_ok (ci_m i)"
    using ok by (simp_all add: cinst_ok_def)
  show ?thesis
    unfolding read_inst_def Let_def hs(1,2) read_mid [OF o(3) b(1) hs(3) add_modes(1)] prod.case
      read_addr(1) [OF o(1) b(2) hs(4) add_modes(2)]
      read_addr(2) [OF o(2) b(3) hs(5) add_modes(3)]
    by (simp add: inst_val_def b)
qed

interpretation ins: codec disinst1 read_inst cinst_ok inst_val
  by unfold_locales (rule read_inst_disinst1)

text \<open>C3: the instruction loop of the loader reads back every list of instructions that the compiler
  can represent, operand by operand, and ends at the byte after the last one.\<close>

theorem disinst_read:
  assumes "list_all cinst_ok is" and "disinst is = Some bs" and "holds p bs"
  shows "read_many read_inst (length is) p = (map inst_val is, length bs)"
  using ins.read_many_emit_all assms unfolding disinst_def by blast

definition ex_insts :: "Cinst list" where
  "ex_insts = (let none = \<lparr>ad_mode = Anone, ad_reg = 0, ad_offset = 0, ad_iface = 0\<rparr> in
    [\<lparr>ci_op = IMOVW, ci_s = \<lparr>ad_mode = Aimm, ad_reg = 0, ad_offset = -70, ad_iface = 0\<rparr>,
      ci_m = none, ci_d = \<lparr>ad_mode = Afpind, ad_reg = 40, ad_offset = 9000, ad_iface = 0\<rparr>\<rparr>,
     \<lparr>ci_op = IADDW, ci_s = \<lparr>ad_mode = Amp, ad_reg = 8, ad_offset = 0, ad_iface = 0\<rparr>,
      ci_m = \<lparr>ad_mode = Afp, ad_reg = 32, ad_offset = 0, ad_iface = 0\<rparr>,
      ci_d = \<lparr>ad_mode = Afp, ad_reg = 36, ad_offset = 0, ad_iface = 0\<rparr>\<rparr>])"

theorem disinst_read_witness:
  "\<exists>bs. disinst ex_insts = Some bs \<and> length bs = 14 \<and>
     read_many read_inst 2 (of_bytes bs) = (map inst_val ex_insts, 14)"
proof -
  have "map_option length (disinst ex_insts) = Some 14" by code_simp
  then obtain bs where b: "disinst ex_insts = Some bs" "length bs = 14" by auto
  have "list_all cinst_ok ex_insts" by code_simp
  from disinst_read [OF this b(1) holds_of_bytes]
  have "read_many read_inst (length ex_insts) (of_bytes bs) = (map inst_val ex_insts, 14)"
    unfolding b(2) .
  moreover have "length ex_insts = 2" by (simp add: ex_insts_def Let_def)
  ultimately show ?thesis using b by metis
qed

section \<open>The data section: elemsort, disflush, disdatum, disvar\<close>

text \<open>
  A node of the initialiser tree, with what \<open>disdatum\<close> reads of it. A case table is its labels
  (start, stop, pc) and the wildcard's pc; a string label without a range has no stop. The elements
  of an array are in source order, \<open>None\<close> for the wildcard index.
\<close>

datatype Node =
    Nbyte int
  | Nint int
  | Nbig int
  | Nreal u64
  | Nstring "byte list"
  | Nadt "(int \<times> Node) list"
  | Nany
  | Ncase "(int \<times> int \<times> int) list" int
  | Ncasec "(byte list \<times> byte list option \<times> int) list" int
  | Ngoto int "int list" "int option"
  | Narray int int int "(int option \<times> Node) list"   \<comment> \<open>element descriptor, element size, length\<close>
  | Niface int "(int \<times> byte list option \<times> byte list) list"

fun elem_val :: "int option \<times> 'a \<Rightarrow> int" where
  "elem_val (None, n) = -1"
| "elem_val (Some v, n) = v"

fun elemmerge :: "(int option \<times> 'a) list \<Rightarrow> (int option \<times> 'a) list \<Rightarrow> (int option \<times> 'a) list" where
  "elemmerge (e # es) (f # fs) =
    (if elem_val e \<le> elem_val f then e # elemmerge es (f # fs) else f # elemmerge (e # es) fs)"
| "elemmerge [] fs = fs"
| "elemmerge es [] = es"

fun recelemsort :: "(int option \<times> 'a) list \<Rightarrow> nat \<Rightarrow> (int option \<times> 'a) list" where
  "recelemsort e n =
    (if n \<le> 1 then e
     else elemmerge (recelemsort (take (n div 2) e) (n div 2))
            (recelemsort (drop (n div 2) e) ((n + 1) div 2)))"

declare recelemsort.simps [simp del]

definition elemsort :: "(int option \<times> 'a) list \<Rightarrow> (int option \<times> 'a) list" where
  "elemsort e = recelemsort e (length e)"

function align_loop :: "int \<Rightarrow> int \<Rightarrow> int" where
  "align_loop off al = (if al \<noteq> 0 \<and> off mod al \<noteq> 0 then align_loop (off + 1) al else off)"
  by auto
termination
proof (relation "measure (\<lambda>(off, al). nat ((- off) mod \<bar>al\<bar>))")
  fix off al :: int
  assume a: "al \<noteq> 0 \<and> off mod al \<noteq> 0"
  then have "(- off) mod \<bar>al\<bar> \<noteq> 0" by (simp add: mod_eq_0_iff_dvd)
  moreover have "0 \<le> (- off) mod \<bar>al\<bar>" "(- off) mod \<bar>al\<bar> < \<bar>al\<bar>" using a by simp_all
  ultimately have "(- (off + 1)) mod \<bar>al\<bar> = (- off) mod \<bar>al\<bar> - 1"
    using mod_diff_eq [of "- off" "\<bar>al\<bar>" 1] mod_pos_pos_trivial [of "(- off) mod \<bar>al\<bar> - 1" "\<bar>al\<bar>"]
    by (cases "\<bar>al\<bar> = 1") (auto simp: mod_diff_eq)
  then show "((off + 1, al), off, al) \<in> measure (\<lambda>(off, al). nat ((- off) mod \<bar>al\<bar>))"
    using \<open>(- off) mod \<bar>al\<bar> \<noteq> 0\<close> \<open>0 \<le> (- off) mod \<bar>al\<bar>\<close> by simp
qed simp

declare align_loop.simps [simp del]

definition align :: "int \<Rightarrow> int \<Rightarrow> int option" where
  "align off al = (if al = 0 then None else Some (align_loop off al))"

text \<open>
  The cache of data bytes (\<open>cache\<close> up to \<open>ncached\<close>, and the static variables beside it) and
  what has gone to \<open>bout\<close>.
\<close>

record Dcache =
  bout :: "byte list"
  cache :: "byte list"
  ndatum :: nat
  startoff :: int
  lastoff :: int
  lastkind :: int
  lencache :: int

type_synonym emit = "Dcache \<Rightarrow> Dcache option"

definition Bwrite :: "byte list \<Rightarrow> emit" where
  "Bwrite bs c = Some (c\<lparr>bout := bout c @ bs\<rparr>)"

definition Bcon :: "int \<Rightarrow> emit" where
  "Bcon v c = do { bs \<leftarrow> discon v; Bwrite bs c }"

definition disdata :: "int \<Rightarrow> nat \<Rightarrow> emit" where
  "disdata kind n c =
    (if int n < DMAX \<and> n \<noteq> 0 then Bwrite [uchar (DBYTE kind (int n))] c
     else do { c \<leftarrow> Bwrite [uchar (DBYTE kind 0)] c; Bcon (int n) c })"

text \<open>The loop that makes room in the cache; \<open>None\<close> when it does not end.\<close>

partial_function (option) growcache :: "int \<Rightarrow> int \<Rightarrow> int \<Rightarrow> int \<Rightarrow> int option" where
  "growcache kind ncached n len =
    (if kind \<ge> 0 \<and> ncached + n \<ge> len then growcache kind ncached n (ncached + 1024)
     else Some len)"

definition disflush :: "int \<Rightarrow> int \<Rightarrow> int \<Rightarrow> emit" where
  "disflush kind off n c = do {
     c \<leftarrow> (if kind \<noteq> lastkind c \<or> off \<noteq> lastoff c then do {
             c \<leftarrow> (if lastkind c \<noteq> -1 \<and> cache c \<noteq> [] then do {
                     c \<leftarrow> disdata (lastkind c) (ndatum c) c;
                     c \<leftarrow> Bcon (startoff c) c;
                     Bwrite (cache c) c }
                   else Some c);
             Some (c\<lparr>startoff := off, lastkind := kind, cache := [], ndatum := 0\<rparr>) }
           else Some c);
     l \<leftarrow> growcache kind (int (length (cache c))) n (lencache c);
     Some (c\<lparr>lastoff := off + n, lencache := l\<rparr>) }"

definition put :: "byte list \<Rightarrow> nat \<Rightarrow> emit" where
  "put bs n c = Some (c\<lparr>cache := cache c @ bs, ndatum := ndatum c + n\<rparr>)"

definition disbyte :: "int \<Rightarrow> int \<Rightarrow> emit" where
  "disbyte off v c = do { c \<leftarrow> disflush DEFB off 1 c; put [uchar v] 1 c }"

definition disbytes :: "int \<Rightarrow> byte list \<Rightarrow> emit" where
  "disbytes off v c = do { c \<leftarrow> disflush DEFB off (int (length v)) c; put v (length v) c }"

definition disint :: "int \<Rightarrow> int \<Rightarrow> emit" where
  "disint off v c = do { c \<leftarrow> disflush DEFW off (int IBY2WD) c; put (disword v) 1 c }"

definition disbig :: "int \<Rightarrow> int \<Rightarrow> emit" where
  "disbig off v c = do {
     c \<leftarrow> disflush DEFL off (int IBY2LG) c;
     put (disword (drop_bit 32 v) @ disword v) 1 c }"

text \<open>\<open>dtocanon\<close>: the high word of the representation first.\<close>

definition dtocanon :: "u64 \<Rightarrow> u32 \<times> u32" where
  "dtocanon f = (ucast (drop_bit 32 f), ucast f)"

definition disreal :: "int \<Rightarrow> u64 \<Rightarrow> emit" where
  "disreal off v c = do {
     c \<leftarrow> disflush DEFF off (int IBY2LG) c;
     let (b0, b1) = dtocanon v;
     put (disword (uint b0) @ disword (uint b1)) 1 c }"

definition disstring :: "int \<Rightarrow> byte list \<Rightarrow> emit" where
  "disstring offset name c = do {
     c \<leftarrow> disflush (-1) (-1) 0 c;
     c \<leftarrow> disdata DEFS (length name) c;
     c \<leftarrow> Bcon offset c;
     Bwrite name c }"

text \<open>Loops of \<open>disdatum\<close>: consecutive words, case tables, and a default over a range of indices.\<close>

fun disints :: "int \<Rightarrow> int list \<Rightarrow> emit" where
  "disints off [] c = Some c"
| "disints off (v # vs) c = do { c \<leftarrow> disint off v c; disints (off + int IBY2WD) vs c }"

fun discase :: "int \<Rightarrow> (int \<times> int \<times> int) list \<Rightarrow> int \<Rightarrow> emit" where
  "discase off [] wild c = disint off wild c"
| "discase off ((start, stop, pc) # labs) wild c = do {
     c \<leftarrow> disint off start c;
     c \<leftarrow> disint (off + int IBY2WD) (stop + 1) c;
     c \<leftarrow> disint (off + 2 * int IBY2WD) pc c;
     discase (off + 3 * int IBY2WD) labs wild c }"

fun discasec :: "int \<Rightarrow> (byte list \<times> byte list option \<times> int) list \<Rightarrow> int \<Rightarrow> emit" where
  "discasec off [] wild c = disint off wild c"
| "discasec off ((start, stop, pc) # labs) wild c = do {
     c \<leftarrow> disstring off start c;
     c \<leftarrow> (case stop of Some s \<Rightarrow> disstring (off + int IBY2WD) s c | None \<Rightarrow> Some c);
     c \<leftarrow> disint (off + 2 * int IBY2WD) pc c;
     discasec (off + 3 * int IBY2WD) labs wild c }"

fun disiface :: "int \<Rightarrow> (int \<times> byte list option \<times> byte list) list \<Rightarrow> emit" where
  "disiface offset [] c = Some c"
| "disiface offset ((sig, dot, name) # ids) c = do {
     offset \<leftarrow> align offset (int IBY2WD);
     c \<leftarrow> disint offset sig c;
     let offset = offset + int IBY2WD;
     (c, offset) \<leftarrow> (case dot of
        Some s \<Rightarrow> do {
          c \<leftarrow> disbytes offset s c;
          c \<leftarrow> disbyte (offset + int (length s)) 46 c;
          Some (c, offset + int (length s) + 1) }
      | None \<Rightarrow> Some (c, offset));
     c \<leftarrow> disbytes offset name c;
     c \<leftarrow> disbyte (offset + int (length name)) 0 c;
     disiface (offset + int (length name) + 1) ids c }"

fun disrange :: "(int \<Rightarrow> emit) \<Rightarrow> nat \<Rightarrow> int \<Rightarrow> int \<Rightarrow> emit" where
  "disrange f 0 esz lst c = Some c"
| "disrange f (Suc n) esz lst c = do { c \<leftarrow> f (esz * lst) c; disrange f n esz (lst + 1) c }"

text \<open>The elements after the sort: the wildcard fills the indices that are left out.\<close>

fun diselems :: "(int \<Rightarrow> emit) option \<Rightarrow> int \<Rightarrow> int \<Rightarrow> int \<Rightarrow> (int \<times> (int \<Rightarrow> emit)) list \<Rightarrow> emit" where
  "diselems None esz len lst [] c = Some c"
| "diselems (Some w) esz len lst [] c = disrange w (nat (len - lst)) esz lst c"
| "diselems None esz len lst ((e, f) # es) c = do {
     c \<leftarrow> f (esz * e) c;
     diselems None esz len lst es c }"
| "diselems (Some w) esz len lst ((e, f) # es) c = do {
     c \<leftarrow> disrange w (nat (e - lst)) esz lst c;
     c \<leftarrow> f (esz * e) c;
     diselems (Some w) esz len (max lst e + 1) es c }"

definition disarray :: "int \<Rightarrow> int \<Rightarrow> int \<Rightarrow> int \<Rightarrow> (int option \<times> (int \<Rightarrow> emit)) list \<Rightarrow> emit" where
  "disarray offset desc esz len right c = do {
     let elems = elemsort right;
     let (wild, elems) = (case elems of
           (None, w) # es \<Rightarrow> (Some w, es)
         | es \<Rightarrow> (None, es));
     c \<leftarrow> disflush (-1) (-1) 0 c;
     c \<leftarrow> disdata DEFA 1 c;
     c \<leftarrow> Bcon offset c;
     c \<leftarrow> Bwrite (disword desc) c;
     c \<leftarrow> Bwrite (disword len) c;
     if elems = [] \<and> wild = None then Some c
     else do {
       c \<leftarrow> disdata DIND 1 c;
       c \<leftarrow> Bcon offset c;
       c \<leftarrow> Bwrite (disword 0) c;
       c \<leftarrow> diselems wild esz len 0 (map (\<lambda>e. (elem_val e, snd e)) elems) c;
       c \<leftarrow> disflush (-1) (-1) 0 c;
       c \<leftarrow> disdata DAPOP 1 c;
       Bcon 0 c } }"

fun disdatum :: "Node \<Rightarrow> int \<Rightarrow> emit" and
    disfields :: "(int \<times> Node) list \<Rightarrow> int \<Rightarrow> emit" where
  "disdatum (Nbyte v) offset c = disbyte offset v c"
| "disdatum (Nint v) offset c = disint offset v c"
| "disdatum (Nbig v) offset c = disbig offset v c"
| "disdatum (Nstring s) offset c = disstring offset s c"
| "disdatum (Nreal v) offset c = disreal offset v c"
| "disdatum (Nadt ids) offset c = disfields ids offset c"
| "disdatum Nany offset c = Some c"
| "disdatum (Ncase labs wild) offset c = do {
     c \<leftarrow> disint offset (int (length labs)) c;
     discase (offset + int IBY2WD) labs wild c }"
| "disdatum (Ncasec labs wild) offset c = do {
     c \<leftarrow> disint offset (int (length labs)) c;
     discasec (offset + int IBY2WD) labs wild c }"
| "disdatum (Ngoto sz pcs wild) offset c = do {
     c \<leftarrow> disint offset (sz div int IBY2WD - 1) c;
     c \<leftarrow> disints (offset + int IBY2WD) pcs c;
     case wild of
       Some pc \<Rightarrow> disint (offset + int IBY2WD + int IBY2WD * int (length pcs)) pc c
     | None \<Rightarrow> Some c }"
| "disdatum (Narray desc esz len right) offset c =
     disarray offset desc esz len (map (\<lambda>(i, n). (i, disdatum n)) right) c"
| "disdatum (Niface v ids) offset c = do {
     c \<leftarrow> disint offset v c;
     disiface (offset + int IBY2WD) ids c }"
| "disfields [] offset c = Some c"
| "disfields ((o1, n) # ids) offset c = do {
     c \<leftarrow> disdatum n (offset + o1) c;
     disfields ids offset c }"

definition disvar :: "int \<Rightarrow> (bool \<times> int \<times> Node option) list \<Rightarrow> emit" where
  "disvar sz ds c = do {
     c \<leftarrow> disfields (concat (map (\<lambda>(glob, off, init).
             if glob then (case init of Some n \<Rightarrow> [(off, n)] | None \<Rightarrow> []) else []) ds)) 0
           (c\<lparr>lastkind := -1, cache := [], ndatum := 0\<rparr>);
     c \<leftarrow> disflush (-1) (-1) 0 c;
     Bwrite [0] c }"

section \<open>The other sections of the file: disentry, disdesc, dismod\<close>

record Desc =
  de_id :: int
  de_len :: int
  de_map :: "byte list"   \<comment> \<open>\<open>nmap\<close> bytes\<close>

definition disentry :: "(int \<times> int) option \<Rightarrow> emit" where
  "disentry e c =
    (case e of
       None \<Rightarrow> do { c \<leftarrow> Bcon (-1) c; Bcon (-1) c }
     | Some (pc, desc) \<Rightarrow> do { c \<leftarrow> Bcon pc c; Bcon desc c })"

definition disdesc1 :: "Desc \<Rightarrow> byte list option" where
  "disdesc1 d = do {
     a \<leftarrow> discon (de_id d);
     b \<leftarrow> discon (de_len d);
     n \<leftarrow> discon (int (length (de_map d)));
     Some (a @ b @ n @ de_map d) }"

definition disdesc :: "Desc list \<Rightarrow> emit" where
  "disdesc ds c = do { bs \<leftarrow> emit_all disdesc1 ds; Bwrite bs c }"

text \<open>An exported name: a global (\<open>.mp\<close>), or a function with its entry, frame descriptor and,
  for a method, the name of its adt. \<open>NAMELEN\<close> is 28.\<close>

definition NAMELEN :: nat where "NAMELEN = 28"

datatype Export = Eglobal int | Efn int int int "byte list option" "byte list"

definition disexport :: "Export \<Rightarrow> byte list option" where
  "disexport e =
    (case e of
       Eglobal sig \<Rightarrow> do {
         a \<leftarrow> discon (-1);
         b \<leftarrow> discon (-1);
         Some (a @ b @ disword sig @ [46, 109, 112, 0]) }
     | Efn pc desc sig dot name \<Rightarrow> do {
         a \<leftarrow> discon pc;
         b \<leftarrow> discon desc;
         Some (a @ b @ disword sig @ (case dot of Some s \<Rightarrow> s @ [46] | None \<Rightarrow> []) @ name @ [0]) })"

definition dismod :: "byte list \<Rightarrow> Export list \<Rightarrow> emit" where
  "dismod name es c = do {
     let name = takeWhile (\<lambda>b. b \<noteq> 0) (take (NAMELEN - 1) name);
     c \<leftarrow> Bwrite (name @ [0]) c;
     bs \<leftarrow> emit_all disexport es;
     Bwrite bs c }"

text \<open>The object file, as \<open>modcom\<close> writes it.\<close>

record Objmod =
  ob_must :: bool
  ob_dont :: bool
  ob_maxstack :: int
  ob_insts :: "Cinst list"
  ob_offset :: int
  ob_descs :: "Desc list"
  ob_globals :: "(bool \<times> int \<times> Node option) list"
  ob_entry :: "(int \<times> int) option"
  ob_name :: "byte list"
  ob_exports :: "Export list"

definition gendis :: "Objmod \<Rightarrow> emit" where
  "gendis m c = do {
     c \<leftarrow> Bcon XMAGIC c;
     let hints = (if ob_must m then MUSTCOMPILE else 0) OR (if ob_dont m then DONTCOMPILE else 0);
     c \<leftarrow> Bcon hints c;
     c \<leftarrow> Bcon (ob_maxstack m) c;
     c \<leftarrow> Bcon (int (length (ob_insts m))) c;
     c \<leftarrow> Bcon (ob_offset m) c;
     c \<leftarrow> Bcon (int (length (ob_descs m))) c;
     c \<leftarrow> Bcon (int (length (ob_exports m))) c;
     c \<leftarrow> disentry (ob_entry m) c;
     bs \<leftarrow> disinst (ob_insts m);
     c \<leftarrow> Bwrite bs c;
     c \<leftarrow> disdesc (ob_descs m) c;
     c \<leftarrow> disvar (ob_offset m) (ob_globals m) c;
     dismod (ob_name m) (ob_exports m) c }"

section \<open>The element sort\<close>

lemma elemmerge_mset: "mset (elemmerge es fs) = mset es + mset fs"
  by (induction es fs rule: elemmerge.induct) auto

lemma elemmerge_sorted:
  "sorted (map elem_val es) \<Longrightarrow> sorted (map elem_val fs) \<Longrightarrow> sorted (map elem_val (elemmerge es fs))"
proof (induction es fs rule: elemmerge.induct)
  case (1 e es f fs)
  have s: "set (elemmerge xs ys) = set xs \<union> set ys" for xs ys :: "(int option \<times> 'a) list"
    using arg_cong [OF elemmerge_mset, of set_mset xs ys] by simp
  show ?case
  proof (cases "elem_val e \<le> elem_val f")
    case True
    then show ?thesis using 1 by (auto simp: s)
  next
    case False
    then show ?thesis using 1 by (fastforce simp: s)
  qed
qed auto

text \<open>Elements with the same index keep their order.\<close>

lemma elemmerge_stable:
  "sorted (map elem_val es) \<Longrightarrow>
    filter (\<lambda>x. elem_val x = k) (elemmerge es fs) = filter (\<lambda>x. elem_val x = k) es @ filter (\<lambda>x. elem_val x = k) fs"
proof (induction es fs rule: elemmerge.induct)
  case (1 e es f fs)
  show ?case
  proof (cases "elem_val e \<le> elem_val f")
    case True
    then show ?thesis using 1 by simp
  next
    case False
    then have "filter (\<lambda>x. elem_val x = elem_val f) (e # es) = []"
      using 1(3) by (auto simp: filter_empty_conv)
    then show ?thesis using 1(2) [OF False 1(3)] False by auto
  qed
qed simp_all

lemma recelemsort_sort:
  "n = length e \<Longrightarrow> recelemsort e n = sort_key elem_val e"
proof (induction n arbitrary: e rule: less_induct)
  case (less n)
  show ?case
  proof (cases "n \<le> 1")
    case True
    then have "e = [] \<or> (\<exists>x. e = [x])" using less.prems by (cases e) auto
    then show ?thesis using True by (auto simp: recelemsort.simps)
  next
    case False
    let ?a = "take (n div 2) e" and ?b = "drop (n div 2) e"
    have l: "n div 2 < n" "(n + 1) div 2 < n" "n div 2 = length ?a" "(n + 1) div 2 = length ?b"
      using False less.prems by auto
    have r: "recelemsort e n = elemmerge (sort_key elem_val ?a) (sort_key elem_val ?b)"
      using False less.IH [OF l(1,3)] less.IH [OF l(2,4)] by (simp add: recelemsort.simps [of e n])
    show ?thesis
      unfolding r
    proof (rule properties_for_sort_key [symmetric])
      show "mset (elemmerge (sort_key elem_val ?a) (sort_key elem_val ?b)) = mset e"
        using mset_append [of ?a ?b] by (simp add: elemmerge_mset del: mset_append)
      show "sorted (map elem_val (elemmerge (sort_key elem_val ?a) (sort_key elem_val ?b)))"
        by (intro elemmerge_sorted) simp_all
      fix k assume "k \<in> set (elemmerge (sort_key elem_val ?a) (sort_key elem_val ?b))"
      show "filter (\<lambda>x. elem_val k = elem_val x) (elemmerge (sort_key elem_val ?a) (sort_key elem_val ?b))
          = filter (\<lambda>x. elem_val k = elem_val x) e"
        using elemmerge_stable [of "sort_key elem_val ?a" "elem_val k" "sort_key elem_val ?b"]
          filter_append [of _ ?a ?b]
        by (simp add: sort_key_stable eq_commute [of "elem_val k"] del: filter_append)
    qed
  qed
qed

text \<open>C37: \<open>elemsort\<close>, the compiler's recursive merge sort of array initialisers, is a stable sort by
  index, the wildcard (index -1) first.\<close>

theorem elemsort_sort: "elemsort e = sort_key elem_val e"
  by (simp add: elemsort_def recelemsort_sort)

section \<open>The cache loop\<close>

lemma growcache_exit:
  "kind < 0 \<or> ncached + n < len \<Longrightarrow> growcache kind ncached n len = Some len"
  by (subst growcache.simps) auto

lemma growcache_grow:
  assumes "0 \<le> kind" "len \<le> ncached + n" "n < 1024"
  shows "growcache kind ncached n len = Some (ncached + 1024)"
  using assms growcache_exit [of kind ncached n "ncached + 1024"] by (subst growcache.simps) simp

lemma growcache_stuck:
  assumes "growcache kind ncached n len = Some l"
  shows "kind < 0 \<or> ncached + n < len \<or> n < 1024"
proof (rule growcache.raw_induct [of "\<lambda>k c m x. \<lambda>l. k < 0 \<or> c + m < x \<or> m < 1024", OF _ assms])
  fix f :: "int \<Rightarrow> int \<Rightarrow> int \<Rightarrow> int \<Rightarrow> int option" and k c m x y
  assume "\<And>k c m x y. f k c m x = Some y \<Longrightarrow> k < 0 \<or> c + m < x \<or> m < 1024"
    and "(if k \<ge> 0 \<and> c + m \<ge> x then f k c m (c + 1024) else Some x) = Some y"
  then show "k < 0 \<or> c + m < x \<or> m < 1024" by (fastforce split: if_splits)
qed

text \<open>C38: the loop of \<open>disflush\<close> that makes room in the data cache ends exactly when there is room
  already, or the item is smaller than 1024 bytes: it adds 1024 bytes to the same count each time.\<close>

theorem growcache_terminates:
  "growcache kind ncached n len \<noteq> None \<longleftrightarrow> kind < 0 \<or> ncached + n < len \<or> n < 1024"
proof
  assume "growcache kind ncached n len \<noteq> None"
  then show "kind < 0 \<or> ncached + n < len \<or> n < 1024" using growcache_stuck by blast
next
  assume "kind < 0 \<or> ncached + n < len \<or> n < 1024"
  then show "growcache kind ncached n len \<noteq> None"
    using growcache_exit [of kind ncached n len] growcache_grow [of kind len ncached n]
    by (cases "kind < 0 \<or> ncached + n < len") auto
qed

end
