(* ===== verification/Loader.thy ===== *)
theory Loader
  imports Str Disfile
begin

text \<open>
  Loading and linking: \<open>parsemod\<close> and its parts from \<open>interp/load.c\<close>, and \<open>interp/link.c\<close>. The
  object file is a byte list; what is past its end reads as zero. Reading files, checking
  signatures and the native compiler are outside the model: the record \<open>host\<close>.
\<close>

record host =
  y_readmod :: "cptr \<Rightarrow> addr \<Rightarrow> bool \<Rightarrow> (byte list \<times> u32) option M"
  y_verifysigner :: "cptr \<Rightarrow> int \<Rightarrow> cptr \<Rightarrow> bool"
  y_compile :: "addr \<Rightarrow> int \<Rightarrow> bool M"
  y_cflag :: bool

section \<open>Links\<close>

definition add_link :: "addr \<Rightarrow> byte list \<Rightarrow> u32 \<Rightarrow> addr \<Rightarrow> linkpc \<Rightarrow> Module \<Rightarrow> Module" where
  "add_link m fn sig t pc x =
    x\<lparr>m_ext := \<lparr>k_sig = sig, k_m = m, k_frame = t, k_u = pc, k_name = fn\<rparr> # m_ext x\<rparr>"

definition runtime :: "addr \<Rightarrow> byte list \<Rightarrow> u32 \<Rightarrow> string \<Rightarrow> addr \<Rightarrow> unit M" where
  "runtime m fn sig runt t = bindM (deref v_mods m) (\<lambda>x.
     set_mod m (add_link m fn sig t (Runt runt) x))"

definition mlink :: "addr \<Rightarrow> byte list \<Rightarrow> u32 \<Rightarrow> int \<Rightarrow> addr \<Rightarrow> Module \<Rightarrow> Module" where
  "mlink m fn sig pc t x =
    add_link m fn sig t (Pc (nat (int (m_prog x) + int sizeof_Inst * pc))) x"

text \<open>\<open>strcmp(s, t) == 0\<close>, for a string \<open>t\<close> without zero bytes.\<close>

definition streq :: "cptr \<Rightarrow> byte list \<Rightarrow> bool" where
  "streq s t = holds s (t @ [0])"

partial_function (option) strend :: "(addr \<Rightarrow> byte) \<Rightarrow> addr \<Rightarrow> addr option" where
  "strend m p = (if m p = 0 then Some p else strend m (p + 1))"

text \<open>
  One entry of an import table, at \<open>lrec\<close>: the next entry's address, or nil when the name is not
  exported or its signature differs.
\<close>

definition align4 :: "addr \<Rightarrow> addr" where
  "align4 a = a + (4 - a mod 4) mod 4"

definition linkm :: "addr \<Rightarrow> addr \<Rightarrow> nat \<Rightarrow> addr \<Rightarrow> addr M" where
  "linkm m ml i lrec = bindM (deref v_mods m) (\<lambda>x. bindM (gets v_mem) (\<lambda>mem.
     let lrec = align4 lrec; sig = ld32 mem lrec; q = lrec + 4 in
     case strend mem q of
       None \<Rightarrow> fault
     | Some p \<Rightarrow>
         (case find (\<lambda>l. streq (\<lambda>i. mem (q + i)) (k_name l)) (m_ext x) of
            None \<Rightarrow> ret nil
          | Some l \<Rightarrow>
              if k_sig l \<noteq> sig then ret nil
              else bindM (deref v_modlinks ml) (\<lambda>y.
                bindM (set_modlink ml (y\<lparr>ml_links := (ml_links y)[i := \<lparr>ml_u = k_u l, ml_frame = k_frame l\<rparr>]\<rparr>))
                  (\<lambda>_. ret (p + 1))))))"

fun linkms :: "addr \<Rightarrow> addr \<Rightarrow> nat \<Rightarrow> nat \<Rightarrow> addr \<Rightarrow> bool M" where
  "linkms m ml 0 i mdef = ret True"
| "linkms m ml (Suc n) i mdef = bindM (linkm m ml i mdef) (\<lambda>mdef.
     if mdef = nil then ret False else linkms m ml n (i + 1) mdef)"

definition linkmod :: "addr \<Rightarrow> addr \<Rightarrow> addr M" where
  "linkmod m mdef =
    (if m = nil then ret H
     else bindM (gets (\<lambda>st. ld32 (v_mem st) mdef)) (\<lambda>n.
       bindM (nheap (cint (int sizeof_Modlink + (sint n - 1) * int sizeof_Modl))) (\<lambda>h.
       let ml = H2D h; k = nat (sint n) in
       bindM (deref v_mods m) (\<lambda>x.
       bindM (steps [
         set_ht h Tmodlink,
         inc_type Tmodlink,
         set_modlink ml \<lparr>ml_MP = m_mp x, ml_m = m,
           ml_links = replicate k \<lparr>ml_u = Pc nil, ml_frame = nil\<rparr>\<rparr>,
         iff (m_mp x \<noteq> nil) (Setmark (D2H (m_mp x)))]) (\<lambda>_.
       bindM (linkms m ml k 0 (mdef + IBY2WD)) (\<lambda>ok.
         if ok then ret ml else bindM (destroy ml) (\<lambda>_. ret H)))))))"

section \<open>Types and instructions\<close>

definition sizeof_Type :: int where "sizeof_Type = 36"
definition sizeof_Module :: int where "sizeof_Module = 104"

definition dtype :: "freefn \<Rightarrow> int \<Rightarrow> byte list \<Rightarrow> addr M" where
  "dtype fr sz tmap = bindM (malloc (sizeof_Type + int (length tmap))) (\<lambda>t.
     if t = nil then ret nil
     else bindM (set_type t \<lparr>t_ref = 1, t_free = fr, t_mark = Markheap, t_size = sz, t_nogc = 0,
         t_np = int (length tmap), t_destroy = nil, t_initialize = nil, t_map = tmap\<rparr>) (\<lambda>_. ret t))"

definition branch_ops :: "nat list" where
  "branch_ops = [ICALL, IJMP, IBEQW, IBNEW, IBLTW, IBLEW, IBGTW, IBGEW, IBEQB, IBNEB, IBLTB, IBLEB,
     IBGTB, IBGEB, IBEQF, IBNEF, IBLTF, IBLEF, IBGTF, IBGEF, IBEQC, IBNEC, IBLTC, IBLEC, IBGTC,
     IBGEC, IBEQL, IBNEL, IBLTL, IBLEL, IBGTL, IBGEL]"

definition brpatch :: "addr \<Rightarrow> Inst \<Rightarrow> Inst" where
  "brpatch prog ip =
    (if unat (i_op ip) \<in> set branch_ops then
       ip\<lparr>i_d := of_nat prog + of_nat sizeof_Inst * (i_d ip - 1)\<rparr>
     else if unat (i_op ip) = ISPAWN then
       ip\<lparr>i_d := of_nat prog + of_nat sizeof_Inst * i_d ip\<rparr>
     else ip)"

text \<open>An instruction as it is laid out in the program text.\<close>

definition st_inst :: "addr \<Rightarrow> Inst \<Rightarrow> (addr \<Rightarrow> byte) \<Rightarrow> addr \<Rightarrow> byte" where
  "st_inst ip i m = st32 (st32 (st16 (st8 (st8 m ip (i_op i)) (ip + 1) (i_add i)) (ip + 2) (i_reg i))
     (ip + 4) (i_s i)) (ip + 8) (i_d i)"

definition load_inst :: "addr \<Rightarrow> Inst \<Rightarrow> Inst" where
  "load_inst prog i =
    (if UXDST (uint (i_add i)) = DST AIMM then brpatch prog i else i)"

fun st_insts :: "addr \<Rightarrow> Inst list \<Rightarrow> (addr \<Rightarrow> byte) \<Rightarrow> addr \<Rightarrow> byte" where
  "st_insts ip [] m = m"
| "st_insts ip (i # is) m = st_insts (ip + sizeof_Inst) is (st_inst ip i m)"

section \<open>The data section\<close>

text \<open>\<open>canontod\<close>: the high word first.\<close>

definition canontod :: "u32 \<Rightarrow> u32 \<Rightarrow> u64" where
  "canontod v0 v1 = word_cat v0 v1"

fun def_words :: "cptr \<Rightarrow> nat \<Rightarrow> addr \<Rightarrow> (addr \<Rightarrow> byte) \<Rightarrow> addr \<Rightarrow> byte" where
  "def_words p 0 si m = m"
| "def_words p (Suc n) si m = def_words (ptr_add p 4) n (si + 4) (st32 m si (fst (disw p)))"

fun def_longs :: "cptr \<Rightarrow> nat \<Rightarrow> addr \<Rightarrow> (addr \<Rightarrow> byte) \<Rightarrow> addr \<Rightarrow> byte" where
  "def_longs p 0 si m = m"
| "def_longs p (Suc n) si m =
     (let hi = fst (disw p); lo = fst (disw (ptr_add p 4)) in
      def_longs (ptr_add p 8) n (si + 8) (st64 m si (push_bit 32 (ucast hi) OR ucast lo)))"

fun def_reals :: "cptr \<Rightarrow> nat \<Rightarrow> addr \<Rightarrow> (addr \<Rightarrow> byte) \<Rightarrow> addr \<Rightarrow> byte" where
  "def_reals p 0 si m = m"
| "def_reals p (Suc n) si m =
     (let v0 = fst (disw p); v1 = fst (disw (ptr_add p 4)) in
      def_reals (ptr_add p 8) n (si + 8) (st64 m si (canontod v0 v1)))"

text \<open>\<open>DEFA\<close>: the type table entry one past the end passes the code's test; reading it is a fault.\<close>

definition def_array :: "addr list \<Rightarrow> cptr \<Rightarrow> addr \<Rightarrow> (string + unit) M" where
  "def_array types p si =
    (let v = sint (fst (disw p)); len = fst (disw (ptr_add p 4)) in
     if v < 0 \<or> v > int (length types) then ret (Inl ''bad array type'')
     else if v = int (length types) then fault
     else let pt = types ! nat v in bindM (deref v_types pt) (\<lambda>x.
       bindM (nheap (cint (int sizeof_Array + t_size x * sint len))) (\<lambda>h. let ary = H2D h in
       bindM (steps [
         set_ht h Tarray,
         inc_type Tarray,
         set_array ary \<lparr>a_len = len, a_t = pt, a_root = H, a_data = ary + sizeof_Array\<rparr>,
         initarray pt ary,
         setp si ary]) (\<lambda>_. ret (Inr ())))))"

definition def_index :: "cptr \<Rightarrow> addr \<Rightarrow> nat \<Rightarrow> (string + addr) M" where
  "def_index p si dasp = bindM (getp si) (\<lambda>ary.
     if ary = H then ret (Inl ''ind not array'')
     else bindM (deref v_heaps (D2H ary)) (\<lambda>h.
       if h_t h \<noteq> Tarray then ret (Inl ''ind not array'')
       else bindM (deref v_arrays ary) (\<lambda>a. bindM (deref v_types (a_t a)) (\<lambda>t.
         let v = sint (fst (disw p)) in
         if v > sint (a_len a) \<or> v < 0 \<or> dasp \<ge> DADEPTH then ret (Inl ''array init range'')
         else ret (Inr (nat (int (a_data a) + v * t_size t)))))))"

text \<open>
  One item at offset \<open>pos\<close>: \<open>Inr\<close> the new offset, base address and stack of saved addresses;
  \<open>Inr None\<close> after the final zero byte.
\<close>

type_synonym dstate = "nat \<times> addr \<times> addr list"

definition cont :: "unit M \<Rightarrow> dstate \<Rightarrow> (string + dstate option) M" where
  "cont m d = bindM m (\<lambda>_. ret (Inr (Some d)))"

definition data_item :: "byte list \<Rightarrow> addr list \<Rightarrow> dstate \<Rightarrow> (string + dstate option) M" where
  "data_item code types d =
    (let (pos, addr, stk) = d; p = ptr_add (of_bytes code); sm = uint (of_bytes code pos) in
     if sm = 0 then ret (Inr None)
     else
       let (n, pos) = (if DLEN sm = 0 then (let (n, k) = operand (p (pos + 1)) in (n, pos + 1 + k))
                       else (DLEN sm, pos + 1));
           (v, k) = operand (p pos); pos = pos + k;
           si = nat (int addr + v); ty = DTYPE sm; c = nat n
       in if ty = DEFS then
            bindM (c2string (p pos) n) (\<lambda>s. cont (setp si s) (nat (int pos + n), addr, stk))
          else if ty = DEFB then cont (setm (store_bytes si (bytes_at (p pos) c))) (pos + c, addr, stk)
          else if ty = DEFW then cont (setm (def_words (p pos) c si)) (pos + 4 * c, addr, stk)
          else if ty = DEFL then cont (setm (def_longs (p pos) c si)) (pos + 8 * c, addr, stk)
          else if ty = DEFF then cont (setm (def_reals (p pos) c si)) (pos + 8 * c, addr, stk)
          else if ty = DEFA then bindM (def_array types (p pos) si) (\<lambda>r. case r of
              Inl e \<Rightarrow> ret (Inl e)
            | Inr _ \<Rightarrow> ret (Inr (Some (pos + 8, addr, stk))))
          else if ty = DIND then bindM (def_index (p pos) si (length stk)) (\<lambda>r. case r of
              Inl e \<Rightarrow> ret (Inl e)
            | Inr a \<Rightarrow> ret (Inr (Some (pos + 4, a, addr # stk))))
          else if ty = DAPOP then (case stk of
              [] \<Rightarrow> ret (Inl ''pop range'')
            | a # stk \<Rightarrow> ret (Inr (Some (pos, a, stk))))
          else ret (Inl ''bad data item''))"

text \<open>
  The loop: \<open>fuel\<close> counts items. Every item takes at least one byte (unless a string has a negative
  count, which moves the C pointer backwards) and the file reads as zero past its end, so as many
  as it has bytes are enough. The result is the offset after the data.
\<close>

fun load_data :: "nat \<Rightarrow> byte list \<Rightarrow> addr list \<Rightarrow> dstate \<Rightarrow> (string + nat) M" where
  "load_data 0 code types d = fault"
| "load_data (Suc fuel) code types d = bindM (data_item code types d) (\<lambda>r. case r of
     Inl e \<Rightarrow> ret (Inl e)
   | Inr None \<Rightarrow> ret (Inr (fst d + 1))
   | Inr (Some d') \<Rightarrow> load_data fuel code types d')"


section \<open>parsemod\<close>

text \<open>
  The variables of \<open>parsemod\<close> between its phases: the module that is being filled in and the
  position in the file. A phase that ends in \<open>goto bad\<close> returns \<open>Inl\<close> with the module as it is then.
\<close>

type_synonym parse = "(Module + Module \<times> nat) M"

definition phase :: "parse \<Rightarrow> (Module \<Rightarrow> nat \<Rightarrow> parse) \<Rightarrow> parse" where
  "phase m f = bindM m (\<lambda>r. case r of Inl x \<Rightarrow> ret (Inl x) | Inr (x, pos) \<Rightarrow> f x pos)"

definition ok :: "Module \<Rightarrow> nat \<Rightarrow> parse" where "ok x pos = ret (Inr (x, pos))"
definition bad :: "Module \<Rightarrow> parse" where "bad x = ret (Inl x)"

definition zero_mod :: Module where
  "zero_mod = \<lparr>m_ref = 0, m_compiled = False, m_shared = False, m_ss = 0, m_rt = 0, m_mtime = 0,
     m_orig = nil, m_prog = nil, m_mp = nil, m_type = [], m_entry = nil, m_entryt = nil, m_name = [],
     m_path = [], m_link = nil, m_ext = []\<rparr>"

definition parse_magic :: "host \<Rightarrow> byte list \<Rightarrow> Module \<Rightarrow> parse" where
  "parse_magic Y code x =
    (let p = ptr_add (of_bytes code); (magic, pos) = operand (p 0) in
     if magic = SMAGIC then
       let (siglen, k) = operand (p pos); pos = pos + k in
       if \<not> y_verifysigner Y (p pos) siglen (p (nat (int pos + siglen))) then bad x
       else ok x (nat (int pos + siglen))
     else if magic = XMAGIC then ok x pos
     else bad x)"

text \<open>The fixed part of the header.\<close>

record header =
  hd_rt :: int
  hd_ss :: int
  hd_isize :: int
  hd_dsize :: int
  hd_hsize :: int
  hd_lsize :: int
  hd_entry :: int
  hd_entryt :: int

definition parse_header :: "cptr \<Rightarrow> header \<times> nat" where
  "parse_header p =
    (let (vs, n) = read_many operand 8 p in
     (\<lparr>hd_rt = vs ! 0, hd_ss = vs ! 1, hd_isize = vs ! 2, hd_dsize = vs ! 3, hd_hsize = vs ! 4,
       hd_lsize = vs ! 5, hd_entry = vs ! 6, hd_entryt = vs ! 7\<rparr>, n))"

definition parse_prog :: "byte list \<Rightarrow> header \<Rightarrow> Module \<Rightarrow> nat \<Rightarrow> parse" where
  "parse_prog code h x pos = bindM (poolalloc (cint (hd_isize h * int sizeof_Inst))) (\<lambda>prog.
     if prog = nil then bad x
     else
       let (is, k) = read_many read_inst (nat (hd_isize h)) (ptr_add (of_bytes code) pos) in
       bindM (setm (st_insts prog (map (load_inst prog) is))) (\<lambda>_.
       ok (x\<lparr>m_prog := prog, m_ref := 1\<rparr>) (pos + k)))"

text \<open>
  The type descriptors. The code lets \<open>id\<close> be one past the table, and negative: such a store is a
  fault here.
\<close>

fun parse_types :: "byte list \<Rightarrow> int \<Rightarrow> nat \<Rightarrow> Module \<Rightarrow> nat \<Rightarrow> parse" where
  "parse_types code hsize 0 x pos = ok x pos"
| "parse_types code hsize (Suc n) x pos =
    (let p = ptr_add (of_bytes code); (id, k) = operand (p pos); pos = pos + k in
     if id > hsize then bad x
     else
       let (tsz, k) = operand (p pos); pos = pos + k; (tnp, k) = operand (p pos); pos = pos + k in
       bindM (dtype Freeheap tsz (bytes_at (p pos) (nat tnp))) (\<lambda>pt.
         if pt = nil then bad x
         else if id < 0 \<or> id = hsize then fault
         else bindM (bindM (deref v_types pt) (\<lambda>t. set_type pt (t\<lparr>t_nogc := 1\<rparr>))) (\<lambda>_.
           parse_types code hsize n (x\<lparr>m_type := (m_type x)[nat id := pt]\<rparr>) (pos + nat tnp))))"

definition parse_mp :: "header \<Rightarrow> Module \<Rightarrow> nat \<Rightarrow> parse" where
  "parse_mp h x pos =
    (if hd_dsize h = 0 then ok x pos
     else case m_type x of
       [] \<Rightarrow> fault
     | pt # _ \<Rightarrow>
         if pt = nil then bad x
         else bindM (deref v_types pt) (\<lambda>t.
           if t_size t \<noteq> hd_dsize h then bad x
           else bindM (heapz pt) (\<lambda>a. ok (x\<lparr>m_mp := H2D a\<rparr>) pos)))"

definition parse_data :: "byte list \<Rightarrow> Module \<Rightarrow> nat \<Rightarrow> parse" where
  "parse_data code x pos = bindM (load_data (Suc (length code)) code (m_type x) (pos, m_mp x, [])) (\<lambda>r.
     case r of Inl _ \<Rightarrow> bad x | Inr pos \<Rightarrow> ok x pos)"

text \<open>The string at \<open>pos\<close> up to its zero byte.\<close>

definition cstr :: "byte list \<Rightarrow> nat \<Rightarrow> byte list" where
  "cstr code pos = takeWhile (\<lambda>b. b \<noteq> 0) (drop pos code)"

fun parse_links :: "byte list \<Rightarrow> addr \<Rightarrow> nat \<Rightarrow> Module \<Rightarrow> nat \<Rightarrow> parse" where
  "parse_links code m 0 x pos = ok x pos"
| "parse_links code m (Suc n) x pos =
    (let p = ptr_add (of_bytes code); (pc, k) = operand (p pos); pos = pos + k;
         (de, k) = operand (p pos); pos = pos + k; v = fst (disw (p pos)); pos = pos + 4;
         name = cstr code pos
     in if de \<noteq> -1 \<and> \<not> (0 \<le> de \<and> de < int (length (m_type x))) then fault
        else
          let pt = (if de = -1 then nil else m_type x ! nat de) in
          parse_links code m n (mlink m name v (pc - 1) pt x) (pos + length name + 1))"

definition parse_entry :: "header \<Rightarrow> Module \<Rightarrow> Module" where
  "parse_entry h x =
    (if uint (word_of_int (hd_entry h) :: u32) < hd_isize h
        \<and> uint (word_of_int (hd_entryt h) :: u32) < hd_hsize h
     then x\<lparr>m_entry := m_prog x + sizeof_Inst * nat (hd_entry h), m_entryt := m_type x ! nat (hd_entryt h)\<rparr>
     else x\<lparr>m_entry := m_prog x, m_entryt := nil\<rparr>)"

definition parse_compile :: "host \<Rightarrow> addr \<Rightarrow> header \<Rightarrow> Module \<Rightarrow> nat \<Rightarrow> parse" where
  "parse_compile Y m h x pos =
    (if y_cflag Y then
       if m_rt x AND word_of_int DONTCOMPILE = 0 then
         bindM (set_mod m x) (\<lambda>_. bindM (y_compile Y m (hd_isize h)) (\<lambda>_.
         bindM (deref v_mods m) (\<lambda>x. ok x pos)))
       else ok x pos
     else if m_rt x AND word_of_int MUSTCOMPILE \<noteq> 0 then
       bindM (set_mod m x) (\<lambda>_. bindM (y_compile Y m (hd_isize h)) (\<lambda>done.
       bindM (deref v_mods m) (\<lambda>x. if done then ok x pos else bad x)))
     else ok x pos)"

definition parse_bad :: "addr \<Rightarrow> Module \<Rightarrow> addr M" where
  "parse_bad m x = bindM (steps [
     destroy (m_mp x),
     free (m_prog x),
     freetypes (m_type x),
     free_mod m]) (\<lambda>_. ret nil)"

definition parse_body :: "host \<Rightarrow> byte list \<Rightarrow> addr \<Rightarrow> Module \<Rightarrow> parse" where
  "parse_body Y code m x = phase (parse_magic Y code x) (\<lambda>x pos.
     let (h, k) = parse_header (ptr_add (of_bytes code) pos);
         x = x\<lparr>m_rt := word_of_int (hd_rt h), m_ss := word_of_int (hd_ss h)\<rparr> in
     phase (parse_prog code h x (pos + k)) (\<lambda>x pos.
     phase (parse_types code (hd_hsize h) (nat (hd_hsize h))
        (x\<lparr>m_type := replicate (nat (hd_hsize h)) nil\<rparr>) pos) (\<lambda>x pos.
     phase (parse_mp h x pos) (\<lambda>x pos.
     phase (parse_data code x pos) (\<lambda>x pos.
     let name = cstr code pos in
     phase (parse_links code m (nat (hd_lsize h)) (x\<lparr>m_name := take NAMELEN name\<rparr>)
        (pos + length name + 1)) (\<lambda>x pos.
     phase (parse_compile Y m h (parse_entry h x) pos) (\<lambda>x pos.
     ok (if m_rt x AND word_of_int SHAREMP \<noteq> 0 then x\<lparr>m_shared := True\<rparr> else x) pos)))))))"

definition parsemod :: "host \<Rightarrow> byte list \<Rightarrow> byte list \<Rightarrow> u32 \<Rightarrow> addr M" where
  "parsemod Y path code mtime = bindM (malloc sizeof_Module) (\<lambda>m.
     if m = nil then ret nil
     else bindM (parse_body Y code m (zero_mod\<lparr>m_mtime := mtime, m_mp := H\<rparr>)) (\<lambda>r.
       case r of
         Inl x \<Rightarrow> parse_bad m x
       | Inr (x, _) \<Rightarrow> bindM (gets v_modules) (\<lambda>l. bindM (steps [
           set_mod m (x\<lparr>m_path := path, m_link := l\<rparr>),
           upd (\<lambda>st. st\<lparr>v_modules := m\<rparr>)]) (\<lambda>_. ret m))))"

section \<open>The list of modules\<close>

definition newmod :: "byte list \<Rightarrow> addr M" where
  "newmod s = bindM (malloc sizeof_Module) (\<lambda>m.
     if m = nil then fault
     else bindM (nheap 0) (\<lambda>h. bindM (gets v_modules) (\<lambda>l. bindM (steps [
       set_mod m (zero_mod\<lparr>m_ref := 1, m_shared := True, m_path := s, m_mp := H2D h,
         m_name := take (NAMELEN - 1) s, m_link := l\<rparr>),
       upd (\<lambda>st. st\<lparr>v_modules := m\<rparr>)]) (\<lambda>_. ret m))))"

partial_function (option) find_mod :: "(addr \<rightharpoonup> Module) \<Rightarrow> cptr \<Rightarrow> addr \<Rightarrow> addr option" where
  "find_mod ms s m =
    (if m = nil then Some nil
     else (case ms m of
         None \<Rightarrow> None
       | Some x \<Rightarrow> if streq s (m_path x) then Some m else find_mod ms s (m_link x)))"

definition lookmod :: "cptr \<Rightarrow> addr M" where
  "lookmod s = bindM (gets (\<lambda>st. find_mod (v_mods st) s (v_modules st))) (\<lambda>r.
     case r of
       None \<Rightarrow> fault
     | Some m \<Rightarrow> if m = nil then ret nil
         else bindM (deref v_mods m) (\<lambda>x. bindM (set_mod m (x\<lparr>m_ref := m_ref x + 1\<rparr>)) (\<lambda>_. ret m)))"

definition dupmod :: "addr \<Rightarrow> addr M" where
  "dupmod m = bindM (malloc sizeof_Module) (\<lambda>mc.
     if mc = nil then fault
     else bindM (deref v_mods m) (\<lambda>x.
       let y = x\<lparr>m_ref := 1, m_link := nil, m_orig := m\<rparr> in
       bindM (set_mod mc y) (\<lambda>_.
       case m_type x of
         [] \<Rightarrow> ret mc
       | t # _ \<Rightarrow> bindM (deref v_types t) (\<lambda>ty. bindM (nheap (t_size ty)) (\<lambda>h. bindM (steps [
           set_ht h t,
           inc_type t,
           set_mod mc (y\<lparr>m_mp := H2D h\<rparr>),
           newmp (H2D h) (m_mp x) t]) (\<lambda>_. ret mc))))))"

definition load :: "host \<Rightarrow> byte list \<Rightarrow> addr M" where
  "load Y path = bindM (y_readmod Y (of_bytes (path @ [0])) nil False) (\<lambda>r.
     case r of None \<Rightarrow> ret nil | Some (code, mtime) \<Rightarrow> parsemod Y path code mtime)"

end
