(* ===== verification/Dec.thy ===== *)
theory Dec
  imports Regs Disfile
begin

text \<open>
  Operand decoding: what the functions \<open>D00\<close> to \<open>DFF\<close> of \<open>interp/dec.c\<close> do, in the shape of their
  generator \<open>interp/decgen.c\<close>. The instruction is read from memory at \<open>R.PC\<close>: opcode, addressing
  byte, middle operand (16 bits), source and destination (32 bits each).
\<close>

definition pc_op :: "vm \<Rightarrow> byte" where "pc_op st = v_mem st (r_PC (v_R st))"
definition pc_add :: "vm \<Rightarrow> byte" where "pc_add st = v_mem st (r_PC (v_R st) + 1)"
definition pc_reg :: "vm \<Rightarrow> u16" where "pc_reg st = ld16 (v_mem st) (r_PC (v_R st) + 2)"

text \<open>The addresses of \<open>R.PC->s\<close> and \<open>R.PC->d\<close>.\<close>

definition pc_s :: "vm \<Rightarrow> addr" where "pc_s st = r_PC (v_R st) + 4"
definition pc_d :: "vm \<Rightarrow> addr" where "pc_d st = r_PC (v_R st) + 8"

text \<open>A base register plus a signed offset, and \<open>DIND(reg, xxx)\<close>.\<close>

definition offs :: "addr \<Rightarrow> u32 \<Rightarrow> addr" where
  "offs base o1 = nat (int base + sint o1)"

definition DIND_addr :: "vm \<Rightarrow> addr \<Rightarrow> addr \<Rightarrow> addr" where
  "DIND_addr st base x =
    unat (ld32 (v_mem st) (base + unat (ld16 (v_mem st) x))) + unat (ld16 (v_mem st) (x + 2))"

text \<open>The operand that mode \<open>md\<close> and the address field at \<open>x\<close> denote; \<open>None\<close> for no operand.\<close>

definition dec_operand :: "vm \<Rightarrow> int \<Rightarrow> addr \<Rightarrow> loc option" where
  "dec_operand st md x =
    (let R = v_R st in
     if md = AMP then Some (Mem (offs (r_MP R) (ld32 (v_mem st) x)))
     else if md = AFP then Some (Mem (offs (r_FP R) (ld32 (v_mem st) x)))
     else if md = AIMM then Some (Mem x)
     else if md = AMP OR AIND then Some (Mem (DIND_addr st (r_MP R) x))
     else if md = AFP OR AIND then Some (Mem (DIND_addr st (r_FP R) x))
     else None)"

definition dec_s :: "vm \<Rightarrow> vm" where
  "dec_s st = (case dec_operand st (USRC (uint (pc_add st))) (pc_s st) of
     Some l \<Rightarrow> st\<lparr>v_R := (v_R st)\<lparr>r_s := l\<rparr>\<rparr> | None \<Rightarrow> st)"

definition dec_m :: "vm \<Rightarrow> vm" where
  "dec_m st =
    (let R = v_R st; x = uint (pc_add st) AND ARM; reg = unat (pc_reg st) in
     st\<lparr>v_R :=
       (if x = AXNON then R\<lparr>r_m := r_d R\<rparr>
        else if x = AXIMM then R\<lparr>r_t := scast (pc_reg st), r_m := RegT\<rparr>
        else if x = AXINF then R\<lparr>r_m := Mem (r_FP R + reg)\<rparr>
        else R\<lparr>r_m := Mem (r_MP R + reg)\<rparr>)\<rparr>)"

definition dec_d :: "vm \<Rightarrow> vm" where
  "dec_d st = (case dec_operand st (UDST (uint (pc_add st))) (pc_d st) of
     Some l \<Rightarrow> dec_m (st\<lparr>v_R := (v_R st)\<lparr>r_d := l\<rparr>\<rparr>) | None \<Rightarrow> st)"

definition dec :: "unit M" where
  "dec = upd (\<lambda>st. dec_d (dec_s st))"

end
