(* ===== verification/Xec.thy ===== *)
theory Xec
  imports Chan Loader Dec
begin

text \<open>
  The instructions of \<open>interp/xec.c\<close>, in the order of that file, the table \<open>optab\<close> that the opcode
  indexes (\<open>interp/optab.h\<close>) and the interpreter loop \<open>xec\<close>. Data movement is in \<open>Moves\<close>, strings
  in \<open>Str\<close>, channels in \<open>Chan\<close>.

  Shifts take their count modulo the width of the shifted register, as the 386 does; an integer
  division by zero, or one that overflows, is a trap.
\<close>

text \<open>What surrounds the interpreter: the kernel, the host, builtin modules and compiled code.\<close>

record env =
  e_kern :: kern
  e_host :: host
  e_runt :: "string \<Rightarrow> addr \<Rightarrow> unit M"
  e_comvec :: "unit M"

section \<open>Arithmetic\<close>

definition opW :: "(u32 \<Rightarrow> u32 \<Rightarrow> u32) \<Rightarrow> unit M" where
  "opW f = bindM (getW r_m) (\<lambda>m. bindM (getW r_s) (\<lambda>s. setW r_d (f m s)))"

definition opB :: "(byte \<Rightarrow> byte \<Rightarrow> byte) \<Rightarrow> unit M" where
  "opB f = bindM (getB r_m) (\<lambda>m. bindM (getB r_s) (\<lambda>s. setB r_d (f m s)))"

definition opV :: "(u64 \<Rightarrow> u64 \<Rightarrow> u64) \<Rightarrow> unit M" where
  "opV f = bindM (getV r_m) (\<lambda>m. bindM (getV r_s) (\<lambda>s. setV r_d (f m s)))"

definition opF :: "(fpu \<Rightarrow> u64 \<Rightarrow> u64 \<Rightarrow> u64) \<Rightarrow> unit M" where
  "opF f = bindM (gets v_fpu) (\<lambda>u. opV (f u))"

definition JMP :: "(REG \<Rightarrow> loc) \<Rightarrow> unit M" where
  "JMP r = bindM (getP r) (\<lambda>pc. upd_R (\<lambda>R. R\<lparr>r_PC := pc\<rparr>))"

definition runt :: "unit M" where "runt = skip"
definition negf :: "unit M" where
  "negf = bindM (gets v_fpu) (\<lambda>u. bindM (getV r_s) (\<lambda>v. setV r_d (fp_neg u v)))"
definition jmp :: "unit M" where "jmp = JMP r_d"

text \<open>The address of an instruction of the running module.\<close>

definition prog_at :: "int \<Rightarrow> addr M" where
  "prog_at i = bindM (gets (\<lambda>st. r_M (v_R st))) (\<lambda>m. bindM (deref v_mods m) (\<lambda>x.
     ret (nat (int (m_prog x) + int sizeof_Inst * i))))"

definition movpc :: "unit M" where
  "movpc = bindM (getW r_s) (\<lambda>i. bindM (prog_at (sint i)) (setP r_d))"
definition lea :: "unit M" where
  "lea = bindM (getA r_s) (setP r_d)"

definition cvtbw :: "unit M" where "cvtbw = bindM (getB r_s) (\<lambda>b. setW r_d (ucast b))"
definition cvtwb :: "unit M" where "cvtwb = bindM (getW r_s) (\<lambda>w. setB r_d (ucast w))"
definition cvtwf :: "unit M" where
  "cvtwf = bindM (gets v_fpu) (\<lambda>u. bindM (getW r_s) (\<lambda>w. setV r_d (fp_of_int u (sint w))))"

definition addb :: "unit M" where "addb = opB (+)"
definition addw :: "unit M" where "addw = opW (+)"
definition addl :: "unit M" where "addl = opV (+)"
definition addf :: "unit M" where "addf = opF fp_add"
definition subb :: "unit M" where "subb = opB (-)"
definition subw :: "unit M" where "subw = opW (-)"
definition subl :: "unit M" where "subl = opV (-)"
definition subf :: "unit M" where "subf = opF fp_sub"

text \<open>Signed division truncates; a zero divisor or a quotient out of range traps.\<close>

definition sdiv_ok :: "nat \<Rightarrow> int \<Rightarrow> int \<Rightarrow> bool" where
  "sdiv_ok w m s \<longleftrightarrow> s \<noteq> 0 \<and> \<not> (m = - (2 ^ (w - 1)) \<and> s = -1)"

definition divb :: "unit M" where
  "divb = bindM (getB r_m) (\<lambda>m. bindM (getB r_s) (\<lambda>s. if s = 0 then fault else setB r_d (m div s)))"
definition divw :: "unit M" where
  "divw = bindM (getW r_m) (\<lambda>m. bindM (getW r_s) (\<lambda>s.
     if sdiv_ok 32 (sint m) (sint s) then setW r_d (word_of_int (sint m sdiv sint s)) else fault))"
definition divl :: "unit M" where
  "divl = bindM (getV r_m) (\<lambda>m. bindM (getV r_s) (\<lambda>s.
     if sdiv_ok 64 (sint m) (sint s) then setV r_d (word_of_int (sint m sdiv sint s)) else fault))"
definition divf :: "unit M" where "divf = opF fp_div"
definition modb :: "unit M" where
  "modb = bindM (getB r_m) (\<lambda>m. bindM (getB r_s) (\<lambda>s. if s = 0 then fault else setB r_d (m mod s)))"
definition modw :: "unit M" where
  "modw = bindM (getW r_m) (\<lambda>m. bindM (getW r_s) (\<lambda>s.
     if sdiv_ok 32 (sint m) (sint s) then setW r_d (word_of_int (sint m smod sint s)) else fault))"
definition modl :: "unit M" where
  "modl = bindM (getV r_m) (\<lambda>m. bindM (getV r_s) (\<lambda>s.
     if sdiv_ok 64 (sint m) (sint s) then setV r_d (word_of_int (sint m smod sint s)) else fault))"
definition mulb :: "unit M" where "mulb = opB (*)"
definition mulw :: "unit M" where "mulw = opW (*)"
definition mull :: "unit M" where "mull = opV (*)"
definition mulf :: "unit M" where "mulf = opF fp_mul"
definition andb :: "unit M" where "andb = opB (AND)"
definition andw :: "unit M" where "andw = opW (AND)"
definition andl :: "unit M" where "andl = opV (AND)"
definition xorb :: "unit M" where "xorb = opB (XOR)"
definition xorw :: "unit M" where "xorw = opW (XOR)"
definition xorl :: "unit M" where "xorl = opV (XOR)"
definition orb :: "unit M" where "orb = opB (OR)"
definition orw :: "unit M" where "orw = opW (OR)"
definition orl :: "unit M" where "orl = opV (OR)"

text \<open>Bytes are shifted as the \<open>int\<close> they are promoted to; \<open>W(s)\<close> is the count throughout.\<close>

definition count32 :: "u32 \<Rightarrow> nat" where "count32 s = unat (s AND 31)"
definition count64 :: "u32 \<Rightarrow> nat" where "count64 s = unat (s AND 63)"

definition shlb :: "unit M" where
  "shlb = bindM (getB r_m) (\<lambda>m. bindM (getW r_s) (\<lambda>s. setB r_d (ucast (push_bit (count32 s) (ucast m :: u32)))))"
definition shlw :: "unit M" where "shlw = opW (\<lambda>m s. push_bit (count32 s) m)"
definition shll :: "unit M" where
  "shll = bindM (getV r_m) (\<lambda>m. bindM (getW r_s) (\<lambda>s. setV r_d (push_bit (count64 s) m)))"
definition shrb :: "unit M" where
  "shrb = bindM (getB r_m) (\<lambda>m. bindM (getW r_s) (\<lambda>s. setB r_d (drop_bit (count32 s) m)))"
definition shrw :: "unit M" where "shrw = opW (\<lambda>m s. signed_drop_bit (count32 s) m)"
definition shrl :: "unit M" where
  "shrl = bindM (getV r_m) (\<lambda>m. bindM (getW r_s) (\<lambda>s. setV r_d (signed_drop_bit (count64 s) m)))"

section \<open>Branches\<close>

definition brB :: "(int \<Rightarrow> int \<Rightarrow> bool) \<Rightarrow> unit M" where
  "brB f = bindM (getB r_s) (\<lambda>s. bindM (getB r_m) (\<lambda>m. iff (f (uint s) (uint m)) (JMP r_d)))"
definition brW :: "(int \<Rightarrow> int \<Rightarrow> bool) \<Rightarrow> unit M" where
  "brW f = bindM (getW r_s) (\<lambda>s. bindM (getW r_m) (\<lambda>m. iff (f (sint s) (sint m)) (JMP r_d)))"
definition brV :: "(int \<Rightarrow> int \<Rightarrow> bool) \<Rightarrow> unit M" where
  "brV f = bindM (getV r_s) (\<lambda>s. bindM (getV r_m) (\<lambda>m. iff (f (sint s) (sint m)) (JMP r_d)))"
definition brF :: "(fpu \<Rightarrow> u64 \<Rightarrow> u64 \<Rightarrow> bool) \<Rightarrow> unit M" where
  "brF f = bindM (gets v_fpu) (\<lambda>u. bindM (getV r_s) (\<lambda>s. bindM (getV r_m) (\<lambda>m. iff (f u s m) (JMP r_d))))"
definition brC :: "(int \<Rightarrow> bool) \<Rightarrow> unit M" where
  "brC f = bindM (getP r_s) (\<lambda>s. bindM (getP r_m) (\<lambda>m. bindM (stringcmp s m) (\<lambda>c. iff (f c) (JMP r_d))))"

definition beqb :: "unit M" where "beqb = brB (=)"
definition bneb :: "unit M" where "bneb = brB (\<noteq>)"
definition bltb :: "unit M" where "bltb = brB (<)"
definition bleb :: "unit M" where "bleb = brB (\<le>)"
definition bgtb :: "unit M" where "bgtb = brB (>)"
definition bgeb :: "unit M" where "bgeb = brB (\<ge>)"
definition beqw :: "unit M" where "beqw = brW (=)"
definition bnew :: "unit M" where "bnew = brW (\<noteq>)"
definition bltw :: "unit M" where "bltw = brW (<)"
definition blew :: "unit M" where "blew = brW (\<le>)"
definition bgtw :: "unit M" where "bgtw = brW (>)"
definition bgew :: "unit M" where "bgew = brW (\<ge>)"
definition beql :: "unit M" where "beql = brV (=)"
definition bnel :: "unit M" where "bnel = brV (\<noteq>)"
definition bltl :: "unit M" where "bltl = brV (<)"
definition blel :: "unit M" where "blel = brV (\<le>)"
definition bgtl :: "unit M" where "bgtl = brV (>)"
definition bgel :: "unit M" where "bgel = brV (\<ge>)"

text \<open>A comparison with a NaN is false, so \<open>>=\<close> is not the negation of \<open><\<close>.\<close>

definition fp_le :: "fpu \<Rightarrow> u64 \<Rightarrow> u64 \<Rightarrow> bool" where "fp_le u a b \<longleftrightarrow> fp_lt u a b \<or> fp_eq u a b"

definition beqf :: "unit M" where "beqf = brF fp_eq"
definition bnef :: "unit M" where "bnef = brF (\<lambda>u s m. \<not> fp_eq u s m)"
definition bltf :: "unit M" where "bltf = brF fp_lt"
definition blef :: "unit M" where "blef = brF fp_le"
definition bgtf :: "unit M" where "bgtf = brF (\<lambda>u s m. fp_lt u m s)"
definition bgef :: "unit M" where "bgef = brF (\<lambda>u s m. fp_le u m s)"
definition beqc :: "unit M" where "beqc = brC (\<lambda>c. c = 0)"
definition bnec :: "unit M" where "bnec = brC (\<lambda>c. c \<noteq> 0)"
definition bltc :: "unit M" where "bltc = brC (\<lambda>c. c < 0)"
definition blec :: "unit M" where "blec = brC (\<lambda>c. c \<le> 0)"
definition bgtc :: "unit M" where "bgtc = brC (\<lambda>c. c > 0)"
definition bgec :: "unit M" where "bgec = brC (\<lambda>c. c \<ge> 0)"

section \<open>More conversions\<close>

definition iexit :: "unit M" where "iexit = error ''''"
definition cvtwl :: "unit M" where "cvtwl = bindM (getW r_s) (\<lambda>w. setV r_d (scast w))"
definition cvtlw :: "unit M" where "cvtlw = bindM (getV r_s) (\<lambda>v. setW r_d (ucast v))"
definition cvtlf :: "unit M" where
  "cvtlf = bindM (gets v_fpu) (\<lambda>u. bindM (getV r_s) (\<lambda>v. setV r_d (fp_of_int u (sint v))))"

definition fp_round :: "fpu \<Rightarrow> u64 \<Rightarrow> int" where
  "fp_round u f = fp_trunc u (if fp_lt u f (fp_zero u) then fp_sub u f (fp_half u) else fp_add u f (fp_half u))"

definition cvtfl :: "unit M" where
  "cvtfl = bindM (gets v_fpu) (\<lambda>u. bindM (getV r_s) (\<lambda>f. setV r_d (word_of_int (fp_round u f))))"
definition cvtfw :: "unit M" where
  "cvtfw = bindM (gets v_fpu) (\<lambda>u. bindM (getV r_s) (\<lambda>f. setW r_d (word_of_int (fp_round u f))))"

definition cvtcf :: "unit M" where
  "cvtcf = bindM (gets v_fpu) (\<lambda>u. bindM (getP r_s) (\<lambda>s. if s = H then error Tbounds
     else bindM (string2c s) (\<lambda>p. setV r_d (fp_scan u p))))"

definition cvtfc :: "unit M" where
  "cvtfc = bindM (gets v_fpu) (\<lambda>u. bindM (getV r_s) (\<lambda>v. sprint_new 32 (fp_print u v)))"

section \<open>Arrays\<close>

text \<open>The index operations; \<open>sz\<close> gives the element size from the type.\<close>

definition ind :: "(Array \<Rightarrow> nat M) \<Rightarrow> unit M" where
  "ind sz = bindM (getP r_s) (\<lambda>a. bindM (getW r_d) (\<lambda>i.
     if a = H then error Tbounds
     else bindM (deref v_arrays a) (\<lambda>x.
       if i \<ge> a_len x then error Tbounds
       else bindM (sz x) (\<lambda>sz. setP r_m (a_data x + unat i * sz)))))"

definition indx :: "unit M" where "indx = ind (\<lambda>x. type_size (a_t x))"
definition indw :: "unit M" where "indw = ind (\<lambda>_. ret 4)"
definition indf :: "unit M" where "indf = ind (\<lambda>_. ret 8)"
definition indl :: "unit M" where "indl = ind (\<lambda>_. ret 8)"
definition indb :: "unit M" where "indb = ind (\<lambda>_. ret 1)"

text \<open>\<open>new\<close> destroys the old value after the allocation.\<close>

definition new :: "unit M" where
  "new = bindM (getW r_s) (\<lambda>i. bindM (mod_type (unat i)) (\<lambda>t. bindM (heap t) (\<lambda>h.
     replace_d (H2D h))))"

section \<open>Frames\<close>

definition push_frame :: "addr \<Rightarrow> unit M" where
  "push_frame t = bindM (type_size t) (\<lambda>sz. bindM (gets v_R) (\<lambda>R.
     let nsp = r_SP R + sz; f = r_SP R in
     if nsp \<ge> r_TS R then bindM (Stackc.extend t) (setP r_d)
     else steps [
       upd_R (\<lambda>R. R\<lparr>r_SP := nsp\<rparr>),
       setp (f_t f) t,
       setp (f_mr f) nil,
       initmem t f,
       setP r_d f]))"

definition frame :: "unit M" where
  "frame = bindM (getW r_s) (\<lambda>i. bindM (mod_type (unat i)) push_frame)"

text \<open>An entry of a module link; past the end of the table is a fault.\<close>

definition link_at :: "addr \<Rightarrow> nat \<Rightarrow> Modl M" where
  "link_at ml i = bindM (deref v_modlinks ml) (\<lambda>x.
     if i < length (ml_links x) then ret (ml_links x ! i) else fault)"

definition mframe :: "unit M" where
  "mframe = bindM (getP r_s) (\<lambda>ml.
     if ml = H then error Tmodule
     else bindM (getW r_m) (\<lambda>i. bindM (link_at ml (unat i)) (\<lambda>l. push_frame (ml_frame l))))"

definition newa :: "unit M" where
  "newa = bindM (getW r_m) (\<lambda>i. bindM (mod_type (unat i)) (\<lambda>t. bindM (getW r_s) (\<lambda>sz.
     bindM (deref v_types t) (\<lambda>x.
     bindM (nheap (cint (int sizeof_Array + t_size x * sint sz))) (\<lambda>h. let a = H2D h in steps [
       set_ht h Tarray,
       inc_type Tarray,
       set_array a \<lparr>a_len = sz, a_t = t, a_root = H, a_data = a + sizeof_Array\<rparr>,
       initarray t a,
       replace_d a])))))"

section \<open>Case tables\<close>

text \<open>\<open>t\<close> points at the first triple (low, high, pc) of \<open>n\<close>; \<open>d\<close> is the result so far.\<close>

function icase_loop :: "(addr \<Rightarrow> byte) \<Rightarrow> int \<Rightarrow> addr \<Rightarrow> int \<Rightarrow> u32 \<Rightarrow> u32" where
  "icase_loop m v t n d =
    (if n > 0 then
       let n2 = n div 2; l = t + 12 * nat n2 in
       if v < sint (ld32 m l) then icase_loop m v t n2 d
       else if v \<ge> sint (ld32 m (l + 4)) then icase_loop m v (l + 12) (n - (n2 + 1)) d
       else ld32 m (l + 8)
     else d)"
  by auto
termination by (relation "measure (\<lambda>(m, v, t, n, d). nat n)") auto

declare icase_loop.simps [simp del]

text \<open>The tail of the case instructions: compiled code has addresses in its tables.\<close>

definition goto_pc :: "u32 \<Rightarrow> unit M" where
  "goto_pc d = bindM (gets (\<lambda>st. r_M (v_R st))) (\<lambda>m. bindM (deref v_mods m) (\<lambda>x.
     if m_compiled x then upd_R (\<lambda>R. R\<lparr>r_PC := unat d\<rparr>)
     else bindM (prog_at (sint d - 1)) (\<lambda>pc. upd_R (\<lambda>R. R\<lparr>r_PC := pc\<rparr>))))"

definition icase :: "unit M" where
  "icase = bindM (getW r_s) (\<lambda>v. bindM (getA r_d) (\<lambda>a. bindM (gets v_mem) (\<lambda>m.
     let t = a + IBY2WD; n = sint (ld32 m a);
         d = ld32 m (nat (int t + n * 12)) in
     goto_pc (icase_loop m (sint v) t n d))))"

text \<open>The result is the address of the word that holds the pc.\<close>

fun casec_loop :: "nat \<Rightarrow> addr \<Rightarrow> addr \<Rightarrow> addr M" where
  "casec_loop 0 t sv = ret t"
| "casec_loop (Suc n) t sv = bindM (getp t) (\<lambda>sl. bindM (getp (t + 4)) (\<lambda>sh.
     if sh = H then
       bindM (stringcmp sl sv) (\<lambda>c. if c = 0 then ret (t + 8) else casec_loop n (t + 12) sv)
     else
       bindM (stringcmp sl sv) (\<lambda>c1.
         if c1 \<le> 0 then
           bindM (stringcmp sh sv) (\<lambda>c2. if c2 \<ge> 0 then ret (t + 8) else casec_loop n (t + 12) sv)
         else casec_loop n (t + 12) sv)))"

definition casec :: "unit M" where
  "casec = bindM (getP r_s) (\<lambda>sv. bindM (getA r_d) (\<lambda>a. bindM (gets (\<lambda>st. ld32 (v_mem st) a)) (\<lambda>n.
     bindM (casec_loop (nat (sint n)) (a + IBY2WD) sv) (\<lambda>t.
     bindM (gets (\<lambda>st. ld32 (v_mem st) t)) goto_pc))))"

definition igoto :: "unit M" where
  "igoto = bindM (getA r_d) (\<lambda>a. bindM (getW r_s) (\<lambda>i.
     bindM (gets (\<lambda>st. ld32 (v_mem st) (nat (int a + sint i * int IBY2WD)))) goto_pc))"

section \<open>Calls\<close>

definition call :: "unit M" where
  "call = bindM (getP r_s) (\<lambda>f. bindM (gets v_R) (\<lambda>R. steps [
     setp (f_lr f) (r_PC R),
     setp (f_fp f) (r_FP R),
     upd_R (\<lambda>R. R\<lparr>r_FP := f\<rparr>),
     JMP r_d]))"

definition inc_mod :: "addr \<Rightarrow> unit M" where
  "inc_mod m = bindM (deref v_mods m) (\<lambda>x. set_mod m (x\<lparr>m_ref := m_ref x + 1\<rparr>))"

definition upd_pR :: "addr \<Rightarrow> (REG \<Rightarrow> REG) \<Rightarrow> unit M" where
  "upd_pR p f = upd_prog p (\<lambda>x. x\<lparr>p_R := f (p_R x)\<rparr>)"

definition spawn :: "env \<Rightarrow> unit M" where
  "spawn E = bindM currun (\<lambda>c. bindM (newprog (e_kern E) c) (\<lambda>p. bindM (getP r_d) (\<lambda>pc.
     bindM (gets (\<lambda>st. r_M (v_R st))) (\<lambda>m. bindM (deref v_mods m) (\<lambda>x. steps [
       upd_pR p (\<lambda>R. R\<lparr>r_PC := pc\<rparr>),
       inc_mod m,
       upd_pR p (\<lambda>R. R\<lparr>r_M := m, r_MP := m_mp x\<rparr>),
       newstack p,
       unframe])))))"

definition link_pc :: "Modl \<Rightarrow> addr M" where
  "link_pc l = (case ml_u l of Pc a \<Rightarrow> ret a | Runt _ \<Rightarrow> fault)"

definition mspawn :: "env \<Rightarrow> unit M" where
  "mspawn E = bindM (getP r_d) (\<lambda>ml.
     if ml = H then error Tmodule
     else bindM (deref v_modlinks ml) (\<lambda>y. bindM (deref v_mods (ml_m y)) (\<lambda>x.
       if m_prog x = nil then error ''spawn a builtin module''
       else bindM currun (\<lambda>c. bindM (newprog (e_kern E) c) (\<lambda>p.
         bindM (getW r_m) (\<lambda>i. bindM (link_at ml (unat i)) (\<lambda>l. bindM (link_pc l) (\<lambda>pc. steps [
           upd_pR p (\<lambda>R. R\<lparr>r_PC := if m_compiled x then pc else pc + sizeof_Inst, r_M := ml_m y\<rparr>),
           inc_mod (ml_m y),
           newstack p,
           unframe]))))))))"

definition ret_op :: "unit M" where
  "ret_op = bindM (gets (\<lambda>st. r_FP (v_R st))) (\<lambda>f. bindM (getp (f_fp f)) (\<lambda>fp.
     if fp = nil then error ''''
     else bindM (getp (f_lr f)) (\<lambda>pc. bindM (getp (f_mr f)) (\<lambda>m. bindM (getp (f_t f)) (\<lambda>t. steps [
       upd_R (\<lambda>R. R\<lparr>r_FP := fp, r_SP := f, r_PC := pc\<rparr>),
       (if t = nil then unextend f else freeptrs destroy f t),
       iff (m \<noteq> nil) (steps [
         bindM (gets (\<lambda>st. r_M (v_R st))) unload,
         upd_R (\<lambda>R. R\<lparr>r_M := m\<rparr>),
         bindM (deref v_mods m) (\<lambda>x. upd_R (\<lambda>R. R\<lparr>r_MP := m_mp x\<rparr>))])])))))"

text \<open>\<open>strdup\<close> of the path: its characters.\<close>

partial_function (option) cstr_from :: "cptr \<Rightarrow> nat \<Rightarrow> byte list option" where
  "cstr_from s k =
    (if s k = 0 then Some []
     else Option.bind (cstr_from s (k + 1)) (\<lambda>bs. Some (s k # bs)))"

definition iload :: "env \<Rightarrow> unit M" where
  "iload E = bindM (getP r_s) (\<lambda>s. bindM (string2c s) (\<lambda>n. bindM (lookmod n) (\<lambda>m.
     bindM (y_readmod (e_host E) n m True) (\<lambda>r.
     bindM (case r of
         None \<Rightarrow> ret m
       | Some (code, mtime) \<Rightarrow> (case cstr_from n 0 of None \<Rightarrow> fault
           | Some path \<Rightarrow> parsemod (e_host E) path code mtime)) (\<lambda>m.
     bindM (if m = nil then ret m
            else bindM (deref v_mods m) (\<lambda>x. if m_shared x then ret m else dupmod m)) (\<lambda>m.
     bindM (getP r_m) (\<lambda>mdef. bindM (linkmod m mdef) replace_d)))))))"

definition mcall :: "env \<Rightarrow> unit M" where
  "mcall E = bindM (getP r_d) (\<lambda>ml.
     if ml = H then error Tmodule
     else bindM (getP r_s) (\<lambda>f. bindM (gets v_R) (\<lambda>R. bindM (deref v_modlinks ml) (\<lambda>y.
       bindM (steps [
         setp (f_lr f) (r_PC R),
         setp (f_fp f) (r_FP R),
         setp (f_mr f) (r_M R),
         upd_R (\<lambda>R. R\<lparr>r_FP := f, r_M := ml_m y\<rparr>),
         inc_mod (ml_m y)]) (\<lambda>_.
       bindM (getW r_m) (\<lambda>i. bindM (link_at ml (unat i)) (\<lambda>l. bindM (deref v_mods (ml_m y)) (\<lambda>x.
         if m_prog x = nil then steps [
           (case ml_u l of Runt n \<Rightarrow> e_runt E n f | Pc _ \<Rightarrow> fault),
           bindM (gets (\<lambda>st. r_M (v_R st))) (\<lambda>m. bindM (deref v_mods m) (\<lambda>x.
             set_mod m (x\<lparr>m_ref := m_ref x - 1\<rparr>))),
           bindM (getp (f_mr f)) (\<lambda>m. upd_R (\<lambda>R. R\<lparr>r_M := m, r_SP := r_FP R\<rparr>)),
           bindM (getp (f_fp f)) (\<lambda>fp. upd_R (\<lambda>R. R\<lparr>r_FP := fp\<rparr>)),
           bindM (getp (f_t f)) (\<lambda>t. if t = nil then unextend f else freeptrs destroy f t),
           bindM currun (\<lambda>p. bindM (prog p) (\<lambda>z. if p_kill z then error '''' else skip)),
           upd_R (\<lambda>R. R\<lparr>r_t := 0\<rparr>)]
         else bindM (link_pc l) (\<lambda>pc.
           upd_R (\<lambda>R. R\<lparr>r_MP := m_mp x, r_PC := pc, r_t := 1\<rparr>))))))))))"

section \<open>Lengths\<close>

definition lena :: "unit M" where
  "lena = bindM (getP r_s) (\<lambda>a. if a = H then setW r_d 0
     else bindM (deref v_arrays a) (\<lambda>x. setW r_d (a_len x)))"

partial_function (option) list_length :: "(addr \<rightharpoonup> List) \<Rightarrow> addr \<Rightarrow> nat \<Rightarrow> nat option option" where
  "list_length ls a l =
    (if a = H then Some (Some l)
     else (case ls a of None \<Rightarrow> Some None | Some x \<Rightarrow> list_length ls (l_tail x) (l + 1)))"

text \<open>\<open>lenl\<close> does not end on a cyclic list, and traps on a broken one.\<close>

definition lenl :: "unit M" where
  "lenl = bindM (getP r_s) (\<lambda>a. bindM (gets (\<lambda>st. list_length (v_lists st) a 0)) (\<lambda>r.
     case r of Some (Some n) \<Rightarrow> setW r_d (of_nat n) | _ \<Rightarrow> fault))"

section \<open>Lists\<close>

definition cons :: "nat \<Rightarrow> addr M" where
  "cons sz = bindM (nheap (cint (int sizeof_List + int sz))) (\<lambda>h.
     bindM (steps [set_ht h Tlist, inc_type Tlist]) (\<lambda>_.
     bindM (getP r_d) (\<lambda>lv. let l = H2D h in
     bindM (steps [
       iff (lv \<noteq> H) (Setmark (D2H lv)),
       set_list l \<lparr>l_tail = lv, l_t = nil\<rparr>,
       setP r_d l]) (\<lambda>_. ret l))))"

definition set_lt :: "addr \<Rightarrow> addr \<Rightarrow> unit M" where
  "set_lt l t = bindM (deref v_lists l) (\<lambda>x. set_list l (x\<lparr>l_t := t\<rparr>))"

definition consb :: "unit M" where
  "consb = bindM (cons IBY2WD) (\<lambda>l. bindM (getB r_s) (\<lambda>v. setm (\<lambda>m. st8 m (list_data l) v)))"
definition consw :: "unit M" where
  "consw = bindM (cons IBY2WD) (\<lambda>l. bindM (getW r_s) (\<lambda>v. setm (\<lambda>m. st32 m (list_data l) v)))"
definition consl :: "unit M" where
  "consl = bindM (cons IBY2LG) (\<lambda>l. bindM (getV r_s) (\<lambda>v. setm (\<lambda>m. st64 m (list_data l) v)))"
definition consp :: "unit M" where
  "consp = bindM (cons IBY2WD) (\<lambda>l. bindM (steps [set_lt l Tptr, inc_type Tptr]) (\<lambda>_.
     bindM (getP r_s) (\<lambda>sv. steps [take_ref sv, setp (list_data l) sv])))"
definition consf :: "unit M" where
  "consf = bindM (cons 8) (\<lambda>l. bindM (getV r_s) (\<lambda>v. setm (\<lambda>m. st64 m (list_data l) v)))"
definition consm :: "unit M" where
  "consm = bindM (getW r_m) (\<lambda>v. bindM (cons (unat v)) (\<lambda>l. bindM (getA r_s) (\<lambda>s.
     setm (memmove (list_data l) s (unat v)))))"
definition consmp :: "unit M" where
  "consmp = bindM (getW r_m) (\<lambda>i. bindM (mod_type (unat i)) (\<lambda>t. bindM (type_size t) (\<lambda>sz.
     bindM (cons sz) (\<lambda>l. bindM (getA r_s) (\<lambda>s. steps [
       set_lt l t,
       inc_type t,
       incmem s t,
       setm (memmove (list_data l) s sz)])))))"

text \<open>The head operations read the cell at \<open>l->data\<close>; a nil list (\<open>H\<close>) faults.\<close>

definition list_at :: "addr M" where
  "list_at = bindM (getP r_s) (\<lambda>l. bindM (deref v_lists l) (\<lambda>_. ret l))"

definition set_s :: "loc \<Rightarrow> unit M" where
  "set_s l = upd_R (\<lambda>R. R\<lparr>r_s := l\<rparr>)"

definition headb :: "unit M" where
  "headb = bindM list_at (\<lambda>l. bindM (gets (\<lambda>st. ld8 (v_mem st) (list_data l))) (setB r_d))"
definition headw :: "unit M" where
  "headw = bindM list_at (\<lambda>l. bindM (gets (\<lambda>st. ld32 (v_mem st) (list_data l))) (setW r_d))"
definition headl :: "unit M" where
  "headl = bindM list_at (\<lambda>l. bindM (gets (\<lambda>st. ld64 (v_mem st) (list_data l))) (setV r_d))"
definition headp :: "unit M" where
  "headp = bindM list_at (\<lambda>l. steps [set_s (Mem (list_data l)), movp])"
definition headf :: "unit M" where
  "headf = bindM list_at (\<lambda>l. bindM (gets (\<lambda>st. ld64 (v_mem st) (list_data l))) (setV r_d))"
definition headm :: "unit M" where
  "headm = bindM list_at (\<lambda>l. bindM (getA r_d) (\<lambda>d. bindM (getW r_m) (\<lambda>n.
     setm (memmove d (list_data l) (unat n)))))"
definition headmp :: "unit M" where
  "headmp = bindM list_at (\<lambda>l. steps [set_s (Mem (list_data l)), movmp])"
definition tail :: "unit M" where
  "tail = bindM (getP r_s) (\<lambda>l. bindM (deref v_lists l) (\<lambda>x. steps [
     set_s (Tmp (of_nat (l_tail x))), movp]))"

section \<open>Slices\<close>

definition slicea :: "unit M" where
  "slicea = bindM (getW r_m) (\<lambda>v. bindM (getW r_s) (\<lambda>start. bindM (getP r_d) (\<lambda>ds.
     let n = v - start in
     if ds = H then if n = 0 then skip else error Tnilptr
     else bindM (deref v_arrays ds) (\<lambda>x.
       if n <s 0 \<or> start > a_len x \<or> v > a_len x then error Tbounds
       else bindM (deref v_types (a_t x)) (\<lambda>t. bindM (heap Tarray) (\<lambda>h. steps [
         set_array (H2D h) \<lparr>a_len = n, a_t = a_t x, a_root = (if a_root x \<noteq> H then a_root x else ds),
           a_data = nat (int (a_data x) + sint start * t_size t)\<rparr>,
         inc_type (a_t x),
         iff (a_root x \<noteq> H) (steps [
           inc_ref (D2H (a_root x)),
           Setmark (D2H (a_root x)),
           bindM (getP r_d) destroy]),
         setP r_d (H2D h)]))))))"

text \<open>The element loops of \<open>slicela\<close>: downwards when the destination is above the source.\<close>

fun move_up :: "nat \<Rightarrow> nat \<Rightarrow> addr \<Rightarrow> addr \<Rightarrow> addr \<Rightarrow> unit M" where
  "move_up 0 sz dp sp t = skip"
| "move_up (Suc n) sz dp sp t = steps [
     incmem sp t, freeptrs destroy dp t, move_up n sz (dp + sz) (sp + sz) t]"

fun move_down :: "nat \<Rightarrow> nat \<Rightarrow> addr \<Rightarrow> addr \<Rightarrow> addr \<Rightarrow> unit M" where
  "move_down 0 sz ep sp t = skip"
| "move_down (Suc n) sz ep sp t = steps [
     incmem (sp - sz) t, freeptrs destroy (ep - sz) t, move_down n sz (ep - sz) (sp - sz) t]"

definition slicela :: "unit M" where
  "slicela = bindM (getP r_s) (\<lambda>ss. bindM (getW r_m) (\<lambda>dl. bindM (getP r_d) (\<lambda>ds.
     if ss = H then skip
     else if ds = H then error Tnilptr
     else bindM (deref v_arrays ss) (\<lambda>s. bindM (deref v_arrays ds) (\<lambda>d.
       if a_len d <s dl + a_len s then error Tbounds
       else bindM (deref v_types (a_t d)) (\<lambda>t.
         let sz = nat (t_size t); n = nat (sint (a_len s));
             dp = nat (int (a_data d) + sint dl * t_size t); sp = a_data s in
         steps [
           iff (t_np t \<noteq> 0)
             (if dp > sp then move_down n sz (dp + n * sz) (sp + n * sz) (a_t d)
              else move_up n sz dp sp (a_t d)),
           setm (memmove dp sp (n * sz))]))))))"

definition tcmp :: "unit M" where
  "tcmp = bindM (getP r_s) (\<lambda>s. bindM (getP r_d) (\<lambda>d.
     if s = H then skip
     else if d = H then error ''type check''
     else bindM (deref v_heaps (D2H s)) (\<lambda>hs. bindM (deref v_heaps (D2H d)) (\<lambda>h.
       if h_t hs \<noteq> h_t h then error ''type check'' else skip))))"

definition badop :: "unit M" where
  "badop = error ''illegal opcode''"

section \<open>The table and the loop\<close>

definition optab :: "env \<Rightarrow> unit M list" where
  "optab E = (let K = e_kern E in
    [badop, alt K, nbalt K, igoto, call, frame, spawn E, runt, iload E, mcall E, mspawn E, mframe,
     ret_op, jmp, icase, iexit, new, newa, newcb, newcw, newcf, newcp, newcm, newcmp, isend K,
     irecv K, consb, consw, consp, consf, consm, consmp, headb, headw, headp, headf, headm, headmp,
     tail, lea, indx, movp, movm, movmp, movb, movw, movf, cvtbw, cvtwb, cvtfw, cvtwf, cvtca, cvtac,
     cvtwc, cvtcw, cvtfc, cvtcf, addb, addw, addf, subb, subw, subf, mulb, mulw, mulf, divb, divw,
     divf, modw, modb, andb, andw, orb, orw, xorb, xorw, shlb, shlw, shrb, shrw, insc, indc, addc,
     lenc, lena, lenl, beqb, bneb, bltb, bleb, bgtb, bgeb, beqw, bnew, bltw, blew, bgtw, bgew, beqf,
     bnef, bltf, blef, bgtf, bgef, beqc, bnec, bltc, blec, bgtc, bgec, slicea, slicela, slicec, indw,
     indf, indb, negf, movl, addl, subl, divl, modl, mull, andl, orl, xorl, shll, shrl, bnel, bltl,
     blel, bgtl, bgel, beql, cvtlf, cvtfl, cvtlw, cvtwl, cvtlc, cvtcl, headl, consl, newcl, casec,
     indl, movpc, tcmp])"

text \<open>\<open>opinit\<close> fills the rest of the 256 entries.\<close>

definition opinit :: "unit M list \<Rightarrow> unit M list" where
  "opinit tab = tab @ replicate (256 - length tab) badop"

definition step :: "env \<Rightarrow> unit M" where
  "step E = steps [
     dec,
     bindM (gets (\<lambda>st. unat (pc_op st))) (\<lambda>op. opinit (optab E) ! op),
     upd_R (\<lambda>R. R\<lparr>r_PC := r_PC R + sizeof_Inst\<rparr>)]"

text \<open>
  \<open>while(--R.IC != 0)\<close>. An instruction can only set \<open>R.IC\<close> to 1, so the quantum bounds the number of
  iterations.
\<close>

fun xec_loop :: "env \<Rightarrow> nat \<Rightarrow> unit M" where
  "xec_loop E 0 = fault"
| "xec_loop E (Suc n) = bindM (step E) (\<lambda>_.
     bindM (upd_R (\<lambda>R. R\<lparr>r_IC := r_IC R - 1\<rparr>)) (\<lambda>_.
     bindM (gets (\<lambda>st. r_IC (v_R st))) (\<lambda>ic. if ic = 0 then skip else xec_loop E n)))"

definition xec :: "env \<Rightarrow> addr \<Rightarrow> unit M" where
  "xec E p = bindM (prog p) (\<lambda>x. bindM (deref v_mods (r_M (p_R x))) (\<lambda>m. steps [
     upd_R (\<lambda>_. (p_R x)\<lparr>r_MP := m_mp m, r_IC := p_quanta x\<rparr>),
     (if m_compiled m then e_comvec E else xec_loop E (nat (p_quanta x))),
     bindM (gets v_R) (\<lambda>R. upd_prog p (\<lambda>x. x\<lparr>p_R := R\<rparr>))]))"

end
