(* ===== verification/Strval.thy ===== *)
theory Strval
  imports Str
begin

text \<open>
  What the string operations mean: a string value stands for a list of 16-bit characters (\<open>str_val\<close>),
  whichever of the two representations it has. \<open>makes\<close> is the contract of an operation that returns
  a new string: its characters, and that everything that was in the heap before stays.
\<close>


section \<open>Strings as lists of characters\<close>

definition bytes_mem :: "(addr \<Rightarrow> byte) \<Rightarrow> addr \<Rightarrow> nat \<Rightarrow> byte list" where
  "bytes_mem m a n = map (\<lambda>i. m (a + i)) [0..<n]"

definition chars :: "vm \<Rightarrow> addr \<Rightarrow> u16 list" where
  "chars st s =
    (case v_strings st s of
       None \<Rightarrow> []
     | Some x \<Rightarrow>
         if s_len x \<ge> 0 then map ucast (bytes_mem (v_mem st) (Sascii s 0) (nat (s_len x)))
         else runes_at (v_mem st) (Srune s 0) (nat (- s_len x)))"

text \<open>The characters of a string value, \<open>H\<close> being the empty string.\<close>

definition str_val :: "vm \<Rightarrow> addr \<Rightarrow> u16 list" where
  "str_val st s = (if s = H then [] else chars st s)"

text \<open>A string is in a block with room for its characters (and the four spare bytes at the end).\<close>

definition str_bytes :: "String \<Rightarrow> nat" where
  "str_bytes x = nat (if s_len x \<ge> 0 then s_len x else - 2 * s_len x)"

definition str_ok :: "vm \<Rightarrow> addr \<Rightarrow> bool" where
  "str_ok st s \<longleftrightarrow> (\<exists>x sz. v_strings st s = Some x \<and> v_blks st (D2H s) = Some sz \<and> sizeof_Heap \<le> s \<and>
     28 + str_bytes x \<le> sz)"

definition str_val_ok :: "vm \<Rightarrow> addr \<Rightarrow> bool" where
  "str_val_ok st s \<longleftrightarrow> s = H \<or> str_ok st s"

text \<open>What the operations rely on in the allocator: a new block is large enough and apart from all
  blocks in use, and addresses are 32 bits.\<close>

definition alloc_ok :: "vm \<Rightarrow> bool" where
  "alloc_ok st \<longleftrightarrow> (\<forall>bs n a sz. v_alloc st bs n = Some (a, sz) \<longrightarrow>
     a \<noteq> nil \<and> bs a = None \<and> n \<le> int sz \<and> a + sz \<le> H \<and> (\<forall>b k. bs b = Some k \<longrightarrow> area a sz \<inter> area b k = {}))"

text \<open>What an allocation preserves: every block with its contents and the strings in it.\<close>

definition grown :: "vm \<Rightarrow> vm \<Rightarrow> bool" where
  "grown st st' \<longleftrightarrow> v_alloc st' = v_alloc st \<and>
    (\<forall>b n. v_blks st b = Some n \<longrightarrow> v_blks st' b = Some n \<and> (\<forall>i < n. v_mem st' (b + i) = v_mem st (b + i))) \<and>
    (\<forall>s. sizeof_Heap \<le> s \<and> D2H s \<in> dom (v_blks st) \<longrightarrow> v_strings st' s = v_strings st s)"

lemma grown_refl [simp]: "grown st st"
  by (simp add: grown_def)

lemma length_bytes_mem [simp]: "length (bytes_mem m a n) = n"
  by (simp add: bytes_mem_def)

lemma length_runes_at [simp]: "length (runes_at m a n) = n"
  by (simp add: runes_at_def)

lemma bytes_mem_cong: "(\<And>i. i < n \<Longrightarrow> m (a + i) = m' (b + i)) \<Longrightarrow> bytes_mem m a n = bytes_mem m' b n"
  by (simp add: bytes_mem_def)

lemma runes_at_cong:
  "(\<And>i. i < 2 * n \<Longrightarrow> m (a + i) = m' (b + i)) \<Longrightarrow> runes_at m a n = runes_at m' b n"
proof -
  assume h: "\<And>i. i < 2 * n \<Longrightarrow> m (a + i) = m' (b + i)"
  have "ld16 m (a + 2 * k) = ld16 m' (b + 2 * k)" if "k < n" for k
    using h [of "2 * k"] h [of "2 * k + 1"] that by (simp add: ld16_def)
  then show ?thesis by (simp add: runes_at_def)
qed

lemma bytes_mem_append: "bytes_mem m a (n + k) = bytes_mem m a n @ bytes_mem m (a + n) k"
  by (rule nth_equalityI) (auto simp: bytes_mem_def nth_append)

lemma runes_at_append: "runes_at m a (n + k) = runes_at m a n @ runes_at m (a + 2 * n) k"
proof (rule nth_equalityI)
  fix i assume i: "i < length (runes_at m a (n + k))"
  then have i': "i < n + k" by simp
  show "runes_at m a (n + k) ! i = (runes_at m a n @ runes_at m (a + 2 * n) k) ! i"
  proof (cases "i < n")
    case True
    then show ?thesis using i' by (simp add: runes_at_def nth_append)
  next
    case False
    then obtain j where "i = n + j" by (metis le_Suc_ex not_le)
    then show ?thesis using i' by (simp add: runes_at_def nth_append algebra_simps)
  qed
qed simp

lemma str_data_block:
  assumes "str_ok st s" "v_strings st s = Some x" "i < str_bytes x"
  shows "\<exists>j sz. Sascii s 0 + i = D2H s + j \<and> v_blks st (D2H s) = Some sz \<and> j < sz"
proof -
  obtain sz where "v_blks st (D2H s) = Some sz" "sizeof_Heap \<le> s" "28 + str_bytes x \<le> sz"
    using assms by (auto simp: str_ok_def)
  then show ?thesis using assms(3)
    by (intro exI [of _ "24 + i"] exI [of _ sz])
      (auto simp: Sascii_def str_data_def D2H_def sizeof_Heap_def)
qed

lemma grown_str:
  assumes g: "grown st st'" and s: "str_ok st s"
  shows "str_ok st' s" "chars st' s = chars st s" "v_strings st' s = v_strings st s"
proof -
  obtain x sz where x: "v_strings st s = Some x" "v_blks st (D2H s) = Some sz" "sizeof_Heap \<le> s"
      "28 + str_bytes x \<le> sz"
    using s by (auto simp: str_ok_def)
  then have x': "v_strings st' s = Some x" "v_blks st' (D2H s) = Some sz"
    using g by (auto simp: grown_def)
  then show "v_strings st' s = v_strings st s" using x by simp
  show "str_ok st' s" using x x' by (auto simp: str_ok_def)
  have m: "v_mem st' (Sascii s 0 + i) = v_mem st (Sascii s 0 + i)" if "i < str_bytes x" for i
    using str_data_block [OF s x(1) that] g by (auto simp: grown_def)
  have "Srune s 0 = Sascii s 0" by (simp add: Srune_def Sascii_def)
  then show "chars st' s = chars st s"
    using x(1) x'(1) m bytes_mem_cong [of "nat (s_len x)" "v_mem st'" "Sascii s 0" "v_mem st" "Sascii s 0"]
      runes_at_cong [of "nat (- s_len x)" "v_mem st'" "Sascii s 0" "v_mem st" "Sascii s 0"]
    by (simp add: chars_def str_bytes_def)
qed

lemma grown_str_val:
  assumes "grown st st'" "str_val_ok st s"
  shows "str_val st' s = str_val st s" "str_val_ok st' s"
  using assms grown_str [OF assms(1)] by (auto simp: str_val_def str_val_ok_def)

section \<open>New strings\<close>

definition has_type :: "addr \<Rightarrow> vm \<Rightarrow> bool" where
  "has_type t st \<longleftrightarrow> v_types st t \<noteq> None"

text \<open>A successful \<open>newstring\<close>, as an equation between states.\<close>

lemma cint_id: "- (2 ^ 31) \<le> x \<Longrightarrow> x < 2 ^ 31 \<Longrightarrow> cint x = x"
  unfolding cint_def sint_sbintrunc' by (rule signed_take_bit_int_eq_self) simp_all

text \<open>
  The state with a new string \<open>y\<close> in a new block \<open>h\<close> of size \<open>sz\<close>, and the bytes \<open>m\<close>: the block has one
  reference and the mutator's colour, the string type has one more. Nothing else is different.
\<close>

definition with_string :: "vm \<Rightarrow> addr \<Rightarrow> nat \<Rightarrow> String \<Rightarrow> (addr \<Rightarrow> byte) \<Rightarrow> vm" where
  "with_string st h sz y m = st\<lparr>v_mem := m, v_blks := (v_blks st)(h \<mapsto> sz), v_strings := (v_strings st)(H2D h \<mapsto> y),
     v_heaps := (v_heaps st)(h \<mapsto> \<lparr>h_color = v_mutator st, h_ref = 1, h_t = Tstring\<rparr>),
     v_types := (v_types st)(Tstring := map_option (\<lambda>t. t\<lparr>t_ref := t_ref t + 1\<rparr>) (v_types st Tstring)),
     v_nalloc := Suc (v_nalloc st)\<rparr>"

definition only_new :: "vm \<Rightarrow> addr \<Rightarrow> vm \<Rightarrow> bool" where
  "only_new st h st' \<longleftrightarrow> (\<exists>sz y m. st' = with_string st h sz y m)"

lemma only_new_store:
  "only_new st h st' \<Longrightarrow> only_new st h (st'\<lparr>v_mem := m\<rparr>)"
  "only_new st h st' \<Longrightarrow> only_new st h (st'\<lparr>v_strings := (v_strings st')(H2D h \<mapsto> y)\<rparr>)"
proof -
  assume "only_new st h st'"
  then obtain sz y0 m0 where e: "st' = with_string st h sz y0 m0" by (auto simp: only_new_def)
  have "st'\<lparr>v_mem := m\<rparr> = with_string st h sz y0 m" unfolding e with_string_def by (rule vm.equality) simp_all
  then show "only_new st h (st'\<lparr>v_mem := m\<rparr>)" by (auto simp: only_new_def)
  have "st'\<lparr>v_strings := (v_strings st')(H2D h \<mapsto> y)\<rparr> = with_string st h sz y m0" unfolding e with_string_def by (rule vm.equality) simp_all
  then show "only_new st h (st'\<lparr>v_strings := (v_strings st')(H2D h \<mapsto> y)\<rparr>)" by (auto simp: only_new_def)
qed

text \<open>What a successful \<open>newstring\<close> does to the state.\<close>

definition newstr :: "vm \<Rightarrow> addr \<Rightarrow> nat \<Rightarrow> int \<Rightarrow> vm \<Rightarrow> bool" where
  "newstr st h sz nb st' \<longleftrightarrow>
     v_mem st' = v_mem st \<and> v_alloc st' = v_alloc st \<and> v_R st' = v_R st \<and>
     v_blks st' = (v_blks st)(h \<mapsto> sz) \<and> v_blks st h = None \<and>
     v_strings st' = (v_strings st)(H2D h \<mapsto> \<lparr>s_len = nb, s_max = int sz - 28, s_tmp = nil\<rparr>) \<and>
     v_heaps st' = (v_heaps st)(h \<mapsto> \<lparr>h_color = v_mutator st, h_ref = 1, h_t = Tstring\<rparr>) \<and>
     28 + nb \<le> int sz \<and> h + sz \<le> H \<and> (\<forall>b k. v_blks st b = Some k \<longrightarrow> area h sz \<inter> area b k = {}) \<and>
     has_type Tstring st' \<and> h \<noteq> nil \<and> only_new st h st'"

lemma newstring_cases:
  assumes a: "alloc_ok st" and t: "has_type Tstring st" and n: "0 \<le> nb" "nb < 2 ^ 30"
  shows "newstring nb st = Raise ''heap full'' (st\<lparr>v_nalloc := Suc (v_nalloc st)\<rparr>) \<and>
      v_alloc st (v_blks st) (28 + nb) = None \<or>
    (\<exists>h sz st'. newstring nb st = Ok (H2D h) st' \<and> newstr st h sz nb st')"
proof -
  have c: "cint (12 + cint (16 + nb)) = 28 + nb"
    using n by (simp add: cint_id)
  note d = newstring_def nheap_def new_heap_def poolalloc_def set_ht_def inc_type_def msize_def vm_defs
    sizeof_Heap_def sizeof_String_def nil_def
  show ?thesis
  proof (cases "v_alloc st (v_blks st) (28 + nb)")
    case None
    then show ?thesis using c by (simp add: d)
  next
    case (Some p)
    obtain h sz where p: "p = (h, sz)" by (cases p)
    have al: "h \<noteq> nil \<and> v_blks st h = None \<and> 28 + nb \<le> int sz \<and> h + sz \<le> H \<and>
        (\<forall>b k. v_blks st b = Some k \<longrightarrow> area h sz \<inter> area b k = {})"
      using a Some p unfolding alloc_ok_def by blast
    obtain ty where ty: "v_types st Tstring = Some ty" using t by (auto simp: has_type_def)
    have "\<exists>st'. newstring nb st = Ok (H2D h) st' \<and> newstr st h sz nb st'"
    proof -
      let ?y = "\<lparr>s_len = nb, s_max = int sz - 28, s_tmp = nil\<rparr>"
      have "newstring nb st = Ok (H2D h) (with_string st h sz ?y (v_mem st))"
        using Some p ty al c by (simp add: d, intro vm.equality) (simp_all add: with_string_def nil_def)
      moreover have "only_new st h (with_string st h sz ?y (v_mem st))" by (auto simp: only_new_def)
      ultimately show ?thesis using ty al by (simp add: newstr_def has_type_def with_string_def)
    qed
    then show ?thesis by blast
  qed
qed


text \<open>What the caller of \<open>newstring\<close> makes of the new string \<open>h\<close>: the string \<open>y\<close>, with bytes stored
  only in the new block.\<close>

definition filled :: "vm \<Rightarrow> addr \<Rightarrow> nat \<Rightarrow> String \<Rightarrow> vm \<Rightarrow> bool" where
  "filled st h sz y st' \<longleftrightarrow> v_alloc st' = v_alloc st \<and> v_blks st' = (v_blks st)(h \<mapsto> sz) \<and>
     v_strings st' = (v_strings st)(H2D h \<mapsto> y) \<and> (\<forall>x. x \<notin> area h sz \<longrightarrow> v_mem st' x = v_mem st x) \<and>
     28 + str_bytes y \<le> sz \<and> only_new st h st'"

text \<open>
  \<open>st'\<close> is \<open>st\<close> with one string more, at \<open>s\<close>: in a block that was not in use and is apart from all that were, with
  no byte outside it changed. The empty string may also be \<open>H\<close>, with nothing changed.
\<close>

definition new_string :: "vm \<Rightarrow> addr \<Rightarrow> vm \<Rightarrow> bool" where
  "new_string st s st' \<longleftrightarrow> s = H \<and> st' = st \<or>
     s \<noteq> H \<and> (\<exists>h sz y m. s = H2D h \<and> h \<noteq> nil \<and> v_blks st h = None \<and> (\<forall>b k. v_blks st b = Some k \<longrightarrow> area h sz \<inter> area b k = {}) \<and>
       (\<forall>a. a \<notin> area h sz \<longrightarrow> m a = v_mem st a) \<and> st' = with_string st h sz y m)"

text \<open>The outcome of an operation that makes a new string with the characters \<open>cs\<close>.\<close>

definition makes :: "vm \<Rightarrow> addr outcome \<Rightarrow> u16 list \<Rightarrow> bool" where
  "makes st r cs = (case r of
     Ok s st' \<Rightarrow> str_val st' s = cs \<and> str_val_ok st' s \<and> grown st st' \<and> new_string st s st'
   | Raise e st' \<Rightarrow> e = ''heap full'' \<and> st' = st\<lparr>v_nalloc := Suc (v_nalloc st)\<rparr> \<and>
       (\<exists>n. 28 \<le> n \<and> n \<le> 28 + 2 * int (length cs) \<and> v_alloc st (v_blks st) n = None)
   | Fault \<Rightarrow> False)"

lemma makes_H: "makes st (Ok H st) []"
  by (simp add: makes_def str_val_def str_val_ok_def new_string_def)

lemma filled_grown:
  assumes "newstr st h sz nb st1" "filled st h sz y st2"
  shows "grown st st2"
proof -
  have d: "\<And>b k. v_blks st b = Some k \<Longrightarrow> area h sz \<inter> area b k = {}" "v_blks st h = None"
    using assms(1) by (auto simp: newstr_def)
  have "b + i \<notin> area h sz" if "v_blks st b = Some k" "i < k" for b k i
    using d(1) [OF that(1)] that(2) by (auto simp: area_def)
  moreover have "s \<noteq> H2D h" if "D2H s \<in> dom (v_blks st)" for s using that d(2) by auto
  ultimately show ?thesis using assms(2) d(2) by (auto simp: grown_def filled_def)
qed

lemma filled_new:
  assumes "newstr st h sz nb st1" "filled st h sz y st2" "H2D h \<noteq> H"
  shows "new_string st (H2D h) st2"
proof -
  obtain sz' y' m where e: "st2 = with_string st h sz' y' m" using assms(2) by (auto simp: filled_def only_new_def)
  have "v_blks st2 h = Some sz" using assms(2) by (simp add: filled_def)
  then have "sz' = sz" by (simp add: e with_string_def)
  moreover have "\<forall>x. x \<notin> area h sz \<longrightarrow> m x = v_mem st x" using assms(2) by (simp add: filled_def e with_string_def)
  moreover have "h \<noteq> nil" "v_blks st h = None" "\<forall>b k. v_blks st b = Some k \<longrightarrow> area h sz \<inter> area b k = {}"
    using assms(1) unfolding newstr_def by blast+
  ultimately show ?thesis using e assms(3) unfolding new_string_def by blast
qed

lemma newstr_not_H: "newstr st h sz nb st1 \<Longrightarrow> 0 \<le> nb \<Longrightarrow> H2D h \<noteq> H"
  by (auto simp: newstr_def H2D_def sizeof_Heap_def)

lemma makes_new:
  assumes "alloc_ok st" "has_type Tstring st" "0 \<le> nb" "nb < 2 ^ 30" "nb \<le> 2 * int (length cs)"
    and k: "\<And>h sz st1. newstr st h sz nb st1 \<Longrightarrow>
      \<exists>y st2. k (H2D h) st1 = Ok (H2D h) st2 \<and> filled st h sz y st2 \<and> chars st2 (H2D h) = cs"
  shows "makes st (bindM (newstring nb) k st) cs"
  using newstring_cases [OF assms(1-4)]
proof
  assume "newstring nb st = Raise ''heap full'' (st\<lparr>v_nalloc := Suc (v_nalloc st)\<rparr>) \<and>
    v_alloc st (v_blks st) (28 + nb) = None"
  moreover have "\<exists>n. 28 \<le> n \<and> n \<le> 28 + 2 * int (length cs) \<and> v_alloc st (v_blks st) n = None"
    using calculation assms(3,5) by (intro exI [of _ "28 + nb"]) simp
  ultimately show ?thesis by (simp add: bindM_def makes_def)
next
  assume "\<exists>h sz st'. newstring nb st = Ok (H2D h) st' \<and> newstr st h sz nb st'"
  then obtain h sz st1 where n: "newstring nb st = Ok (H2D h) st1" "newstr st h sz nb st1" by blast
  obtain y st2 where y: "k (H2D h) st1 = Ok (H2D h) st2" "filled st h sz y st2" "chars st2 (H2D h) = cs"
    using k [OF n(2)] by blast
  have "sizeof_Heap \<le> H2D h" by (simp add: H2D_def)
  then have "str_ok st2 (H2D h)" using y(2) unfolding str_ok_def filled_def by fastforce
  then show ?thesis using n y newstr_not_H [OF n(2) assms(3)] filled_grown [OF n(2) y(2)] filled_new [OF n(2) y(2)]
    by (simp add: bindM_def makes_def str_val_def str_val_ok_def)
qed

section \<open>Copying characters\<close>

definition apart :: "addr \<Rightarrow> nat \<Rightarrow> addr \<Rightarrow> nat \<Rightarrow> bool" where
  "apart a n b k \<longleftrightarrow> area a n \<inter> area b k = {}"

lemma bytes_mem_memmove [mem_simps]:
  "bytes_mem (memmove d s n m) d n = bytes_mem m s n"
  by (rule bytes_mem_cong) (simp add: memmove_def)

lemma memmove_outside: "x \<notin> area d n \<Longrightarrow> memmove d s n m x = m x"
  by (auto simp: memmove_def area_def)

lemma bytes_mem_outside:
  "apart d n a k \<Longrightarrow> bytes_mem (memmove d s n m) a k = bytes_mem m a k"
  by (rule bytes_mem_cong) (auto simp: memmove_def apart_def area_def disjoint_iff)

lemma runes_at_memmove [mem_simps]:
  "runes_at (memmove d s (n * 2) m) d n = runes_at m s n"
  by (rule runes_at_cong) (simp add: memmove_def)

lemma runes_at_outside:
  "apart d n a (2 * k) \<Longrightarrow> runes_at (memmove d s n m) a k = runes_at m a k"
  by (rule runes_at_cong) (auto simp: memmove_def apart_def area_def disjoint_iff)

lemma cvtup_loop_mem:
  "\<exists>m'. cvtup_loop n r bp st = Ok () (st\<lparr>v_mem := m'\<rparr>) \<and> (\<forall>x. x \<notin> area r (2 * n) \<longrightarrow> m' x = v_mem st x) \<and>
     (apart bp n r (2 * n) \<longrightarrow> runes_at m' r n = map ucast (bytes_mem (v_mem st) bp n))"
proof (induction n arbitrary: r bp st)
  case 0
  then show ?case by (auto simp: skip_def runes_at_def bytes_mem_def intro: exI [of _ "v_mem st"])
next
  case (Suc n)
  let ?st = "st\<lparr>v_mem := st16 (v_mem st) r (ucast (ld8 (v_mem st) bp))\<rparr>"
  obtain m' where m: "cvtup_loop n (r + 2) (bp + 1) ?st = Ok () (?st\<lparr>v_mem := m'\<rparr>)"
      "\<forall>x. x \<notin> area (r + 2) (2 * n) \<longrightarrow> m' x = v_mem ?st x"
      "apart (bp + 1) n (r + 2) (2 * n) \<longrightarrow> runes_at m' (r + 2) n = map ucast (bytes_mem (v_mem ?st) (bp + 1) n)"
    using Suc.IH by blast
  have "cvtup_loop (Suc n) r bp st = Ok () (st\<lparr>v_mem := m'\<rparr>)"
    using m(1) by (simp add: setm_def upd_def bindM_def skip_def)
  moreover have "m' x = v_mem st x" if "x \<notin> area r (2 * Suc n)" for x
  proof -
    have "x \<notin> area (r + 2) (2 * n)" "x < r \<or> r + 2 \<le> x" using that by (auto simp: area_def)
    then show ?thesis using m(2) by (simp add: st_outside)
  qed
  moreover have "runes_at m' r (Suc n) = map ucast (bytes_mem (v_mem st) bp (Suc n))"
    if ap: "apart bp (Suc n) r (2 * Suc n)"
  proof -
    have 1: "apart (bp + 1) n (r + 2) (2 * n)" using ap by (force simp: apart_def area_def)
    have 2: "bytes_mem (v_mem ?st) (bp + 1) n = bytes_mem (v_mem st) (bp + 1) n"
    proof (rule bytes_mem_cong)
      fix i assume "i < n"
      then have "bp + 1 + i \<in> area bp (Suc n)" by (simp add: area_def)
      then have "bp + 1 + i \<notin> area r (2 * Suc n)" using ap unfolding apart_def by blast
      then have "bp + 1 + i < r \<or> r + 2 \<le> bp + 1 + i" by (auto simp: area_def)
      then show "v_mem ?st (bp + 1 + i) = v_mem st (bp + 1 + i)" by (simp add: st_outside)
    qed
    have "ld16 m' r = ld16 (v_mem ?st) r"
      by (rule ld_cong) (use m(2) in \<open>auto simp: area_def\<close>)
    then have 3: "runes_at m' r 1 = [ucast (v_mem st bp)]" by (simp add: runes_at_def ld8_def)
    show ?thesis
      using runes_at_append [of m' r 1 n] bytes_mem_append [of "v_mem st" bp 1 n] 1 2 3 m(3)
      by (simp add: bytes_mem_def)
  qed
  ultimately show ?case by blast
qed


lemma apart_sub: "apart a n b k \<Longrightarrow> a \<le> a' \<Longrightarrow> a' + n' \<le> a + n \<Longrightarrow> b \<le> b' \<Longrightarrow> b' + k' \<le> b + k \<Longrightarrow> apart a' n' b' k'"
  by (force simp: apart_def area_def disjoint_iff)

lemma apart_sym: "apart a n b k \<Longrightarrow> apart b k a n"
  by (auto simp: apart_def)

lemma apart_next: "apart a n (a + n) k"
  by (auto simp: apart_def area_def)

text \<open>The characters of a string that existed before are not in the new block.\<close>

lemma str_apart:
  assumes "newstr st h sz nb st1" "0 \<le> nb" "str_ok st s" "v_strings st s = Some x"
  shows "apart (Sascii s 0) (str_bytes x) (Sascii (H2D h) 0) (sz - 24)"
proof -
  obtain k where k: "v_blks st (D2H s) = Some k" "sizeof_Heap \<le> s" "28 + str_bytes x \<le> k"
    using assms(3,4) by (auto simp: str_ok_def)
  then have "apart (D2H s) k h sz" using assms(1) unfolding newstr_def apart_def by blast
  then show ?thesis
    by (rule apart_sub)
      (use k assms(1,2) in \<open>auto simp: newstr_def Sascii_def str_data_def D2H_def H2D_def sizeof_Heap_def\<close>)
qed

lemma Srune_Sascii: "Srune s 0 = Sascii s 0"
  by (simp add: Srune_def Sascii_def)

definition ascii_rec :: "nat \<Rightarrow> int \<Rightarrow> String" where
  "ascii_rec sz n = \<lparr>s_len = n, s_max = int sz - 28, s_tmp = nil\<rparr>"

definition rune_rec :: "nat \<Rightarrow> int \<Rightarrow> String" where
  "rune_rec sz l = \<lparr>s_len = - l, s_max = (int sz - 28) div 2, s_tmp = nil\<rparr>"

lemma fill_ascii:
  assumes n: "newstr st h sz nb st1" and "0 \<le> nb"
    and m: "\<And>x. x \<notin> area (Sascii (H2D h) 0) (nat nb) \<Longrightarrow> m' x = v_mem st x"
  shows "filled st h sz (ascii_rec sz nb) (st1\<lparr>v_mem := m'\<rparr>)"
    "chars (st1\<lparr>v_mem := m'\<rparr>) (H2D h) = map ucast (bytes_mem m' (Sascii (H2D h) 0) (nat nb))"
proof -
  have "area (Sascii (H2D h) 0) (nat nb) \<subseteq> area h sz"
    using assms by (auto simp: newstr_def area_def Sascii_def str_data_def H2D_def sizeof_Heap_def)
  then have "\<forall>x. x \<notin> area h sz \<longrightarrow> m' x = v_mem st x" using m by blast
  moreover have "28 + nat nb \<le> sz" using assms unfolding newstr_def by linarith
  ultimately show "filled st h sz (ascii_rec sz nb) (st1\<lparr>v_mem := m'\<rparr>)"
    using n \<open>0 \<le> nb\<close> by (simp add: filled_def newstr_def str_bytes_def ascii_rec_def only_new_store)
  show "chars (st1\<lparr>v_mem := m'\<rparr>) (H2D h) = map ucast (bytes_mem m' (Sascii (H2D h) 0) (nat nb))"
    using n \<open>0 \<le> nb\<close> by (simp add: newstr_def chars_def)
qed

lemma fill_runes:
  assumes n: "newstr st h sz (l * 2) st1" and "0 \<le> l"
    and m: "\<And>x. x \<notin> area (Srune (H2D h) 0) (nat l * 2) \<Longrightarrow> m' x = v_mem st x"
  shows "filled st h sz (rune_rec sz l) (st1\<lparr>v_strings := (v_strings st1)(H2D h \<mapsto> rune_rec sz l), v_mem := m'\<rparr>)"
    "chars (st1\<lparr>v_strings := (v_strings st1)(H2D h \<mapsto> rune_rec sz l), v_mem := m'\<rparr>) (H2D h) =
       runes_at m' (Srune (H2D h) 0) (nat l)"
proof -
  have "area (Srune (H2D h) 0) (nat l * 2) \<subseteq> area h sz"
    using assms by (auto simp: newstr_def area_def Srune_def str_data_def H2D_def sizeof_Heap_def)
  then have "\<forall>x. x \<notin> area h sz \<longrightarrow> m' x = v_mem st x" using m by blast
  moreover have "28 + nat (l * 2) \<le> sz" using assms unfolding newstr_def by linarith
  ultimately show "filled st h sz (rune_rec sz l)
      (st1\<lparr>v_strings := (v_strings st1)(H2D h \<mapsto> rune_rec sz l), v_mem := m'\<rparr>)"
    using n \<open>0 \<le> l\<close> only_new_store(1) [OF only_new_store(2) [of st h st1 "rune_rec sz l"], of m']
    by (simp add: filled_def newstr_def str_bytes_def rune_rec_def mult.commute)
  show "chars (st1\<lparr>v_strings := (v_strings st1)(H2D h \<mapsto> rune_rec sz l), v_mem := m'\<rparr>) (H2D h) =
      runes_at m' (Srune (H2D h) 0) (nat l)"
    using n \<open>0 \<le> l\<close> by (cases "l = 0") (simp_all add: newstr_def chars_def rune_rec_def bytes_mem_def runes_at_def)
qed

lemma as_runes_new:
  "newstr st h sz nb st1 \<Longrightarrow> as_runes (H2D h) l st1 =
    Ok () (st1\<lparr>v_strings := (v_strings st1)(H2D h \<mapsto> rune_rec sz l)\<rparr>)"
  by (simp add: as_runes_def newstr_def vm_defs sizeof_Rune_def rune_rec_def)

text \<open>A new string of bytes, and one of runes, whose characters \<open>f\<close> stores.\<close>

definition stores :: "(addr \<Rightarrow> unit M) \<Rightarrow> vm \<Rightarrow> addr \<Rightarrow> nat \<Rightarrow> ((addr \<Rightarrow> byte) \<Rightarrow> bool) \<Rightarrow> bool" where
  "stores f st h n P \<longleftrightarrow> (\<exists>m'. f (H2D h) st = Ok () (st\<lparr>v_mem := m'\<rparr>) \<and>
     (\<forall>x. x \<notin> area (Sascii (H2D h) 0) n \<longrightarrow> m' x = v_mem st x) \<and> P m')"

lemma makes_ascii:
  assumes a: "alloc_ok st" "has_type Tstring st" "0 \<le> nb" "nb < 2 ^ 30" "nb = int (length cs)"
    and f: "\<And>h sz st1. newstr st h sz nb st1 \<Longrightarrow>
      stores f st1 h (nat nb) (\<lambda>m. map ucast (bytes_mem m (Sascii (H2D h) 0) (nat nb)) = cs)"
  shows "makes st (bindM (newstring nb) (\<lambda>ns. bindM (f ns) (\<lambda>_. ret ns)) st) cs"
proof (rule makes_new [OF a(1-4)])
  show "nb \<le> 2 * int (length cs)" using a(5) by simp
next
  fix h sz st1 assume n: "newstr st h sz nb st1"
  then obtain m' where m: "f (H2D h) st1 = Ok () (st1\<lparr>v_mem := m'\<rparr>)"
      "\<forall>x. x \<notin> area (Sascii (H2D h) 0) (nat nb) \<longrightarrow> m' x = v_mem st1 x"
      "map ucast (bytes_mem m' (Sascii (H2D h) 0) (nat nb)) = cs"
    using f unfolding stores_def by blast
  have "m' x = v_mem st x" if "x \<notin> area (Sascii (H2D h) 0) (nat nb)" for x
    using m(2) that n by (simp add: newstr_def)
  note g = fill_ascii [OF n a(3) this]
  show "\<exists>y st2. bindM (f (H2D h)) (\<lambda>_. ret (H2D h)) st1 = Ok (H2D h) st2 \<and> filled st h sz y st2 \<and>
      chars st2 (H2D h) = cs"
    using g m(1,3) by (auto simp: bindM_def ret_def)
qed

lemma makes_runes:
  assumes a: "alloc_ok st" "has_type Tstring st" "0 \<le> l" "l < 2 ^ 29" "l = int (length cs)"
    and f: "\<And>h sz st1 ss. newstr st h sz (l * 2) st1 \<Longrightarrow>
      stores f (st1\<lparr>v_strings := (v_strings st1)(H2D h \<mapsto> rune_rec sz l)\<rparr>) h (nat l * 2)
        (\<lambda>m. runes_at m (Srune (H2D h) 0) (nat l) = cs)"
  shows "makes st (bindM (newstring (l * 2)) (\<lambda>ns. bindM (as_runes ns l) (\<lambda>_. bindM (f ns) (\<lambda>_. ret ns))) st) cs"
proof (rule makes_new [OF a(1,2)])
  fix h sz st1 assume n: "newstr st h sz (l * 2) st1"
  let ?st = "st1\<lparr>v_strings := (v_strings st1)(H2D h \<mapsto> rune_rec sz l)\<rparr>"
  obtain m' where m: "f (H2D h) ?st = Ok () (?st\<lparr>v_mem := m'\<rparr>)"
      "\<forall>x. x \<notin> area (Sascii (H2D h) 0) (nat l * 2) \<longrightarrow> m' x = v_mem ?st x"
      "runes_at m' (Srune (H2D h) 0) (nat l) = cs"
    using f [OF n] unfolding stores_def by blast
  have "m' x = v_mem st x" if "x \<notin> area (Srune (H2D h) 0) (nat l * 2)" for x
    using m(2) that n by (simp add: newstr_def Srune_def Sascii_def)
  note g = fill_runes [OF n a(3) this]
  show "\<exists>y st2. bindM (as_runes (H2D h) l) (\<lambda>_. bindM (f (H2D h)) (\<lambda>_. ret (H2D h))) st1 = Ok (H2D h) st2 \<and>
      filled st h sz y st2 \<and> chars st2 (H2D h) = cs"
    using g m(1,3) by (auto simp: bindM_def ret_def as_runes_new [OF n])
qed (use a in simp_all)

lemma stores_memmove:
  "f (H2D h) = setm (memmove (Sascii (H2D h) 0) s n) \<Longrightarrow> P (memmove (Sascii (H2D h) 0) s n (v_mem st)) \<Longrightarrow>
   stores f st h n P"
  by (auto simp: stores_def setm_def upd_def memmove_outside)

lemma bytes_mem_slice: "i + k \<le> n \<Longrightarrow> bytes_mem m (a + i) k = take k (drop i (bytes_mem m a n))"
proof -
  assume "i + k \<le> n"
  then obtain r where "n = i + (k + r)" by (metis add.assoc le_Suc_ex)
  then show ?thesis using bytes_mem_append [of m a i "k + r"] bytes_mem_append [of m "a + i" k r] by simp
qed

lemma runes_at_slice: "i + k \<le> n \<Longrightarrow> runes_at m (a + 2 * i) k = take k (drop i (runes_at m a n))"
proof -
  assume "i + k \<le> n"
  then obtain r where "n = i + (k + r)" by (metis add.assoc le_Suc_ex)
  then show ?thesis using runes_at_append [of m a i "k + r"] runes_at_append [of m "a + 2 * i" k r] by simp
qed

lemma str_lens_ok: "v_strings st s = Some x \<Longrightarrow> str_lens s st = Ok (s_len x) st"
  by (simp add: str_lens_def vm_defs)

lemma length_chars: "v_strings st s = Some x \<Longrightarrow> length (chars st s) = nat \<bar>s_len x\<bar>"
  by (simp add: chars_def)

lemma bind_steps:
  "bindM (steps []) k = k ()"
  "bindM (steps (m # ms)) k = bindM m (\<lambda>_. bindM (steps ms) k)"
  by (simp_all add: bind_assoc) (simp add: bindM_def skip_def)

lemma bind_skip: "bindM skip k = k ()"
  by (simp add: bindM_def skip_def)

lemmas run_simps = bind_Ok [OF str_lens_ok] bind_assoc bind_skip Let_def

section \<open>stringdup, slicer and addstring\<close>

lemma stringdup_makes:
  assumes a: "alloc_ok st" "has_type Tstring st" "str_val_ok st s" "length (str_val st s) < 2 ^ 29"
  shows "makes st (stringdup s st) (str_val st s)"
proof (cases "s = H")
  case True
  then show ?thesis by (simp add: stringdup_def makes_def str_val_def str_val_ok_def ret_def new_string_def)
next
  case False
  then have s: "str_ok st s" "str_val st s = chars st s" using a(3) by (auto simp: str_val_ok_def str_val_def)
  obtain x where x: "v_strings st s = Some x" using s by (auto simp: str_ok_def)
  have n: "nat \<bar>s_len x\<bar> < 2 ^ 29" using a(4) s(2) length_chars [OF x] by simp
  show ?thesis
  proof (cases "0 \<le> s_len x")
    case True
    have "makes st (bindM (newstring (s_len x)) (\<lambda>ns.
         bindM (setm (memmove (Sascii ns 0) (Sascii s 0) (nat (s_len x)))) (\<lambda>_. ret ns)) st) (chars st s)"
      by (rule makes_ascii [OF a(1,2) True])
        (use n x True length_chars [OF x] in \<open>auto intro!: stores_memmove simp: bytes_mem_memmove chars_def newstr_def\<close>)
    then show ?thesis using False True s(2) x by (simp add: stringdup_def run_simps)
  next
    case neg: False
    let ?l = "- s_len x"
    have "makes st (bindM (newstring (?l * 2)) (\<lambda>ns. bindM (as_runes ns ?l) (\<lambda>_.
         bindM (setm (memmove (Sascii ns 0) (Sascii s 0) (nat ?l * 2))) (\<lambda>_. ret ns))) st) (chars st s)"
      by (rule makes_runes [OF a(1,2)])
        (use n x neg length_chars [OF x] in \<open>auto intro!: stores_memmove simp: Srune_Sascii runes_at_memmove chars_def newstr_def\<close>)
    then show ?thesis using False neg s(2) x
      by (simp add: stringdup_def run_simps sizeof_Rune_def Srune_Sascii)
  qed
qed


lemma uint_le_len: "uint (v :: u32) \<le> \<bar>l\<bar> \<longleftrightarrow> unat v \<le> nat \<bar>l\<bar>"
  using uint_ge_0 [of v] unfolding unat_eq_nat_uint by linarith

lemma slicer_makes:
  assumes a: "alloc_ok st" "has_type Tstring st" "str_val_ok st s" "length (str_val st s) < 2 ^ 29"
  shows "if start \<le> v \<and> unat v \<le> length (str_val st s)
    then makes st (slicer start v s st) (take (unat v - unat start) (drop (unat start) (str_val st s)))
    else slicer start v s st = Raise Tbounds st"
proof (cases "s = H")
  case True
  then show ?thesis
    by (auto simp: slicer_def makes_H str_val_def ret_def error_def unat_eq_0)
next
  case False
  then have s: "str_ok st s" "str_val st s = chars st s" using a(3) by (auto simp: str_val_ok_def str_val_def)
  obtain x where x: "v_strings st s = Some x" using s by (auto simp: str_ok_def)
  have n: "nat \<bar>s_len x\<bar> < 2 ^ 29" using a(4) s(2) length_chars [OF x] by simp
  let ?n = "nat (uint v - uint start)"
  have nn: "?n = unat v - unat start" 
    unfolding unat_eq_nat_uint using uint_ge_0 [of start] by linarith
  show ?thesis
  proof (cases "start \<le> v \<and> unat v \<le> length (chars st s)")
    case out: False
    then have "v < start \<or> \<not> uint v \<le> \<bar>s_len x\<bar>"
      unfolding uint_le_len length_chars [OF x] by auto
    then have "slicer start v s st = Raise Tbounds st"
      using False x by (auto simp: slicer_def run_simps error_def)
    then show ?thesis using out s(2) by auto
  next
    case True
    then have le: "uint start \<le> uint v" "uint v \<le> \<bar>s_len x\<bar>" "\<not> v < start"
      unfolding uint_le_len length_chars [OF x] by (simp_all add: word_le_def word_less_def)
    then have le': "unat start + ?n \<le> nat \<bar>s_len x\<bar>" using uint_ge_0 [of start] unfolding unat_eq_nat_uint by linarith
    have "\<bar>s_len x\<bar> < 2 ^ 29" using n by (simp add: nat_less_iff)
    then have "uint v - uint start < 2 ^ 29" using le(2) uint_ge_0 [of start] by linarith
    then have b: "uint v - uint start < 2 ^ 30" "uint v - uint start < 2 ^ 29" by simp_all
    have len: "int (length (take ?n (drop (unat start) (chars st s)))) = uint v - uint start"
    proof -
      have "length (take ?n (drop (unat start) (chars st s))) = ?n" using le' length_chars [OF x] by simp
      then show ?thesis using le(1) by simp
    qed
    have "makes st (slicer start v s st) (take ?n (drop (unat start) (chars st s)))"
    proof (cases "0 \<le> s_len x")
      case pos: True
      have "makes st (bindM (newstring (uint v - uint start)) (\<lambda>ns.
           bindM (setm (memmove (Sascii ns 0) (Sascii s 0 + unat start) ?n)) (\<lambda>_. ret ns)) st)
         (take ?n (drop (unat start) (chars st s)))"
      proof (rule makes_ascii [OF a(1,2) _ b(1)])
        fix h sz st1 assume "newstr st h sz (uint v - uint start) st1"
        then have "v_mem st1 = v_mem st" by (simp add: newstr_def)
        moreover have "map ucast (bytes_mem (v_mem st) (Sascii s 0 + unat start) ?n) =
            take ?n (drop (unat start) (chars st s))"
          using bytes_mem_slice [OF le'] x pos by (simp add: chars_def take_map drop_map)
        ultimately show "stores (\<lambda>ns. setm (memmove (Sascii ns 0) (Sascii s 0 + unat start) ?n)) st1 h ?n
          (\<lambda>m. map ucast (bytes_mem m (Sascii (H2D h) 0) ?n) = take ?n (drop (unat start) (chars st s)))"
          by (intro stores_memmove) (simp_all only: bytes_mem_memmove)
      qed (use le len in simp_all)
      then show ?thesis using False pos le x
        by (simp add: slicer_def run_simps Sascii_def)
    next
      case neg: False
      have "makes st (bindM (newstring ((uint v - uint start) * 2)) (\<lambda>ns. bindM (as_runes ns (uint v - uint start)) (\<lambda>_.
           bindM (setm (memmove (Sascii ns 0) (Srune s (unat start)) (?n * 2))) (\<lambda>_. ret ns))) st)
         (take ?n (drop (unat start) (chars st s)))"
      proof (rule makes_runes [OF a(1,2) _ b(2)])
        fix h sz st1 ss assume "newstr st h sz ((uint v - uint start) * 2) st1"
        then have "v_mem st1 = v_mem st" by (simp add: newstr_def)
        moreover have "runes_at (v_mem st) (Srune s (unat start)) ?n = take ?n (drop (unat start) (chars st s))"
          using runes_at_slice [OF le', of "v_mem st" "Srune s 0"] x neg by (simp add: chars_def Srune_def)
        ultimately show "stores (\<lambda>ns. setm (memmove (Sascii ns 0) (Srune s (unat start)) (?n * 2)))
            (st1\<lparr>v_strings := (v_strings st1)(H2D h \<mapsto> rune_rec sz (uint v - uint start))\<rparr>) h (?n * 2)
            (\<lambda>m. runes_at m (Srune (H2D h) 0) ?n = take ?n (drop (unat start) (chars st s)))"
          by (intro stores_memmove) (simp_all add: Srune_Sascii runes_at_memmove)
      qed (use le len in simp_all)
      then show ?thesis using False neg le x
        by (simp add: slicer_def run_simps Srune_Sascii sizeof_Rune_def)
    qed
    then show ?thesis using True s(2) nn by simp
  qed
qed


lemma stores_two:
  assumes "f (H2D h) = steps [f1, f2]"
    and "f1 st = Ok () (st\<lparr>v_mem := m1\<rparr>)" "f2 (st\<lparr>v_mem := m1\<rparr>) = Ok () (st\<lparr>v_mem := m2\<rparr>)"
    and "\<And>x. x \<notin> area (Sascii (H2D h) 0) n \<Longrightarrow> m1 x = v_mem st x"
    "\<And>x. x \<notin> area (Sascii (H2D h) 0) n \<Longrightarrow> m2 x = m1 x" "P m2"
  shows "stores f st h n P"
  unfolding stores_def by (rule exI [of _ m2]) (simp add: assms bindM_def skip_def)

text \<open>The two ways in which \<open>addstring\<close> copies the characters of \<open>s\<close> to the runes at \<open>d\<close>.\<close>

definition copy_runes :: "addr \<Rightarrow> addr \<Rightarrow> int \<Rightarrow> unit M" where
  "copy_runes d s n = (if n < 0 then setm (memmove d (Srune s 0) (nat (- n) * 2)) else cvtup_loop (nat n) d (Sascii s 0))"

lemma copy_runes_ok:
  assumes x: "s_len x = n" and k: "nat \<bar>n\<bar> = k" and ap: "apart (Sascii s 0) (str_bytes x) d (k * 2)"
  shows "\<exists>m'. copy_runes d s n st = Ok () (st\<lparr>v_mem := m'\<rparr>) \<and> (\<forall>a. a \<notin> area d (k * 2) \<longrightarrow> m' a = v_mem st a) \<and>
    (v_strings st s = Some x \<longrightarrow> runes_at m' d k = chars st s)"
proof (cases "n < 0")
  case True
  then show ?thesis using x k
    by (auto simp: copy_runes_def setm_def upd_def memmove_outside runes_at_memmove chars_def)
next
  case False
  obtain m' where m: "cvtup_loop k d (Sascii s 0) st = Ok () (st\<lparr>v_mem := m'\<rparr>)"
      "\<forall>a. a \<notin> area d (2 * k) \<longrightarrow> m' a = v_mem st a"
      "apart (Sascii s 0) k d (2 * k) \<longrightarrow> runes_at m' d k = map ucast (bytes_mem (v_mem st) (Sascii s 0) k)"
    using cvtup_loop_mem by blast
  have "apart (Sascii s 0) k d (2 * k)"
    by (rule apart_sub [OF ap]) (use False x k in \<open>simp_all add: str_bytes_def\<close>)
  then show ?thesis using m False x k
    by (auto simp: copy_runes_def mult.commute chars_def)
qed


lemma cvtup_copy:
  "v_strings st s = Some x \<Longrightarrow> 0 \<le> s_len x \<Longrightarrow> cvtup d s st = copy_runes d s (s_len x) st"
  by (simp add: cvtup_def copy_runes_def run_simps)

lemma chars_frame:
  assumes "v_strings st s = Some x" "v_strings st' s = Some x"
    and "\<And>a. a \<in> area (Sascii s 0) (str_bytes x) \<Longrightarrow> v_mem st' a = v_mem st a"
  shows "chars st' s = chars st s"
proof -
  have "v_mem st' (Sascii s 0 + i) = v_mem st (Sascii s 0 + i)" if "i < str_bytes x" for i
    using assms(3) that by (simp add: area_def)
  then show ?thesis using assms(1,2)
      bytes_mem_cong [of "nat (s_len x)" "v_mem st'" "Sascii s 0" "v_mem st" "Sascii s 0"]
      runes_at_cong [of "nat (- s_len x)" "v_mem st'" "Sascii s 0" "v_mem st" "Sascii s 0"]
    by (simp add: chars_def str_bytes_def Srune_Sascii)
qed

lemma newstr_other: "newstr st h sz nb st1 \<Longrightarrow> str_ok st s \<Longrightarrow> s \<noteq> H2D h"
  by (auto simp: newstr_def str_ok_def)

lemma stores_cat:
  assumes n: "newstr st h sz (l * 2) st1" and l: "l = \<bar>s_len x1\<bar> + \<bar>s_len x2\<bar>"
    and s1: "str_ok st s1" "v_strings st s1 = Some x1" and s2: "str_ok st s2" "v_strings st s2 = Some x2"
    and f: "\<And>ns st'. v_strings st' s1 = Some x1 \<Longrightarrow> f1 ns st' = copy_runes (Srune ns 0) s1 (s_len x1) st'"
      "\<And>ns st'. v_strings st' s2 = Some x2 \<Longrightarrow> f2 ns st' = copy_runes (Srune ns (nat \<bar>s_len x1\<bar>)) s2 (s_len x2) st'"
  shows "stores (\<lambda>ns. steps [f1 ns, f2 ns]) (st1\<lparr>v_strings := (v_strings st1)(H2D h \<mapsto> rune_rec sz l)\<rparr>) h (nat l * 2)
    (\<lambda>m. runes_at m (Srune (H2D h) 0) (nat l) = chars st s1 @ chars st s2)"
proof -
  let ?st = "st1\<lparr>v_strings := (v_strings st1)(H2D h \<mapsto> rune_rec sz l)\<rparr>"
  let ?k1 = "nat \<bar>s_len x1\<bar>" and ?k2 = "nat \<bar>s_len x2\<bar>" and ?a = "Sascii (H2D h) 0"
  have d2: "Srune (H2D h) ?k1 = ?a + ?k1 * 2" by (simp add: Srune_def Sascii_def)
  have nl: "nat l = ?k1 + ?k2" using l by linarith
  have room: "(?k1 + ?k2) * 2 \<le> sz - 24" using n l by (auto simp: newstr_def)
  have mem: "v_mem ?st = v_mem st" and str: "v_strings ?st s1 = Some x1" "v_strings ?st s2 = Some x2"
    using n s1 s2 newstr_other [OF n] by (auto simp: newstr_def)
  have ap: "apart (Sascii s1 0) (str_bytes x1) ?a (sz - 24)" "apart (Sascii s2 0) (str_bytes x2) ?a (sz - 24)"
    using str_apart [OF n _ s1] str_apart [OF n _ s2] l by simp_all
  have ap1: "apart (Sascii s1 0) (str_bytes x1) ?a (?k1 * 2)" by (rule apart_sub [OF ap(1)]) (use room in simp_all)
  have ap2: "apart (Sascii s2 0) (str_bytes x2) (?a + ?k1 * 2) (?k2 * 2)"
    by (rule apart_sub [OF ap(2)]) (use room in simp_all)
  obtain m1 where m1: "copy_runes ?a s1 (s_len x1) ?st = Ok () (?st\<lparr>v_mem := m1\<rparr>)"
      "\<forall>a. a \<notin> area ?a (?k1 * 2) \<longrightarrow> m1 a = v_mem ?st a" "runes_at m1 ?a ?k1 = chars ?st s1"
    using copy_runes_ok [OF refl refl ap1] str by blast
  obtain m2 where m2: "copy_runes (?a + ?k1 * 2) s2 (s_len x2) (?st\<lparr>v_mem := m1\<rparr>) = Ok () (?st\<lparr>v_mem := m1, v_mem := m2\<rparr>)"
      "\<forall>a. a \<notin> area (?a + ?k1 * 2) (?k2 * 2) \<longrightarrow> m2 a = m1 a"
      "runes_at m2 (?a + ?k1 * 2) ?k2 = chars (?st\<lparr>v_mem := m1\<rparr>) s2"
    using copy_runes_ok [OF refl refl ap2, of "?st\<lparr>v_mem := m1\<rparr>"] str by auto
  have c1: "chars ?st s1 = chars st s1"
    by (rule chars_frame [OF s1(2) str(1)]) (simp only: mem)
  have c2: "chars (?st\<lparr>v_mem := m1\<rparr>) s2 = chars st s2"
  proof (rule chars_frame [OF s2(2)])
    fix a assume "a \<in> area (Sascii s2 0) (str_bytes x2)"
    then have "a \<notin> area ?a (sz - 24)" using ap(2) unfolding apart_def by blast
    then have "a \<notin> area ?a (?k1 * 2)" using room by (auto simp: area_def)
    then show "v_mem (?st\<lparr>v_mem := m1\<rparr>) a = v_mem st a" using m1(2) mem by simp
  qed (use str in simp)
  have "runes_at m2 ?a ?k1 = runes_at m1 ?a ?k1"
    by (rule runes_at_cong) (use m2(2) in \<open>auto simp: area_def\<close>)
  then have P: "runes_at m2 ?a (nat l) = chars st s1 @ chars st s2"
    using runes_at_append [of m2 ?a ?k1 ?k2] m1(3) m2(3) c1 c2 nl by (simp add: mult.commute)
  show ?thesis
  proof (rule stores_two [OF refl])
    show "f1 (H2D h) ?st = Ok () (?st\<lparr>v_mem := m1\<rparr>)" using f(1) [OF str(1)] m1(1) by (simp add: Srune_Sascii)
    show "f2 (H2D h) (?st\<lparr>v_mem := m1\<rparr>) = Ok () (?st\<lparr>v_mem := m2\<rparr>)"
      using f(2) [of "?st\<lparr>v_mem := m1\<rparr>"] str m2(1) by (simp add: d2)
  qed (use m1(2) m2(2) nl P in \<open>auto simp: area_def Srune_Sascii\<close>)
qed


lemma stores_cat_ascii:
  assumes n: "newstr st h sz (s_len x1 + s_len x2) st1" and l: "0 \<le> s_len x1" "0 \<le> s_len x2"
    and s1: "v_strings st s1 = Some x1" and s2: "str_ok st s2" "v_strings st s2 = Some x2"
  shows "stores (\<lambda>ns. steps [setm (memmove (Sascii ns 0) (Sascii s1 0) (nat (s_len x1))),
      setm (memmove (Sascii ns (nat (s_len x1))) (Sascii s2 0) (nat (s_len x2)))]) st1 h (nat (s_len x1 + s_len x2))
    (\<lambda>m. map ucast (bytes_mem m (Sascii (H2D h) 0) (nat (s_len x1 + s_len x2))) = chars st s1 @ chars st s2)"
proof -
  let ?k1 = "nat (s_len x1)" and ?k2 = "nat (s_len x2)" and ?a = "Sascii (H2D h) 0"
  have d2: "Sascii (H2D h) ?k1 = ?a + ?k1" by (simp add: Sascii_def)
  have nl: "nat (s_len x1 + s_len x2) = ?k1 + ?k2" using l by (rule nat_add_distrib)
  have room: "?k1 \<le> sz - 24" using n l by (auto simp: newstr_def)
  have mem: "v_mem st1 = v_mem st" using n by (simp add: newstr_def)
  have "apart (Sascii s2 0) (str_bytes x2) ?a (sz - 24)" using str_apart [OF n _ s2] l by simp
  then have "apart ?a ?k1 (Sascii s2 0) ?k2"
    by (rule apart_sym [OF apart_sub]) (use room l in \<open>simp_all add: str_bytes_def\<close>)
  then have c2: "bytes_mem (memmove ?a (Sascii s1 0) ?k1 (v_mem st)) (Sascii s2 0) ?k2 = bytes_mem (v_mem st) (Sascii s2 0) ?k2"
    by (rule bytes_mem_outside)
  let ?m1 = "memmove ?a (Sascii s1 0) ?k1 (v_mem st)"
  let ?m2 = "memmove (?a + ?k1) (Sascii s2 0) ?k2 ?m1"
  have "bytes_mem ?m2 ?a ?k1 = bytes_mem ?m1 ?a ?k1"
    by (rule bytes_mem_outside) (auto simp: apart_def area_def)
  then have P: "map ucast (bytes_mem ?m2 ?a (nat (s_len x1 + s_len x2))) = chars st s1 @ chars st s2"
    using l s1 s2(2) c2 unfolding nl bytes_mem_append by (simp add: bytes_mem_memmove chars_def)
  show ?thesis
    by (rule stores_two [OF refl, where ?m1.0 = ?m1 and ?m2.0 = ?m2])
      (use P in \<open>simp_all add: setm_def upd_def mem d2 nl, auto simp: memmove_def area_def\<close>)
qed

lemma addstring_makes:
  assumes a: "alloc_ok st" "has_type Tstring st" "str_val_ok st s1" "str_val_ok st s2"
    "length (str_val st s1) + length (str_val st s2) < 2 ^ 29"
  shows "makes st (addstring s1 s2 st) (str_val st s1 @ str_val st s2)"
proof (cases "s1 = H \<or> s2 = H")
  case True
  have "makes st (stringdup s1 st) (str_val st s1)" "makes st (stringdup s2 st) (str_val st s2)"
    using a by (auto intro: stringdup_makes)
  moreover have "addstring s1 s2 st = stringdup (if s1 = H then s2 else s1) st"
    using True by (auto simp: addstring_def stringdup_def)
  moreover have "str_val st s1 @ str_val st s2 = str_val st (if s1 = H then s2 else s1)"
    using True by (auto simp: str_val_def)
  ultimately show ?thesis by simp
next
  case False
  then have s: "str_ok st s1" "str_ok st s2" "str_val st s1 = chars st s1" "str_val st s2 = chars st s2"
    using a(3,4) by (auto simp: str_val_ok_def str_val_def)
  obtain x1 x2 where x: "v_strings st s1 = Some x1" "v_strings st s2 = Some x2"
    using s by (auto simp: str_ok_def)
  let ?l = "\<bar>s_len x1\<bar> + \<bar>s_len x2\<bar>"
  have "nat \<bar>s_len x1\<bar> + nat \<bar>s_len x2\<bar> < 536870912"
    using a(5) s(3,4) length_chars [OF x(1)] length_chars [OF x(2)] by simp
  then have "?l < 536870912" by linarith
  then have n: "0 \<le> ?l" "?l < 2 ^ 29" by simp_all
  show ?thesis
  proof (cases "0 \<le> s_len x1 \<and> 0 \<le> s_len x2")
    case True
    have "makes st (bindM (newstring (s_len x1 + s_len x2)) (\<lambda>ns. bindM (steps [
        setm (memmove (Sascii ns 0) (Sascii s1 0) (nat (s_len x1))),
        setm (memmove (Sascii ns (nat (s_len x1))) (Sascii s2 0) (nat (s_len x2)))]) (\<lambda>_. ret ns)) st)
      (chars st s1 @ chars st s2)"
    proof (rule makes_ascii [OF a(1,2)])
      fix h sz st1 assume "newstr st h sz (s_len x1 + s_len x2) st1"
      from stores_cat_ascii [OF this _ _ x(1) s(2) x(2)] True
      show "stores (\<lambda>ns. steps [setm (memmove (Sascii ns 0) (Sascii s1 0) (nat (s_len x1))),
          setm (memmove (Sascii ns (nat (s_len x1))) (Sascii s2 0) (nat (s_len x2)))]) st1 h
          (nat (s_len x1 + s_len x2))
        (\<lambda>m. map ucast (bytes_mem m (Sascii (H2D h) 0) (nat (s_len x1 + s_len x2))) = chars st s1 @ chars st s2)"
        by simp
    qed (use True n length_chars [OF x(1)] length_chars [OF x(2)] in simp_all)
    then show ?thesis using False True x s by (simp add: addstring_def run_simps)
  next
    case neg: False
    let ?l = "if s_len x1 < 0 then - s_len x1 + \<bar>s_len x2\<bar> else s_len x1 + - s_len x2"
    have l: "?l = \<bar>s_len x1\<bar> + \<bar>s_len x2\<bar>" using neg by auto
    let ?f1 = "\<lambda>ns. if s_len x1 < 0 then setm (memmove (Srune ns 0) (Srune s1 0) (nat (- s_len x1) * 2))
      else cvtup (Srune ns 0) s1"
    let ?f2 = "\<lambda>ns. if s_len x2 < 0 then setm (memmove (Srune ns (nat \<bar>s_len x1\<bar>)) (Srune s2 0) (nat (- s_len x2) * 2))
      else cvtup (Srune ns (nat \<bar>s_len x1\<bar>)) s2"
    have f: "v_strings st' s1 = Some x1 \<Longrightarrow> ?f1 ns st' = copy_runes (Srune ns 0) s1 (s_len x1) st'"
      "v_strings st' s2 = Some x2 \<Longrightarrow> ?f2 ns st' = copy_runes (Srune ns (nat \<bar>s_len x1\<bar>)) s2 (s_len x2) st'" for ns st'
      by (auto simp: cvtup_copy) (auto simp: copy_runes_def)
    have "makes st (bindM (newstring (?l * 2)) (\<lambda>ns. bindM (as_runes ns ?l) (\<lambda>_.
        bindM (steps [?f1 ns, ?f2 ns]) (\<lambda>_. ret ns))) st) (chars st s1 @ chars st s2)"
    proof (rule makes_runes [OF a(1,2) n [folded l]])
      show "?l = int (length (chars st s1 @ chars st s2))"
        using l length_chars [OF x(1)] length_chars [OF x(2)] by simp
    qed (rule stores_cat [OF _ l s(1) x(1) s(2) x(2) f])
    then show ?thesis using False neg x s
      by (cases "s_len x1 < 0") (simp_all add: addstring_def run_simps sizeof_Rune_def cong: if_cong)
  qed
qed


section \<open>Comparison\<close>

text \<open>The reference: the order of the first two characters that differ, else the difference of the lengths.\<close>

fun lex_cmp :: "u16 list \<Rightarrow> u16 list \<Rightarrow> int" where
  "lex_cmp [] ys = - int (length ys)"
| "lex_cmp (x # xs) [] = int (length (x # xs))"
| "lex_cmp (x # xs) (y # ys) = (if x < y then -1 else if y < x then 1 else lex_cmp xs ys)"

definition plain :: "vm \<Rightarrow> addr \<Rightarrow> bool" where
  "plain st s \<longleftrightarrow> (\<forall>x. v_strings st s = Some x \<and> 0 \<le> s_len x \<longrightarrow> (\<forall>c \<in> set (chars st s). 0 < c \<and> c < 128))"

lemma cmploop_lex:
  assumes "\<And>k. k < n1 \<Longrightarrow> f (i + k) = uint (xs ! k)" "\<And>k. k < n2 \<Longrightarrow> g (i + k) = uint (ys ! k)"
    "length xs = n1" "length ys = n2"
  shows "(case cmploop (min n1 n2) f g i of Some c \<Rightarrow> c | None \<Rightarrow> int n1 - int n2) = lex_cmp xs ys"
  using assms
proof (induction xs ys arbitrary: i n1 n2 rule: lex_cmp.induct)
  case (3 x xs y ys)
  obtain m1 m2 where m: "n1 = Suc m1" "n2 = Suc m2" using 3(4,5) by auto
  have h: "f i = uint x" "g i = uint y" using 3(2) [of 0] 3(3) [of 0] m by simp_all
  have "(case cmploop (min m1 m2) f g (Suc i) of Some c \<Rightarrow> c | None \<Rightarrow> int m1 - int m2) = lex_cmp xs ys"
    if "\<not> x < y" "\<not> y < x"
  proof (rule 3(1) [OF that])
    fix k
    show "k < m1 \<Longrightarrow> f (Suc i + k) = uint (xs ! k)" using 3(2) [of "Suc k"] m by simp
    show "k < m2 \<Longrightarrow> g (Suc i + k) = uint (ys ! k)" using 3(3) [of "Suc k"] m by simp
  qed (use 3(4,5) m in simp_all)
  then show ?case using m h by (auto simp: word_less_def not_less split: option.splits)
qed auto

lemma strncmp_cmploop:
  assumes "\<And>k. k < n \<Longrightarrow> p k \<noteq> 0 \<and> p k < 128 \<and> q k \<noteq> 0 \<and> q k < 128"
    and "\<And>k. k < n \<Longrightarrow> f (i + k) = uint (p k)" "\<And>k. k < n \<Longrightarrow> g (i + k) = uint (q k)"
  shows "strncmp n p q = (case cmploop n f g i of Some c \<Rightarrow> c | None \<Rightarrow> 0)"
  using assms
proof (induction n p q arbitrary: i rule: strncmp.induct)
  case (2 n p q)
  have h: "f i = uint (p 0)" "g i = uint (q 0)" "p 0 \<noteq> 0" using 2(2) [of 0] 2(3) [of 0] 2(4) [of 0] by simp_all
  have "strncmp n (ptr_add p 1) (ptr_add q 1) = (case cmploop n f g (Suc i) of Some c \<Rightarrow> c | None \<Rightarrow> 0)"
    if "\<not> p 0 < q 0" "\<not> q 0 < p 0"
  proof (rule 2(1) [OF that h(3)])
    fix k assume "k < n"
    then show "ptr_add p 1 k \<noteq> 0 \<and> ptr_add p 1 k < 128 \<and> ptr_add q 1 k \<noteq> 0 \<and> ptr_add q 1 k < 128"
      "f (Suc i + k) = uint (ptr_add p 1 k)" "g (Suc i + k) = uint (ptr_add q 1 k)"
      using 2(2-4) [of "Suc k"] by simp_all
  qed
  then show ?case using h by (auto simp: word_less_def not_less)
qed simp

lemma lex_cmp_order:
  "lex_cmp xs ys < 0 \<longleftrightarrow> ord_class.lexordp xs ys" "lex_cmp xs ys = 0 \<longleftrightarrow> xs = ys"
  by (induction xs ys rule: lex_cmp.induct) (auto simp: neq_Nil_conv)

definition char_at :: "(addr \<Rightarrow> byte) \<Rightarrow> addr \<Rightarrow> int \<Rightarrow> nat \<Rightarrow> int" where
  "char_at m s l k = (if l < 0 then uint (ld16 m (Srune s k)) else sint (ld8 m (Sascii s k)))"

lemma str_view_ok:
  assumes "str_val_ok st s"
  shows "\<exists>l. str_view s st = Ok l st \<and> nat \<bar>l\<bar> = length (str_val st s) \<and>
    (plain st s \<longrightarrow>
      (\<forall>k < nat \<bar>l\<bar>. char_at (v_mem st) s l k = uint (str_val st s ! k)) \<and>
      (0 \<le> l \<longrightarrow> (\<forall>k < nat \<bar>l\<bar>. v_mem st (Sascii s k) \<noteq> 0 \<and> v_mem st (Sascii s k) < 128 \<and>
        uint (str_val st s ! k) = uint (v_mem st (Sascii s k)))))"
proof (cases "s = H")
  case True
  then show ?thesis by (auto simp: str_view_def str_val_def ret_def)
next
  case False
  then obtain x where x: "v_strings st s = Some x" using assms by (auto simp: str_val_ok_def str_ok_def)
  have v: "str_view s st = Ok (s_len x) st" "str_val st s = chars st s"
    using False x by (simp_all add: str_view_def str_lens_ok str_val_def)
  show ?thesis
  proof (cases "s_len x < 0")
    case True
    then have "uint (ld16 (v_mem st) (Srune s k)) = uint (chars st s ! k)" if "k < nat (- s_len x)" for k
      using x that by (simp add: chars_def runes_at_def Srune_def)
    then show ?thesis using v True length_chars [OF x] by (auto simp: char_at_def)
  next
    case asc: False
    have n: "chars st s ! k = ucast (v_mem st (Sascii s k))" if "k < nat (s_len x)" for k
      using x asc that by (simp add: chars_def bytes_mem_def Sascii_def)
    have "v_mem st (Sascii s k) \<noteq> 0 \<and> v_mem st (Sascii s k) < 128 \<and>
        uint (chars st s ! k) = uint (v_mem st (Sascii s k)) \<and>
        sint (ld8 (v_mem st) (Sascii s k)) = uint (v_mem st (Sascii s k))"
      if "k < nat (s_len x)" "plain st s" for k
    proof -
      let ?b = "v_mem st (Sascii s k)"
      have "chars st s ! k \<in> set (chars st s)" using that(1) length_chars [OF x] asc by simp
      then have c: "0 < chars st s ! k \<and> chars st s ! k < 128"
        using that(2) x asc unfolding plain_def by auto
      have "uint ?b < 65536" using uint_byte_range(2) [of ?b] by linarith
      then have u: "uint (ucast ?b :: u16) = uint ?b" by (simp add: unsigned_ucast_eq take_bit_eq_mod)
      then have "0 < uint ?b" "uint ?b < 128" using c unfolding n [OF that(1)] by (simp_all add: word_less_def)
      moreover from this have "sint ?b = uint ?b" by (simp add: sint_uint signed_take_bit_int_eq_self)
      ultimately show ?thesis using u n [OF that(1)] by (auto simp: word_less_def ld8_def)
    qed
    then show ?thesis using v asc length_chars [OF x] by (auto simp: char_at_def)
  qed
qed


lemma stringcmp_lex:
  assumes "str_val_ok st s1" "str_val_ok st s2" "plain st s1" "plain st s2"
  shows "stringcmp s1 s2 st = Ok (lex_cmp (str_val st s1) (str_val st s2)) st"
proof -
  let ?xs = "str_val st s1" and ?ys = "str_val st s2" and ?m = "v_mem st"
  let ?f = "char_at (v_mem st)"
  obtain l1 where l1: "str_view s1 st = Ok l1 st" "nat \<bar>l1\<bar> = length ?xs"
      "\<forall>k < nat \<bar>l1\<bar>. ?f s1 l1 k = uint (?xs ! k)"
      "0 \<le> l1 \<longrightarrow> (\<forall>k < nat \<bar>l1\<bar>. ?m (Sascii s1 k) \<noteq> 0 \<and> ?m (Sascii s1 k) < 128 \<and>
        uint (?xs ! k) = uint (?m (Sascii s1 k)))"
    using str_view_ok [OF assms(1)] assms(3) by blast
  obtain l2 where l2: "str_view s2 st = Ok l2 st" "nat \<bar>l2\<bar> = length ?ys"
      "\<forall>k < nat \<bar>l2\<bar>. ?f s2 l2 k = uint (?ys ! k)"
      "0 \<le> l2 \<longrightarrow> (\<forall>k < nat \<bar>l2\<bar>. ?m (Sascii s2 k) \<noteq> 0 \<and> ?m (Sascii s2 k) < 128 \<and>
        uint (?ys ! k) = uint (?m (Sascii s2 k)))"
    using str_view_ok [OF assms(2)] assms(4) by blast
  let ?n = "min (length ?xs) (length ?ys)"
  have n: "nat (min \<bar>l1\<bar> \<bar>l2\<bar>) = ?n" using l1(2) l2(2) by linarith
  have abs: "\<bar>l1\<bar> = int (length ?xs)" "\<bar>l2\<bar> = int (length ?ys)" using l1(2) l2(2) by linarith+
  have lex: "(case cmploop ?n (?f s1 l1) (?f s2 l2) 0 of Some c \<Rightarrow> c | None \<Rightarrow> \<bar>l1\<bar> - \<bar>l2\<bar>) = lex_cmp ?xs ?ys"
    using cmploop_lex [of "length ?xs" "?f s1 l1" 0 ?xs "length ?ys" "?f s2 l2" ?ys] l1(2,3) l2(2,3)
    unfolding abs by simp
  have asc: "strncmp ?n (\<lambda>i. ?m (Sascii s1 i)) (\<lambda>i. ?m (Sascii s2 i)) =
      (case cmploop ?n (?f s1 l1) (?f s2 l2) 0 of Some c \<Rightarrow> c | None \<Rightarrow> 0)" if "0 \<le> l1" "0 \<le> l2"
    by (rule strncmp_cmploop) (use l1 l2 that in simp_all)
  have nz: "cmploop k g h i \<noteq> Some 0" for k g h i by (induction k arbitrary: i) auto
  have ca: "(if l < 0 then \<lambda>i. uint (ld16 (v_mem st) (Srune s i)) else (\<lambda>i. sint (ld8 (v_mem st) (Sascii s i)))) =
      ?f s l" for s l
    by (auto simp: char_at_def fun_eq_iff)
  have "stringcmp s1 s2 st = Ok (if 0 \<le> l1 \<and> 0 \<le> l2
      then let c = strncmp ?n (\<lambda>i. ?m (Sascii s1 i)) (\<lambda>i. ?m (Sascii s2 i)) in
        if c = 0 then \<bar>l1\<bar> - \<bar>l2\<bar> else c
      else case cmploop ?n (?f s1 l1) (?f s2 l2) 0 of Some c \<Rightarrow> c | None \<Rightarrow> \<bar>l1\<bar> - \<bar>l2\<bar>) st"
    unfolding stringcmp_def Let_def bindM_def gets_def ret_def l1(1) l2(1) outcome.case n ca ..
  also have "\<dots> = Ok (lex_cmp ?xs ?ys) st"
  proof (cases "0 \<le> l1 \<and> 0 \<le> l2")
    case True
    then show ?thesis using lex asc nz [of ?n "?f s1 l1" "?f s2 l2" 0]
      by (cases "cmploop ?n (?f s1 l1) (?f s2 l2) 0") (auto simp: Let_def)
  next
    case False
    then show ?thesis by (simp only: if_False lex)
  qed
  finally show ?thesis .
qed


section \<open>C strings\<close>

lemma bytes_mem_store: "bytes_mem (store_bytes a bs m) a (length bs) = bs"
  by (rule nth_equalityI) (auto simp: bytes_mem_def store_bytes_def)

lemma length_rune_bytes [simp]: "length (rune_bytes rs) = 2 * length rs"
  by (induction rs) (auto simp: rune_bytes_def)

lemma ld16_bytes: "word_cat (ucast (drop_bit 8 r) :: byte) (ucast r :: byte) = (r :: u16)"
  by (rule cat_split)

lemma rune_bytes_nth:
  "i < length rs \<Longrightarrow> rune_bytes rs ! (2 * i) = ucast (rs ! i) \<and>
     rune_bytes rs ! (2 * i + 1) = ucast (drop_bit 8 (rs ! i))"
proof (induction rs arbitrary: i)
  case (Cons r rs)
  show ?case
  proof (cases i)
    case 0
    then show ?thesis by (simp add: rune_bytes_def)
  next
    case (Suc j)
    have "rune_bytes (r # rs) = ucast r # ucast (drop_bit 8 r) # rune_bytes rs" by (simp add: rune_bytes_def)
    then show ?thesis using Cons.IH [of j] Cons.prems Suc by simp
  qed
qed simp

lemma runes_at_store: "runes_at (store_bytes a (rune_bytes rs) m) a (length rs) = rs"
proof (rule nth_equalityI)
  fix i assume "i < length (runes_at (store_bytes a (rune_bytes rs) m) a (length rs))"
  then have i: "i < length rs" by simp
  have "store_bytes a (rune_bytes rs) m (a + 2 * i) = ucast (rs ! i)"
    "store_bytes a (rune_bytes rs) m (a + 2 * i + 1) = ucast (drop_bit 8 (rs ! i))"
    using i rune_bytes_nth [OF i] store_bytes_apply(1) [of "2 * i" "rune_bytes rs" a m]
      store_bytes_apply(1) [of "2 * i + 1" "rune_bytes rs" a m] by simp_all
  then show "runes_at (store_bytes a (rune_bytes rs) m) a (length rs) ! i = rs ! i"
    using i by (simp add: runes_at_def ld16_def ld16_bytes)
qed simp

lemma encode_step:
  assumes "holds (ptr_add cs p) (utf_encode (r # rs))"
  shows "chartorune (ptr_add cs p) = (r, length (runetochar r))"
    "holds (ptr_add cs (p + length (runetochar r))) (utf_encode rs)"
    "uint (cs p) < Runeself \<longleftrightarrow> uint r < 128" "uint r < 128 \<Longrightarrow> length (runetochar r) = 1"
proof -
  have h: "holds (ptr_add cs p) (runetochar r @ utf_encode rs)" using assms by (simp only: utf_encode_simps)
  then have h: "holds (ptr_add cs p) (runetochar r)" "holds (ptr_add (ptr_add cs p) (length (runetochar r))) (utf_encode rs)"
    by (simp_all only: holds_append)
  show "chartorune (ptr_add cs p) = (r, length (runetochar r))" by (rule chartorune_runetochar [OF h(1)])
  show "holds (ptr_add cs (p + length (runetochar r))) (utf_encode rs)" using h(2) by simp
  have "cs p = hd (runetochar r)" using holds_hd [OF h(1)] by simp
  moreover have "uint (hd (runetochar r)) < 128 \<longleftrightarrow> uint r < 128"
    using runetochar_multi [of r] by (cases "uint r < 128") (simp_all add: runetochar_ascii)
  ultimately show "uint (cs p) < Runeself \<longleftrightarrow> uint r < 128" by (simp add: Runeself_def)
  show "uint r < 128 \<Longrightarrow> length (runetochar r) = 1" by (simp add: runetochar_ascii)
qed

lemma c2count_encode:
  "holds (ptr_add cs p) (utf_encode rs) \<Longrightarrow>
     c2count cs (p + length (utf_encode rs)) p l = l + length rs"
proof (induction rs arbitrary: p l)
  case Nil
  then show ?case by (subst c2count.simps) simp
next
  case (Cons r rs)
  note h = encode_step [OF Cons.prems]
  have "(if uint (cs p) < Runeself then p + 1 else p + snd (chartorune (ptr_add cs p))) = p + length (runetochar r)"
    using h(1,3,4) by (auto simp del: One_nat_def)
  moreover have "p < p + length (utf_encode (r # rs))" by simp
  ultimately show ?case using Cons.IH [OF h(2), of "l + 1"]
    by (subst c2count.simps) (simp add: add.assoc)
qed

lemma c2runes_encode:
  "holds (ptr_add cs p) (utf_encode rs) \<Longrightarrow> c2runes cs (p + length (utf_encode rs)) p = rs"
proof (induction rs arbitrary: p)
  case Nil
  then show ?case by (subst c2runes.simps) simp
next
  case (Cons r rs)
  note h = encode_step [OF Cons.prems]
  have "p < p + length (utf_encode (r # rs))" by simp
  then show ?case using Cons.IH [OF h(2)] h(1)
    by (subst c2runes.simps) (simp add: add.assoc)
qed

text \<open>The ASCII prefix: the number of characters below 128 before the first other one.\<close>

lemma ascii_prefix_encode:
  "holds (ptr_add cs p) (utf_encode rs) \<Longrightarrow>
     ascii_prefix cs (length (utf_encode rs)) p = p + length (takeWhile (\<lambda>r. uint r < 128) rs)"
proof (induction rs arbitrary: p)
  case (Cons r rs)
  note h = encode_step [OF Cons.prems]
  obtain k where k: "length (utf_encode (r # rs)) = Suc k" by (cases "length (utf_encode (r # rs))") auto
  show ?case
  proof (cases "uint r < 128")
    case True
    then have "k = length (utf_encode rs)" using k h(4) by simp
    then show ?thesis using Cons.IH [OF h(2)] h(3,4) True unfolding k by simp
  next
    case False
    then show ?thesis using h(3) unfolding k by simp
  qed
qed simp

lemma encode_ascii:
  "(\<forall>r \<in> set rs. uint r < 128) \<Longrightarrow> utf_encode rs = map ucast rs"
  by (induction rs) (auto simp: runetochar_ascii uchar_def)

lemma length_encode: "length rs \<le> length (utf_encode rs)"
proof (induction rs)
  case (Cons r rs)
  then show ?case using runetochar_nonempty [of r] by (cases "runetochar r") auto
qed simp

lemma length_encode_less: "r \<in> set rs \<Longrightarrow> \<not> uint r < 128 \<Longrightarrow> length rs < length (utf_encode rs)"
proof (induction rs)
  case (Cons s rs)
  obtain b bs where 1: "runetochar s = b # bs" using runetochar_nonempty [of s] by (cases "runetochar s") auto
  have 2: "1 < length (runetochar s)" if "\<not> uint s < 128"
    using that by (simp add: length_runetochar runelen_def Let_def rune_consts)
  show ?case
  proof (cases "r = s")
    case True
    then show ?thesis using 2 Cons.prems length_encode [of rs] 1 by (cases bs) simp_all
  next
    case False
    then show ?thesis using 1 Cons by auto
  qed
qed simp

lemma takeWhile_ascii_less:
  assumes "\<not> (\<forall>r \<in> set rs. uint r < 128)"
  shows "length (takeWhile (\<lambda>r. uint r < 128) rs) < length (utf_encode rs)"
proof -
  obtain r where "r \<in> set rs" "\<not> uint r < 128" using assms by blast
  then show ?thesis using length_encode_less [of r rs] length_takeWhile_le [of "\<lambda>r. uint r < 128" rs] by linarith
qed


lemma takeWhile_ascii_le: "length (takeWhile (\<lambda>r. uint r < 128) rs) \<le> length (utf_encode rs)"
  using length_takeWhile_le [of "\<lambda>r. uint r < 128" rs] length_encode [of rs] by (rule le_trans)

text \<open>After the ASCII prefix the count goes on where the prefix ends.\<close>

lemma c2string_count:
  assumes "holds cs (utf_encode rs)"
  defines "l \<equiv> length (takeWhile (\<lambda>r. uint r < 128) rs)"
  shows "c2count cs (length (utf_encode rs)) l l = length rs"
proof -
  let ?a = "takeWhile (\<lambda>r. uint r < 128) rs" and ?b = "dropWhile (\<lambda>r. uint r < 128) rs"
  have u: "utf_encode rs = map ucast ?a @ utf_encode ?b"
    using utf_encode_simps(3) [of ?a ?b] encode_ascii [of ?a] by (auto dest: set_takeWhileD)
  then have "holds (ptr_add cs l) (utf_encode ?b)" using assms(1) by (simp add: l_def)
  then have "c2count cs (l + length (utf_encode ?b)) l l = l + length ?b" by (rule c2count_encode)
  moreover have "l + length ?b = length rs" unfolding l_def by (metis length_append takeWhile_dropWhile_id)
  moreover have "l + length (utf_encode ?b) = length (utf_encode rs)" using u by (simp add: l_def)
  ultimately show ?thesis by simp
qed

lemma stores_store_bytes:
  "f (H2D h) = setm (store_bytes (Sascii (H2D h) 0) bs) \<Longrightarrow> length bs = n \<Longrightarrow>
   P (store_bytes (Sascii (H2D h) 0) bs (v_mem st)) \<Longrightarrow> stores f st h n P"
  by (auto simp: stores_def setm_def upd_def area_def store_bytes_def)

lemma ucast_byte_id: "uint (r :: u16) < 128 \<Longrightarrow> ucast (ucast r :: byte) = r"
  by (simp add: word_uint_eq_iff unsigned_ucast_eq take_bit_eq_mod uint_mod_distrib)

lemma c2string_makes:
  assumes a: "alloc_ok st" "has_type Tstring st" "length rs < 2 ^ 29" "holds cs (utf_encode rs)"
  shows "makes st (c2string cs (int (length (utf_encode rs))) st) rs"
proof -
  let ?n = "length (utf_encode rs)"
  have l: "ascii_prefix cs ?n 0 = length (takeWhile (\<lambda>r. uint r < 128) rs)"
    using ascii_prefix_encode [of cs 0 rs] a(4) by simp
  show ?thesis
  proof (cases "\<forall>r \<in> set rs. uint r < 128")
    case True
    then have u: "utf_encode rs = map ucast rs" by (rule encode_ascii)
    have b: "bytes_at cs (length rs) = map ucast rs" using a(4) u by (simp add: holds_iff_bytes_at)
    have id: "map ucast (map ucast rs :: byte list) = rs"
      using True ucast_byte_id by (simp add: map_idI)
    have "makes st (bindM (newstring (int (length rs))) (\<lambda>s.
        bindM (setm (store_bytes (Sascii s 0) (bytes_at cs (length rs)))) (\<lambda>_. ret s)) st) rs"
      by (rule makes_ascii [OF a(1,2)])
        (use a(3) b id bytes_mem_store [of _ "map ucast rs :: byte list"] in \<open>auto intro!: stores_store_bytes\<close>)
    then show ?thesis using l u True by (simp add: c2string_def Let_def takeWhile_eq_all_conv [THEN iffD2])
  next
    case False
    then have "length (takeWhile (\<lambda>r. uint r < 128) rs) < ?n" by (rule takeWhile_ascii_less)
    moreover have "makes st (bindM (newstring (int (length rs) * 2)) (\<lambda>s. bindM (as_runes s (int (length rs))) (\<lambda>_.
        bindM (setm (store_bytes (Sascii s 0) (rune_bytes rs))) (\<lambda>_. ret s))) st) rs"
      by (rule makes_runes [OF a(1,2)])
        (use a(3) runes_at_store [of _ rs] in \<open>auto intro!: stores_store_bytes simp: Srune_Sascii\<close>)
    ultimately show ?thesis using c2string_count [OF a(4)] c2runes_encode [of cs 0 rs] a(4)
      by (simp add: c2string_def l Let_def bind_assoc bind_skip sizeof_Rune_def Srune_Sascii)
  qed
qed


text \<open>The bytes that \<open>string2c\<close> writes are the encoding of the characters.\<close>

lemma string2c_bytes_encode: "string2c_bytes rs = utf_encode rs"
proof (induction rs)
  case (Cons r rs)
  have "uint r < Runeself \<Longrightarrow> runetochar r = [ucast r]"
    using encode_ascii [of "[r]"] by (simp add: Runeself_def)
  then show ?case using Cons.IH by auto
qed simp

lemma holds_store: "holds (\<lambda>i. store_bytes p bs m (p + i)) bs"
  by (simp add: holds_def store_bytes_apply)

lemma byte_ucast_id: "ucast (ucast (b :: byte) :: u16) = b"
  by (rule bit_word_eqI) (auto simp: bit_simps)

text \<open>The bytes of a string that is not in runes are ASCII.\<close>

definition ascii_only :: "vm \<Rightarrow> addr \<Rightarrow> bool" where
  "ascii_only st s \<longleftrightarrow> (\<forall>x. v_strings st s = Some x \<and> 0 \<le> s_len x \<longrightarrow> (\<forall>c \<in> set (chars st s). c < 128))"

text \<open>
  When \<open>string2c\<close> fails: the string is in runes, its buffer is missing or too small for three bytes a rune and three
  more, and with the old buffer given back the allocator denies a block of that size.
\<close>

definition no_room :: "vm \<Rightarrow> addr \<Rightarrow> bool" where
  "no_room st s = (case v_strings st s of None \<Rightarrow> False | Some x \<Rightarrow> let l = 3 * \<bar>s_len x\<bar> + 3 in
     s \<noteq> H \<and> s_len x < 0 \<and> (s_tmp x = nil \<or> (\<exists>sz. v_blks st (s_tmp x) = Some sz \<and> int sz < l)) \<and>
     v_alloc st (if s_tmp x = nil then v_blks st else (v_blks st)(s_tmp x := None)) l = None)"

lemma string2c_ascii:
  assumes x: "v_strings st s = Some x" "0 \<le> s_len x" "s \<noteq> H" "ascii_only st s"
  shows "\<exists>p st'. string2c s st = Ok p st' \<and> holds p (utf_encode (chars st s) @ [0]) \<and>
    v_mem st' = (v_mem st)(Sascii s (nat (s_len x)) := 0) \<and> v_strings st' = v_strings st"
proof -
  let ?n = "nat (s_len x)" and ?m = "(v_mem st)(Sascii s (nat (s_len x)) := 0)"
  have c: "chars st s = map ucast (bytes_mem (v_mem st) (Sascii s 0) ?n)" using x by (simp add: chars_def)
  have "uint r < 128" if "r \<in> set (chars st s)" for r
    using x that by (auto simp: ascii_only_def word_less_def)
  then have u: "utf_encode (chars st s) = map ucast (chars st s)" by (intro encode_ascii) simp
  also have "\<dots> = bytes_mem (v_mem st) (Sascii s 0) ?n" unfolding c by (simp add: o_def byte_ucast_id map_idI)
  finally have u: "utf_encode (chars st s) = bytes_mem (v_mem st) (Sascii s 0) ?n" .
  have "holds (\<lambda>i. ?m (Sascii s i)) (bytes_mem (v_mem st) (Sascii s 0) ?n @ [0])"
    by (auto simp: holds_def nth_append bytes_mem_def Sascii_def)
  then show ?thesis unfolding u using x
    by (simp add: string2c_def vm_defs setm_def st8_def)
qed


lemma runes_mem_cong:
  assumes "\<And>a. a \<in> area (Srune s 0) (2 * n) \<Longrightarrow> m' a = m a"
  shows "runes_at m' (Srune s 0) n = runes_at m (Srune s 0) n"
  by (rule runes_at_cong) (use assms in \<open>simp add: area_def\<close>)

lemma string2c_runes:
  assumes a: "alloc_ok st" and s: "str_ok st s" "v_strings st s = Some x" "s_len x < 0" "s \<noteq> H"
    and t: "s_tmp x \<noteq> nil \<Longrightarrow> v_blks st (s_tmp x) \<noteq> None" "s_tmp x \<noteq> D2H s"
  shows "if no_room st s then string2c s st = Fault
    else \<exists>p st'. string2c s st = Ok p st' \<and> holds p (utf_encode (chars st s) @ [0])"
proof -
  let ?n = "nat (- s_len x)" and ?l = "- s_len x * int UTFmax + int UTFmax"
  have c: "chars st s = runes_at (v_mem st) (Srune s 0) ?n" using s by (simp add: chars_def)
  let ?b = "utf_encode (chars st s) @ [0]"
  obtain k where k: "v_blks st (D2H s) = Some k" "sizeof_Heap \<le> s" "28 + str_bytes x \<le> k"
    using s(1,2) by (auto simp: str_ok_def)
  show ?thesis
  proof (cases "s_tmp x \<noteq> nil \<and> \<not> (\<exists>sz. v_blks st (s_tmp x) = Some sz \<and> int sz < ?l)")
    case True
    then obtain sz where "v_blks st (s_tmp x) = Some sz" "\<not> int sz < ?l" using t(1) by blast
    then have "string2c s st = Ok (\<lambda>i. store_bytes (s_tmp x) ?b (v_mem st) (s_tmp x + i))
        (st\<lparr>v_mem := store_bytes (s_tmp x) ?b (v_mem st)\<rparr>)"
      using True s by (simp add: string2c_def Let_def vm_defs setm_def msize_def string2c_bytes_encode c)
    moreover have "\<not> no_room st s" using True \<open>\<not> int sz < ?l\<close> \<open>v_blks st (s_tmp x) = Some sz\<close> s by (simp add: no_room_def UTFmax_def)
    ultimately have "\<not> no_room st s" "\<exists>p st'. string2c s st = Ok p st' \<and> holds p (utf_encode (chars st s) @ [0])"
      using holds_store by blast+
    then show ?thesis by (simp only: if_False)
  next
    case False
    let ?blks = "(v_blks st)(s_tmp x := if s_tmp x = nil then v_blks st nil else None)"
    have full: "no_room st s \<longleftrightarrow> v_alloc st ?blks ?l = None"
    proof -
      have "?l = 3 * \<bar>s_len x\<bar> + 3" using s(3) by (simp add: UTFmax_def)
      moreover have "?blks = (if s_tmp x = nil then v_blks st else (v_blks st)(s_tmp x := None))" by auto
      moreover have "s_tmp x = nil \<or> (\<exists>sz. v_blks st (s_tmp x) = Some sz \<and> int sz < ?l)" using False by blast
      ultimately show ?thesis using s by (simp only: no_room_def option.case Let_def simp_thms)
    qed
    have f: "\<exists>st1. free (s_tmp x) st = Ok () st1 \<and> v_blks st1 = ?blks \<and> v_mem st1 = v_mem st \<and>
        v_strings st1 = v_strings st \<and> v_alloc st1 = v_alloc st"
      by (auto simp: free_def vm_defs)
    obtain st1 where f: "free (s_tmp x) st = Ok () st1" "v_blks st1 = ?blks" "v_mem st1 = v_mem st"
        "v_strings st1 = v_strings st" "v_alloc st1 = v_alloc st"
      using f by blast
    have e: "string2c s st = bindM (bindM (malloc ?l) (\<lambda>p. bindM (set_str s (x\<lparr>s_tmp := p\<rparr>)) (\<lambda>_. ret p))) (\<lambda>p.
         if p = nil then fault
         else bindM (setm (\<lambda>m. store_bytes p (string2c_bytes (runes_at m (Srune s 0) ?n) @ [0]) m))
             (\<lambda>_. gets (\<lambda>st i. v_mem st (p + i)))) st1"
      using False s f(1) by (auto simp: string2c_def vm_defs msize_def Let_def)
    show ?thesis
    proof (cases "v_alloc st ?blks ?l")
      case None
      then show ?thesis using f full by (simp add: e) (simp add: malloc_def poolalloc_def vm_defs nil_def set_str_def)
    next
      case (Some q)
      obtain h sz where q: "q = (h, sz)" by (cases q)
      have al: "h \<noteq> nil" "?l \<le> int sz" "\<And>b k. ?blks b = Some k \<Longrightarrow> area h sz \<inter> area b k = {}"
        using a Some q unfolding alloc_ok_def by blast+
      let ?m = "memset h 0 (nat ?l) (v_mem st)"
      have "?blks (D2H s) = Some k" using k(1) t(2) by simp
      then have d: "area h sz \<inter> area (D2H s) k = {}" by (rule al(3))
      have "runes_at ?m (Srune s 0) ?n = runes_at (v_mem st) (Srune s 0) ?n"
      proof (rule runes_mem_cong)
        fix b assume "b \<in> area (Srune s 0) (2 * ?n)"
        then have "b \<in> area (D2H s) k"
          using k s(3) by (auto simp: area_def Srune_def str_data_def D2H_def sizeof_Heap_def str_bytes_def)
        then have "b \<notin> area h sz" using d by blast
        then have "b < h \<or> h + nat ?l \<le> b" using al(2) by (auto simp: area_def)
        then show "?m b = v_mem st b" by (rule memset_apply(2))
      qed
      then have "\<exists>st'. string2c s st = Ok (\<lambda>i. store_bytes h ?b ?m (h + i)) st'"
        using Some q al(1) f c
        by (simp add: e) (simp add: malloc_def poolalloc_def vm_defs set_str_def setm_def string2c_bytes_encode)
      then have "\<exists>p st'. string2c s st = Ok p st' \<and> holds p (utf_encode (chars st s) @ [0])" using holds_store by blast
      moreover have "\<not> no_room st s" using full Some by simp
      ultimately show ?thesis by (simp only: if_False)
    qed
  qed
qed

section \<open>Properties of the string operations\<close>

text \<open>C4: \<open>addstring\<close> is concatenation, whatever the representations of its arguments: the result is a new
  string, in a block that was not in use, whose characters are those of the first and then of the second argument
  (or \<open>H\<close>, when both arguments are). The block has one reference, the string type one more; every other block,
  string, array, list, count and register and every byte outside the new block is as it was. It fails only when the
  heap cannot supply the block, and then changes nothing but a counter of the pool.\<close>

theorem addstring_concat:
  assumes "alloc_ok st" "has_type Tstring st" "str_val_ok st s1" "str_val_ok st s2"
    "length (str_val st s1) + length (str_val st s2) < 2 ^ 29"
  shows "makes st (addstring s1 s2 st) (str_val st s1 @ str_val st s2)"
  using assms by (rule addstring_makes)

text \<open>C22: \<open>slicer\<close> returns a new string with the characters from \<open>start\<close> to before \<open>v\<close> when
  \<open>start <= v\<close> and \<open>v\<close> is at most the length, and raises the bounds exception with the state
  unchanged in every other case, also for negative words.\<close>

theorem slicer_bounds:
  assumes "alloc_ok st" "has_type Tstring st" "str_val_ok st s" "length (str_val st s) < 2 ^ 29"
  shows "if start \<le> v \<and> unat v \<le> length (str_val st s)
    then makes st (slicer start v s st) (take (unat v - unat start) (drop (unat start) (str_val st s)))
    else slicer start v s st = Raise Tbounds st"
  using assms by (rule slicer_makes)

text \<open>C25: On strings whose ASCII representation, if they have it, holds characters from 1 to 127 only,
  \<open>stringcmp\<close> is the lexicographic order of the characters, for every mix of representations. (At a NUL the
  \<open>strncmp\<close> of two ASCII strings stops, and the lengths decide.)\<close>

theorem stringcmp_order:
  assumes "str_val_ok st s1" "str_val_ok st s2" "plain st s1" "plain st s2"
  shows "\<exists>r. stringcmp s1 s2 st = Ok r st \<and> (r < 0 \<longleftrightarrow> ord_class.lexordp (str_val st s1) (str_val st s2)) \<and>
    (r = 0 \<longleftrightarrow> str_val st s1 = str_val st s2)"
  using stringcmp_lex [OF assms] lex_cmp_order by blast

text \<open>A machine with the ASCII string \<open>hi\<close> at 1012 and the rune string of one alpha at 2012.\<close>

definition ex_str :: vm where
  "ex_str = zero_vm\<lparr>v_mem := store_bytes 1024 [104, 105] (store_bytes 2024 [0xB1, 0x03] (\<lambda>_. 0)),
     v_strings := [1012 \<mapsto> \<lparr>s_len = 2, s_max = 12, s_tmp = nil\<rparr>, 2012 \<mapsto> \<lparr>s_len = -1, s_max = 6, s_tmp = nil\<rparr>],
     v_blks := [1000 \<mapsto> 40, 2000 \<mapsto> 40],
     v_alloc := (\<lambda>bs n. if bs = [1000 \<mapsto> 40, 2000 \<mapsto> 40] \<and> n \<le> 100 then Some (3000, 100) else None)\<rparr>"

lemma ex_str_ok:
  "alloc_ok ex_str" "has_type Tstring ex_str" "str_val_ok ex_str 1012" "str_val_ok ex_str 2012"
proof -
  show "alloc_ok ex_str"
    by (auto simp: alloc_ok_def ex_str_def nil_def H_def area_def split: if_splits)
  show "has_type Tstring ex_str" by (simp add: has_type_def ex_str_def zero_vm_def static_types_def)
qed (auto simp: str_val_ok_def str_ok_def ex_str_def D2H_def sizeof_Heap_def str_bytes_def)

lemma ex_alpha: "word_cat (3 :: byte) (177 :: byte) = (0x3B1 :: u16)"
  by (simp add: word_cat_eq)

lemma ex_str_vals: "str_val ex_str 1012 = [104, 105]" "str_val ex_str 2012 = [0x3B1]"
  by (simp_all add: str_val_def chars_def ex_str_def H_def bytes_mem_def runes_at_def Sascii_def Srune_def
      str_data_def store_bytes_def ld16_def ex_alpha upt_rec [of _ "Suc _"] upt_rec [of _ 1] upt_rec [of _ 2])


lemma ex_str_makes:
  "makes ex_str r cs \<Longrightarrow> length cs \<le> 30 \<Longrightarrow> \<exists>s st. r = Ok s st \<and> str_val st s = cs"
  by (auto simp: makes_def ex_str_def split: outcome.splits)

theorem addstring_concat_witness:
  "\<exists>s st. addstring 1012 2012 ex_str = Ok s st \<and> str_val st s = [104, 105, 0x3B1]"
  using addstring_concat [OF ex_str_ok, unfolded ex_str_vals] ex_str_makes by fastforce

theorem slicer_bounds_witness:
  "(\<exists>s st. slicer 1 2 1012 ex_str = Ok s st \<and> str_val st s = [105]) \<and>
   slicer 1 3 1012 ex_str = Raise Tbounds ex_str"
proof -
  have "makes ex_str (slicer 1 2 1012 ex_str) [105]"
    using slicer_bounds [OF ex_str_ok(1-3), unfolded ex_str_vals, of 1 2] by simp
  moreover have "slicer 1 3 1012 ex_str = Raise Tbounds ex_str"
    using slicer_bounds [OF ex_str_ok(1-3), unfolded ex_str_vals, of 1 3] by simp
  ultimately show ?thesis using ex_str_makes [of _ "[105]"] by simp
qed

theorem stringcmp_order_witness:
  "\<exists>r. stringcmp 1012 2012 ex_str = Ok r ex_str \<and> r < 0"
proof -
  have "plain ex_str 2012" by (simp add: plain_def ex_str_def)
  moreover have "plain ex_str 1012" using ex_str_vals(1) by (simp add: plain_def str_val_def H_def)
  ultimately show ?thesis
    using stringcmp_order [OF ex_str_ok(3,4), unfolded ex_str_vals] by (auto simp: word_less_def)
qed

text \<open>C26: \<open>c2string\<close> on the UTF-8 encoding of a list of characters makes the string with these characters,
  as bytes when all are ASCII and as runes otherwise.\<close>

theorem c2string_decodes:
  assumes "alloc_ok st" "has_type Tstring st" "length rs < 2 ^ 29" "holds cs (utf_encode rs)"
  shows "makes st (c2string cs (int (length (utf_encode rs))) st) rs"
  using assms by (rule c2string_makes)

theorem c2string_decodes_witness:
  "\<exists>s st. c2string (of_bytes (utf_encode [104, 0x20AC])) (int (length (utf_encode [104, 0x20AC]))) ex_str = Ok s st \<and>
     str_val st s = [104, 0x20AC]"
  using c2string_decodes [OF ex_str_ok(1,2), of "[104, 0x20AC]", OF _ holds_of_bytes] ex_str_makes
  by (simp del: utf_encode_simps)

text \<open>The buffer of a string, when it has one, is a block of its own.\<close>

definition tmp_ok :: "vm \<Rightarrow> addr \<Rightarrow> bool" where
  "tmp_ok st s \<longleftrightarrow> (\<forall>x. v_strings st s = Some x \<and> s_len x < 0 \<longrightarrow>
     s_tmp x \<noteq> D2H s \<and> (s_tmp x \<noteq> nil \<longrightarrow> v_blks st (s_tmp x) \<noteq> None))"

text \<open>C27: \<open>string2c\<close> returns a pointer to the zero-terminated UTF-8 encoding of the characters of a string, in runes
  or in bytes that are ASCII, whose buffer, if it has one, is a block of its own. It traps in exactly one case: the
  string is in runes, its buffer is missing or too small, and the allocator denies the new one.\<close>

theorem string2c_encodes:
  assumes "alloc_ok st" "str_val_ok st s" "ascii_only st s" "tmp_ok st s"
  shows "if no_room st s then string2c s st = Fault
    else \<exists>p st'. string2c s st = Ok p st' \<and> holds p (utf_encode (str_val st s) @ [0])"
proof (cases "s = H")
  case True
  then show ?thesis by (simp add: string2c_def ret_def str_val_def of_bytes_def no_room_def split: option.split)
next
  case False
  then have s: "str_ok st s" "str_val st s = chars st s" using assms(2) by (simp_all add: str_val_ok_def str_val_def)
  then obtain x where x: "v_strings st s = Some x" by (auto simp: str_ok_def)
  show ?thesis
  proof (cases "0 \<le> s_len x")
    case True
    then have "\<not> no_room st s" using x by (simp add: no_room_def)
    then show ?thesis using string2c_ascii [OF x True False assms(3)] s(2) by auto
  next
    case neg: False
    then show ?thesis using string2c_runes [OF assms(1) s(1) x _ False] assms(4) x s(2)
      by (auto simp: tmp_ok_def)
  qed
qed

theorem string2c_encodes_witness:
  "(\<exists>p st. string2c 1012 ex_str = Ok p st \<and> holds p [104, 105, 0]) \<and>
   (\<exists>p st. string2c 2012 ex_str = Ok p st \<and> holds p (utf_encode [0x3B1] @ [0])) \<and>
   string2c 2012 (ex_str\<lparr>v_alloc := \<lambda>_ _. None\<rparr>) = Fault"
proof (intro conjI)
  have ok: "tmp_ok ex_str 1012" "tmp_ok ex_str 2012" "ascii_only ex_str 2012" "\<not> no_room ex_str 1012" "\<not> no_room ex_str 2012"
    by (simp_all add: tmp_ok_def ascii_only_def no_room_def ex_str_def D2H_def sizeof_Heap_def nil_def)
  have a: "ascii_only ex_str 1012" using ex_str_vals(1) by (simp add: ascii_only_def str_val_def H_def)
  have "utf_encode [104, 105] = [104, 105]" by (simp add: runetochar_ascii uchar_def)
  then show "\<exists>p st. string2c 1012 ex_str = Ok p st \<and> holds p [104, 105, 0]"
    using string2c_encodes [OF ex_str_ok(1,3) a ok(1)] ok(4) unfolding ex_str_vals by simp
  show "\<exists>p st. string2c 2012 ex_str = Ok p st \<and> holds p (utf_encode [0x3B1] @ [0])"
    using string2c_encodes [OF ex_str_ok(1,4) ok(3,2)] ok(5) unfolding ex_str_vals by simp
  let ?st = "ex_str\<lparr>v_alloc := \<lambda>_ _. None\<rparr>"
  have n: "alloc_ok ?st" "str_val_ok ?st 2012" "ascii_only ?st 2012" "tmp_ok ?st 2012" "no_room ?st 2012"
    using ex_str_ok(4) ok(2,3) by (simp_all add: alloc_ok_def str_val_ok_def str_ok_def ascii_only_def tmp_ok_def no_room_def ex_str_def H_def)
  show "string2c 2012 ?st = Fault" using string2c_encodes [OF n(1-4)] n(5) by simp
qed

end
