(* ===== verification/Heapk.thy ===== *)
theory Heapk
  imports Heapc
begin

text \<open>
  What destroying values leaves alone, and why the bound on the depth of \<open>destroy\<close> is enough.

  \<open>keeps m\<close> says that an operation, when it succeeds, changes neither byte memory, registers, progs
  and queues nor \<open>gchalt\<close>. \<open>same k m1 m2\<close> says that two operations agree in states with
  \<open>gchalt = k\<close>. Both are closed under the statements of the model, which the rule collections
  \<open>keep_intros\<close> and \<open>same_intros\<close> express.
\<close>

named_theorems keep_intros \<open>operations that keep the core of the state\<close>

definition hcore :: "vm \<Rightarrow> (addr \<Rightarrow> byte) \<times> REG \<times> (addr \<rightharpoonup> Prog) \<times> addr list \<times> int list \<times> u32 \<times> nat" where
  "hcore st = (v_mem st, v_R st, v_progs st, [v_runhd st, v_runtl st, v_head st, v_tail st],
     [v_pidnum st, v_mutator st], v_gccolor st, v_gchalt st)"

definition keeps :: "'a M \<Rightarrow> bool" where
  "keeps m \<longleftrightarrow> (\<forall>st a st'. m st = Ok a st' \<longrightarrow> hcore st' = hcore st)"

lemma keepsD: "keeps m \<Longrightarrow> m st = Ok a st' \<Longrightarrow> hcore st' = hcore st"
  by (auto simp: keeps_def)

lemma keeps_basic [keep_intros, simp]:
  "keeps (ret a)" "keeps skip" "keeps (error e)" "keeps fault" "keeps (gets f)" "keeps (deref f' p)"
  by (auto simp: keeps_def vm_defs split: option.splits)

lemma keeps_bind [keep_intros]: "keeps m \<Longrightarrow> (\<And>a. keeps (k a)) \<Longrightarrow> keeps (bindM m k)"
  by (fastforce simp: keeps_def bindM_def split: outcome.splits)

lemma keeps_steps [keep_intros]:
  "keeps (steps [])" "keeps m \<Longrightarrow> keeps (steps ms) \<Longrightarrow> keeps (steps (m # ms))"
  by (auto intro: keeps_bind)

lemma keeps_cases [keep_intros]:
  "(b \<Longrightarrow> keeps u) \<Longrightarrow> keeps (iff b u)"
  "(b \<Longrightarrow> keeps m) \<Longrightarrow> (\<not> b \<Longrightarrow> keeps n) \<Longrightarrow> keeps (if b then m else n)"
  "(o1 = None \<Longrightarrow> keeps m) \<Longrightarrow> (\<And>x. o1 = Some x \<Longrightarrow> keeps (f x)) \<Longrightarrow> keeps (case o1 of None \<Rightarrow> m | Some x \<Rightarrow> f x)"
  "(i = 0 \<Longrightarrow> keeps m) \<Longrightarrow> (\<And>k. i = Suc k \<Longrightarrow> keeps (h k)) \<Longrightarrow> keeps (case i of 0 \<Rightarrow> m | Suc k \<Rightarrow> h k)"
  by (auto simp: iff_def split: option.splits nat.splits)

lemma keeps_steps_map [keep_intros]: "(\<And>i. i \<in> set is \<Longrightarrow> keeps (f i)) \<Longrightarrow> keeps (steps (map f is))"
  by (induction "is") (auto intro: keeps_bind)

lemma keeps_prims [keep_intros]:
  "keeps (set_heap h x)" "keeps (set_type t y)" "keeps (set_mod m z)" "keeps (poolfree h)" "keeps (free p)"
  "keeps (free_type t)" "keeps (free_mod m)" "keeps (getp a)"
  "keeps (upd (\<lambda>st. st\<lparr>v_modules := l\<rparr>))"
  by (auto simp: keeps_def hcore_def vm_defs poolfree_def free_def free_type_def free_mod_def split: if_splits)

lemma keeps_gclock:
  assumes "keeps m" "keeps n"
  shows "keeps (steps [gclock, m, gcunlock, n])"
  unfolding keeps_def
proof (intro allI impI)
  fix st a st' assume "steps [gclock, m, gcunlock, n] st = Ok a st'"
  then obtain b st1 c where 1: "m (st\<lparr>v_gchalt := Suc (v_gchalt st)\<rparr>) = Ok b st1"
      "n (st1\<lparr>v_gchalt := v_gchalt st1 - 1\<rparr>) = Ok c st'"
    by (auto simp: gclock_def gcunlock_def vm_defs split: outcome.splits)
  show "hcore st' = hcore st"
    using keepsD [OF assms(1) 1(1)] keepsD [OF assms(2) 1(2)] by (simp add: hcore_def)
qed

section \<open>The free functions keep the core\<close>

lemma keeps_freetype [keep_intros]: "keeps (freetype t)"
  unfolding freetype_def by (intro keep_intros)

lemma keeps_dec_type [keep_intros]: "keeps (dec_type t)"
  unfolding dec_type_def by (intro keep_intros)

lemma keeps_freemap [keep_intros]: "(\<And>v. keeps (D v)) \<Longrightarrow> keeps (freemap D w p)"
  by (induction D w p rule: freemap.induct) (auto simp: freebit_def intro!: keep_intros)

lemma keeps_freeptrs [keep_intros]: "(\<And>v. keeps (D v)) \<Longrightarrow> keeps (freeptrs D v t)"
  unfolding freeptrs_def by (intro keep_intros)

lemma keeps_freeelems [keep_intros]: "(\<And>v. keeps (D v)) \<Longrightarrow> keeps (freeelems D n sz v t)"
  by (induction D n sz v t rule: freeelems.induct) (auto intro!: keep_intros)

lemma keeps_freearray [keep_intros]: "(\<And>v. keeps (D v)) \<Longrightarrow> keeps (freearray D h)"
  unfolding freearray_def by (intro keep_intros)

lemma keeps_loop [keep_intros]:
  assumes "\<And>s. keeps (body s)"
  shows "keeps (loop body s)"
  unfolding keeps_def
proof (intro allI impI)
  fix st a st' assume l: "loop body s st = Ok a st'"
  show "hcore st' = hcore st"
    by (rule loop_invariant [OF l, of "\<lambda>s st'. hcore st' = hcore st"]) (auto dest: keepsD [OF assms])
qed

lemma keeps_loop_ends [keep_intros]: "keeps (again s)" "keeps (leave b)"
  by (simp_all add: loop_defs)

lemma keeps_freetail [keep_intros]: "(\<And>v. keeps (D v)) \<Longrightarrow> keeps (freetail D t l)"
  unfolding freetail_def by (intro keep_intros)

lemma keeps_freelist [keep_intros]: "(\<And>v. keeps (D v)) \<Longrightarrow> keeps (freelist D h)"
  unfolding freelist_def Let_def by (intro keep_intros)

lemma keeps_freetypes [keep_intros]: "keeps (freetypes ts)"
  by (induction ts) (auto intro!: keep_intros)

lemma keeps_unlinkmod [keep_intros]: "keeps (unlinkmod m)"
  unfolding unlinkmod_def case_prod_beta by (intro keep_intros)

lemma keeps_unload_n [keep_intros]: "(\<And>v. keeps (D v)) \<Longrightarrow> keeps (unload_n D n m)"
proof (induction D n m rule: unload_n.induct)
  case (1 D n m)
  then show ?case unfolding unload_n.simps [of D n m] destroylinks_def by (intro keep_intros; blast)
qed

lemma keeps_call_free [keep_intros]: "(\<And>v. keeps (D v)) \<Longrightarrow> keeps (call_free D f h)"
  by (cases f) (auto simp: call_free_def freestring_def freemodlink_def freechan_def freeheap_def intro!: keep_intros)

lemma keeps_destroy_n [keep_intros]: "keeps (destroy_n n v)"
proof (induction n arbitrary: v)
  case 0
  show ?case unfolding destroy_n.simps [of 0 v] by (rule keeps_gclock keep_intros | simp)+
next
  case (Suc n)
  show ?case unfolding destroy_n.simps [of "Suc n" v] by (rule keeps_gclock keep_intros | use Suc in auto)+
qed

lemma keeps_destroy [keep_intros]: "keeps (destroy v)"
  unfolding destroy_def by (intro keep_intros)

lemma keeps_unload [keep_intros]: "keeps (unload m)"
  unfolding unload_def by (intro keep_intros)


section \<open>The depth of destroy\<close>

definition same :: "nat \<Rightarrow> 'a M \<Rightarrow> 'a M \<Rightarrow> bool" where
  "same k m1 m2 \<longleftrightarrow> (\<forall>st. v_gchalt st = k \<longrightarrow> m1 st = m2 st)"

named_theorems same_intros \<open>agreement at a level of \<open>gchalt\<close>\<close>

lemma same_refl [simp]: "same k m m"
  by (simp add: same_def)

lemma same_bind [same_intros]:
  assumes "same k m1 m2" "keeps m1" "\<And>a. same k (f1 a) (f2 a)"
  shows "same k (bindM m1 f1) (bindM m2 f2)"
  unfolding same_def
proof (intro allI impI)
  fix st :: vm assume k: "v_gchalt st = k"
  then have m: "m2 st = m1 st" using assms(1) by (simp add: same_def)
  show "bindM m1 f1 st = bindM m2 f2 st"
  proof (cases "m1 st")
    case (Ok a st')
    then have "v_gchalt st' = k" using keepsD [OF assms(2)] k by (auto simp: hcore_def)
    then show ?thesis using Ok m assms(3) by (simp add: bindM_def same_def)
  qed (simp_all add: bindM_def m)
qed

lemma same_steps [same_intros]:
  "same k m1 m2 \<Longrightarrow> keeps m1 \<Longrightarrow> same k (steps ms) (steps ns) \<Longrightarrow> same k (steps (m1 # ms)) (steps (m2 # ns))"
  by (auto intro: same_bind)

lemma same_cases [same_intros]:
  "(b \<Longrightarrow> same k u1 u2) \<Longrightarrow> same k (iff b u1) (iff b u2)"
  "(b \<Longrightarrow> same k m1 m2) \<Longrightarrow> (\<not> b \<Longrightarrow> same k n1 n2) \<Longrightarrow> same k (if b then m1 else n1) (if b then m2 else n2)"
  "(i = 0 \<Longrightarrow> same k m1 m2) \<Longrightarrow> (\<And>j. i = Suc j \<Longrightarrow> same k (h1 j) (h2 j)) \<Longrightarrow>
     same k (case i of 0 \<Rightarrow> m1 | Suc j \<Rightarrow> h1 j) (case i of 0 \<Rightarrow> m2 | Suc j \<Rightarrow> h2 j)"
  by (auto simp: iff_def split: nat.splits)

lemma same_steps_map [same_intros]:
  "(\<And>i. same k (f i) (g i)) \<Longrightarrow> (\<And>i. keeps (f i)) \<Longrightarrow> same k (steps (map f is)) (steps (map g is))"
  by (induction "is") (auto intro: same_bind)

text \<open>Two versions of \<open>destroy\<close> that agree one level below.\<close>

definition agree :: "nat \<Rightarrow> (addr \<Rightarrow> unit M) \<Rightarrow> (addr \<Rightarrow> unit M) \<Rightarrow> bool" where
  "agree k D1 D2 \<longleftrightarrow> (\<forall>v. keeps (D1 v) \<and> keeps (D2 v) \<and> same k (D1 v) (D2 v))"

lemma agreeD:
  assumes "agree k D1 D2"
  shows "keeps (D1 v)" "keeps (D2 v)" "same k (D1 v) (D2 v)"
  using assms by (auto simp: agree_def)

lemma same_freemap: "agree k D1 D2 \<Longrightarrow> same k (freemap D1 w p) (freemap D2 w p)"
proof (induction p arbitrary: w)
  case (Cons c p)
  then show ?case unfolding freemap.simps freebit_def
    by (intro same_intros keep_intros same_refl) (auto dest: agreeD intro!: keep_intros)
qed simp

lemma same_freeptrs: "agree k D1 D2 \<Longrightarrow> same k (freeptrs D1 v t) (freeptrs D2 v t)"
  unfolding freeptrs_def by (intro same_intros keep_intros same_refl same_freemap)

lemma same_freeelems: "agree k D1 D2 \<Longrightarrow> same k (freeelems D1 n sz v t) (freeelems D2 n sz v t)"
  by (induction n arbitrary: v) (auto intro!: same_intros keep_intros same_freeptrs dest: agreeD)

lemma same_freearray: "agree k D1 D2 \<Longrightarrow> same k (freearray D1 h) (freearray D2 h)"
  unfolding freearray_def
  by (intro same_intros keep_intros same_refl same_freeelems) (auto dest: agreeD)

lemma same_loop [same_intros]:
  assumes "\<And>s. same k (body1 s) (body2 s)" "\<And>s. keeps (body1 s)"
  shows "same k (loop body1 s) (loop body2 s)"
  unfolding same_def
proof (intro allI impI)
  fix st :: vm assume k: "v_gchalt st = k"
  show "loop body1 s st = loop body2 s st"
  proof (rule loop_cong [of "\<lambda>st. v_gchalt st = k"])
    fix s st s' st' assume "v_gchalt st = k" "body1 s st = Ok s' st'"
    then show "v_gchalt st' = k" using keepsD [OF assms(2)] by (fastforce simp: hcore_def)
  qed (use k assms(1) in \<open>simp_all add: same_def\<close>)
qed

lemma same_freetail: "agree k D1 D2 \<Longrightarrow> same k (freetail D1 t l) (freetail D2 t l)"
  unfolding freetail_def by (intro same_intros keep_intros same_refl same_freeptrs) (auto dest: agreeD intro: keep_intros)

lemma same_freelist: "agree k D1 D2 \<Longrightarrow> same k (freelist D1 h) (freelist D2 h)"
  unfolding freelist_def Let_def
  by (intro same_intros keep_intros same_refl same_freeptrs same_freetail) (auto dest: agreeD)

lemma same_unload_n: "agree k D1 D2 \<Longrightarrow> same k (unload_n D1 n m) (unload_n D2 n m)"
proof (induction n arbitrary: m)
  case 0
  then show ?case unfolding unload_n.simps [of _ 0 m] destroylinks_def
    by (intro same_intros keep_intros same_refl) (auto dest: agreeD)
next
  case (Suc n)
  then show ?case unfolding unload_n.simps [of _ "Suc n" m] destroylinks_def
    by (intro same_intros keep_intros same_refl) (auto dest: agreeD)
qed

lemma same_call_free: "agree k D1 D2 \<Longrightarrow> same k (call_free D1 f h) (call_free D2 f h)"
  by (cases f) (auto simp: call_free_def freemodlink_def freeheap_def
      intro!: same_bind keep_intros same_freearray same_freelist same_unload_n same_freeptrs)


lemma same_level [same_intros]: "same k (f k) (g k) \<Longrightarrow> same k (bindM (gets v_gchalt) f) (bindM (gets v_gchalt) g)"
  by (simp add: same_def bindM_def gets_def)

lemma same_gclock:
  assumes "same (Suc k) m1 m2" "keeps m1"
  shows "same k (steps [gclock, m1, gcunlock, n]) (steps [gclock, m2, gcunlock, n])"
  using assms(1) by (auto simp: same_def gclock_def bindM_def upd_def)

lemma destroy_enough: "257 - g \<le> n \<Longrightarrow> same g (destroy_n n v) (destroy_n (257 - g) v)"
proof (induction n arbitrary: g v)
  case 0
  then show ?case by simp
next
  case (Suc n)
  show ?case
  proof (cases "256 < g")
    case True
    then show ?thesis unfolding destroy_n.simps [of _ v]
      by (simp add: same_def bindM_def deref_def set_heap_def upd_def gets_def split: option.split)
  next
    case False
    then have k: "257 - g = Suc (256 - g)" "257 - Suc g = 256 - g" by simp_all
    have "agree (Suc g) (destroy_n n) (destroy_n (256 - g))"
      using Suc.IH [of "Suc g"] Suc.prems False unfolding agree_def k by (auto intro: keep_intros)
    then have c: "same (Suc g) (call_free (destroy_n n) f h) (call_free (destroy_n (256 - g)) f h)" for f h
      by (rule same_call_free)
    show ?thesis unfolding k destroy_n.simps [of _ v] nat.case
      by (rule same_refl same_level same_gclock [OF c] same_cases same_steps same_bind keeps_gclock keep_intros)+
  qed
qed

text \<open>C29: the recursion of \<open>destroy\<close> through the \<open>free\<close> functions is bounded by \<open>gchalt\<close>: a larger bound on
  the depth changes nothing, so the bound $257 - $\<open>gchalt\<close> loses no behaviour of the code and is
  never what makes it stop.\<close>

theorem destroy_depth:
  assumes "257 \<le> n + v_gchalt st"
  shows "destroy_n n v st = destroy v st"
  using destroy_enough [of "v_gchalt st" n v] assms by (simp add: same_def destroy_def bindM_def gets_def)

text \<open>A machine with a value at 1012 that only one reference holds, of the type \<open>Tchannel\<close>.\<close>

definition ex_heap :: vm where
  "ex_heap = zero_vm\<lparr>v_heaps := [1000 \<mapsto> \<lparr>h_color = 0, h_ref = 1, h_t = Tchannel\<rparr>],
     v_chans := [1012 \<mapsto> \<lparr>c_send = nil, c_sendalt = nil, c_recv = nil, c_recvalt = nil, c_mover = Movw, c_mid = 0\<rparr>],
     v_types := static_types(Tchannel := Some ((the (static_types Tchannel))\<lparr>t_ref := 2\<rparr>)),
     v_blks := [1000 \<mapsto> 40], v_nalloc := 1, v_gchalt := 5\<rparr>"

lemma ex_heap_destroy: "\<exists>st. destroy 1012 ex_heap = Ok () st \<and> v_blks st = Map.empty \<and> v_heaps st 1000 = None"
  by (simp add: destroy_def destroy_n.simps [of _ 1012] H_def D2H_def H2D_def sizeof_Heap_def ex_heap_def
      zero_vm_def static_types_def type_of_def Tchannel_def Tstring_def Tarray_def Tlist_def Tmodlink_def Tptr_def
      Tbyte_def nil_def vm_defs gclock_def gcunlock_def call_free_def freechan_def freetype_def poolfree_def)

theorem destroy_depth_witness: "destroy_n 300 1012 ex_heap = destroy 1012 ex_heap"
  by (rule destroy_depth) (simp add: ex_heap_def)

end
