(* ===== verification/Control.thy ===== *)
theory Control
  imports Xec Strval Heapk
begin

text \<open>
  Properties of the instructions that transfer control: the case tables, and frames, calls and
  returns.
\<close>

section \<open>The binary search of icase\<close>

text \<open>The entries of a table at \<open>t\<close>.\<close>

definition case_lo :: "(addr \<Rightarrow> byte) \<Rightarrow> addr \<Rightarrow> nat \<Rightarrow> int" where
  "case_lo m t i = sint (ld32 m (t + 12 * i))"

definition case_hi :: "(addr \<Rightarrow> byte) \<Rightarrow> addr \<Rightarrow> nat \<Rightarrow> int" where
  "case_hi m t i = sint (ld32 m (t + 12 * i + 4))"

definition case_pc :: "(addr \<Rightarrow> byte) \<Rightarrow> addr \<Rightarrow> nat \<Rightarrow> u32" where
  "case_pc m t i = ld32 m (t + 12 * i + 8)"

text \<open>The compiler sorts the ranges; they are half open and do not overlap.\<close>

definition case_sorted :: "(addr \<Rightarrow> byte) \<Rightarrow> addr \<Rightarrow> nat \<Rightarrow> bool" where
  "case_sorted m t n \<longleftrightarrow> (\<forall>i < n. case_lo m t i \<le> case_hi m t i) \<and>
     (\<forall>j < n. \<forall>i < j. case_hi m t i \<le> case_lo m t j)"

text \<open>The reference: the first range that contains the value.\<close>

definition case_find :: "(addr \<Rightarrow> byte) \<Rightarrow> addr \<Rightarrow> int \<Rightarrow> nat list \<Rightarrow> u32 \<Rightarrow> u32" where
  "case_find m t v is d =
    (case find (\<lambda>i. case_lo m t i \<le> v \<and> v < case_hi m t i) is of Some i \<Rightarrow> case_pc m t i | None \<Rightarrow> d)"

lemma find_none_append:
  "(\<forall>x \<in> set xs. \<not> P x) \<Longrightarrow> find P (xs @ ys) = find P ys"
  "(\<forall>y \<in> set ys. \<not> P y) \<Longrightarrow> find P (xs @ ys) = find P xs"
  by (induction xs) (auto simp: find_None_iff)

lemma icase_search:
  assumes "case_sorted m t n" "a + k \<le> n"
  shows "icase_loop m v (t + 12 * a) (int k) d = case_find m t v [a ..< a + k] d"
  using assms(2)
proof (induction k arbitrary: a rule: less_induct)
  case (less k)
  note s = assms(1) [unfolded case_sorted_def]
  show ?case
  proof (cases "k = 0")
    case True
    then show ?thesis by (subst icase_loop.simps) (simp add: case_find_def)
  next
    case False
    let ?h = "k div 2" and ?P = "\<lambda>i. case_lo m t i \<le> v \<and> v < case_hi m t i"
    let ?c = "a + ?h"
    have h: "?h < k" "?c < n" using False less.prems by auto
    have n2: "int k div 2 = int ?h" "nat (int ?h) = ?h" by simp_all
    have split: "[a ..< a + k] = [a ..< ?c] @ [?c ..< a + k]" "[?c ..< a + k] = ?c # [Suc ?c ..< a + k]"
      using h upt_add_eq_append [of a ?c "k - ?h"] by (simp_all add: upt_rec)
    have unf: "icase_loop m v (t + 12 * a) (int k) d =
       (if v < case_lo m t ?c then icase_loop m v (t + 12 * a) (int ?h) d
        else if v \<ge> case_hi m t ?c then icase_loop m v (t + 12 * (Suc ?c)) (int (k - (?h + 1))) d
        else case_pc m t ?c)"
      using False h by (subst icase_loop.simps)
        (simp add: Let_def n2 case_lo_def case_hi_def case_pc_def algebra_simps of_nat_diff)
    show ?thesis
    proof (cases "v < case_lo m t ?c")
      case True
      have "\<not> ?P i" if "i \<in> set [?c ..< a + k]" for i
      proof (cases "i = ?c")
        case False
        then have "case_hi m t ?c \<le> case_lo m t i" "case_lo m t ?c \<le> case_hi m t ?c"
          using s that h less.prems by auto
        then show ?thesis using True by linarith
      qed (use True in simp)
      then have "find ?P [a ..< a + k] = find ?P [a ..< a + ?h]"
        using find_none_append(2) [of "[?c ..< a + k]" ?P "[a ..< ?c]"] unfolding split(1) [symmetric] by blast
      then show ?thesis using less.IH [OF h(1), of a] less.prems h True unfolding unf
        by (simp add: case_find_def)
    next
      case notlow: False
      show ?thesis
      proof (cases "v \<ge> case_hi m t ?c")
        case True
        have "\<not> ?P i" if "i \<in> set ([a ..< ?c] @ [?c])" for i
        proof (cases "i = ?c")
          case False
          then have "case_hi m t i \<le> case_lo m t ?c" "case_lo m t ?c \<le> case_hi m t ?c"
            using s that h less.prems by auto
          then show ?thesis using True by linarith
        qed (use True in simp)
        then have "find ?P (([a ..< ?c] @ [?c]) @ [Suc ?c ..< a + k]) = find ?P [Suc ?c ..< a + k]"
          using find_none_append(1) [of "[a ..< ?c] @ [?c]" ?P "[Suc ?c ..< a + k]"] by blast
        moreover have "[a ..< a + k] = ([a ..< ?c] @ [?c]) @ [Suc ?c ..< a + k]" using split by simp
        moreover have "Suc ?c + (k - (?h + 1)) = a + k" using h by simp
        ultimately show ?thesis using less.IH [of "k - (?h + 1)" "Suc ?c"] less.prems h True notlow
          unfolding unf by (simp add: case_find_def)
      next
        case False
        have "\<not> ?P i" if "i \<in> set [a ..< ?c]" for i
        proof -
          have "case_hi m t i \<le> case_lo m t ?c" using s that h by auto
          then show ?thesis using notlow by linarith
        qed
        then have "find ?P [a ..< a + k] = find ?P [?c ..< a + k]"
          using find_none_append(1) [of "[a ..< ?c]" ?P "[?c ..< a + k]"] unfolding split(1) [symmetric] by blast
        also have "\<dots> = Some ?c" unfolding split(2) using False notlow by simp
        finally show ?thesis using False notlow unfolding unf by (simp add: case_find_def)
      qed
    qed
  qed
qed


text \<open>C18: on a table of sorted ranges that do not overlap, \<open>icase\<close> goes where a search from the front would:
  to the label of the first range that contains the value, or to the default label.\<close>

theorem icase_first_range:
  assumes "r_d (v_R st) = Mem a" "sint (ld32 (v_mem st) a) = int n" "case_sorted (v_mem st) (a + 4) n"
  shows "icase st = goto_pc (case_find (v_mem st) (a + 4) (sint (loc32 (r_s (v_R st)) st)) [0 ..< n]
    (ld32 (v_mem st) (a + 4 + 12 * n))) st"
proof -
  have "nat (int (a + 4) + int n * 12) = a + 4 + 12 * n" by simp
  then show ?thesis
    using icase_search [OF assms(3), of 0 n] assms(1,2)
    by (simp add: icase_def vm_defs IBY2WD_def)
qed

text \<open>A table at 8000 for the ranges from 0 to 9 and from 20 to 29.\<close>

definition ex_case :: vm where
  "ex_case = zero_vm\<lparr>v_mem := store_bytes 8000
       [2, 0, 0, 0,  0, 0, 0, 0,  10, 0, 0, 0,  7, 0, 0, 0,  20, 0, 0, 0,  30, 0, 0, 0,  8, 0, 0, 0,  9, 0, 0, 0] (\<lambda>_. 0),
     v_R := zero_R\<lparr>r_s := Tmp 25, r_d := Mem 8000\<rparr>\<rparr>"

lemma ex_case_table:
  "ld32 (v_mem ex_case) 8000 = 2" "case_lo (v_mem ex_case) 8004 0 = 0" "case_hi (v_mem ex_case) 8004 0 = 10"
  "case_lo (v_mem ex_case) 8004 (Suc 0) = 20" "case_hi (v_mem ex_case) 8004 (Suc 0) = 30"
  "case_pc (v_mem ex_case) 8004 (Suc 0) = 8"
  by (simp_all add: ex_case_def case_lo_def case_hi_def case_pc_def store_bytes_def ld32_def ld16_def word_cat_eq)

theorem icase_first_range_witness: "icase ex_case = goto_pc 8 ex_case"
proof -
  have s: "case_sorted (v_mem ex_case) (8000 + 4) 2"
    by (auto simp: case_sorted_def ex_case_table less_Suc_eq numeral_2_eq_2)
  have v: "loc32 (r_s (v_R ex_case)) ex_case = 25" "r_d (v_R ex_case) = Mem 8000"
    by (simp_all add: loc32_def ex_case_def)
  have "[0 ..< 2] = [0, Suc 0]" by (simp add: upt_rec)
  then show ?thesis
    using icase_first_range [OF v(2) _ s] by (simp add: v(1) case_find_def ex_case_table)
qed

section \<open>The search of casec\<close>

text \<open>The pointers of an entry, and whether it matches a string.\<close>

definition casec_lo :: "vm \<Rightarrow> addr \<Rightarrow> addr" where "casec_lo st e = unat (ld32 (v_mem st) e)"
definition casec_hi :: "vm \<Rightarrow> addr \<Rightarrow> addr" where "casec_hi st e = unat (ld32 (v_mem st) (e + 4))"

definition casec_match :: "vm \<Rightarrow> addr \<Rightarrow> addr \<Rightarrow> bool" where
  "casec_match st e s \<longleftrightarrow>
    (if casec_hi st e = H then str_val st (casec_lo st e) = str_val st s
     else ord_class.lexordp_eq (str_val st (casec_lo st e)) (str_val st s) \<and>
       ord_class.lexordp_eq (str_val st s) (str_val st (casec_hi st e)))"

definition casec_ok :: "vm \<Rightarrow> addr \<Rightarrow> bool" where
  "casec_ok st s \<longleftrightarrow> str_val_ok st s \<and> plain st s"

lemma lex_cmp_le:
  "lex_cmp xs ys \<le> 0 \<longleftrightarrow> ord_class.lexordp_eq xs ys"
  "0 \<le> lex_cmp xs ys \<longleftrightarrow> ord_class.lexordp_eq ys xs"
  by (induction xs ys rule: lex_cmp.induct) auto

lemma find_map: "find P (map f xs) = map_option f (find (\<lambda>x. P (f x)) xs)"
  by (induction xs) auto

lemma casec_search:
  assumes "casec_ok st s" "\<And>i. i < n \<Longrightarrow> casec_ok st (casec_lo st (t + 12 * i)) \<and>
      (casec_hi st (t + 12 * i) \<noteq> H \<longrightarrow> casec_ok st (casec_hi st (t + 12 * i)))"
  shows "casec_loop n t s st = Ok (case find (\<lambda>i. casec_match st (t + 12 * i) s) [0 ..< n] of
     Some i \<Rightarrow> t + 12 * i + 8 | None \<Rightarrow> t + 12 * n) st"
  using assms(2)
proof (induction n arbitrary: t)
  case 0
  then show ?case by (simp add: ret_def)
next
  case (Suc n)
  note ok0 = Suc.prems [of 0]
  have cmp: "stringcmp (casec_lo st t) s st = Ok (lex_cmp (str_val st (casec_lo st t)) (str_val st s)) st"
    "casec_hi st t \<noteq> H \<Longrightarrow> stringcmp (casec_hi st t) s st = Ok (lex_cmp (str_val st (casec_hi st t)) (str_val st s)) st"
    using ok0 assms(1) by (auto simp: casec_ok_def intro!: stringcmp_lex)
  have g: "getp t st = Ok (casec_lo st t) st" "getp (t + 4) st = Ok (casec_hi st t) st"
    by (simp_all add: getp_def gets_def casec_lo_def casec_hi_def)
  have unf: "casec_loop (Suc n) t s st =
      (if casec_match st t s then Ok (t + 8) st else casec_loop n (t + 12) s st)"
    using cmp by (simp add: bindM_def g ret_def casec_match_def lex_cmp_le lex_cmp_order(2))
  have h: "casec_ok st (casec_lo st (t + 12 + 12 * i)) \<and>
      (casec_hi st (t + 12 + 12 * i) \<noteq> H \<longrightarrow> casec_ok st (casec_hi st (t + 12 + 12 * i)))" if "i < n" for i
    using Suc.prems [of "Suc i"] that by (simp add: algebra_simps)
  have ih: "casec_loop n (t + 12) s st = Ok (case find (\<lambda>i. casec_match st (t + 12 + 12 * i) s) [0 ..< n] of
      Some i \<Rightarrow> t + 12 + 12 * i + 8 | None \<Rightarrow> t + 12 + 12 * n) st"
    by (rule Suc.IH) (rule h)
  have "find (\<lambda>i. casec_match st (t + 12 * i) s) (map Suc [0 ..< n]) =
      map_option Suc (find (\<lambda>i. casec_match st (t + 12 + 12 * i) s) [0 ..< n])"
    unfolding find_map by (simp add: algebra_simps)
  then show ?case unfolding unf ih
    by (auto simp: upt_conv_Cons map_Suc_upt [symmetric] simp del: upt_Suc split: option.splits)
qed


text \<open>C32: When the string and the bounds of the table hold, as far as they are in ASCII, characters from 1 to 127 only,
  \<open>casec\<close> goes to the label of the first entry of its table that matches the string (equal to the
  only bound, or between the two bounds in the lexicographic order), and to the default label when
  there is none.\<close>

theorem casec_first_match:
  assumes "r_d (v_R st) = Mem a" "sint (ld32 (v_mem st) a) = int n" "casec_ok st s"
    "unat (loc32 (r_s (v_R st)) st) = s"
    "\<forall>i < n. casec_ok st (casec_lo st (a + 4 + 12 * i)) \<and>
      (casec_hi st (a + 4 + 12 * i) \<noteq> H \<longrightarrow> casec_ok st (casec_hi st (a + 4 + 12 * i)))"
  shows "casec st = goto_pc (ld32 (v_mem st)
    (case find (\<lambda>i. casec_match st (a + 4 + 12 * i) s) [0 ..< n] of
       Some i \<Rightarrow> a + 4 + 12 * i + 8 | None \<Rightarrow> a + 4 + 12 * n)) st"
proof -
  have "casec_loop n (a + 4) s st = Ok (case find (\<lambda>i. casec_match st (a + 4 + 12 * i) s) [0 ..< n] of
      Some i \<Rightarrow> a + 4 + 12 * i + 8 | None \<Rightarrow> a + 4 + 12 * n) st"
    by (rule casec_search) (use assms(3,5) in auto)
  then show ?thesis using assms(1,2,4)
    by (simp add: casec_def bindM_def getP_def gets_def getA_def ret_def IBY2WD_def)
qed

text \<open>A table at 8000 with one entry, the string at 1012.\<close>

definition ex_casec :: vm where
  "ex_casec = ex_str\<lparr>v_mem := st32 (st32 (st32 (st32 (st32 (v_mem ex_str) 8000 1) 8004 1012) 8008 (of_nat H)) 8012 5) 8016 9,
     v_R := zero_R\<lparr>r_s := Tmp 1012, r_d := Mem 8000\<rparr>\<rparr>"

lemma ex_casec_str: "casec_ok ex_casec 1012"
proof -
  have "chars ex_casec 1012 = chars ex_str 1012"
    by (rule chars_frame) (auto simp: ex_casec_def ex_str_def area_def Sascii_def str_data_def str_bytes_def mem_simps)
  then show ?thesis using ex_str_ok(3) ex_str_vals(1)
    by (simp add: casec_ok_def str_val_ok_def str_ok_def plain_def str_val_def H_def ex_casec_def)
qed

lemma ex_casec_table:
  "ld32 (v_mem ex_casec) 8000 = 1" "casec_lo ex_casec 8004 = 1012" "casec_hi ex_casec 8004 = H"
  "ld32 (v_mem ex_casec) 8012 = 5"
  by (simp_all add: ex_casec_def casec_lo_def casec_hi_def mem_simps H_def)

theorem casec_first_match_witness: "casec ex_casec = goto_pc 5 ex_casec"
proof -
  have r: "r_d (v_R ex_casec) = Mem 8000" "unat (loc32 (r_s (v_R ex_casec)) ex_casec) = 1012"
    by (simp_all add: ex_casec_def loc32_def)
  have t: "\<forall>i < 1. casec_ok ex_casec (casec_lo ex_casec (8000 + 4 + 12 * i)) \<and>
      (casec_hi ex_casec (8000 + 4 + 12 * i) \<noteq> H \<longrightarrow> casec_ok ex_casec (casec_hi ex_casec (8000 + 4 + 12 * i)))"
    by (simp add: ex_casec_table ex_casec_str)
  have "casec_match ex_casec 8004 1012" by (simp add: casec_match_def ex_casec_table)
  then show ?thesis
    using casec_first_match [OF r(1) _ ex_casec_str r(2) t] by (simp add: ex_casec_table)
qed

section \<open>Calls and returns\<close>



lemma ld32_same: "(\<And>i. i < 4 \<Longrightarrow> m (a + i) = m' (a + i)) \<Longrightarrow> ld32 m a = ld32 m' a"
  by (rule ld_cong)

lemma unat_of_addr: "a < 2 ^ 32 \<Longrightarrow> unat (of_nat a :: u32) = a"
  by (simp add: unat_of_nat)



section \<open>Stack extents\<close>

lemma initmap_below: "x < w \<Longrightarrow> initmap w p m x = m x"
proof (induction w p m rule: initmap.induct)
  case (2 w c p m)
  have i: "initbit w c i m' x = m' x" for i m' using 2(2) by (simp add: initbit_def st_outside)
  show ?case using 2 by (simp add: i)
qed simp

lemma ld32_initmap: "a + 4 \<le> w \<Longrightarrow> ld32 (initmap w p m) a = ld32 m a"
  by (rule ld32_same) (simp add: initmap_below)

lemma extend_state:
  assumes "Stackc.extend t st = Ok f st1"
  shows "\<exists>ns. f = ns + 16 \<and> ns \<noteq> nil \<and> ld32 (v_mem st1) (ns + 4) = of_nat (r_SP (v_R st)) \<and>
    ld32 (v_mem st1) (ns + 8) = of_nat (r_TS (v_R st)) \<and> ld32 (v_mem st1) (ns + 12) = of_nat (r_EX (v_R st)) \<and>
    r_EX (v_R st1) = ns"
  using assms unfolding Stackc.extend_def Let_def
  by (auto simp: bind_eq_Ok gets_def deref_def poolalloc_def error_def type_size_def ret_def setp_def setm_def upd_def
      upd_R_def initmem_def skip_def x_TR_def x_SP_def x_TS_def x_EX_def x_fu_def f_t_def f_mr_def
      ld32_initmap mem_simps split: option.splits if_splits)


text \<open>C33: \<open>unextend\<close> undoes \<open>extend\<close>. A frame that did not fit in its extent was put in a new one; when that
  frame returns, and the header of the extent still is as \<open>extend\<close> left it, stack pointer, stack limit
  and current extent are those of the caller again, memory is unchanged and the extent is freed.\<close>

theorem extend_unextend:
  assumes "Stackc.extend t st = Ok f st1" "r_SP (v_R st) < 2 ^ 32" "r_TS (v_R st) < 2 ^ 32" "r_EX (v_R st) < 2 ^ 32"
    and "\<forall>a \<in> area (f - 16) 16. v_mem st2 a = v_mem st1 a"
    and "unextend f st2 = Ok () st3"
  shows "r_SP (v_R st3) = r_SP (v_R st) \<and> r_TS (v_R st3) = r_TS (v_R st) \<and> r_EX (v_R st3) = r_EX (v_R st) \<and>
    v_mem st3 = v_mem st2 \<and> v_blks st3 (f - 16) = None"
proof -
  obtain ns where ns: "f = ns + 16" "ns \<noteq> nil" "ld32 (v_mem st1) (ns + 4) = of_nat (r_SP (v_R st))"
      "ld32 (v_mem st1) (ns + 8) = of_nat (r_TS (v_R st))" "ld32 (v_mem st1) (ns + 12) = of_nat (r_EX (v_R st))"
    using extend_state [OF assms(1)] by blast
  have "ld32 (v_mem st2) (ns + k) = ld32 (v_mem st1) (ns + k)" if "k \<le> 12" for k
    by (rule ld32_same) (use assms(5) ns(1) that in \<open>auto simp: area_def\<close>)
  then have w: "unat (ld32 (v_mem st2) (ns + 4)) = r_SP (v_R st)" "unat (ld32 (v_mem st2) (ns + 8)) = r_TS (v_R st)"
      "unat (ld32 (v_mem st2) (ns + 12)) = r_EX (v_R st)"
    using ns assms(2-4) by (simp_all add: unat_of_addr)
  let ?st = "st2\<lparr>v_R := (v_R st2)\<lparr>r_SP := r_SP (v_R st), r_TS := r_TS (v_R st), r_EX := r_EX (v_R st)\<rparr>\<rparr>"
  let ?t = "unat (ld32 (v_mem st2) ns)"
  obtain st4 where f: "freeptrs destroy f ?t ?st = Ok () st4" "free ns st4 = Ok () st3"
    using assms(6) w ns(1)
    by (auto simp: unextend_def SEXTYPE_def x_SP_def x_TS_def x_EX_def x_TR_def Let_def bind_eq_Ok getp_def gets_def
        upd_R_def upd_def skip_def)
  have "keeps (freeptrs destroy f ?t)" "keeps (free ns)" by (intro keep_intros)+
  then have "hcore st3 = hcore ?st" using f by (metis keepsD)
  moreover have "v_blks st3 ns = None" using f(2) ns(2) by (auto simp: free_def upd_def)
  ultimately show ?thesis by (simp add: hcore_def ns(1))
qed

text \<open>A machine whose stack is full up to 5200, with a frame at 7000 and a type at 400 for frames of 24
  bytes.\<close>

definition ex_stk :: vm where
  "ex_stk = zero_vm\<lparr>v_mem := st32 (\<lambda>_. 0) 7012 400,
     v_R := zero_R\<lparr>r_M := 300, r_PC := 800, r_FP := 5050, r_SP := 5190, r_TS := 5200, r_EX := 5000,
       r_s := Tmp 7000, r_d := Tmp 900\<rparr>,
     v_mods := [300 \<mapsto> zero_mod\<lparr>m_ss := 200\<rparr>],
     v_types := static_types(400 \<mapsto> type_of Freeheap Markheap 24 0 []),
     v_alloc := (\<lambda>_ _. Some (6000, 200))\<rparr>"



lemma ex_stk_extend:
  "\<exists>st1 st2. Stackc.extend 400 ex_stk = Ok 6016 st1 \<and> unextend 6016 st1 = Ok () st2"
  by (simp add: Stackc.extend_def unextend_def ex_stk_def vm_defs SEXTYPE_def x_TR_def x_SP_def x_TS_def x_EX_def
      x_fu_def f_mr_def f_t_def mem_simps nil_def freeptrs_def type_of_def type_size_def initmem_def poolalloc_def
      free_def zero_mod_def)

theorem extend_unextend_witness:
  "\<exists>st1 st2. Stackc.extend 400 ex_stk = Ok 6016 st1 \<and> unextend 6016 st1 = Ok () st2 \<and> r_SP (v_R st2) = 5190 \<and>
     r_TS (v_R st2) = 5200 \<and> r_EX (v_R st2) = 5000"
proof -
  obtain st1 st2 where s: "Stackc.extend 400 ex_stk = Ok 6016 st1" "unextend 6016 st1 = Ok () st2"
    using ex_stk_extend by blast
  have "r_SP (v_R st2) = r_SP (v_R ex_stk) \<and> r_TS (v_R st2) = r_TS (v_R ex_stk) \<and> r_EX (v_R st2) = r_EX (v_R ex_stk) \<and>
      v_mem st2 = v_mem st1 \<and> v_blks st2 (6016 - 16) = None"
    by (rule extend_unextend [OF s(1) _ _ _ _ s(2)]) (simp_all add: ex_stk_def)
  then show ?thesis using s by (auto simp: ex_stk_def)
qed

end
