(* ===== verification/Alloc.thy ===== *)
theory Alloc
  imports Vmstate
begin

text \<open>
  The storage allocator, \<open>emu/alloc.c\<close>. A pool is a set of arenas, each tiled by blocks. The free
  blocks are in a binary search tree by size; blocks of the same size hang from their tree node in a
  circular list. A block has its header at its start (\<open>Bhdr\<close>) and, in its last word, the address of
  its header (\<open>Btail\<close>), by which \<open>poolfree\<close> finds the block before.

  The headers are in \<open>p_hdr\<close>, the tails in \<open>p_tail\<close>, what the blocks hold in \<open>p_mem\<close>. Reading a header
  where none is, or a loop that does not end, is \<open>None\<close>; so is a panic. The union in \<open>Bhdr\<close> is a
  record with the fields of all its members: links are used in free blocks, \<open>clink\<close> and \<open>csize\<close> in
  the leader of an arena.
\<close>

section \<open>Pools\<close>

datatype magic = MAGIC_A | MAGIC_F | MAGIC_E | MAGIC_I | No_magic

record Bhdr =
  b_magic :: magic
  b_size :: u32
  b_left :: addr
  b_right :: addr
  b_parent :: addr
  b_prev :: addr
  b_fwd :: addr
  b_clink :: addr
  b_csize :: int

record pool =
  p_name :: string
  p_maxsize :: u32
  p_quanta :: int
  p_chunk :: int
  p_cursize :: u32
  p_arenasize :: u32
  p_root :: addr
  p_chain :: addr
  p_nalloc :: nat
  p_nfree :: nat
  p_nbrk :: nat
  p_hdr :: "addr \<rightharpoonup> Bhdr"
  p_tail :: "addr \<rightharpoonup> addr"
  p_mem :: "addr \<Rightarrow> byte"
  p_sbrk :: "nat \<Rightarrow> int \<Rightarrow> addr option"  \<comment> \<open>the host: the answer to the n-th \<open>sbrk\<close>\<close>

definition BHDRSIZE :: int where "BHDRSIZE = 16"

text \<open>The pools the system starts with; the host answers the calls of \<open>sbrk\<close> by \<open>f\<close>.\<close>

definition table_pool :: "string \<Rightarrow> u32 \<Rightarrow> int \<Rightarrow> (nat \<Rightarrow> int \<Rightarrow> addr option) \<Rightarrow> pool" where
  "table_pool name maxsize chunk f = \<lparr>p_name = name, p_maxsize = maxsize, p_quanta = 31, p_chunk = chunk,
     p_cursize = 0, p_arenasize = 0, p_root = nil, p_chain = nil, p_nalloc = 0, p_nfree = 0, p_nbrk = 0,
     p_hdr = Map.empty, p_tail = Map.empty, p_mem = (\<lambda>_. 0), p_sbrk = f\<rparr>"

definition table :: "(nat \<Rightarrow> int \<Rightarrow> addr option) \<Rightarrow> pool list" where
  "table f = [table_pool ''main'' (4 * 1024 * 1024) (256 * 1024) f,
     table_pool ''heap'' (16 * 1024 * 1024) (256 * 1024) f,
     table_pool ''image'' (8 * 1024 * 1024) (1024 * 1024) f]"

text \<open>Pointer arithmetic is modulo $2^{32}$.\<close>

definition ptr :: "int \<Rightarrow> addr" where "ptr x = nat (x mod 2 ^ 32)"

definition B2D :: "addr \<Rightarrow> addr" where "B2D b = ptr (int b + 8)"
definition B2NB :: "addr \<Rightarrow> Bhdr \<Rightarrow> addr" where "B2NB b x = ptr (int b + uint (b_size x))"
definition B2T :: "addr \<Rightarrow> Bhdr \<Rightarrow> addr" where "B2T b x = ptr (int b + uint (b_size x) - 8)"
definition B2PT :: "addr \<Rightarrow> addr" where "B2PT b = ptr (int b - 8)"
definition B2LIMIT :: "addr \<Rightarrow> Bhdr \<Rightarrow> addr" where "B2LIMIT b x = ptr (int b + b_csize x)"

section \<open>Programs over a pool\<close>

type_synonym 'a P = "pool \<Rightarrow> ('a \<times> pool) option"

definition pret :: "'a \<Rightarrow> 'a P" where
  "pret a = (\<lambda>p. Some (a, p))"

definition pbind :: "'a P \<Rightarrow> ('a \<Rightarrow> 'b P) \<Rightarrow> 'b P" where
  "pbind m k = (\<lambda>p. case m p of None \<Rightarrow> None | Some (a, p') \<Rightarrow> k a p')"

definition pfail :: "'a P" where
  "pfail = (\<lambda>p. None)"

definition pget :: "(pool \<Rightarrow> 'a) \<Rightarrow> 'a P" where
  "pget f = (\<lambda>p. Some (f p, p))"

definition pupd :: "(pool \<Rightarrow> pool) \<Rightarrow> unit P" where
  "pupd f = (\<lambda>p. Some ((), f p))"

fun pseq :: "unit P list \<Rightarrow> unit P" where
  "pseq [] = pret ()"
| "pseq (m # ms) = pbind m (\<lambda>_. pseq ms)"

definition pwhen :: "bool \<Rightarrow> unit P \<Rightarrow> unit P" where
  "pwhen c m = (if c then m else pret ())"

text \<open>Read a header, change one, and write fields into raw memory.\<close>

definition getb :: "addr \<Rightarrow> Bhdr P" where
  "getb a = (\<lambda>p. case p_hdr p a of None \<Rightarrow> None | Some b \<Rightarrow> Some (b, p))"

definition setb :: "addr \<Rightarrow> (Bhdr \<Rightarrow> Bhdr) \<Rightarrow> unit P" where
  "setb a f = pbind (getb a) (\<lambda>b. pupd (\<lambda>p. p\<lparr>p_hdr := (p_hdr p)(a \<mapsto> f b)\<rparr>))"

definition raw_Bhdr :: Bhdr where
  "raw_Bhdr = \<lparr>b_magic = No_magic, b_size = 0, b_left = nil, b_right = nil, b_parent = nil, b_prev = nil,
     b_fwd = nil, b_clink = nil, b_csize = 0\<rparr>"

definition pokeb :: "addr \<Rightarrow> (Bhdr \<Rightarrow> Bhdr) \<Rightarrow> unit P" where
  "pokeb a f = pupd (\<lambda>p. p\<lparr>p_hdr := (p_hdr p)(a \<mapsto>
     f (case p_hdr p a of None \<Rightarrow> raw_Bhdr | Some b \<Rightarrow> b))\<rparr>)"

definition set_left :: "addr \<Rightarrow> addr \<Rightarrow> unit P" where "set_left a v = setb a (\<lambda>b. b\<lparr>b_left := v\<rparr>)"
definition set_right :: "addr \<Rightarrow> addr \<Rightarrow> unit P" where "set_right a v = setb a (\<lambda>b. b\<lparr>b_right := v\<rparr>)"
definition set_parent :: "addr \<Rightarrow> addr \<Rightarrow> unit P" where "set_parent a v = setb a (\<lambda>b. b\<lparr>b_parent := v\<rparr>)"
definition set_prev :: "addr \<Rightarrow> addr \<Rightarrow> unit P" where "set_prev a v = setb a (\<lambda>b. b\<lparr>b_prev := v\<rparr>)"
definition set_fwd :: "addr \<Rightarrow> addr \<Rightarrow> unit P" where "set_fwd a v = setb a (\<lambda>b. b\<lparr>b_fwd := v\<rparr>)"
definition set_magic :: "addr \<Rightarrow> magic \<Rightarrow> unit P" where "set_magic a v = pokeb a (\<lambda>b. b\<lparr>b_magic := v\<rparr>)"
definition set_size :: "addr \<Rightarrow> u32 \<Rightarrow> unit P" where "set_size a v = pokeb a (\<lambda>b. b\<lparr>b_size := v\<rparr>)"
definition set_root :: "addr \<Rightarrow> unit P" where "set_root v = pupd (\<lambda>p. p\<lparr>p_root := v\<rparr>)"

text \<open>\<open>B2T(b)->hdr = b\<close>.\<close>

definition set_tail :: "addr \<Rightarrow> unit P" where
  "set_tail b = pbind (getb b) (\<lambda>x. pupd (\<lambda>p. p\<lparr>p_tail := (p_tail p)(B2T b x \<mapsto> b)\<rparr>))"

text \<open>\<open>D2B\<close> panics on what is not an allocated block.\<close>

definition D2B :: "addr \<Rightarrow> addr P" where
  "D2B v = pbind (getb (ptr (int v - 8))) (\<lambda>b.
     if b_magic b \<noteq> MAGIC_A \<and> b_magic b \<noteq> MAGIC_I then pfail else pret (ptr (int v - 8)))"

definition poolimmutable :: "addr \<Rightarrow> unit P" where
  "poolimmutable v = pbind (D2B v) (\<lambda>b. set_magic b MAGIC_I)"

definition poolmutable :: "addr \<Rightarrow> unit P" where
  "poolmutable v = pbind (D2B v) (\<lambda>b. set_magic b MAGIC_A)"

definition poolchain :: "addr P" where
  "poolchain = pget p_chain"

text \<open>\<open>poolsetsize\<close> finds the pool in the table by its name.\<close>

fun poolsetsize :: "string \<Rightarrow> int \<Rightarrow> pool list \<Rightarrow> bool \<times> pool list" where
  "poolsetsize s sz [] = (False, [])"
| "poolsetsize s sz (p # ps) =
    (if p_name p = s then (True, p\<lparr>p_maxsize := word_of_int sz\<rparr> # ps)
     else let (r, qs) = poolsetsize s sz ps in (r, p # qs))"

section \<open>The free tree\<close>

text \<open>\<open>t->prev->fwd = t->fwd; t->fwd->prev = t->prev;\<close>\<close>

definition unring :: "addr \<Rightarrow> unit P" where
  "unring t = pseq [
     pbind (getb t) (\<lambda>b. set_fwd (b_prev b) (b_fwd b)),
     pbind (getb t) (\<lambda>b. set_prev (b_fwd b) (b_prev b))]"

text \<open>Make \<open>q\<close>'s child \<open>t\<close> (or the root) be \<open>v\<close>.\<close>

definition relink :: "addr \<Rightarrow> addr \<Rightarrow> addr \<Rightarrow> unit P" where
  "relink q t v =
    (if q = nil then set_root v
     else pbind (getb q) (\<lambda>b. if b_left b = t then set_left q v else set_right q v))"

text \<open>The tree node \<open>t\<close> has others of its size: the next one takes its place.\<close>

definition pooldel_ring :: "addr \<Rightarrow> unit P" where
  "pooldel_ring t = pbind (getb t) (\<lambda>b. let f = b_fwd b; s = b_parent b in pseq [
     set_parent f s,
     relink s t f,
     pbind (getb t) (\<lambda>b. let rp = b_left b in pseq [
       set_left f rp,
       pwhen (rp \<noteq> nil) (set_parent rp f)]),
     pbind (getb t) (\<lambda>b. let rp = b_right b in pseq [
       set_right f rp,
       pwhen (rp \<noteq> nil) (set_parent rp f)]),
     unring t])"

partial_function (option) leftmost :: "(addr \<rightharpoonup> Bhdr) \<Rightarrow> addr \<Rightarrow> addr \<Rightarrow> (addr \<times> addr) option" where
  "leftmost h f rp = Option.bind (h rp) (\<lambda>b.
     if b_left b = nil then Some (f, rp) else leftmost h rp (b_left b))"

text \<open>Both children are there: the leftmost node of the right subtree takes the place of \<open>t\<close>.\<close>

definition pooldel_two :: "addr \<Rightarrow> addr P" where
  "pooldel_two t = pbind (getb t) (\<lambda>b. pbind (pget p_hdr) (\<lambda>h.
     case leftmost h t (b_right b) of
       None \<Rightarrow> pfail
     | Some (f, rp) \<Rightarrow> pbind (pseq [
         pwhen (f \<noteq> t) (pseq [
           pbind (getb rp) (\<lambda>x. let s = b_right x in pseq [
             set_left f s,
             pwhen (s \<noteq> nil) (set_parent s f)]),
           pbind (getb t) (\<lambda>b. let s = b_right b in pseq [
             set_right rp s,
             pwhen (s \<noteq> nil) (set_parent s rp)])]),
         pbind (getb t) (\<lambda>b. let s = b_left b in pseq [
           set_left rp s,
           set_parent s rp])]) (\<lambda>_. pret rp)))"

definition pooldel :: "addr \<Rightarrow> unit P" where
  "pooldel t = pbind (getb t) (\<lambda>b. pbind (pget p_root) (\<lambda>root.
     if b_parent b = nil \<and> root \<noteq> t then unring t
     else if b_fwd b \<noteq> t then pooldel_ring t
     else pbind (if b_left b = nil then pret (b_right b)
                else if b_right b = nil then pret (b_left b)
                else pooldel_two t) (\<lambda>rp.
       pbind (getb t) (\<lambda>b. let q = b_parent b in pseq [
         relink q t rp,
         pwhen (rp \<noteq> nil) (set_parent rp q)]))))"

text \<open>Where a block of a given size belongs: next to a node of the same size, or below a leaf.\<close>

datatype place = Same addr | Below addr

partial_function (option) findplace :: "(addr \<rightharpoonup> Bhdr) \<Rightarrow> u32 \<Rightarrow> addr \<Rightarrow> addr \<Rightarrow> place option" where
  "findplace h sz tp t =
    (if t = nil then Some (Below tp)
     else Option.bind (h t) (\<lambda>b.
       if sz = b_size b then Some (Same t)
       else findplace h sz t (if sz < b_size b then b_left b else b_right b)))"

definition pooladd :: "addr \<Rightarrow> unit P" where
  "pooladd q = pseq [
     pokeb q (\<lambda>b. b\<lparr>b_magic := MAGIC_F, b_left := nil, b_right := nil, b_parent := nil, b_fwd := q, b_prev := q\<rparr>),
     pbind (pget p_root) (\<lambda>t.
       if t = nil then set_root q
       else pbind (getb q) (\<lambda>x. pbind (pget p_hdr) (\<lambda>h.
         case findplace h (b_size x) nil t of
           None \<Rightarrow> pfail
         | Some (Same t) \<Rightarrow> pseq [
             pbind (getb t) (\<lambda>b. set_fwd q (b_fwd b)),
             pbind (getb q) (\<lambda>b. set_prev (b_fwd b) q),
             set_prev q t,
             set_fwd t q]
         | Some (Below tp) \<Rightarrow> pseq [
             set_parent q tp,
             pbind (getb tp) (\<lambda>b. if b_size x < b_size b then set_left tp q else set_right tp q)])))]"

section \<open>Allocation\<close>

text \<open>The search of \<open>poolalloc\<close>: a block of exactly the size, else the last larger one on the way.\<close>

datatype fit = Exact addr | Larger addr

partial_function (option) bestfit :: "(addr \<rightharpoonup> Bhdr) \<Rightarrow> u32 \<Rightarrow> addr \<Rightarrow> addr \<Rightarrow> fit option" where
  "bestfit h sz q t =
    (if t = nil then Some (Larger q)
     else Option.bind (h t) (\<lambda>b.
       if b_size b = sz then Some (Exact t)
       else if sz < b_size b then bestfit h sz t (b_left b)
       else bestfit h sz q (b_right b)))"

definition add_cursize :: "u32 \<Rightarrow> unit P" where
  "add_cursize n = pupd (\<lambda>p. p\<lparr>p_cursize := p_cursize p + n\<rparr>)"

text \<open>The C \<open>int\<close> of an expression.\<close>

definition int32 :: "int \<Rightarrow> int" where
  "int32 x = sint (word_of_int x :: u32)"

definition round_size :: "int \<Rightarrow> int \<Rightarrow> int" where
  "round_size q sz = int32 (int32 (sz + BHDRSIZE + q) AND NOT q)"

text \<open>A block \<open>q\<close> that is larger than \<open>sz\<close>: give it whole, or split it.\<close>

definition take_larger :: "addr \<Rightarrow> int \<Rightarrow> addr P" where
  "take_larger q sz = pbind (pseq [pooldel q, set_magic q MAGIC_A]) (\<lambda>_. pbind (getb q) (\<lambda>b.
     let frag = sint (b_size b - word_of_int sz) in
     if frag < sz div 4 then pbind (add_cursize (b_size b)) (\<lambda>_. pret (B2D q))
     else
       let ns = b_size b - word_of_int sz; t = ptr (int q + uint (word_of_int sz :: u32)) in
       pbind (pseq [
         set_size q (word_of_int sz),
         set_tail q,
         set_size t ns,
         set_tail t,
         pooladd t,
         add_cursize (word_of_int sz)]) (\<lambda>_. pret (B2D q))))"

text \<open>Get a new arena from the host: a leader, the block to return, the rest free, and an end mark.\<close>

definition new_arena :: "int \<Rightarrow> addr P" where
  "new_arena sz = pbind (pget (\<lambda>p. p)) (\<lambda>p.
     let ns = max sz (p_chunk p); ldr = p_quanta p + 1; alloc = int32 (ns + ldr + 4) in
     if p_arenasize p + word_of_int alloc > p_maxsize p then pret nil
     else pbind (pupd (\<lambda>p. p\<lparr>p_arenasize := p_arenasize p + word_of_int alloc, p_nbrk := Suc (p_nbrk p)\<rparr>)) (\<lambda>_.
       case p_sbrk p (p_nbrk p) alloc of
         None \<Rightarrow> pret nil
       | Some t0 \<Rightarrow>
           let t = ptr (int t0 + ldr); q = ptr (int t + sz); rest = int32 (ns - sz) in
           pbind (pseq [
             pokeb t0 (\<lambda>b. b\<lparr>b_magic := MAGIC_E, b_size := word_of_int ldr, b_csize := int32 (ns + ldr),
               b_clink := p_chain p\<rparr>),
             pupd (\<lambda>p. p\<lparr>p_chain := t0\<rparr>),
             set_tail t0,
             pokeb t (\<lambda>b. b\<lparr>b_magic := MAGIC_A, b_size := word_of_int sz\<rparr>),
             set_tail t,
             pwhen (rest > 0) (pseq [
               set_size q (word_of_int rest),
               set_tail q,
               pooladd q]),
             set_magic (if rest > 0 then ptr (int q + rest) else q) MAGIC_E,
             add_cursize (word_of_int sz)]) (\<lambda>_. pret (B2D t))))"

definition poolalloc :: "int \<Rightarrow> addr P" where
  "poolalloc n = pbind (pget p_quanta) (\<lambda>qu. let sz = round_size qu n in
     pbind (pupd (\<lambda>p. p\<lparr>p_nalloc := Suc (p_nalloc p)\<rparr>)) (\<lambda>_.
     pbind (pget (\<lambda>p. bestfit (p_hdr p) (word_of_int sz) nil (p_root p))) (\<lambda>r.
       case r of
         None \<Rightarrow> pfail
       | Some (Exact t) \<Rightarrow> pbind (pseq [pooldel t, set_magic t MAGIC_A]) (\<lambda>_.
           pbind (getb t) (\<lambda>b. pbind (add_cursize (b_size b)) (\<lambda>_. pret (B2D t))))
       | Some (Larger q) \<Rightarrow> if q \<noteq> nil then take_larger q sz else new_arena sz)))"

section \<open>Release\<close>

definition poolfree :: "addr \<Rightarrow> unit P" where
  "poolfree v = pbind (D2B v) (\<lambda>b. pbind (getb b) (\<lambda>x.
     pbind (pupd (\<lambda>p. p\<lparr>p_nfree := Suc (p_nfree p), p_cursize := p_cursize p - b_size x\<rparr>)) (\<lambda>_.
     let c = B2NB b x in
     pbind (getb c) (\<lambda>y. pbind (pwhen (b_magic y = MAGIC_F) (pseq [
         pooldel c,
         set_magic c No_magic,
         pbind (getb c) (\<lambda>y. setb b (\<lambda>x. x\<lparr>b_size := b_size x + b_size y\<rparr>)),
         set_tail b])) (\<lambda>_.
     pbind (pget (\<lambda>p. p_tail p (B2PT b))) (\<lambda>o1. case o1 of None \<Rightarrow> pfail | Some c \<Rightarrow>
     pbind (getb c) (\<lambda>y.
       if b_magic y = MAGIC_F then pseq [
         pooldel c,
         set_magic b No_magic,
         pbind (getb b) (\<lambda>x. setb c (\<lambda>y. y\<lparr>b_size := b_size y + b_size x\<rparr>)),
         set_tail c,
         pooladd c]
       else pooladd b)))))))"

section \<open>malloc and its relatives\<close>

definition memset_p :: "addr \<Rightarrow> nat \<Rightarrow> unit P" where
  "memset_p v n = pupd (\<lambda>p. p\<lparr>p_mem := memset v 0 n (p_mem p)\<rparr>)"

definition malloc :: "int \<Rightarrow> addr P" where
  "malloc sz = pbind (poolalloc sz) (\<lambda>v.
     pbind (pwhen (v \<noteq> nil) (memset_p v (nat sz))) (\<lambda>_. pret v))"

definition mallocz :: "int \<Rightarrow> bool \<Rightarrow> addr P" where
  "mallocz sz clr = pbind (poolalloc sz) (\<lambda>v.
     pbind (pwhen (clr \<and> v \<noteq> nil) (memset_p v (nat sz))) (\<lambda>_. pret v))"

definition free :: "addr \<Rightarrow> unit P" where
  "free v = pwhen (v \<noteq> nil) (pbind (D2B v) (\<lambda>_. poolfree v))"

text \<open>\<open>osize >= size\<close> compares as unsigned, \<open>size\<close> being a \<open>size_t\<close>.\<close>

definition realloc :: "addr \<Rightarrow> u32 \<Rightarrow> addr P" where
  "realloc v sz = (if v = nil then malloc (sint sz)
     else pbind (D2B v) (\<lambda>b. pbind (getb b) (\<lambda>x.
       let osize = b_size x - word_of_int BHDRSIZE in
       if osize \<ge> sz then pret v
       else pbind (poolalloc (sint sz)) (\<lambda>nv.
         pbind (pwhen (nv \<noteq> nil) (pseq [
           pupd (\<lambda>p. p\<lparr>p_mem := memmove nv v (unat osize) (p_mem p)\<rparr>),
           free v])) (\<lambda>_. pret nv)))))"

definition msize :: "addr \<Rightarrow> u32 P" where
  "msize v = pbind (D2B v) (\<lambda>b. pbind (getb b) (\<lambda>x. pret (b_size x - word_of_int BHDRSIZE)))"

definition calloc :: "u32 \<Rightarrow> u32 \<Rightarrow> addr P" where
  "calloc n szelem = malloc (sint (n * szelem))"

end
