(* ===== verification/Freetree.thy ===== *)
theory Freetree
  imports Alloc "HOL-Library.Tree"
begin

text \<open>
  The free tree of a pool as a tree of rings: each node is the list of the free blocks of one size,
  the tree node first. \<open>pooldel\<close> and \<open>pooladd\<close> are shown to remove and to insert one block.

  The links are taken apart into one function for each field of the header, so that an assignment in
  the code is the update of one function and leaves the others alone.
\<close>

section \<open>Fields of the headers\<close>

definition gb :: "(addr \<rightharpoonup> Bhdr) \<Rightarrow> addr \<Rightarrow> Bhdr" where
  "gb h a = (case h a of None \<Rightarrow> raw_Bhdr | Some b \<Rightarrow> b)"

definition fL :: "(addr \<rightharpoonup> Bhdr) \<Rightarrow> addr \<Rightarrow> addr" where "fL h a = b_left (gb h a)"
definition fR :: "(addr \<rightharpoonup> Bhdr) \<Rightarrow> addr \<Rightarrow> addr" where "fR h a = b_right (gb h a)"
definition fP :: "(addr \<rightharpoonup> Bhdr) \<Rightarrow> addr \<Rightarrow> addr" where "fP h a = b_parent (gb h a)"
definition fV :: "(addr \<rightharpoonup> Bhdr) \<Rightarrow> addr \<Rightarrow> addr" where "fV h a = b_prev (gb h a)"
definition fF :: "(addr \<rightharpoonup> Bhdr) \<Rightarrow> addr \<Rightarrow> addr" where "fF h a = b_fwd (gb h a)"
definition fS :: "(addr \<rightharpoonup> Bhdr) \<Rightarrow> addr \<Rightarrow> u32" where "fS h a = b_size (gb h a)"
definition fM :: "(addr \<rightharpoonup> Bhdr) \<Rightarrow> addr \<Rightarrow> magic" where "fM h a = b_magic (gb h a)"

lemmas fields = fL_def fR_def fP_def fV_def fF_def fS_def fM_def

text \<open>Assigning a field of a header that is there.\<close>

definition hL :: "addr \<Rightarrow> addr \<Rightarrow> (addr \<rightharpoonup> Bhdr) \<Rightarrow> addr \<rightharpoonup> Bhdr" where "hL a v h = h(a \<mapsto> (gb h a)\<lparr>b_left := v\<rparr>)"
definition hR :: "addr \<Rightarrow> addr \<Rightarrow> (addr \<rightharpoonup> Bhdr) \<Rightarrow> addr \<rightharpoonup> Bhdr" where "hR a v h = h(a \<mapsto> (gb h a)\<lparr>b_right := v\<rparr>)"
definition hP :: "addr \<Rightarrow> addr \<Rightarrow> (addr \<rightharpoonup> Bhdr) \<Rightarrow> addr \<rightharpoonup> Bhdr" where "hP a v h = h(a \<mapsto> (gb h a)\<lparr>b_parent := v\<rparr>)"
definition hV :: "addr \<Rightarrow> addr \<Rightarrow> (addr \<rightharpoonup> Bhdr) \<Rightarrow> addr \<rightharpoonup> Bhdr" where "hV a v h = h(a \<mapsto> (gb h a)\<lparr>b_prev := v\<rparr>)"
definition hF :: "addr \<Rightarrow> addr \<Rightarrow> (addr \<rightharpoonup> Bhdr) \<Rightarrow> addr \<rightharpoonup> Bhdr" where "hF a v h = h(a \<mapsto> (gb h a)\<lparr>b_fwd := v\<rparr>)"

lemma field_upd [simp]:
  "fL (hL a v h) = (fL h)(a := v)" "fL (hR a v h) = fL h" "fL (hP a v h) = fL h" "fL (hV a v h) = fL h" "fL (hF a v h) = fL h"
  "fR (hL a v h) = fR h" "fR (hR a v h) = (fR h)(a := v)" "fR (hP a v h) = fR h" "fR (hV a v h) = fR h" "fR (hF a v h) = fR h"
  "fP (hL a v h) = fP h" "fP (hR a v h) = fP h" "fP (hP a v h) = (fP h)(a := v)" "fP (hV a v h) = fP h" "fP (hF a v h) = fP h"
  "fV (hL a v h) = fV h" "fV (hR a v h) = fV h" "fV (hP a v h) = fV h" "fV (hV a v h) = (fV h)(a := v)" "fV (hF a v h) = fV h"
  "fF (hL a v h) = fF h" "fF (hR a v h) = fF h" "fF (hP a v h) = fF h" "fF (hV a v h) = fF h" "fF (hF a v h) = (fF h)(a := v)"
  "fS (hL a v h) = fS h" "fS (hR a v h) = fS h" "fS (hP a v h) = fS h" "fS (hV a v h) = fS h" "fS (hF a v h) = fS h"
  "fM (hL a v h) = fM h" "fM (hR a v h) = fM h" "fM (hP a v h) = fM h" "fM (hV a v h) = fM h" "fM (hF a v h) = fM h"
  by (auto simp: fields hL_def hR_def hP_def hV_def hF_def gb_def fun_eq_iff split: option.splits)

lemma dom_upd:
  "a \<in> dom h \<Longrightarrow> dom (hL a v h) = dom h" "a \<in> dom h \<Longrightarrow> dom (hR a v h) = dom h" "a \<in> dom h \<Longrightarrow> dom (hP a v h) = dom h"
  "a \<in> dom h \<Longrightarrow> dom (hV a v h) = dom h" "a \<in> dom h \<Longrightarrow> dom (hF a v h) = dom h"
  by (auto simp: hL_def hR_def hP_def hV_def hF_def)

text \<open>Running the statements of the tree code: each needs the header to be there.\<close>

lemma getb_run: "a \<in> dom (p_hdr p) \<Longrightarrow> pbind (getb a) k p = k (gb (p_hdr p) a) p"
  by (auto simp: pbind_def getb_def gb_def)

lemma set_run:
  "a \<in> dom (p_hdr p) \<Longrightarrow> set_left a v p = Some ((), p\<lparr>p_hdr := hL a v (p_hdr p)\<rparr>)"
  "a \<in> dom (p_hdr p) \<Longrightarrow> set_right a v p = Some ((), p\<lparr>p_hdr := hR a v (p_hdr p)\<rparr>)"
  "a \<in> dom (p_hdr p) \<Longrightarrow> set_parent a v p = Some ((), p\<lparr>p_hdr := hP a v (p_hdr p)\<rparr>)"
  "a \<in> dom (p_hdr p) \<Longrightarrow> set_prev a v p = Some ((), p\<lparr>p_hdr := hV a v (p_hdr p)\<rparr>)"
  "a \<in> dom (p_hdr p) \<Longrightarrow> set_fwd a v p = Some ((), p\<lparr>p_hdr := hF a v (p_hdr p)\<rparr>)"
  by (auto simp: set_left_def set_right_def set_parent_def set_prev_def set_fwd_def setb_def pbind_def getb_def
      pupd_def hL_def hR_def hP_def hV_def hF_def gb_def)

lemma pseq_run:
  "pseq [] p = Some ((), p)"
  "m p = Some ((), p') \<Longrightarrow> pseq (m # ms) p = pseq ms p'"
  by (simp_all add: pret_def pbind_def)

lemma pwhen_run: "(c \<Longrightarrow> m p = Some ((), p')) \<Longrightarrow> pwhen c m p = Some ((), if c then p' else p)"
  by (simp add: pwhen_def pret_def)

section \<open>Trees of rings\<close>

text \<open>\<open>ftree L R P q a t\<close>: from \<open>a\<close>, whose parent is \<open>q\<close>, the links represent the tree \<open>t\<close>.\<close>

fun ftree :: "(addr \<Rightarrow> addr) \<Rightarrow> (addr \<Rightarrow> addr) \<Rightarrow> (addr \<Rightarrow> addr) \<Rightarrow> addr \<Rightarrow> addr \<Rightarrow> addr list tree \<Rightarrow> bool" where
  "ftree L R P q a Leaf \<longleftrightarrow> a = nil"
| "ftree L R P q a (Node l xs r) \<longleftrightarrow> xs \<noteq> [] \<and> a = hd xs \<and> a \<noteq> nil \<and> P a = q \<and>
     ftree L R P a (L a) l \<and> ftree L R P a (R a) r"

definition heads :: "addr list tree \<Rightarrow> addr list" where
  "heads t = map hd (inorder t)"

lemma heads_simps [simp]: "heads Leaf = []" "heads (Node l xs r) = heads l @ hd xs # heads r"
  by (simp_all add: heads_def)

lemma ftree_cong:
  assumes "\<forall>x \<in> set (heads t). L' x = L x \<and> R' x = R x \<and> P' x = P x"
  shows "ftree L' R' P' q a t \<longleftrightarrow> ftree L R P q a t"
  using assms by (induction t arbitrary: q a) auto

lemma ftree_reparent:
  assumes "ftree L R P q a t" "distinct (heads t)" "t \<noteq> Leaf \<longrightarrow> P' a = q'"
    and "\<forall>x \<in> set (heads t). L' x = L x \<and> R' x = R x \<and> (x \<noteq> a \<longrightarrow> P' x = P x)"
  shows "ftree L' R' P' q' a t"
proof (cases t)
  case (Node l xs r)
  then have "ftree L' R' P' a (L a) l \<longleftrightarrow> ftree L R P a (L a) l" "ftree L' R' P' a (R a) r \<longleftrightarrow> ftree L R P a (R a) r"
    using assms(1,2,4) by (intro ftree_cong; force)+
  then show ?thesis using assms Node by auto
qed (use assms in simp)

lemma ftree_not_nil: "ftree L R P q a t \<Longrightarrow> nil \<notin> set (heads t)"
  by (induction t arbitrary: q a) auto

lemma ftree_parent:
  "ftree L R P q a t \<Longrightarrow> x \<in> set (heads t) \<Longrightarrow> x = a \<and> P x = q \<or> P x \<in> set (heads t) \<and> (L (P x) = x \<or> R (P x) = x)"
  by (induction t arbitrary: q a) force+

lemma ftree_child:
  "ftree L R P q a t \<Longrightarrow> x \<in> set (heads t) \<Longrightarrow>
    (L x = nil \<or> L x \<in> set (heads t) \<and> P (L x) = x) \<and> (R x = nil \<or> R x \<in> set (heads t) \<and> P (R x) = x)"
proof (induction t arbitrary: q a)
  case (Node l xs r)
  have 1: "L a = nil \<or> L a \<in> set (heads l) \<and> P (L a) = a" using Node.prems(1) by (cases l) auto
  have 2: "R a = nil \<or> R a \<in> set (heads r) \<and> P (R a) = a" using Node.prems(1) by (cases r) auto
  from Node.prems consider "x = a" | "x \<in> set (heads l)" | "x \<in> set (heads r)" by auto
  then show ?case using Node 1 2 by cases auto
qed simp

section \<open>Replacing a subtree\<close>

fun subtree :: "addr \<Rightarrow> addr list tree \<Rightarrow> addr list tree" where
  "subtree t Leaf = Leaf"
| "subtree t (Node l xs r) = (if hd xs = t then Node l xs r
     else if t \<in> set (heads l) then subtree t l else subtree t r)"

fun repl :: "addr \<Rightarrow> addr list tree \<Rightarrow> addr list tree \<Rightarrow> addr list tree" where
  "repl t s Leaf = Leaf"
| "repl t s (Node l xs r) = (if hd xs = t then s
     else if t \<in> set (heads l) then Node (repl t s l) xs r else Node l xs (repl t s r))"

lemma repl_absent: "t \<notin> set (heads tr) \<Longrightarrow> repl t s tr = tr"
  by (induction tr) auto

lemma subtree_heads: "set (heads (subtree t tr)) \<subseteq> set (heads tr)"
  by (induction tr) auto

lemma subtree_ftree:
  "ftree L R P q a tr \<Longrightarrow> t \<in> set (heads tr) \<Longrightarrow> ftree L R P (P t) t (subtree t tr) \<and> subtree t tr \<noteq> Leaf"
  by (induction tr arbitrary: q a) auto

lemma inorder_repl:
  "t \<in> set (heads tr) \<Longrightarrow> distinct (heads tr) \<Longrightarrow>
    \<exists>us vs. inorder tr = us @ inorder (subtree t tr) @ vs \<and> inorder (repl t s tr) = us @ inorder s @ vs"
proof (induction tr)
  case (Node l xs r)
  consider "hd xs = t" | "hd xs \<noteq> t" "t \<in> set (heads l)" | "hd xs \<noteq> t" "t \<notin> set (heads l)" "t \<in> set (heads r)"
    using Node.prems by auto
  then show ?case
  proof cases
    case 1
    then show ?thesis by (intro exI [of _ "[]"]) simp
  next
    case 2
    then obtain us vs where "inorder l = us @ inorder (subtree t l) @ vs" "inorder (repl t s l) = us @ inorder s @ vs"
      using Node by auto
    then show ?thesis using 2 by (intro exI [of _ us] exI [of _ "vs @ xs # inorder r"]) simp
  next
    case 3
    then obtain us vs where "inorder r = us @ inorder (subtree t r) @ vs" "inorder (repl t s r) = us @ inorder s @ vs"
      using Node by auto
    then show ?thesis using 3 by (intro exI [of _ "inorder l @ xs # us"] exI [of _ vs]) simp
  qed
qed simp

text \<open>The subtree at \<open>t\<close> is replaced by one at \<open>c\<close>: only the child link of its parent changes.\<close>

lemma ftree_repl:
  assumes "ftree L R P q0 a tr" "distinct (heads tr)" "t \<in> set (heads tr)"
    and "\<forall>x \<in> set (heads tr) - set (heads (subtree t tr)). P' x = P x \<and>
      L' x = (if x = P t \<and> L x = t then c else L x) \<and> R' x = (if x = P t \<and> L x \<noteq> t then c else R x)"
    and "ftree L' R' P' (P t) c s"
  shows "ftree L' R' P' q0 (if a = t then c else a) (repl t s tr)"
  using assms(1-4)
proof (induction tr arbitrary: q0 a)
  case (Node l xs r)
  have a: "a = hd xs" "P a = q0" "ftree L R P a (L a) l" "ftree L R P a (R a) r" "a \<noteq> nil" "xs \<noteq> []"
    using Node.prems(1) by auto
  have d: "distinct (heads l)" "distinct (heads r)" "a \<notin> set (heads l)" "a \<notin> set (heads r)"
      "set (heads l) \<inter> set (heads r) = {}" using Node.prems(2) a(1) by auto
  show ?case
  proof (cases "a = t")
    case True
    then show ?thesis using assms(5) a by simp
  next
    case nt: False
    show ?thesis
    proof (cases "t \<in> set (heads l)")
      case True
      then have tr: "t \<notin> set (heads r)" using d by blast
      have sub: "subtree t (Node l xs r) = subtree t l" using nt True a(1) by simp
      have pt: "P t = a \<and> L a = t \<or> P t \<in> set (heads l) \<and> L a \<noteq> t"
      proof (cases "L a = t")
        case True
        then show ?thesis using ftree_parent [OF a(3)] \<open>t \<in> set (heads l)\<close> a(3) by (cases l) auto
      next
        case False
        then show ?thesis using ftree_parent [OF a(3) True] by auto
      qed
      have al: "a \<notin> set (heads (subtree t l))" using subtree_heads [of t l] d by blast
      have l: "ftree L' R' P' a (if L a = t then c else L a) (repl t s l)"
        by (rule Node.IH(1) [OF a(3) d(1) True]) (use Node.prems(4) sub in auto)
      have "ftree L' R' P' a (R a) r \<longleftrightarrow> ftree L R P a (R a) r"
      proof (rule ftree_cong, rule ballI)
        fix x assume x: "x \<in> set (heads r)"
        then have "x \<notin> set (heads (subtree t l))" "x \<noteq> P t"
          using subtree_heads [of t l] d pt by blast+
        then show "L' x = L x \<and> R' x = R x \<and> P' x = P x" using Node.prems(4) x sub by auto
      qed
      moreover have "P' a = P a \<and> L' a = (if L a = t then c else L a) \<and> R' a = R a"
        using Node.prems(4) sub al pt d a(1) by auto
      ultimately show ?thesis using l nt True a by simp
    next
      case False
      then have t: "t \<in> set (heads r)" using Node.prems(3) nt a(1) by simp
      have sub: "subtree t (Node l xs r) = subtree t r" using nt False a(1) by simp
      have "t \<noteq> nil" using t ftree_not_nil [OF a(4)] by metis
      then have la: "L a \<noteq> t" using a(3) False by (cases l) auto
      have pt: "P t = a \<and> R a = t \<or> P t \<in> set (heads r) \<and> R a \<noteq> t"
      proof (cases "R a = t")
        case True
        then show ?thesis using ftree_parent [OF a(4)] t a(4) by (cases r) auto
      next
        case False
        then show ?thesis using ftree_parent [OF a(4) t] by auto
      qed
      have al: "a \<notin> set (heads (subtree t r))" using subtree_heads [of t r] d by blast
      have r: "ftree L' R' P' a (if R a = t then c else R a) (repl t s r)"
        by (rule Node.IH(2) [OF a(4) d(2) t]) (use Node.prems(4) sub in auto)
      have "ftree L' R' P' a (L a) l \<longleftrightarrow> ftree L R P a (L a) l"
      proof (rule ftree_cong, rule ballI)
        fix x assume x: "x \<in> set (heads l)"
        then have "x \<notin> set (heads (subtree t r))" "x \<noteq> P t"
          using subtree_heads [of t r] d pt by blast+
        then show "L' x = L x \<and> R' x = R x \<and> P' x = P x" using Node.prems(4) x sub by auto
      qed
      moreover have "P' a = P a \<and> L' a = L a \<and> R' a = (if R a = t then c else R a)"
        using Node.prems(4) sub al pt d a(1) la by auto
      ultimately show ?thesis using r nt False a by simp
    qed
  qed
qed simp

section \<open>Rings\<close>

text \<open>\<open>chain F V xs\<close>: forward and backward links along \<open>xs\<close>; a ring is a chain back to its first.\<close>

fun chain :: "(addr \<Rightarrow> addr) \<Rightarrow> (addr \<Rightarrow> addr) \<Rightarrow> addr list \<Rightarrow> bool" where
  "chain F V (x # y # zs) \<longleftrightarrow> F x = y \<and> V y = x \<and> chain F V (y # zs)"
| "chain F V _ \<longleftrightarrow> True"

definition ring :: "(addr \<Rightarrow> addr) \<Rightarrow> (addr \<Rightarrow> addr) \<Rightarrow> addr list \<Rightarrow> bool" where
  "ring F V xs \<longleftrightarrow> xs \<noteq> [] \<and> chain F V (xs @ [hd xs])"

lemma chain_append: "chain F V (us @ x # vs) \<longleftrightarrow> chain F V (us @ [x]) \<and> chain F V (x # vs)"
proof (induction us)
  case (Cons u us)
  then show ?case by (cases us) auto
qed simp

lemma chain_cong:
  "\<forall>x \<in> set (butlast xs). F' x = F x \<Longrightarrow> \<forall>x \<in> set (tl xs). V' x = V x \<Longrightarrow> chain F' V' xs \<longleftrightarrow> chain F V xs"
  by (induction F V xs rule: chain.induct) auto

lemma ring_cong: "\<forall>x \<in> set xs. F' x = F x \<and> V' x = V x \<Longrightarrow> ring F' V' xs \<longleftrightarrow> ring F V xs"
  unfolding ring_def by (cases xs) (auto intro!: chain_cong arg_cong [where f = "(\<and>) _"])

lemma ring_single: "ring F V [t] \<longleftrightarrow> F t = t \<and> V t = t"
  by (simp add: ring_def)

lemma ring_insert:
  assumes "ring F V (x # ys)" "q \<notin> set (x # ys)" "distinct (x # ys)"
  shows "ring (F(q := F x, x := q)) (V(F x := q, q := x)) (x # q # ys)"
proof -
  obtain b bs where b: "ys @ [x] = b # bs" by (cases ys) auto
  have c: "chain F V (x # b # bs)" using assms(1) b by (simp add: ring_def)
  have "distinct (b # bs)" "set (b # bs) = set (x # ys)" "butlast (b # bs) = ys" 
    using assms(3) b by (metis distinct.simps(2) distinct1_rotate rotate1.simps(2), metis list.simps(15) set_append Un_commute insert_is_Un list.set(1) list.set(2), metis butlast_snoc)
  then have "chain (F(q := F x, x := q)) (V(F x := q, q := x)) (b # bs) \<longleftrightarrow> chain F V (b # bs)"
    using assms(2,3) c by (intro chain_cong) auto
  then show ?thesis using c b assms(2,3) \<open>set (b # bs) = _\<close> by (auto simp: ring_def)
qed

lemma ring_unlink:
  assumes "ring F V xs" "distinct xs" "t \<in> set xs" "xs \<noteq> [t]"
  shows "ring (F(V t := F t)) (V(F t := V t)) (remove1 t xs)" "V t \<in> set xs" "F t \<in> set xs" "V t \<noteq> t" "F t \<noteq> t"
proof -
  obtain us vs where xs: "xs = us @ t # vs" "t \<notin> set us" "t \<notin> set vs"
    using split_list_first [OF assms(3)] assms(2) by auto
  have "ring (F(V t := F t)) (V(F t := V t)) (remove1 t xs) \<and> V t \<in> set xs \<and> F t \<in> set xs \<and> V t \<noteq> t \<and> F t \<noteq> t"
  proof (cases us)
    case Nil
    then obtain y ys where y: "vs = y # ys" using xs assms(4) by (cases vs) auto
    obtain zs l where z: "y # ys = zs @ [l]" by (metis rev_exhaust list.discI)
    have c: "F t = y" "V y = t" "chain F V (y # ys @ [t])" using assms(1) xs Nil y by (simp_all add: ring_def)
    have "y # ys @ [t] = zs @ l # [t]" using z by simp
    then have "chain F V (zs @ l # [t])" using c(3) by metis
    then have ends: "F t = y" "V t = l" "F l = t" "V y = t" and l: "chain F V (zs @ [l])"
      using c chain_append [of F V zs l "[t]"] by auto
    have d: "l \<notin> set zs" "distinct (y # ys)" "y \<notin> set (tl (zs @ [l]))" using assms(2) xs Nil y z
      by (metis distinct_append distinct.simps(2) append_Nil not_distinct_conv_prefix,
          simp, metis distinct.simps(2) list.sel(3) append_Nil distinct_append assms(2) xs(1) Nil y z)
    then have "chain (F(l := y)) (V(y := l)) (zs @ [l])"
      using l by (subst chain_cong [of _ _ F _ V]) auto
    then have "chain (F(l := y)) (V(y := l)) (zs @ l # [y])"
      using chain_append [of _ _ zs l "[y]"] by simp
    moreover have "(y # ys) @ [hd (y # ys)] = zs @ l # [y]" using z by (metis list.sel(1) append.assoc append_Cons append_Nil)
    ultimately have "ring (F(l := y)) (V(y := l)) (y # ys)" unfolding ring_def by (intro conjI list.distinct) (simp only:)
    moreover have "l \<in> set (y # ys)" using z by simp
    ultimately show ?thesis using ends xs Nil y by auto
  next
    case (Cons x us')
    obtain zs a where a: "us = zs @ [a]" using Cons by (metis rev_exhaust list.discI)
    obtain b bs where b: "vs @ [x] = b # bs" by (cases vs) auto
    have hx: "hd xs = x" using xs Cons by simp
    have "xs @ [hd xs] = (zs @ [a]) @ t # (vs @ [x])" using xs(1) a hx by simp
    then have e: "xs @ [hd xs] = zs @ a # t # b # bs" using b by simp
    have "chain F V (xs @ [hd xs])" using assms(1) by (simp add: ring_def)
    then have "chain F V (zs @ a # t # b # bs)" by (simp only: e)
    then have c: "chain F V (zs @ [a])" "chain F V (b # bs)" and ends: "F t = b" "V t = a"
      using chain_append [of F V zs a "t # b # bs"] by auto
    have d: "distinct (zs @ [a])" "distinct (b # bs)" "set (zs @ [a]) \<inter> set vs = {}" "hd (zs @ [a]) = x"
      using assms(2) xs Cons a b by (auto, metis distinct.simps(2) distinct1_rotate rotate1.simps(2) distinct_append,
         metis distinct1_rotate distinct.simps(2) distinct_append list.sel(3) rotate1.simps(2))
    have bx: "b \<in> set vs \<or> b = x" using b by (cases vs) auto
    have "butlast (b # bs) = vs" using b by (metis butlast_snoc)
    then have cb: "chain (F(a := b)) (V(b := a)) (b # bs)"
      using c(2) d by (subst chain_cong [of _ _ F _ V]) auto
    have "b \<notin> set (tl (zs @ [a]))"
    proof (cases "b = x")
      case True
      then show ?thesis using d(1,4) by (cases "zs @ [a]") auto
    next
      case False
      then show ?thesis using bx d(3) by (cases "zs @ [a]") auto
    qed
    then have "chain (F(a := b)) (V(b := a)) (zs @ [a])"
      using c(1) d(1) by (subst chain_cong [of _ _ F _ V]) auto
    then have "chain (F(a := b)) (V(b := a)) (zs @ a # b # bs)"
      using cb chain_append [of _ _ zs a "b # bs"] by simp
    moreover have r: "remove1 t xs = us @ vs" using xs by (simp add: remove1_append)
    have "(us @ vs) @ [hd (us @ vs)] = (zs @ [a]) @ (vs @ [x])" using a Cons by (metis append.assoc append_Cons list.sel(1))
    then have "(us @ vs) @ [hd (us @ vs)] = zs @ a # b # bs" using b by simp
    ultimately have "ring (F(a := b)) (V(b := a)) (remove1 t xs)"
      unfolding ring_def r using Cons by (intro conjI) (simp, simp only:)
    moreover have "a \<in> set us" "x \<in> set us" by (simp add: a, simp add: Cons)
    moreover have "b \<in> set us \<union> set vs" using bx calculation(3) by blast
    ultimately show ?thesis using ends xs by auto
  qed
  then show "ring (F(V t := F t)) (V(F t := V t)) (remove1 t xs)" "V t \<in> set xs" "F t \<in> set xs" "V t \<noteq> t" "F t \<noteq> t"
    by auto
qed

declare pseq.simps [simp del]

section \<open>The statements of \<open>pooldel\<close>\<close>

text \<open>\<open>hN c q\<close> is \<open>if(c != nil) c->parent = q\<close>; \<open>hK q t v\<close> makes \<open>v\<close> the child of \<open>q\<close> in the place of \<open>t\<close>.\<close>

definition hN :: "addr \<Rightarrow> addr \<Rightarrow> (addr \<rightharpoonup> Bhdr) \<Rightarrow> addr \<rightharpoonup> Bhdr" where
  "hN c q h = (if c = nil then h else hP c q h)"

definition hK :: "addr \<Rightarrow> addr \<Rightarrow> addr \<Rightarrow> (addr \<rightharpoonup> Bhdr) \<Rightarrow> addr \<rightharpoonup> Bhdr" where
  "hK q t v h = (if q = nil then h else if fL h q = t then hL q v h else hR q v h)"

lemma field_N [simp]:
  "fL (hN c q h) = fL h" "fR (hN c q h) = fR h" "fV (hN c q h) = fV h" "fF (hN c q h) = fF h" "fS (hN c q h) = fS h"
  "fM (hN c q h) = fM h" "fP (hN c q h) = (\<lambda>x. if x = c \<and> c \<noteq> nil then q else fP h x)"
  by (auto simp: hN_def)

lemma field_K [simp]:
  "fP (hK q t v h) = fP h" "fV (hK q t v h) = fV h" "fF (hK q t v h) = fF h" "fS (hK q t v h) = fS h" "fM (hK q t v h) = fM h"
  "fL (hK q t v h) = (\<lambda>x. if x = q \<and> q \<noteq> nil \<and> fL h q = t then v else fL h x)"
  "fR (hK q t v h) = (\<lambda>x. if x = q \<and> q \<noteq> nil \<and> fL h q \<noteq> t then v else fR h x)"
  by (auto simp: hK_def fun_eq_iff)

lemma dom_NK:
  "c = nil \<or> c \<in> dom h \<Longrightarrow> dom (hN c q h) = dom h" "q = nil \<or> q \<in> dom h \<Longrightarrow> dom (hK q t v h) = dom h"
  by (cases "c = nil"; simp add: hN_def dom_upd) (cases "q = nil"; simp add: hK_def dom_upd)

lemma other_upd:
  "x \<noteq> a \<Longrightarrow> hL a v h x = h x" "x \<noteq> a \<Longrightarrow> hR a v h x = h x" "x \<noteq> a \<Longrightarrow> hP a v h x = h x"
  "x \<noteq> a \<Longrightarrow> hV a v h x = h x" "x \<noteq> a \<Longrightarrow> hF a v h x = h x"
  by (simp_all add: hL_def hR_def hP_def hV_def hF_def)

lemma other_NK: "x \<noteq> c \<or> c = nil \<Longrightarrow> hN c q h x = h x" "x \<noteq> q \<or> q = nil \<Longrightarrow> hK q t v h x = h x"
  by (auto simp: hN_def hK_def other_upd)

lemma pget_run: "pbind (pget f) k p = k (f p) p"
  by (simp add: pbind_def pget_def)

lemma pret_run: "pbind (pret a) k p = k a p"
  by (simp add: pbind_def pret_def)

lemma bind_run: "m p = Some (a, p') \<Longrightarrow> pbind m k p = k a p'"
  by (simp add: pbind_def)

lemma unring_run:
  assumes "t \<in> dom (p_hdr p)" "fV (p_hdr p) t \<in> dom (p_hdr p)" "fF (p_hdr p) t \<in> dom (p_hdr p)" "fV (p_hdr p) t \<noteq> t"
  shows "unring t p = Some ((), p\<lparr>p_hdr := hV (fF (p_hdr p) t) (fV (p_hdr p) t) (hF (fV (p_hdr p) t) (fF (p_hdr p) t) (p_hdr p))\<rparr>)"
proof -
  let ?h = "p_hdr p"
  let ?h1 = "hF (fV ?h t) (fF ?h t) ?h"
  have "gb ?h1 t = gb ?h t" using assms(4) by (simp add: gb_def other_upd)
  moreover have "dom ?h1 = dom ?h" by (rule dom_upd) (rule assms)
  ultimately have "pbind (getb t) (\<lambda>b. set_prev (b_fwd b) (b_prev b)) (p\<lparr>p_hdr := ?h1\<rparr>)
      = Some ((), p\<lparr>p_hdr := hV (fF ?h t) (fV ?h t) ?h1\<rparr>)"
    using assms by (simp add: getb_run set_run fields [symmetric])
  moreover have "pbind (getb t) (\<lambda>b. set_fwd (b_prev b) (b_fwd b)) p = Some ((), p\<lparr>p_hdr := ?h1\<rparr>)"
    using assms by (simp add: getb_run set_run fields [symmetric])
  ultimately show ?thesis unfolding unring_def by (simp add: pseq_run)
qed

lemma relink_run:
  assumes "q = nil \<or> q \<in> dom (p_hdr p)"
  shows "relink q t v p = Some ((), p\<lparr>p_hdr := hK q t v (p_hdr p), p_root := if q = nil then v else p_root p\<rparr>)"
proof (cases "q = nil")
  case True
  then show ?thesis by (simp add: relink_def set_root_def pupd_def hK_def)
next
  case False
  then have q: "q \<in> dom (p_hdr p)" using assms by simp
  have "p\<lparr>p_hdr := h, p_root := p_root p\<rparr> = p\<lparr>p_hdr := h\<rparr>" for h by simp
  then show ?thesis using False q
    by (simp only: relink_def hK_def getb_run set_run fL_def if_False if_distrib [where f = "\<lambda>m. m p"] split: if_split)
      (simp add: set_run)
qed

lemma parent_run:
  "c = nil \<or> c \<in> dom (p_hdr p) \<Longrightarrow> pwhen (c \<noteq> nil) (set_parent c q) p = Some ((), p\<lparr>p_hdr := hN c q (p_hdr p)\<rparr>)"
  by (cases "c = nil"; simp add: set_run pwhen_def pret_def hN_def)

lemma adopt_run:
  assumes "f \<in> dom (p_hdr p)" "c = nil \<or> c \<in> dom (p_hdr p)"
  shows "pseq [set_left f c, pwhen (c \<noteq> nil) (set_parent c f)] p = Some ((), p\<lparr>p_hdr := hN c f (hL f c (p_hdr p))\<rparr>)"
    and "pseq [set_right f c, pwhen (c \<noteq> nil) (set_parent c f)] p = Some ((), p\<lparr>p_hdr := hN c f (hR f c (p_hdr p))\<rparr>)"
proof -
  have "pwhen (c \<noteq> nil) (set_parent c f) (p\<lparr>p_hdr := hL f c (p_hdr p)\<rparr>) = Some ((), p\<lparr>p_hdr := hN c f (hL f c (p_hdr p))\<rparr>)"
    "pwhen (c \<noteq> nil) (set_parent c f) (p\<lparr>p_hdr := hR f c (p_hdr p)\<rparr>) = Some ((), p\<lparr>p_hdr := hN c f (hR f c (p_hdr p))\<rparr>)"
    using assms by (subst parent_run; simp add: dom_upd)+
  then show "pseq [set_left f c, pwhen (c \<noteq> nil) (set_parent c f)] p = Some ((), p\<lparr>p_hdr := hN c f (hL f c (p_hdr p))\<rparr>)"
    "pseq [set_right f c, pwhen (c \<noteq> nil) (set_parent c f)] p = Some ((), p\<lparr>p_hdr := hN c f (hR f c (p_hdr p))\<rparr>)"
    using set_run(1,2) [OF assms(1), of c] by (simp_all only: pseq_run)
qed

section \<open>Free trees\<close>

definition nodes :: "addr list tree \<Rightarrow> addr set" where
  "nodes tr = \<Union>(set ` set (inorder tr))"

definition rings :: "(addr \<rightharpoonup> Bhdr) \<Rightarrow> addr list list \<Rightarrow> bool" where
  "rings h xss \<longleftrightarrow> (\<forall>xs \<in> set xss. ring (fF h) (fV h) xs \<and> (\<forall>y \<in> set (tl xs). fP h y = nil) \<and>
     (\<forall>y \<in> set xs. fS h y = fS h (hd xs)))"

definition free_tree :: "(addr \<rightharpoonup> Bhdr) \<Rightarrow> addr \<Rightarrow> addr list tree \<Rightarrow> bool" where
  "free_tree h root tr \<longleftrightarrow> ftree (fL h) (fR h) (fP h) nil root tr \<and> rings h (inorder tr) \<and>
     distinct (concat (inorder tr)) \<and> nil \<notin> nodes tr \<and> nodes tr \<subseteq> dom h \<and>
     sorted_wrt (<) (map (fS h) (heads tr))"

text \<open>What the operations on the tree leave alone.\<close>

definition only :: "addr set \<Rightarrow> (addr \<rightharpoonup> Bhdr) \<Rightarrow> (addr \<rightharpoonup> Bhdr) \<Rightarrow> bool" where
  "only A h h' \<longleftrightarrow> dom h' = dom h \<and> fS h' = fS h \<and> fM h' = fM h \<and> (\<forall>x. x \<notin> A \<longrightarrow> h' x = h x)"

lemma onlyI:
  assumes "dom h' = dom h" "fS h' = fS h" "fM h' = fM h" "\<And>x. x \<notin> A \<Longrightarrow> h' x = h x"
  shows "only A h h'"
  using assms by (simp add: only_def)

lemma rings_Un [simp]: "rings h (xss @ yss) \<longleftrightarrow> rings h xss \<and> rings h yss" "rings h []"
  "rings h (xs # xss) \<longleftrightarrow> ring (fF h) (fV h) xs \<and> (\<forall>y \<in> set (tl xs). fP h y = nil) \<and>
     (\<forall>y \<in> set xs. fS h y = fS h (hd xs)) \<and> rings h xss"
  by (auto simp: rings_def)

lemma rings_cong:
  assumes "\<forall>xs \<in> set xss. (\<forall>x \<in> set xs. fF h' x = fF h x \<and> fV h' x = fV h x \<and> fS h' x = fS h x) \<and>
      (\<forall>y \<in> set (tl xs). fP h' y = fP h y)"
  shows "rings h' xss \<longleftrightarrow> rings h xss"
proof -
  have "ring (fF h') (fV h') xs \<and> (\<forall>y \<in> set (tl xs). fP h' y = nil) \<and> (\<forall>y \<in> set xs. fS h' y = fS h' (hd xs))
      \<longleftrightarrow> ring (fF h) (fV h) xs \<and> (\<forall>y \<in> set (tl xs). fP h y = nil) \<and> (\<forall>y \<in> set xs. fS h y = fS h (hd xs))"
    if "xs \<in> set xss" for xs
  proof (cases "xs = []")
    case False
    have "ring (fF h') (fV h') xs \<longleftrightarrow> ring (fF h) (fV h) xs" using assms that by (intro ring_cong) auto
    then show ?thesis using assms that False by auto
  qed (simp add: ring_def)
  then show ?thesis unfolding rings_def by blast
qed

lemma rings_nonempty: "rings h xss \<Longrightarrow> [] \<notin> set xss"
  by (auto simp: rings_def ring_def)

lemma head_not_tail:
  assumes "distinct (concat xss)" "[] \<notin> set xss" "x \<in> set (map hd xss)" "xs \<in> set xss" "y \<in> set (tl xs)"
  shows "x \<noteq> y"
proof
  assume "x = y"
  from assms(3) obtain ys where ys: "ys \<in> set xss" "x = hd ys" by auto
  have d: "distinct xs" using assms(1,4) by (simp add: distinct_concat_iff)
  show False
  proof (cases "xs = ys")
    case True
    then show ?thesis using d ys \<open>x = y\<close> assms(5) by (cases xs) auto
  next
    case False
    have "x \<in> set ys" using ys assms(2) by (metis list.set_sel(1))
    moreover have "x \<in> set xs" using assms(5) \<open>x = y\<close> by (metis list.sel(2) list.set_sel(2))
    ultimately show ?thesis using assms(1,4) ys(1) False by (auto simp: distinct_concat_iff)
  qed
qed

lemma ring_of:
  assumes "distinct (concat xss)" "t \<in> \<Union>(set ` set xss)"
  obtains as xs bs where "xss = as @ xs # bs" "t \<in> set xs" "t \<notin> \<Union>(set ` set as)" "t \<notin> \<Union>(set ` set bs)"
    "set xs \<inter> \<Union>(set ` set as) = {}" "set xs \<inter> \<Union>(set ` set bs) = {}" "distinct xs"
proof -
  from assms(2) obtain xs where "xs \<in> set xss" "t \<in> set xs" by auto
  then obtain as bs where xss: "xss = as @ xs # bs" by (meson split_list)
  then have "set xs \<inter> set (concat as) = {}" "set xs \<inter> set (concat bs) = {}" "distinct xs" using assms(1) by auto
  then show thesis using that [OF xss \<open>t \<in> set xs\<close>] \<open>t \<in> set xs\<close> by auto
qed

section \<open>Removing a node\<close>

lemma heads_nodes: "[] \<notin> set (inorder tr) \<Longrightarrow> set (heads tr) \<subseteq> nodes tr"
  by (auto simp: heads_def nodes_def) (metis list.set_sel(1) set_inorder)

lemma ftree_map:
  "\<forall>xs \<in> set (inorder tr). xs \<noteq> [] \<and> f xs \<noteq> [] \<and> hd (f xs) = hd xs \<Longrightarrow>
    ftree L R P q a (map_tree f tr) \<longleftrightarrow> ftree L R P q a tr"
  by (induction tr arbitrary: q a) (auto dest: arg_cong [where f = hd])

lemma subtree_parent:
  "ftree L R P q a tr \<Longrightarrow> distinct (heads tr) \<Longrightarrow> q \<notin> set (heads tr) \<Longrightarrow> t \<in> set (heads tr) \<Longrightarrow>
    P t \<notin> set (heads (subtree t tr))"
  by (induction tr arbitrary: q a) auto

lemma subtree_inorder:
  assumes "t \<in> set (heads tr)" "distinct (heads tr)" "subtree t tr = Node l xs r"
  shows "\<exists>us vs. inorder tr = (us @ inorder l) @ xs # (inorder r @ vs) \<and> (\<forall>s. inorder (repl t s tr) = us @ inorder s @ vs)"
  using assms
proof (induction tr)
  case (Node l1 ys r1)
  consider "hd ys = t" | "hd ys \<noteq> t" "t \<in> set (heads l1)" | "hd ys \<noteq> t" "t \<notin> set (heads l1)" "t \<in> set (heads r1)"
    using Node.prems by auto
  then show ?case
  proof cases
    case 1
    then show ?thesis using Node.prems(3) by (intro exI [of _ "[]"]) simp
  next
    case 2
    then obtain us vs where "inorder l1 = (us @ inorder l) @ xs # (inorder r @ vs)" "\<forall>s. inorder (repl t s l1) = us @ inorder s @ vs"
      using Node by auto
    then show ?thesis using 2 by (intro exI [of _ us] exI [of _ "vs @ ys # inorder r1"]) simp
  next
    case 3
    then obtain us vs where "inorder r1 = (us @ inorder l) @ xs # (inorder r @ vs)" "\<forall>s. inorder (repl t s r1) = us @ inorder s @ vs"
      using Node by auto
    then show ?thesis using 3 by (intro exI [of _ "inorder l1 @ ys # us"] exI [of _ vs]) simp
  qed
qed simp

lemma subtree_hd: "t \<in> set (heads tr) \<Longrightarrow> subtree t tr = Node l xs r \<Longrightarrow> hd xs = t"
  by (induction tr) (auto split: if_splits)

text \<open>The new subtree \<open>s\<close> at \<open>c\<close> takes the place of the one at \<open>t\<close>.\<close>

lemma graft:
  assumes tr: "ftree L R P nil a tr" "distinct (heads tr)" "t \<in> set (heads tr)" and q: "q = P t"
    and same: "\<forall>x \<in> set (heads tr) - set (heads (subtree t tr)). L1 x = L x \<and> R1 x = R x \<and> P1 x = P x"
    and s: "ftree L1 R1 P1 q1 c s" "distinct (heads s)" "set (heads s) \<inter> (set (heads tr) - set (heads (subtree t tr))) = {}"
      "q \<notin> set (heads s)"
  shows "ftree (\<lambda>x. if x = q \<and> q \<noteq> nil \<and> L1 q = t then c else L1 x) (\<lambda>x. if x = q \<and> q \<noteq> nil \<and> L1 q \<noteq> t then c else R1 x)
    (\<lambda>x. if x = c \<and> c \<noteq> nil then q else P1 x) nil (if q = nil then c else a) (repl t s tr)"
    (is "ftree ?L ?R ?P _ _ _")
proof -
  have nn: "nil \<notin> set (heads tr)" by (rule ftree_not_nil [OF tr(1)])
  have root: "a = t \<longleftrightarrow> q = nil"
  proof (cases "a = t")
    case True
    then show ?thesis using tr(1,3) q by (cases tr) auto
  next
    case False
    then show ?thesis using ftree_parent [OF tr(1,3)] q nn by auto
  qed
  have "ftree ?L ?R ?P nil (if a = t then c else a) (repl t s tr)"
  proof (rule ftree_repl [OF tr])
    have cs: "c \<noteq> nil \<Longrightarrow> c \<in> set (heads s)" using s(1) by (cases s) auto
    show "\<forall>x \<in> set (heads tr) - set (heads (subtree t tr)). ?P x = P x \<and>
      ?L x = (if x = P t \<and> L x = t then c else L x) \<and> ?R x = (if x = P t \<and> L x \<noteq> t then c else R x)"
    proof (rule ballI)
      fix x assume x: "x \<in> set (heads tr) - set (heads (subtree t tr))"
      then have "x \<noteq> nil" "c \<noteq> nil \<longrightarrow> x \<noteq> c" "L1 x = L x" "R1 x = R x" "P1 x = P x" using nn cs s(3) same by auto
      then show "?P x = P x \<and> ?L x = (if x = P t \<and> L x = t then c else L x) \<and> ?R x = (if x = P t \<and> L x \<noteq> t then c else R x)"
        using q by auto
    qed
    show "ftree ?L ?R ?P (P t) c s"
      by (rule ftree_reparent [OF s(1,2)]) (use s q cs ftree_not_nil [OF s(1)] in \<open>cases s; auto\<close>)+
  qed
  then show ?thesis using root by simp
qed

lemma leftmost_ftree:
  "ftree (fL h) (fR h) (fP h) q a T \<Longrightarrow> T \<noteq> Leaf \<Longrightarrow> set (heads T) \<subseteq> dom h \<Longrightarrow> distinct (heads T) \<Longrightarrow>
    \<exists>m ms rm. leftmost h q a = Some (fP h m, m) \<and> m \<in> set (heads T) \<and> subtree m T = Node Leaf ms rm \<and>
      (\<exists>zs. inorder T = ms # inorder rm @ zs \<and> (\<forall>s. inorder (repl m s T) = inorder s @ zs)) \<and>
      (m = a \<and> (\<exists>xs r. T = Node Leaf xs r) \<or> m \<noteq> a \<and> fP h m \<in> set (heads T) \<and> fL h (fP h m) = m)"
proof (induction T arbitrary: q a)
  case (Node l xs r)
  have a: "a = hd xs" "a \<in> dom h" "fP h a = q" using Node.prems by auto
  then obtain b where b: "h a = Some b" "b_left b = fL h a" by (auto simp: fL_def gb_def)
  show ?case
  proof (cases "l = Leaf")
    case True
    then have "fL h a = nil" using Node.prems(1) by auto
    then have "leftmost h q a = Some (q, a)" using b by (simp add: leftmost.simps)
    then show ?thesis using True a by (intro exI [of _ a] exI [of _ xs] exI [of _ r]) auto
  next
    case False
    then have l: "ftree (fL h) (fR h) (fP h) a (fL h a) l" "fL h a \<noteq> nil" using Node.prems(1) by (cases l; auto)+
    from Node.IH(1) [OF l(1) False] Node.prems obtain m ms rm zs where m: "leftmost h a (fL h a) = Some (fP h m, m)"
        "m \<in> set (heads l)" "subtree m l = Node Leaf ms rm" "inorder l = ms # inorder rm @ zs"
        "\<forall>s. inorder (repl m s l) = inorder s @ zs"
        "m = fL h a \<or> fP h m \<in> set (heads l) \<and> fL h (fP h m) = m"
      by auto
    have "leftmost h q a = leftmost h a (fL h a)" using b l(2) by (subst leftmost.simps) simp
    moreover have "m \<noteq> a" "hd xs \<noteq> m" using m(2) Node.prems(4) a(1) by auto
    moreover have "m = fL h a \<Longrightarrow> fP h m = a" using l(1) False by (cases l) auto
    ultimately show ?thesis using m a
      by (intro exI [of _ m] exI [of _ ms] exI [of _ rm]) auto
  qed
qed simp

lemma free_treeD:
  assumes "free_tree h r tr"
  shows "ftree (fL h) (fR h) (fP h) nil r tr" "rings h (inorder tr)" "distinct (concat (inorder tr))" "nil \<notin> nodes tr"
    "nodes tr \<subseteq> dom h" "sorted_wrt (<) (map (fS h) (heads tr))" "[] \<notin> set (inorder tr)" "set (heads tr) \<subseteq> nodes tr"
    "distinct (heads tr)"
proof -
  show 1: "ftree (fL h) (fR h) (fP h) nil r tr" "rings h (inorder tr)" "distinct (concat (inorder tr))" "nil \<notin> nodes tr"
    "nodes tr \<subseteq> dom h" "sorted_wrt (<) (map (fS h) (heads tr))" using assms by (auto simp: free_tree_def)
  show 2: "[] \<notin> set (inorder tr)" by (rule rings_nonempty [OF 1(2)])
  show "set (heads tr) \<subseteq> nodes tr" by (rule heads_nodes [OF 2])
  have "distinct (map (fS h) (heads tr))" using 1(6) strict_sorted_iff by blast
  then show "distinct (heads tr)" by (simp add: distinct_map)
qed

lemma tl_remove1: "set (tl (remove1 t xs)) \<subseteq> set (tl xs)"
proof (cases xs)
  case (Cons x us)
  have "set (tl us) \<subseteq> set us" by (cases us) auto
  then show ?thesis using Cons set_remove1_subset [of t us] by simp
qed simp

text \<open>The tree without \<open>t\<close>, given that its links and its rings are right.\<close>

lemma del_tree:
  assumes ft: "free_tree h r tr" and io: "inorder tr = as @ xs # bs" "t \<in> set xs"
    and io': "inorder tr' = as @ (if xs = [t] then [] else [remove1 t xs]) @ bs"
    and tree: "ftree (fL h') (fR h') (fP h') nil r' tr'"
    and same: "dom h' = dom h" "fS h' = fS h" "\<And>y. y \<notin> set xs \<Longrightarrow> fF h' y = fF h y \<and> fV h' y = fV h y"
    and ring: "xs \<noteq> [t] \<Longrightarrow> ring (fF h') (fV h') (remove1 t xs)"
    and par: "\<And>ys y. ys \<in> set (inorder tr) \<Longrightarrow> y \<in> set (tl ys) \<Longrightarrow> y \<notin> set (heads tr') \<Longrightarrow> fP h' y = fP h y"
  shows "free_tree h' r' tr' \<and> nodes tr' = nodes tr - {t}"
proof -
  note ft = free_treeD [OF ft]
  let ?ys = "remove1 t xs"
  have d: "distinct xs" "set xs \<inter> \<Union>(set ` set as) = {}" "set xs \<inter> \<Union>(set ` set bs) = {}"
      "distinct (concat as)" "distinct (concat bs)" "\<Union>(set ` set as) \<inter> \<Union>(set ` set bs) = {}"
    using ft(3) io(1) by auto
  have n: "nodes tr' = nodes tr - {t}"
    using io io' d by (auto simp: nodes_def)
  have dc: "distinct (concat (inorder tr'))"
    using io' d set_remove1_subset [of t xs] by (cases "xs = [t]") (auto intro: distinct_remove1)
  have ne: "[] \<notin> set (inorder tr')" using ft(7) io io' ring by (auto simp: ring_def split: if_splits)
  have hd': "y \<notin> set (heads tr')" if "ys \<in> set (inorder tr')" "y \<in> set (tl ys)" for y ys
    using head_not_tail [OF dc ne _ that] by (auto simp: heads_def)
  have part: "rings h' xss \<longleftrightarrow> rings h xss" if "set xss \<subseteq> set as \<union> set bs" for xss
  proof (rule rings_cong, intro ballI conjI)
    fix ys y assume ys: "ys \<in> set xss"
    then have ys': "ys \<in> set (inorder tr)" "ys \<in> set (inorder tr')" "ys \<in> set as \<or> ys \<in> set bs"
      using that io io' by auto
    have dj: "set ys \<inter> set xs = {}" using ys'(3) d(2,3) by blast
    { assume "y \<in> set ys"
      then have "y \<notin> set xs" using dj by auto
      then show "fF h' y = fF h y" "fV h' y = fV h y" "fS h' y = fS h y" using same by auto }
    assume "y \<in> set (tl ys)"
    then show "fP h' y = fP h y" using par ys' hd' by blast
  qed
  have sz: "\<And>y. y \<in> set xs \<Longrightarrow> fS h y = fS h (hd xs)" "\<And>y. y \<in> set (tl xs) \<Longrightarrow> fP h y = nil"
    using ft(2) io(1) by (auto simp: rings_def)
  have "rings h' [?ys]" if "xs \<noteq> [t]"
  proof -
    have "?ys \<noteq> []" using ring [OF that] by (simp add: ring_def)
    have sub: "set ?ys \<subseteq> set xs" "set (tl ?ys) \<subseteq> set (tl xs)"
      by (rule set_remove1_subset, rule tl_remove1)
    have "fP h' y = nil" if y: "y \<in> set (tl ?ys)" for y
      using par [of xs y] hd' [of ?ys y] sz(2) sub y \<open>xs \<noteq> [t]\<close> io io' by auto
    moreover have "fS h' y = fS h' (hd ?ys)" if "y \<in> set ?ys" for y
      using sz(1) same(2) sub that \<open>?ys \<noteq> []\<close> by (metis list.set_sel(1) subsetD)
    ultimately show ?thesis using ring [OF that] by (simp add: rings_def)
  qed
  then have "rings h' (inorder tr')" using part [of as] part [of bs] ft(2) io io' by auto
  moreover have "sorted_wrt (<) (map (fS h') (heads tr'))"
  proof -
    have "xs \<noteq> [t] \<Longrightarrow> fS h (hd ?ys) = fS h (hd xs)"
      using ring sz(1) by (metis list.set_sel(1) ring_def set_remove1_subset subsetD)
    then show ?thesis using ft(6) io io' same(2) by (auto simp: heads_def sorted_wrt_append)
  qed
  ultimately show ?thesis using n dc tree ft(4,5) same(1) by (auto simp: free_tree_def)
qed

definition gone :: "addr \<Rightarrow> pool \<Rightarrow> addr list tree \<Rightarrow> bool" where
  "gone t p tr \<longleftrightarrow> (\<exists>h r tr'. pooldel t p = Some ((), p\<lparr>p_hdr := h, p_root := r\<rparr>) \<and> free_tree h r tr' \<and>
     nodes tr' = nodes tr - {t} \<and> only (nodes tr) (p_hdr p) h)"

text \<open>A block in a ring that is not the tree node.\<close>

lemma pooldel_member:
  assumes ft: "free_tree (p_hdr p) (p_root p) tr" and t: "t \<in> nodes tr" "t \<notin> set (heads tr)"
  shows "gone t p tr"
proof -
  let ?h = "p_hdr p"
  let ?h1 = "hV (fF ?h t) (fV ?h t) (hF (fV ?h t) (fF ?h t) ?h)"
  note fd = free_treeD [OF ft]
  obtain as xs bs where io: "inorder tr = as @ xs # bs" "t \<in> set xs" "t \<notin> \<Union>(set ` set as)" "t \<notin> \<Union>(set ` set bs)" "distinct xs"
    using ring_of [OF fd(3)] t(1) unfolding nodes_def by metis
  have xs: "ring (fF ?h) (fV ?h) xs" "xs \<noteq> []" "hd xs \<noteq> t" "t \<in> set (tl xs)"
    using fd(2,7) io t(2) by (auto simp: rings_def heads_def) (cases xs; auto)
  then have "xs \<noteq> [t]" by auto
  note unl = ring_unlink [OF xs(1) io(5,2) this]
  have sub: "set xs \<subseteq> dom ?h" "set xs \<subseteq> nodes tr" using fd(5) io(1) by (auto simp: nodes_def)
  have par: "fP ?h t = nil" using fd(2) xs(4) io(1) by (auto simp: rings_def)
  have root: "p_root p \<noteq> t"
  proof
    assume "p_root p = t"
    then have "tr \<noteq> Leaf" "t \<in> set (heads tr)" using t fd(1) by (cases tr; auto simp: nodes_def)+
    then show False using t(2) by simp
  qed
  have "unring t p = Some ((), p\<lparr>p_hdr := ?h1\<rparr>)"
    by (rule unring_run) (use unl sub io(2) in auto)
  moreover have "t \<in> dom ?h" using sub io(2) by auto
  ultimately have run: "pooldel t p = Some ((), p\<lparr>p_hdr := ?h1, p_root := p_root p\<rparr>)"
    using par root by (simp add: pooldel_def getb_run pget_run fP_def)
  have "fV ?h t \<in> dom ?h" "fF ?h t \<in> dom ?h" using unl(2,3) sub by blast+
  then have dm: "dom ?h1 = dom ?h" by (simp only: dom_upd)
  let ?tr = "map_tree (remove1 t) tr"
  have "remove1 t ys = ys" if "ys \<in> set as \<union> set bs" for ys
    using that io(3,4) by (auto intro: remove1_idem)
  then have io': "inorder ?tr = as @ (if xs = [t] then [] else [remove1 t xs]) @ bs"
    using io(1) xs(3) by (auto simp: inorder_map intro: map_idI)
  have "hd (remove1 t ys) = hd ys \<and> remove1 t ys \<noteq> [] \<and> ys \<noteq> []" if "ys \<in> set (inorder tr)" for ys
  proof -
    have "ys \<noteq> []" "hd ys \<noteq> t" using that fd(7) t(2) by (auto simp: heads_def)
    then show ?thesis by (cases ys) auto
  qed
  then have "ftree (fL ?h1) (fR ?h1) (fP ?h1) nil (p_root p) ?tr"
    using fd(1) by (subst ftree_map) auto
  then have "free_tree ?h1 (p_root p) ?tr \<and> nodes ?tr = nodes tr - {t}"
    by (rule del_tree [OF ft io(1,2) io']) (use dm unl in auto)
  moreover have "only (nodes tr) ?h ?h1"
  proof (rule onlyI)
    fix x assume "x \<notin> nodes tr"
    then have "x \<noteq> fV ?h t" "x \<noteq> fF ?h t" using unl(2,3) sub by blast+
    then show "?h1 x = ?h x" by (simp add: other_upd)
  qed (simp_all add: dm)
  ultimately show ?thesis using run unfolding gone_def by blast
qed

text \<open>What every case for a tree node starts from.\<close>

lemma head_facts:
  assumes ft: "free_tree h r tr" and t: "t \<in> set (heads tr)"
  obtains l xs rr us vs where "subtree t tr = Node l xs rr" "inorder tr = (us @ inorder l) @ xs # (inorder rr @ vs)"
    "\<And>s. inorder (repl t s tr) = us @ inorder s @ vs" "hd xs = t" "xs \<noteq> []" "ring (fF h) (fV h) xs" "distinct xs"
    "ftree (fL h) (fR h) (fP h) t (fL h t) l" "ftree (fL h) (fR h) (fP h) t (fR h t) rr"
    "fP h t = nil \<or> fP h t \<in> set (heads tr)" "fP h t \<notin> set (heads (subtree t tr))" "distinct (heads (subtree t tr))"
    "fP h t = nil \<longleftrightarrow> r = t"
proof -
  note fd = free_treeD [OF ft]
  have sub: "ftree (fL h) (fR h) (fP h) (fP h t) t (subtree t tr)" "subtree t tr \<noteq> Leaf"
    using subtree_ftree [OF fd(1) t] by auto
  then obtain l xs rr where n: "subtree t tr = Node l xs rr" by (cases "subtree t tr") auto
  obtain us vs where io: "inorder tr = (us @ inorder l) @ xs # (inorder rr @ vs)" "\<And>s. inorder (repl t s tr) = us @ inorder s @ vs"
    using subtree_inorder [OF t fd(9) n] by auto
  have nn: "nil \<notin> set (heads tr)" by (rule ftree_not_nil [OF fd(1)])
  have pt: "t = r \<and> fP h t = nil \<or> fP h t \<in> set (heads tr) \<and> (fL h (fP h t) = t \<or> fR h (fP h t) = t)"
    by (rule ftree_parent [OF fd(1) t])
  have root: "fP h t = nil \<longleftrightarrow> r = t"
  proof
    assume "r = t" 
    then show "fP h t = nil" using fd(1) t by (cases tr) auto
  qed (use pt nn in auto)
  have "heads tr = map hd us @ heads (subtree t tr) @ map hd vs" using io(1) n by (simp add: heads_def)
  then have ds: "distinct (heads (subtree t tr))" using fd(9) by simp
  show thesis
    by (rule that [OF n io _ _ _ _ _ _ _ _ ds root])
      (use fd(2,3) io(1) sub n pt subtree_parent [OF fd(1,9) nn t] in \<open>auto simp: subtree_hd [OF t n]\<close>)
qed

lemma sub_dom: "free_tree h r tr \<Longrightarrow> x \<in> set (heads tr) \<Longrightarrow> x \<in> dom h \<and> x \<in> nodes tr \<and> x \<noteq> nil"
  using free_treeD(4,5,8) by blast

text \<open>A tree node with others of its size.\<close>

lemma pooldel_ring_case:
  assumes ft: "free_tree (p_hdr p) (p_root p) tr" and t: "t \<in> set (heads tr)" and f: "fF (p_hdr p) t \<noteq> t"
  shows "gone t p tr"
proof -
  let ?h = "p_hdr p" and ?r = "p_root p"
  note fd = free_treeD [OF ft]
  from head_facts [OF ft t] obtain l xs rr us vs where n: "subtree t tr = Node l xs rr"
      "inorder tr = (us @ inorder l) @ xs # (inorder rr @ vs)"
      "\<And>s. inorder (repl t s tr) = us @ inorder s @ vs" "hd xs = t" "xs \<noteq> []" "ring (fF ?h) (fV ?h) xs" "distinct xs"
      "ftree (fL ?h) (fR ?h) (fP ?h) t (fL ?h t) l" "ftree (fL ?h) (fR ?h) (fP ?h) t (fR ?h t) rr"
      "fP ?h t = nil \<or> fP ?h t \<in> set (heads tr)" "fP ?h t \<notin> set (heads (subtree t tr))" "distinct (heads (subtree t tr))"
      "fP ?h t = nil \<longleftrightarrow> ?r = t" by metis
  have "xs \<noteq> [t]" using f n(6) by (auto simp: ring_def)
  then obtain g ys where xs: "xs = t # g # ys" using n(4,5) by (cases xs; cases "tl xs"; auto)
  define q where "q = fP ?h t"
  have g: "fF ?h t = g" using n(6) xs by (simp add: ring_def)
  have xin: "xs \<in> set (inorder tr)" using n(2) by simp
  have gn: "g \<notin> set (heads tr)" "g \<in> nodes tr" "g \<in> dom ?h" "g \<noteq> nil"
  proof -
    show "g \<notin> set (heads tr)" using head_not_tail [OF fd(3,7) _ xin, of g g] xs by (auto simp: heads_def)
    show "g \<in> nodes tr" using xin xs by (force simp: nodes_def)
    then show "g \<in> dom ?h" "g \<noteq> nil" using fd(4,5) by auto
  qed
  have tn: "t \<in> dom ?h" "t \<in> nodes tr" "t \<noteq> nil" using sub_dom [OF ft t] by auto
  have sub: "set (heads l) \<subseteq> set (heads tr)" "set (heads rr) \<subseteq> set (heads tr)"
    using subtree_heads [of t tr] n(1) by auto
  have Lt: "fL ?h t = nil \<or> fL ?h t \<in> set (heads l)" "fR ?h t = nil \<or> fR ?h t \<in> set (heads rr)"
    using n(8,9) by (cases l; cases rr; auto)+
  have dj: "t \<notin> set (heads l)" "t \<notin> set (heads rr)" "distinct (heads l)" "distinct (heads rr)" "set (heads l) \<inter> set (heads rr) = {}"
      "q \<notin> set (heads l)" "q \<notin> set (heads rr)" "q \<noteq> t"
    using n(1,4,11,12) by (auto simp: q_def)
  let ?h1 = "hP g q ?h"
  let ?h2 = "hK q t g ?h1"
  let ?h3 = "hN (fL ?h t) g (hL g (fL ?h t) ?h2)"
  let ?h4 = "hN (fR ?h t) g (hR g (fR ?h t) ?h3)"
  let ?h5 = "hV g (fV ?h t) (hF (fV ?h t) g ?h4)"
  define r' where "r' = (if q = nil then g else ?r)"
  have "t \<in> set xs" using xs by simp
  note unl = ring_unlink [OF n(6,7) this \<open>xs \<noteq> [t]\<close>, unfolded g]
  have xn: "set xs \<subseteq> nodes tr" using xin by (auto simp: nodes_def)
  have vt: "fV ?h t \<in> dom ?h" "fV ?h t \<in> nodes tr" "fV ?h t \<noteq> t"
    using unl(2,4) xn fd(5) by blast+
  have qd: "q = nil \<or> q \<in> dom ?h" using n(10) sub_dom [OF ft] q_def by auto
  have ld: "fL ?h t = nil \<or> fL ?h t \<in> dom ?h" "fR ?h t = nil \<or> fR ?h t \<in> dom ?h"
    using Lt sub sub_dom [OF ft] by blast+
  have d1: "dom ?h1 = dom ?h" using gn(3) by (simp only: dom_upd)
  have d2: "dom ?h2 = dom ?h" using qd d1 by (simp only: dom_NK)
  have d3: "dom ?h3 = dom ?h" using ld gn(3) d2 by (simp only: dom_NK dom_upd)
  have d4: "dom ?h4 = dom ?h" using ld gn(3) d3 by (simp only: dom_NK dom_upd)
  have d5: "dom ?h5 = dom ?h" using vt(1) gn(3) d4 by (simp only: dom_upd)
  have gt: "g \<noteq> t" using gn(1) t by auto
  have "pooldel_ring t p = Some ((), p\<lparr>p_hdr := ?h5, p_root := r'\<rparr>)"
  proof -
    have 1: "set_parent g q p = Some ((), p\<lparr>p_hdr := ?h1\<rparr>)" by (rule set_run) (rule gn)
    have 2: "relink q t g (p\<lparr>p_hdr := ?h1\<rparr>) = Some ((), p\<lparr>p_hdr := ?h2, p_root := r'\<rparr>)"
      using relink_run [of q "p\<lparr>p_hdr := ?h1\<rparr>" t g] qd d1 by (simp add: r'_def)
    have 3: "pbind (getb t) (\<lambda>b. let rp = b_left b in pseq [set_left g rp, pwhen (rp \<noteq> nil) (set_parent rp g)])
        (p\<lparr>p_hdr := ?h2, p_root := r'\<rparr>) = Some ((), p\<lparr>p_hdr := ?h3, p_root := r'\<rparr>)"
      using adopt_run(1) [of g "p\<lparr>p_hdr := ?h2, p_root := r'\<rparr>" "fL ?h t"] d2 gn(3) ld(1) tn(1) dj(8)
      by (simp add: getb_run fL_def [symmetric] Let_def)
    have 4: "pbind (getb t) (\<lambda>b. let rp = b_right b in pseq [set_right g rp, pwhen (rp \<noteq> nil) (set_parent rp g)])
        (p\<lparr>p_hdr := ?h3, p_root := r'\<rparr>) = Some ((), p\<lparr>p_hdr := ?h4, p_root := r'\<rparr>)"
      using adopt_run(2) [of g "p\<lparr>p_hdr := ?h3, p_root := r'\<rparr>" "fR ?h t"] d3 gn(3) ld(2) tn(1) dj(8) 
      by (simp add: getb_run fR_def [symmetric] Let_def)
    have 5: "unring t (p\<lparr>p_hdr := ?h4, p_root := r'\<rparr>) = Some ((), p\<lparr>p_hdr := ?h5, p_root := r'\<rparr>)"
      using unring_run [of t "p\<lparr>p_hdr := ?h4, p_root := r'\<rparr>"] d4 tn(1) gn(3) vt g by simp
    have "pseq [set_parent g q, relink q t g,
        pbind (getb t) (\<lambda>b. let rp = b_left b in pseq [set_left g rp, pwhen (rp \<noteq> nil) (set_parent rp g)]),
        pbind (getb t) (\<lambda>b. let rp = b_right b in pseq [set_right g rp, pwhen (rp \<noteq> nil) (set_parent rp g)]),
        unring t] p = Some ((), p\<lparr>p_hdr := ?h5, p_root := r'\<rparr>)"
      using 1 2 3 4 5 by (simp only: pseq_run)
    then show ?thesis unfolding pooldel_ring_def
      using tn(1) g by (simp add: getb_run Let_def fF_def [symmetric] fP_def [symmetric] q_def)
  qed
  moreover have "\<not> (q = nil \<and> ?r \<noteq> t)" using n(13) q_def by simp
  ultimately have run: "pooldel t p = Some ((), p\<lparr>p_hdr := ?h5, p_root := r'\<rparr>)"
    using tn(1) f by (auto simp: pooldel_def getb_run pget_run fP_def fF_def q_def)
  let ?L1 = "(fL ?h)(g := fL ?h t)" and ?R1 = "(fR ?h)(g := fR ?h t)"
  let ?P1 = "\<lambda>x. if (x = fL ?h t \<or> x = fR ?h t) \<and> x \<noteq> nil then g else fP ?h x"
  let ?s = "Node l (g # ys) rr"
  have gh: "g \<notin> set (heads l)" "g \<notin> set (heads rr)" "g \<noteq> fL ?h t" "g \<noteq> fR ?h t"
    using gn sub Lt by blast+
  have l: "ftree ?L1 ?R1 ?P1 g (fL ?h t) l"
    by (rule ftree_reparent [OF n(8) dj(3)]) (use Lt gh dj(5) ftree_not_nil [OF n(8)] n(8) in \<open>cases l; auto\<close>)+
  have r: "ftree ?L1 ?R1 ?P1 g (fR ?h t) rr"
    by (rule ftree_reparent [OF n(9) dj(4)]) (use Lt gh dj(5) ftree_not_nil [OF n(9)] n(9) in \<open>cases rr; auto\<close>)+
  have "ftree (\<lambda>x. if x = q \<and> q \<noteq> nil \<and> ?L1 q = t then g else ?L1 x) (\<lambda>x. if x = q \<and> q \<noteq> nil \<and> ?L1 q \<noteq> t then g else ?R1 x)
    (\<lambda>x. if x = g \<and> g \<noteq> nil then q else ?P1 x) nil (if q = nil then g else ?r) (repl t ?s tr)"
  proof (rule graft [OF fd(1,9) t q_def])
    show "\<forall>x \<in> set (heads tr) - set (heads (subtree t tr)). ?L1 x = fL ?h x \<and> ?R1 x = fR ?h x \<and> ?P1 x = fP ?h x"
      using gn(1) Lt n(1) by auto
    show "ftree ?L1 ?R1 ?P1 (?P1 g) g ?s" using l r gn(4) by simp
    show "distinct (heads ?s)" using dj gh by auto
    show "set (heads ?s) \<inter> (set (heads tr) - set (heads (subtree t tr))) = {}" using n(1) gn(1) by auto
    show "q \<notin> set (heads ?s)" using dj gn n(10) q_def by auto
  qed
  moreover have qg: "q \<noteq> g" using n(10) gn q_def by auto
  then have "fL ?h5 = (\<lambda>x. if x = q \<and> q \<noteq> nil \<and> ?L1 q = t then g else ?L1 x)"
    "fR ?h5 = (\<lambda>x. if x = q \<and> q \<noteq> nil \<and> ?L1 q \<noteq> t then g else ?R1 x)"
    "fP ?h5 = (\<lambda>x. if x = g \<and> g \<noteq> nil then q else ?P1 x)"
    using gh gn(4) by (auto simp: fun_eq_iff)
  ultimately have tree: "ftree (fL ?h5) (fR ?h5) (fP ?h5) nil r' (repl t ?s tr)" by (simp only: r'_def)
  have io: "inorder (repl t ?s tr) = (us @ inorder l) @ (if xs = [t] then [] else [remove1 t xs]) @ (inorder rr @ vs)"
    using n(3) xs by simp
  have "free_tree ?h5 r' (repl t ?s tr) \<and> nodes (repl t ?s tr) = nodes tr - {t}"
  proof (rule del_tree [OF ft n(2) \<open>t \<in> set xs\<close> io tree d5])
    show "fS ?h5 = fS ?h" by simp
    show "fF ?h5 y = fF ?h y \<and> fV ?h5 y = fV ?h y" if "y \<notin> set xs" for y
      using that unl(2) xs by auto
    show "ring (fF ?h5) (fV ?h5) (remove1 t xs)" using unl(1) by simp
    fix zs y assume y: "zs \<in> set (inorder tr)" "y \<in> set (tl zs)" "y \<notin> set (heads (repl t ?s tr))"
    then have "y \<notin> set (heads tr)" unfolding heads_def using head_not_tail [OF fd(3,7) _ y(1,2)] by blast
    moreover have "y \<noteq> g" using y(3) n(3) by (auto simp: heads_def)
    ultimately show "fP ?h5 y = fP ?h y" using Lt sub by auto
  qed
  moreover have "only (nodes tr) ?h ?h5"
  proof (rule onlyI [OF d5])
    fix x assume "x \<notin> nodes tr"
    then have "x \<noteq> g" "x \<noteq> fV ?h t" "fL ?h t = nil \<or> x \<noteq> fL ?h t" "fR ?h t = nil \<or> x \<noteq> fR ?h t" "q = nil \<or> x \<noteq> q"
      using gn(2) vt(2) Lt sub fd(8) n(10) q_def by blast+
    then show "?h5 x = ?h x" by (auto simp: other_upd other_NK)
  qed simp_all
  ultimately show ?thesis using run unfolding gone_def by blast
qed

text \<open>The last step for a tree node without others of its size: \<open>s\<close> at \<open>rp\<close> takes its place.\<close>

lemma lone_final:
  assumes ft: "free_tree h (p_root p) tr" and t: "t \<in> set (heads tr)" and p: "p_hdr p = h"
    and n: "inorder tr = (us @ inorder l) @ [t] # (inorder rr @ vs)" "\<And>s. inorder (repl t s tr) = us @ inorder s @ vs"
    and h1: "only (nodes tr) h h1" "fF h1 = fF h" "fV h1 = fV h" "fP h1 t = fP h t" "\<And>x. x \<notin> set (heads tr) \<Longrightarrow> fP h1 x = fP h x"
      "\<forall>x \<in> set (heads tr) - set (heads (subtree t tr)). fL h1 x = fL h x \<and> fR h1 x = fR h x \<and> fP h1 x = fP h x"
    and s: "ftree (fL h1) (fR h1) (fP h1) q1 rp s" "distinct (heads s)" "set (heads s) \<subseteq> set (heads (subtree t tr))"
      "inorder s = inorder l @ inorder rr"
  shows "\<exists>h' r tr'. pbind (getb t) (\<lambda>b. let q = b_parent b in pseq [relink q t rp, pwhen (rp \<noteq> nil) (set_parent rp q)])
      (p\<lparr>p_hdr := h1\<rparr>) = Some ((), p\<lparr>p_hdr := h', p_root := r\<rparr>) \<and> free_tree h' r tr' \<and>
      nodes tr' = nodes tr - {t} \<and> only (nodes tr) h h'"
proof -
  note fd = free_treeD [OF ft]
  define q where "q = fP h t"
  have q: "q = nil \<or> q \<in> set (heads tr)" "q \<notin> set (heads (subtree t tr))"
    using head_facts [OF ft t] q_def by metis+
  define h2 where "h2 = hN rp q (hK q t rp h1)"
  define r where "r = (if q = nil then rp else p_root p)"
  have d1: "dom h1 = dom h" "fS h1 = fS h" "fM h1 = fM h" "\<And>x. x \<notin> nodes tr \<Longrightarrow> h1 x = h x" using h1(1) by (auto simp: only_def)
  have td: "t \<in> dom h" "t \<in> nodes tr" using sub_dom [OF ft t] by auto
  have qd: "q = nil \<or> q \<in> dom h1 \<and> q \<in> nodes tr" using q sub_dom [OF ft] d1 by auto
  have sh: "set (heads s) \<subseteq> set (heads tr)" using s(3) subtree_heads [of t tr] by blast
  have rs: "rp = nil \<or> rp \<in> set (heads s)" using s(1) by (cases s) auto
  then have rd: "rp = nil \<or> rp \<in> dom h1 \<and> rp \<in> nodes tr" using sh sub_dom [OF ft] d1 by auto
  have dk: "dom (hK q t rp h1) = dom h1" using qd by (intro dom_NK) auto
  then have d2: "dom h2 = dom h" using rd d1 unfolding h2_def by (subst dom_NK) auto
  have 1: "relink q t rp (p\<lparr>p_hdr := h1\<rparr>) = Some ((), p\<lparr>p_hdr := hK q t rp h1, p_root := r\<rparr>)"
    using relink_run [of q "p\<lparr>p_hdr := h1\<rparr>" t rp] qd by (cases "q = nil"; simp add: r_def)
  have "rp = nil \<or> rp \<in> dom (hK q t rp h1)" using rd dk by blast
  then have 2: "pwhen (rp \<noteq> nil) (set_parent rp q) (p\<lparr>p_hdr := hK q t rp h1, p_root := r\<rparr>) = Some ((), p\<lparr>p_hdr := h2, p_root := r\<rparr>)"
    using parent_run [of rp "p\<lparr>p_hdr := hK q t rp h1, p_root := r\<rparr>" q] by (simp add: h2_def)
  have "pseq [relink q t rp, pwhen (rp \<noteq> nil) (set_parent rp q)] (p\<lparr>p_hdr := h1\<rparr>) = Some ((), p\<lparr>p_hdr := h2, p_root := r\<rparr>)"
    using 1 2 by (simp only: pseq_run)
  moreover have "b_parent (gb h1 t) = q" using h1(4) by (simp add: fP_def q_def)
  ultimately have run: "pbind (getb t) (\<lambda>b. let q = b_parent b in pseq [relink q t rp, pwhen (rp \<noteq> nil) (set_parent rp q)])
      (p\<lparr>p_hdr := h1\<rparr>) = Some ((), p\<lparr>p_hdr := h2, p_root := r\<rparr>)"
    by (subst getb_run) (simp_all add: Let_def d1 td del: domIff)
  have "ftree (\<lambda>x. if x = q \<and> q \<noteq> nil \<and> fL h1 q = t then rp else fL h1 x) (\<lambda>x. if x = q \<and> q \<noteq> nil \<and> fL h1 q \<noteq> t then rp else fR h1 x)
    (\<lambda>x. if x = rp \<and> rp \<noteq> nil then q else fP h1 x) nil (if q = nil then rp else p_root p) (repl t s tr)"
    by (rule graft [OF fd(1,9) t q_def h1(6) s(1,2)]) (use s(3) q in auto)
  then have tree: "ftree (fL h2) (fR h2) (fP h2) nil r (repl t s tr)" by (simp only: h2_def r_def field_N field_K)
  have io: "inorder (repl t s tr) = (us @ inorder l) @ (if [t] = [t] then [] else [remove1 t [t]]) @ (inorder rr @ vs)"
    using n(2) s(4) by simp
  have "free_tree h2 r (repl t s tr) \<and> nodes (repl t s tr) = nodes tr - {t}"
  proof (rule del_tree [OF ft n(1) _ io tree d2])
    fix zs y assume y: "zs \<in> set (inorder tr)" "y \<in> set (tl zs)" "y \<notin> set (heads (repl t s tr))"
    then have "y \<notin> set (heads tr)" unfolding heads_def using head_not_tail [OF fd(3,7) _ y(1,2)] by blast
    then show "fP h2 y = fP h y" using rs sh h1(5) by (auto simp: h2_def)
  qed (use d1 h1 in \<open>auto simp: h2_def\<close>)
  moreover have "only (nodes tr) h h2"
  proof (rule onlyI [OF d2])
    fix x assume "x \<notin> nodes tr"
    then have "rp = nil \<or> x \<noteq> rp" "q = nil \<or> x \<noteq> q" "h1 x = h x" using rd qd d1 by auto
    then show "h2 x = h x" by (auto simp: h2_def other_NK)
  qed (use d1 in \<open>simp_all add: h2_def\<close>)
  ultimately show ?thesis using run by blast
qed

lemma field_getb:
  "b_left (gb h a) = fL h a" "b_right (gb h a) = fR h a" "b_parent (gb h a) = fP h a" "b_fwd (gb h a) = fF h a"
  "b_prev (gb h a) = fV h a" "b_size (gb h a) = fS h a" "b_magic (gb h a) = fM h a"
  by (simp_all add: fields)

lemma head_finite: "set (heads t) \<noteq> {} \<longleftrightarrow> t \<noteq> Leaf"
  by (cases t) auto

text \<open>The move of the leftmost node of the right subtree: what \<open>pooldel_two\<close> leaves.\<close>

lemma pooldel_two_case:
  assumes ft: "free_tree h (p_root p) tr" and p: "p_hdr p = h" and t: "t \<in> set (heads tr)"
    and n: "subtree t tr = Node l xs rr" "l \<noteq> Leaf" "rr \<noteq> Leaf"
  shows "\<exists>h1 rp s q1. pooldel_two t p = Some (rp, p\<lparr>p_hdr := h1\<rparr>) \<and> only (nodes tr) h h1 \<and> fF h1 = fF h \<and> fV h1 = fV h \<and>
    fP h1 t = fP h t \<and> (\<forall>x. x \<notin> set (heads tr) \<longrightarrow> fP h1 x = fP h x) \<and>
    (\<forall>x \<in> set (heads tr) - set (heads (subtree t tr)). fL h1 x = fL h x \<and> fR h1 x = fR h x \<and> fP h1 x = fP h x) \<and>
    ftree (fL h1) (fR h1) (fP h1) q1 rp s \<and> distinct (heads s) \<and> set (heads s) \<subseteq> set (heads (subtree t tr)) \<and>
    inorder s = inorder l @ inorder rr"
proof -
  note fd = free_treeD [OF ft]
  from head_facts [OF ft t] n have lr: "ftree (fL h) (fR h) (fP h) t (fL h t) l" "ftree (fL h) (fR h) (fP h) t (fR h t) rr"
      "distinct (heads l)" "distinct (heads rr)" "t \<notin> set (heads l)" "t \<notin> set (heads rr)" "set (heads l) \<inter> set (heads rr) = {}"
    by (metis tree.inject, metis tree.inject, metis heads_simps(2) distinct_append, metis heads_simps(2) distinct_append distinct.simps(2),
      (metis heads_simps(2) subtree_hd t distinct_append distinct.simps(2) disjoint_insert(1) list.simps(15))+) 
  have hsub: "set (heads l) \<subseteq> set (heads tr)" "set (heads rr) \<subseteq> set (heads tr)" "set (heads (subtree t tr)) = insert t (set (heads l) \<union> set (heads rr))"
    using subtree_heads [of t tr] n(1) subtree_hd [OF t n(1)] by auto
  have rd: "set (heads rr) \<subseteq> dom h" using hsub sub_dom [OF ft] by blast
  define L where "L = fL h t"
  define R where "R = fR h t"
  have L: "L \<in> set (heads l)" "L \<noteq> nil" "R \<in> set (heads rr)" "R \<noteq> nil"
    using lr(1,2) n(2,3) by (cases l; cases rr; auto simp: L_def R_def)+
  obtain m ms rm zs where m: "leftmost h t R = Some (fP h m, m)" "m \<in> set (heads rr)" "subtree m rr = Node Leaf ms rm"
      "inorder rr = ms # inorder rm @ zs" "\<And>s. inorder (repl m s rr) = inorder s @ zs"
      "m = R \<and> (\<exists>xs r. rr = Node Leaf xs r) \<or> m \<noteq> R \<and> fP h m \<in> set (heads rr) \<and> fL h (fP h m) = m"
    using leftmost_ftree [OF lr(2) n(3) rd lr(4)] R_def by auto
  define f where "f = fP h m"
  have dm: "t \<in> dom h" "L \<in> dom h" "R \<in> dom h" "m \<in> dom h" "t \<in> nodes tr" "L \<in> nodes tr" "R \<in> nodes tr" "m \<in> nodes tr"
    using t L m hsub sub_dom [OF ft] by blast+
  have ne: "m \<noteq> t" "m \<noteq> L" "R \<noteq> L" "t \<noteq> L" "t \<noteq> R" using lr m L by auto
  have run_last: "pbind (getb t) (\<lambda>b. let s = b_left b in pseq [set_left m s, set_parent s m]) (p\<lparr>p_hdr := k\<rparr>)
      = Some ((), p\<lparr>p_hdr := hP L m (hL m L k)\<rparr>)" if k: "dom k = dom h" "fL k t = L" for k
  proof -
    have "set_left m L (p\<lparr>p_hdr := k\<rparr>) = Some ((), p\<lparr>p_hdr := hL m L k\<rparr>)"
      using set_run(1) [of m "p\<lparr>p_hdr := k\<rparr>"] dm k by (simp del: domIff)
    moreover have "set_parent L m (p\<lparr>p_hdr := hL m L k\<rparr>) = Some ((), p\<lparr>p_hdr := hP L m (hL m L k)\<rparr>)"
      using set_run(3) [of L "p\<lparr>p_hdr := hL m L k\<rparr>"] dm k by (simp add: dom_upd del: domIff)
    ultimately have "pseq [set_left m L, set_parent L m] (p\<lparr>p_hdr := k\<rparr>) = Some ((), p\<lparr>p_hdr := hP L m (hL m L k)\<rparr>)"
      by (simp only: pseq_run)
    then show ?thesis using k dm by (subst getb_run) (simp_all add: field_getb Let_def del: domIff)
  qed
  have ph: "p\<lparr>p_hdr := h\<rparr> = p" using p by auto
  let ?A = "pbind (getb m) (\<lambda>x. let s = b_right x in pseq [set_left f s, pwhen (s \<noteq> nil) (set_parent s f)])"
  let ?B = "pbind (getb t) (\<lambda>b. let s = b_right b in pseq [set_right m s, pwhen (s \<noteq> nil) (set_parent s m)])"
  let ?C = "pbind (getb t) (\<lambda>b. let s = b_left b in pseq [set_left m s, set_parent s m])"
  have run0: "pooldel_two t p = pbind (pseq [pwhen (f \<noteq> t) (pseq [?A, ?B]), ?C]) (\<lambda>_. pret m) p"
    using dm m(1) p by (simp add: pooldel_two_def getb_run pget_run field_getb R_def [symmetric] f_def del: domIff)
  show ?thesis
  proof (cases "m = R")
    case True
    then obtain ys r1 where rr: "rr = Node Leaf ys r1" using m(6) by auto
    have pR: "fP h R = t" "hd ys = R" "fL h R = nil" using lr(2) rr by (auto simp: R_def)
    have f: "f = t" using True pR by (simp add: f_def)
    let ?h1 = "hP L m (hL m L h)" and ?s = "Node l ys r1"
    have "pooldel_two t p = Some (m, p\<lparr>p_hdr := ?h1\<rparr>)"
    proof -
      have "pwhen (f \<noteq> t) (pseq [?A, ?B]) p = Some ((), p)" using f by (simp add: pwhen_def pret_def)
      moreover have "?C p = Some ((), p\<lparr>p_hdr := ?h1\<rparr>)" by (rule run_last [OF refl L_def [symmetric], unfolded ph])
      ultimately have "pseq [pwhen (f \<noteq> t) (pseq [?A, ?B]), ?C] p = Some ((), p\<lparr>p_hdr := ?h1\<rparr>)" by (simp only: pseq_run)
      then show ?thesis unfolding run0 by (subst bind_run) (assumption, simp add: pret_def)
    qed
    moreover have d1: "dom ?h1 = dom h" using dm by (simp only: dom_upd)
    have "only (nodes tr) h ?h1"
    proof (rule onlyI [OF d1])
      fix x assume "x \<notin> nodes tr"
      then have "x \<noteq> L" "x \<noteq> m" using dm by auto
      then show "?h1 x = h x" by (simp add: other_upd)
    qed simp_all
    moreover have "ftree (fL ?h1) (fR ?h1) (fP ?h1) t m ?s"
    proof -
      have "ftree (fL ?h1) (fR ?h1) (fP ?h1) m L l"
        by (rule ftree_reparent [OF lr(1)[folded L_def] lr(3)]) (use m lr in auto)
      moreover have "ftree (fL ?h1) (fR ?h1) (fP ?h1) m (fR h m) r1 \<longleftrightarrow> ftree (fL h) (fR h) (fP h) m (fR h m) r1"
        by (rule ftree_cong) (use rr m lr L True R_def in auto)
      ultimately show ?thesis using lr(2) rr True ne by (auto simp: R_def)
    qed
    ultimately show ?thesis
      using ne m L lr hsub rr by (intro exI [of _ ?h1] exI [of _ m] exI [of _ ?s] exI [of _ t]) auto
  next
    case False
    then have f: "f \<in> set (heads rr)" "fL h f = m" using m(6) by (auto simp: f_def)
    define M where "M = fR h m"
    have sm: "ftree (fL h) (fR h) (fP h) f m (Node Leaf ms rm)" "set (heads rm) \<subseteq> set (heads rr)"
      using subtree_ftree [OF lr(2) m(2)] subtree_heads [of m rr] m(3) by (auto simp: f_def)
    have M: "M = nil \<or> M \<in> set (heads rm)" "ftree (fL h) (fR h) (fP h) m M rm" "hd ms = m" "rm \<noteq> Leaf \<longrightarrow> M \<noteq> nil"
      using sm(1) by (cases rm; auto simp: M_def)+
    have hr: "heads rr = m # heads rm @ map hd zs" using m(4) M(3) by (simp add: heads_def)
    have fm: "f \<notin> set (heads (subtree m rr))" unfolding f_def
      by (rule subtree_parent [OF lr(2,4,6) m(2)])
    have ne2: "f \<noteq> t" "f \<noteq> L" "f \<noteq> m" "f \<noteq> M" "M \<noteq> m" "M \<noteq> R \<or> M = nil" "M \<noteq> t \<or> M = nil" "M \<noteq> L \<or> M = nil"
    proof -
      have nn: "f \<noteq> nil" "m \<noteq> nil" using f(1) m(2) ftree_not_nil [OF lr(2)] by metis+
      have fm': "f \<noteq> m" "f \<notin> set (heads rm)" "m \<notin> set (heads rm)" using fm m(3) M(3) hr lr(4) by auto
      show "f \<noteq> t" "f \<noteq> L" using f lr L by blast+
      show "f \<noteq> m" "f \<noteq> M" "M \<noteq> m" using fm' nn M(1) by metis+
      have "R \<notin> set (heads rm)"
      proof
        assume R: "R \<in> set (heads rm)"
        have "fP h R = t" using lr(2) n(3) by (cases rr) (auto simp: R_def)
        then show False using ftree_parent [OF M(2) R] sm(2) lr(6) ne(1) by auto
      qed
      then show "M \<noteq> R \<or> M = nil" "M \<noteq> t \<or> M = nil" "M \<noteq> L \<or> M = nil" using M(1) sm(2) lr L by auto
    qed
    have fd': "f \<in> dom h" "f \<in> nodes tr" "M = nil \<or> M \<in> dom h \<and> M \<in> nodes tr"
      using f M(1) sm(2) hsub(2) sub_dom [OF ft] by blast+
    let ?h2 = "hN M f (hL f M h)"
    let ?h3 = "hN R m (hR m R ?h2)"
    let ?h1 = "hP L m (hL m L ?h3)" and ?s = "Node l ms (repl m rm rr)"
    have d2: "dom ?h2 = dom h" using fd' by (subst dom_NK) (auto simp: dom_upd simp del: domIff)
    have d3: "dom ?h3 = dom h" using dm d2 by (subst dom_NK) (simp_all add: dom_upd del: domIff)
    have d1: "dom ?h1 = dom h" using dm d3 by (simp add: dom_upd del: domIff)
    have run: "pooldel_two t p = Some (m, p\<lparr>p_hdr := ?h1\<rparr>)"
    proof -
      have A: "?A p = Some ((), p\<lparr>p_hdr := ?h2\<rparr>)"
        using adopt_run(1) [of f p M] dm fd' p by (subst getb_run) (auto simp: field_getb M_def Let_def simp del: domIff)
      have "fR ?h2 t = R" by (simp add: R_def)
      then have B: "?B (p\<lparr>p_hdr := ?h2\<rparr>) = Some ((), p\<lparr>p_hdr := ?h3\<rparr>)"
        using adopt_run(2) [of m "p\<lparr>p_hdr := ?h2\<rparr>" R] dm d2 by (subst getb_run) (auto simp: field_getb Let_def simp del: domIff)
      have "fL ?h3 t = L" using ne2 by (simp add: L_def)
      then have C: "?C (p\<lparr>p_hdr := ?h3\<rparr>) = Some ((), p\<lparr>p_hdr := ?h1\<rparr>)" by (rule run_last [OF d3])
      have "pseq [?A, ?B] p = Some ((), p\<lparr>p_hdr := ?h3\<rparr>)" using A B by (simp only: pseq_run)
      then have "pwhen (f \<noteq> t) (pseq [?A, ?B]) p = Some ((), p\<lparr>p_hdr := ?h3\<rparr>)" using ne2 by (simp add: pwhen_def)
      then have "pseq [pwhen (f \<noteq> t) (pseq [?A, ?B]), ?C] p = Some ((), p\<lparr>p_hdr := ?h1\<rparr>)" using C by (simp only: pseq_run)
      then show ?thesis unfolding run0 by (subst bind_run) (assumption, simp add: pret_def)
    qed
    have tr': "ftree ((fL h)(f := M)) (fR h) (\<lambda>x. if x = M \<and> M \<noteq> nil then f else fP h x) t (if R = m then M else R) (repl m rm rr)"
    proof (rule ftree_repl [OF lr(2)[folded R_def] lr(4) m(2)])
      show "\<forall>x \<in> set (heads rr) - set (heads (subtree m rr)). (if x = M \<and> M \<noteq> nil then f else fP h x) = fP h x \<and>
        ((fL h)(f := M)) x = (if x = fP h m \<and> fL h x = m then M else fL h x) \<and>
        fR h x = (if x = fP h m \<and> fL h x \<noteq> m then M else fR h x)"
        using f M(1) m(3) f_def by auto
      show "ftree ((fL h)(f := M)) (fR h) (\<lambda>x. if x = M \<and> M \<noteq> nil then f else fP h x) (fP h m) M rm"
        by (rule ftree_reparent [OF M(2)]) (use hr lr(4) fm m(3) M ftree_not_nil [OF M(2)] in \<open>auto simp: f_def\<close>)
    qed
    have tr2: "ftree ((fL h)(f := M)) (fR h) (\<lambda>x. if x = M \<and> M \<noteq> nil then f else fP h x) t R (repl m rm rr)"
      using tr' False by auto
    have hd': "set (heads (repl m rm rr)) = set (heads rr) - {m}" "distinct (heads (repl m rm rr))"
      using m(5) [of rm] hr lr(4) by (auto simp: heads_def)
    have "ftree (fL ?h1) (fR ?h1) (fP ?h1) m L l"
      by (rule ftree_reparent [OF lr(1)[folded L_def] lr(3)]) (use m lr L ne ne2 f M sm(2) in auto)
    moreover have "ftree (fL ?h1) (fR ?h1) (fP ?h1) m R (repl m rm rr)"
      by (rule ftree_reparent [OF tr2 hd'(2)])
        (use hd' L(3) lr(7) L ne ne2 in auto)
    moreover have "fP ?h1 m = f" "fL ?h1 m = L" "fR ?h1 m = R" using ne ne2 False by (auto simp: f_def)
    moreover have "ms \<noteq> []" "m = hd ms" "m \<noteq> nil" using sm(1) by auto
    ultimately have tree: "ftree (fL ?h1) (fR ?h1) (fP ?h1) f m ?s"
      by (simp only: ftree.simps not_False_eq_True simp_thms)
    have only: "only (nodes tr) h ?h1"
    proof (rule onlyI [OF d1])
      fix x assume "x \<notin> nodes tr"
      then have "x \<noteq> L" "x \<noteq> m" "x \<noteq> R" "x \<noteq> f" "M = nil \<or> x \<noteq> M" using dm fd' by auto
      then show "?h1 x = h x" by (auto simp: other_upd other_NK)
    qed simp_all
    have "\<forall>x. x \<notin> set (heads tr) \<longrightarrow> fP ?h1 x = fP h x" using L M(1) sm(2) hsub by auto
    moreover have "fP ?h1 t = fP h t" using ne ne2 by auto
    moreover have "\<forall>x \<in> set (heads tr) - set (heads (subtree t tr)). fL ?h1 x = fL h x \<and> fR ?h1 x = fR h x \<and> fP ?h1 x = fP h x"
      using L M(1) sm(2) hsub f m(2) by auto
    moreover have "distinct (heads ?s)" "set (heads ?s) \<subseteq> set (heads (subtree t tr))"
      using hd' lr M(3) hsub m(2) by auto
    moreover have "inorder ?s = inorder l @ inorder rr" using m(4) m(5) [of rm] by simp
    moreover have "fF ?h1 = fF h" "fV ?h1 = fV h" by simp_all
    ultimately show ?thesis using run tree only by blast
  qed
qed

lemma pooldel_lone_case:
  assumes ft: "free_tree (p_hdr p) (p_root p) tr" and t: "t \<in> set (heads tr)" and f: "fF (p_hdr p) t = t"
  shows "gone t p tr"
proof -
  define h where "h = p_hdr p"
  note ft = ft[folded h_def]
  note fd = free_treeD [OF ft]
  from head_facts [OF ft t] obtain l xs rr us vs where n: "subtree t tr = Node l xs rr"
      "inorder tr = (us @ inorder l) @ xs # (inorder rr @ vs)"
      "\<And>s. inorder (repl t s tr) = us @ inorder s @ vs" "hd xs = t" "xs \<noteq> []" "ring (fF h) (fV h) xs" "distinct xs"
      "ftree (fL h) (fR h) (fP h) t (fL h t) l" "ftree (fL h) (fR h) (fP h) t (fR h t) rr"
      "distinct (heads (subtree t tr))" "fP h t = nil \<longleftrightarrow> p_root p = t" by metis
  have xs: "xs = [t]"
  proof (rule ccontr)
    assume "xs \<noteq> [t]"
    then show False using ring_unlink(5) [OF n(6,7), of t] n(4,5) f h_def by (metis list.set_sel(1))
  qed
  let ?D = "\<lambda>rp. pbind (getb t) (\<lambda>b. let q = b_parent b in pseq [relink q t rp, pwhen (rp \<noteq> nil) (set_parent rp q)])"
  let ?G = "if fL h t = nil then pret (fR h t) else if fR h t = nil then pret (fL h t) else pooldel_two t"
  have td: "t \<in> dom h" using sub_dom [OF ft t] by auto
  have run: "pooldel t p = pbind ?G ?D p"
    using td f n(11) unfolding pooldel_def by (simp add: getb_run pget_run field_getb h_def [symmetric] del: domIff)
  have nl: "fL h t = nil \<longleftrightarrow> l = Leaf" "fR h t = nil \<longleftrightarrow> rr = Leaf"
    using n(8,9) by (cases l; cases rr; auto)+
  have "\<exists>h1 rp s q1. ?G p = Some (rp, p\<lparr>p_hdr := h1\<rparr>) \<and> only (nodes tr) h h1 \<and> fF h1 = fF h \<and> fV h1 = fV h \<and>
    fP h1 t = fP h t \<and> (\<forall>x. x \<notin> set (heads tr) \<longrightarrow> fP h1 x = fP h x) \<and>
    (\<forall>x \<in> set (heads tr) - set (heads (subtree t tr)). fL h1 x = fL h x \<and> fR h1 x = fR h x \<and> fP h1 x = fP h x) \<and>
    ftree (fL h1) (fR h1) (fP h1) q1 rp s \<and> distinct (heads s) \<and> set (heads s) \<subseteq> set (heads (subtree t tr)) \<and>
    inorder s = inorder l @ inorder rr" (is "\<exists>h1 rp s q1. ?Q h1 rp s q1")
  proof -
    have ph: "p\<lparr>p_hdr := h\<rparr> = p" by (simp add: h_def)
    have o: "only (nodes tr) h h" by (simp add: only_def)
    consider "l = Leaf" | "l \<noteq> Leaf" "rr = Leaf" | "l \<noteq> Leaf" "rr \<noteq> Leaf" by blast
    then show ?thesis
    proof cases
      case 1
      then have "?Q h (fR h t) rr t" using n(1,9,10) nl o ph by (simp add: pret_def subset_insertI)
      then show ?thesis by blast
    next
      case 2
      then have "?Q h (fL h t) l t" using n(1,8,10) nl o ph by (simp add: pret_def subset_insertI)
      then show ?thesis by blast
    next
      case 3
      then have "?G = pooldel_two t" using nl by simp
      then show ?thesis using pooldel_two_case [OF ft h_def [symmetric] t n(1) 3] by simp
    qed
  qed
  then obtain h1 rp s q1 where g: "?Q h1 rp s q1" by blast
  then have "pooldel t p = ?D rp (p\<lparr>p_hdr := h1\<rparr>)" unfolding run by (simp add: bind_run)
  moreover have "\<exists>h' r tr'. ?D rp (p\<lparr>p_hdr := h1\<rparr>) = Some ((), p\<lparr>p_hdr := h', p_root := r\<rparr>) \<and> free_tree h' r tr' \<and>
      nodes tr' = nodes tr - {t} \<and> only (nodes tr) h h'"
    by (rule lone_final [OF ft t h_def [symmetric] n(2)[unfolded xs] n(3)]) (use g in blast)+
  ultimately show ?thesis unfolding gone_def h_def by simp
qed

lemma pooldel_gone:
  assumes "free_tree (p_hdr p) (p_root p) tr" "t \<in> nodes tr"
  shows "gone t p tr"
  using pooldel_member [OF assms] pooldel_ring_case [OF assms(1), of t] pooldel_lone_case [OF assms(1), of t] by blast

section \<open>Adding a block\<close>

fun ins_leaf :: "(addr \<Rightarrow> u32) \<Rightarrow> u32 \<Rightarrow> addr \<Rightarrow> addr list tree \<Rightarrow> addr list tree" where
  "ins_leaf S sz q Leaf = Node Leaf [q] Leaf"
| "ins_leaf S sz q (Node l xs r) =
    (if sz < S (hd xs) then Node (ins_leaf S sz q l) xs r else Node l xs (ins_leaf S sz q r))"

lemma ins_leaf_inorder: "\<exists>us vs. inorder tr = us @ vs \<and> inorder (ins_leaf S sz q tr) = us @ [q] # vs"
proof (induction tr)
  case (Node l xs r)
  then obtain u1 v1 u2 v2 where "inorder l = u1 @ v1" "inorder (ins_leaf S sz q l) = u1 @ [q] # v1"
      "inorder r = u2 @ v2" "inorder (ins_leaf S sz q r) = u2 @ [q] # v2" by auto
  then show ?case
    by (cases "sz < S (hd xs)") (auto intro: exI [of _ u1] exI [of _ "inorder l @ xs # u2"])
qed simp

lemma ins_leaf_heads: "set (heads (ins_leaf S sz q tr)) = insert q (set (heads tr))"
  by (induction tr) auto

lemma ins_leaf_sorted:
  "sorted_wrt (<) (map S (heads tr)) \<Longrightarrow> S q = sz \<Longrightarrow> sz \<notin> S ` set (heads tr) \<Longrightarrow>
    sorted_wrt (<) (map S (heads (ins_leaf S sz q tr)))"
  by (induction tr) (auto simp: sorted_wrt_append ins_leaf_heads)

lemma findplace_ftree:
  assumes "ftree (fL h) (fR h) (fP h) q0 a tr" "set (heads tr) \<subseteq> dom h" "distinct (heads tr)"
    "sorted_wrt (<) (map (fS h) (heads tr))"
  shows "(\<exists>t. findplace h sz q0 a = Some (Same t) \<and> t \<in> set (heads tr) \<and> fS h t = sz) \<or>
    (\<exists>b. findplace h sz q0 a = Some (Below b) \<and> sz \<notin> fS h ` set (heads tr) \<and> (tr \<noteq> Leaf \<longrightarrow> b \<in> set (heads tr)) \<and> (tr = Leaf \<longrightarrow> b = q0) \<and>
      (\<forall>L' R' P' q. q \<notin> set (heads tr) \<longrightarrow> q \<noteq> nil \<longrightarrow> L' q = nil \<longrightarrow> R' q = nil \<longrightarrow> P' q = b \<longrightarrow>
        (\<forall>x \<in> set (heads tr). P' x = fP h x \<and> L' x = (if x = b \<and> sz < fS h b then q else fL h x) \<and>
          R' x = (if x = b \<and> \<not> sz < fS h b then q else fR h x)) \<longrightarrow>
        ftree L' R' P' q0 (if tr = Leaf then q else a) (ins_leaf (fS h) sz q tr)))"
    (is "?Same a q0 tr \<or> (\<exists>b. ?Below a q0 tr b)")
  using assms
proof (induction tr arbitrary: q0 a)
  case Leaf
  then show ?case by (simp add: findplace.simps)
next
  case (Node l xs r)
  have a: "a = hd xs" "a \<noteq> nil" "fP h a = q0" "a \<in> dom h" "ftree (fL h) (fR h) (fP h) a (fL h a) l" "ftree (fL h) (fR h) (fP h) a (fR h a) r"
    "xs \<noteq> []" using Node.prems by auto
  then obtain b where b: "h a = Some b" by auto
  have gb: "gb h a = b" by (simp add: gb_def b)
  have d: "distinct (heads l)" "distinct (heads r)" "a \<notin> set (heads l)" "a \<notin> set (heads r)"
      "set (heads l) \<inter> set (heads r) = {}" using Node.prems(3) a(1) by auto
  have st: "sorted_wrt (<) (map (fS h) (heads l))" "sorted_wrt (<) (map (fS h) (heads r))"
    "\<forall>x \<in> set (heads l). fS h x < fS h a" "\<forall>x \<in> set (heads r). fS h a < fS h x"
    using Node.prems(4) a(1) by (auto simp: sorted_wrt_append)
  have fp: "findplace h sz q0 a = (if sz = fS h a then Some (Same a) else findplace h sz a (if sz < fS h a then fL h a else fR h a))"
    using b a(2) by (subst findplace.simps) (auto simp: fields gb)
  consider "sz = fS h a" | "sz < fS h a" | "fS h a < sz" by fastforce
  then show ?case
  proof cases
    case 1
    then show ?thesis using fp a by auto
  next
    case 2
    then have f: "findplace h sz q0 a = findplace h sz a (fL h a)" using fp by auto
    from Node.IH(1) [OF a(5) _ d(1) st(1)] Node.prems(2) have "?Same (fL h a) a l \<or> (\<exists>b. ?Below (fL h a) a l b)" by auto
    then show ?thesis
    proof (rule disjE)
      assume "?Same (fL h a) a l" then show ?thesis using f by auto
    next
      assume "\<exists>b. ?Below (fL h a) a l b"
      then obtain b where bl: "?Below (fL h a) a l b" by (rule exE)
      have "?Below a q0 (Node l xs r) b"
      proof (intro conjI allI impI)
        show "findplace h sz q0 a = Some (Below b)" using f bl by simp
        show "sz \<notin> fS h ` set (heads (Node l xs r))" using bl 2 st(4) a(1) by auto
        show "b \<in> set (heads (Node l xs r))" using bl a(1) by (cases "l = Leaf") auto
        fix L' R' P' q
        assume q: "q \<notin> set (heads (Node l xs r))" "q \<noteq> nil" "L' q = nil" "R' q = nil" "P' q = b"
          "\<forall>x \<in> set (heads (Node l xs r)). P' x = fP h x \<and> L' x = (if x = b \<and> sz < fS h b then q else fL h x) \<and>
            R' x = (if x = b \<and> \<not> sz < fS h b then q else fR h x)"
        have l: "ftree L' R' P' a (if l = Leaf then q else fL h a) (ins_leaf (fS h) sz q l)"
          using bl q by auto
        have bb: "b = a \<and> l = Leaf \<or> b \<in> set (heads l) \<and> l \<noteq> Leaf" using bl by auto
        have "ftree L' R' P' a (fR h a) r \<longleftrightarrow> ftree (fL h) (fR h) (fP h) a (fR h a) r"
          by (rule ftree_cong) (use q(6) bb d in auto)
        moreover have "L' a = (if l = Leaf then q else fL h a)" "R' a = fR h a" "P' a = q0"
          using q(6) bb d a 2 by auto
        ultimately show "ftree L' R' P' q0 (if Node l xs r = Leaf then q else a) (ins_leaf (fS h) sz q (Node l xs r))"
          using l a 2 by simp
      qed simp
      then show ?thesis by (intro disjI2) (rule exI)
    qed
  next
    case 3
    then have f: "findplace h sz q0 a = findplace h sz a (fR h a)" using fp by auto
    from Node.IH(2) [OF a(6) _ d(2) st(2)] Node.prems(2) have "?Same (fR h a) a r \<or> (\<exists>b. ?Below (fR h a) a r b)" by auto
    then show ?thesis
    proof (rule disjE)
      assume "?Same (fR h a) a r" then show ?thesis using f by auto
    next
      assume "\<exists>b. ?Below (fR h a) a r b"
      then obtain b where bl: "?Below (fR h a) a r b" by (rule exE)
      have "?Below a q0 (Node l xs r) b"
      proof (intro conjI allI impI)
        show "findplace h sz q0 a = Some (Below b)" using f bl by simp
        show "sz \<notin> fS h ` set (heads (Node l xs r))" using bl 3 st(3) a(1) by auto
        show "b \<in> set (heads (Node l xs r))" using bl a(1) by (cases "r = Leaf") auto
        fix L' R' P' q
        assume q: "q \<notin> set (heads (Node l xs r))" "q \<noteq> nil" "L' q = nil" "R' q = nil" "P' q = b"
          "\<forall>x \<in> set (heads (Node l xs r)). P' x = fP h x \<and> L' x = (if x = b \<and> sz < fS h b then q else fL h x) \<and>
            R' x = (if x = b \<and> \<not> sz < fS h b then q else fR h x)"
        have l: "ftree L' R' P' a (if r = Leaf then q else fR h a) (ins_leaf (fS h) sz q r)"
          using bl q by auto
        have bb: "b = a \<and> r = Leaf \<or> b \<in> set (heads r) \<and> r \<noteq> Leaf" using bl by auto
        have "ftree L' R' P' a (fL h a) l \<longleftrightarrow> ftree (fL h) (fR h) (fP h) a (fL h a) l"
          by (rule ftree_cong) (use q(6) bb d in auto)
        moreover have "R' a = (if r = Leaf then q else fR h a)" "L' a = fL h a" "P' a = q0"
          using q(6) bb d a 3 by auto
        ultimately show "ftree L' R' P' q0 (if Node l xs r = Leaf then q else a) (ins_leaf (fS h) sz q (Node l xs r))"
          using l a 3 by auto
      qed simp
      then show ?thesis by (intro disjI2) (rule exI)
    qed
  qed
qed

text \<open>The search for a block to give.\<close>

lemma bestfit_ftree:
  "ftree (fL h) (fR h) (fP h) q0 a tr \<Longrightarrow> set (heads tr) \<subseteq> dom h \<Longrightarrow> sorted_wrt (<) (map (fS h) (heads tr)) \<Longrightarrow>
    (\<exists>t. bestfit h sz q a = Some (Exact t) \<and> t \<in> set (heads tr) \<and> fS h t = sz) \<or>
    (\<exists>t. bestfit h sz q a = Some (Larger t) \<and> t \<in> set (heads tr) \<and> sz < fS h t \<and>
      (\<forall>x \<in> set (heads tr). fS h x < sz \<or> fS h t \<le> fS h x)) \<or>
    bestfit h sz q a = Some (Larger q) \<and> (\<forall>x \<in> set (heads tr). fS h x < sz)"
proof (induction tr arbitrary: q q0 a)
  case Leaf
  then show ?case by (simp add: bestfit.simps)
next
  case (Node l xs r)
  have a: "a = hd xs" "a \<noteq> nil" "a \<in> dom h" "ftree (fL h) (fR h) (fP h) a (fL h a) l" "ftree (fL h) (fR h) (fP h) a (fR h a) r"
    using Node.prems by auto
  then obtain b where b: "h a = Some b" by auto
  have gb: "gb h a = b" by (simp add: gb_def b)
  have st: "sorted_wrt (<) (map (fS h) (heads l))" "sorted_wrt (<) (map (fS h) (heads r))"
    "\<forall>x \<in> set (heads l). fS h x < fS h a" "\<forall>x \<in> set (heads r). fS h a < fS h x"
    using Node.prems(3) a(1) by (auto simp: sorted_wrt_append)
  have bf: "bestfit h sz q a = (if fS h a = sz then Some (Exact a) else if sz < fS h a then bestfit h sz a (fL h a) else bestfit h sz q (fR h a))"
    using b a(2) by (subst bestfit.simps) (auto simp: fields gb)
  consider "sz = fS h a" | "sz < fS h a" | "fS h a < sz" by fastforce
  then show ?case
  proof cases
    case 1
    then show ?thesis using bf a by auto
  next
    case 2
    then have f: "bestfit h sz q a = bestfit h sz a (fL h a)" using bf by auto
    have r: "\<forall>x \<in> set (heads r). fS h y \<le> fS h x" if "fS h y \<le> fS h a" for y using st(4) that by fastforce
    have "set (heads l) \<subseteq> dom h" using Node.prems(2) by simp
    from Node.IH(1) [OF a(4) this st(1), of a] show ?thesis
    proof (elim disjE exE conjE)
      fix t assume t: "bestfit h sz a (fL h a) = Some (Exact t)" "t \<in> set (heads l)" "fS h t = sz"
      then show ?thesis using f by auto
    next
      fix t assume t: "bestfit h sz a (fL h a) = Some (Larger t)" "t \<in> set (heads l)" "sz < fS h t"
        "\<forall>x \<in> set (heads l). fS h x < sz \<or> fS h t \<le> fS h x"
      moreover have "fS h t \<le> fS h a" using st(3) t(2) by (simp add: less_imp_le)
      moreover have "\<forall>x \<in> set (heads r). fS h t \<le> fS h x" using r calculation(5) by blast
      ultimately show ?thesis using f a(1) by auto
    next
      assume t: "bestfit h sz a (fL h a) = Some (Larger a)" "\<forall>x \<in> set (heads l). fS h x < sz"
      moreover have "\<forall>x \<in> set (heads r). fS h a \<le> fS h x" using r by blast
      ultimately show ?thesis using f a(1) 2 by auto
    qed
  next
    case 3
    then have f: "bestfit h sz q a = bestfit h sz q (fR h a)" using bf by auto
    have l: "\<forall>x \<in> set (heads l). fS h x < sz" using st(3) 3 by fastforce
    have "set (heads r) \<subseteq> dom h" using Node.prems(2) by simp
    from Node.IH(2) [OF a(5) this st(2), of q] show ?thesis
      unfolding f using a(1) 3 l by auto
  qed
qed

lemma in_nodes: "xs \<in> set (inorder tr) \<Longrightarrow> y \<in> set xs \<Longrightarrow> y \<in> nodes tr"
  by (auto simp: nodes_def)

lemma free_tree_cong:
  assumes ft: "free_tree h r tr" and d: "dom h \<subseteq> dom h'"
    and same: "\<And>x. x \<in> nodes tr \<Longrightarrow> h' x = h x"
  shows "free_tree h' r tr"
proof -
  note fd = free_treeD [OF ft]
  have v: "fL h' x = fL h x" "fR h' x = fR h x" "fP h' x = fP h x" "fF h' x = fF h x" "fV h' x = fV h x" "fS h' x = fS h x"
    if "x \<in> nodes tr" for x using same [OF that] by (simp_all add: fields gb_def)
  have "ftree (fL h') (fR h') (fP h') nil r tr"
    using fd(1) fd(8) v by (subst ftree_cong [of tr "fL h'" "fL h" "fR h'" "fR h" "fP h'" "fP h"]) auto
  moreover have "rings h' (inorder tr)"
  proof (subst rings_cong [of _ h' h], intro ballI conjI)
    fix xs y assume xs: "xs \<in> set (inorder tr)"
    { assume "y \<in> set xs"
      then have "y \<in> nodes tr" by (rule in_nodes [OF xs])
      then show "fF h' y = fF h y" "fV h' y = fV h y" "fS h' y = fS h y" using v by auto }
    assume "y \<in> set (tl xs)"
    then have "y \<in> set xs" by (cases xs) auto
    then have "y \<in> nodes tr" by (rule in_nodes [OF xs])
    then show "fP h' y = fP h y" using v by auto
  qed (rule fd(2))
  moreover have "map (fS h') (heads tr) = map (fS h) (heads tr)" using fd(8) v by auto
  moreover have "nodes tr \<subseteq> dom h'" using fd(5) d by blast
  ultimately show ?thesis using fd(3,4,6) unfolding free_tree_def by metis
qed

text \<open>The header \<open>q\<close> as \<open>pooladd\<close> sets it up.\<close>

definition hQ :: "addr \<Rightarrow> (addr \<rightharpoonup> Bhdr) \<Rightarrow> addr \<rightharpoonup> Bhdr" where
  "hQ q h = h(q \<mapsto> (gb h q)\<lparr>b_magic := MAGIC_F, b_left := nil, b_right := nil, b_parent := nil, b_fwd := q, b_prev := q\<rparr>)"

lemma field_Q [simp]:
  "fL (hQ q h) = (fL h)(q := nil)" "fR (hQ q h) = (fR h)(q := nil)" "fP (hQ q h) = (fP h)(q := nil)"
  "fF (hQ q h) = (fF h)(q := q)" "fV (hQ q h) = (fV h)(q := q)" "fS (hQ q h) = fS h" "fM (hQ q h) = (fM h)(q := MAGIC_F)"
  "dom (hQ q h) = insert q (dom h)"
  by (auto simp: hQ_def fields gb_def fun_eq_iff split: option.splits)

lemma other_Q: "x \<noteq> q \<Longrightarrow> hQ q h x = h x"
  by (simp add: hQ_def)

definition added :: "addr \<Rightarrow> pool \<Rightarrow> addr list tree \<Rightarrow> bool" where
  "added q p tr \<longleftrightarrow> (\<exists>h r tr'. pooladd q p = Some ((), p\<lparr>p_hdr := h, p_root := r\<rparr>) \<and> free_tree h r tr' \<and>
     nodes tr' = insert q (nodes tr) \<and> only (insert q (nodes tr)) (hQ q (p_hdr p)) h)"

lemma pooladd_run:
  "pooladd q p = pbind (pget p_root) (\<lambda>t.
       if t = nil then set_root q
       else pbind (getb q) (\<lambda>x. pbind (pget p_hdr) (\<lambda>h.
         case findplace h (b_size x) nil t of
           None \<Rightarrow> pfail
         | Some (Same t) \<Rightarrow> pseq [
             pbind (getb t) (\<lambda>b. set_fwd q (b_fwd b)),
             pbind (getb q) (\<lambda>b. set_prev (b_fwd b) q),
             set_prev q t,
             set_fwd t q]
         | Some (Below tp) \<Rightarrow> pseq [
             set_parent q tp,
             pbind (getb tp) (\<lambda>b. if b_size x < b_size b then set_left tp q else set_right tp q)])))
    (p\<lparr>p_hdr := hQ q (p_hdr p)\<rparr>)"
proof -
  have "pseq [pokeb q (\<lambda>b. b\<lparr>b_magic := MAGIC_F, b_left := nil, b_right := nil, b_parent := nil, b_fwd := q, b_prev := q\<rparr>), m] p
      = m (p\<lparr>p_hdr := hQ q (p_hdr p)\<rparr>)" for m
  proof -
    have "pokeb q (\<lambda>b. b\<lparr>b_magic := MAGIC_F, b_left := nil, b_right := nil, b_parent := nil, b_fwd := q, b_prev := q\<rparr>) p
        = Some ((), p\<lparr>p_hdr := hQ q (p_hdr p)\<rparr>)"
      by (simp add: pokeb_def pupd_def hQ_def gb_def)
    then show ?thesis by (simp add: pseq.simps pbind_def pret_def split: option.split)
  qed
  then show ?thesis unfolding pooladd_def by blast
qed

lemma add_same_run:
  assumes "q \<in> dom (p_hdr p)" "t \<in> dom (p_hdr p)" "fF (p_hdr p) t \<in> dom (p_hdr p)"
  shows "pseq [pbind (getb t) (\<lambda>b. set_fwd q (b_fwd b)), pbind (getb q) (\<lambda>b. set_prev (b_fwd b) q), set_prev q t, set_fwd t q] p
    = Some ((), p\<lparr>p_hdr := hF t q (hV q t (hV (fF (p_hdr p) t) q (hF q (fF (p_hdr p) t) (p_hdr p))))\<rparr>)"
proof -
  let ?h = "p_hdr p"
  let ?h1 = "hF q (fF ?h t) ?h"
  let ?h2 = "hV (fF ?h t) q ?h1"
  have d: "dom ?h1 = dom ?h" "dom ?h2 = dom ?h" using assms by (simp_all add: dom_upd del: domIff)
  have "pbind (getb t) (\<lambda>b. set_fwd q (b_fwd b)) p = Some ((), p\<lparr>p_hdr := ?h1\<rparr>)"
    using assms by (simp add: getb_run set_run field_getb del: domIff)
  moreover have "pbind (getb q) (\<lambda>b. set_prev (b_fwd b) q) (p\<lparr>p_hdr := ?h1\<rparr>) = Some ((), p\<lparr>p_hdr := ?h2\<rparr>)"
    using assms d by (subst getb_run; simp add: field_getb set_run del: domIff)
  moreover have "set_prev q t (p\<lparr>p_hdr := ?h2\<rparr>) = Some ((), p\<lparr>p_hdr := hV q t ?h2\<rparr>)"
    using set_run(4) [of q "p\<lparr>p_hdr := ?h2\<rparr>"] assms d by (simp del: domIff)
  moreover have "set_fwd t q (p\<lparr>p_hdr := hV q t ?h2\<rparr>) = Some ((), p\<lparr>p_hdr := hF t q (hV q t ?h2)\<rparr>)"
    using set_run(5) [of t "p\<lparr>p_hdr := hV q t ?h2\<rparr>"] assms d by (simp add: dom_upd del: domIff)
  ultimately show ?thesis by (simp only: pseq_run)
qed

lemma pooladd_same:
  assumes ft: "free_tree h r tr" and q: "q \<notin> nodes tr" "q \<noteq> nil" "q \<in> dom h" "fP h q = nil"
    and t: "t \<in> set (heads tr)" "fS h t = fS h q"
  shows "\<exists>tr'. free_tree (hF t q (hV q t (hV (fF h t) q (hF q (fF h t) h)))) r tr' \<and> nodes tr' = insert q (nodes tr)"
    and "fF h t \<in> nodes tr" "t \<in> nodes tr"
proof -
  note fd = free_treeD [OF ft]
  from head_facts [OF ft t(1)] obtain l xs rr us vs where n: "inorder tr = (us @ inorder l) @ xs # (inorder rr @ vs)"
      "hd xs = t" "xs \<noteq> []" "ring (fF h) (fV h) xs" "distinct xs" by metis
  then obtain ys where xs: "xs = t # ys" by (cases xs) auto
  show tn: "t \<in> nodes tr" using n xs by (force simp: nodes_def)
  have "fF h t \<in> set xs" using n(4) xs by (cases ys) (auto simp: ring_def)
  then show fn: "fF h t \<in> nodes tr" using n(1) by (force simp: nodes_def)
  let ?h = "hF t q (hV q t (hV (fF h t) q (hF q (fF h t) h)))"
  define g where "g zs = (if hd zs = t then t # q # tl zs else zs)" for zs
  let ?tr = "map_tree g tr"
  let ?as = "us @ inorder l" and ?bs = "inorder rr @ vs"
  have dc: "distinct (concat (inorder tr))" by (rule fd(3))
  have "t \<notin> hd ` (set ?as \<union> set ?bs)" using fd(9) n by (auto simp: heads_def)
  then have hdn: "hd zs \<noteq> t" if "zs \<in> set ?as \<union> set ?bs" for zs using that by blast
  have g: "g zs = zs" if "zs \<in> set ?as \<union> set ?bs" for zs
    unfolding g_def using hdn [OF that] by simp
  have "map g ?as = ?as" "map g ?bs = ?bs" by (rule map_idI, rule g, simp)+
  then have io: "inorder ?tr = ?as @ (t # q # ys) # ?bs"
    using n(1) xs by (simp add: inorder_map g_def)
  have nt: "nodes ?tr = insert q (nodes tr)" using io n(1) xs by (auto simp: nodes_def)
  have dom: "dom ?h = dom h" using q tn fn fd(5) by (simp add: dom_upd subset_iff del: domIff)
  have gh: "\<forall>zs \<in> set (inorder tr). zs \<noteq> [] \<and> g zs \<noteq> [] \<and> hd (g zs) = hd zs" using fd(7) by (auto simp: g_def)
  have hds: "heads ?tr = heads tr" using gh by (auto simp: heads_def inorder_map simp del: set_inorder)
  have tree: "ftree (fL ?h) (fR ?h) (fP ?h) nil r ?tr" using fd(1) gh by (subst ftree_map) (auto simp del: set_inorder)
  have part: "rings ?h zss \<longleftrightarrow> rings h zss" if "set zss \<subseteq> set ?as \<union> set ?bs" for zss
  proof (rule rings_cong, intro ballI conjI)
    fix zs y assume zs: "zs \<in> set zss"
    then have "zs \<in> set ?as \<union> set ?bs" using that by blast
    then have "set zs \<inter> set xs = {}" "q \<notin> set zs" using dc q(1) n(1) by (auto simp: nodes_def)
    then show "fF ?h y = fF h y" "fV ?h y = fV h y" "fS ?h y = fS h y" if "y \<in> set zs" for y
      using that \<open>fF h t \<in> set xs\<close> xs by auto
  qed simp_all
  have sz: "\<And>y. y \<in> set xs \<Longrightarrow> fS h y = fS h t" "\<And>y. y \<in> set (tl xs) \<Longrightarrow> fP h y = nil"
    using fd(2) n(1,2) by (auto simp: rings_def)
  have qx: "q \<notin> set (t # ys)" using q(1) n(1) xs by (auto simp: nodes_def)
  have "ring (fF ?h) (fV ?h) (t # q # ys)"
    using ring_insert [OF n(4)[unfolded xs] qx n(5)[unfolded xs]] by simp
  then have "rings ?h [t # q # ys]" using sz xs q(4) t(2) by (simp add: rings_def)
  then have "rings ?h (inorder ?tr)" using part [of ?as] part [of ?bs] fd(2) n(1) io by simp
  moreover have "distinct (concat (inorder ?tr))" using dc n(1) io xs q(1) by (auto simp: nodes_def)
  moreover have "sorted_wrt (<) (map (fS ?h) (heads ?tr))" using fd(6) hds by simp
  moreover have "nil \<notin> nodes ?tr" "nodes ?tr \<subseteq> dom ?h" using nt dom fd(4,5) q by auto
  ultimately have "free_tree ?h r ?tr" using tree by (simp add: free_tree_def)
  then show "\<exists>tr'. free_tree ?h r tr' \<and> nodes tr' = insert q (nodes tr)" using nt by blast
qed

lemma pooladd_leaf:
  assumes ft: "free_tree h r tr" and q: "q \<notin> nodes tr" "q \<noteq> nil" "q \<in> dom h'" 
    and tree: "ftree (fL h') (fR h') (fP h') nil r' (ins_leaf (fS h) (fS h q) q tr)"
    and same: "\<And>x. x \<in> nodes tr \<Longrightarrow> fF h' x = fF h x \<and> fV h' x = fV h x \<and> fP h' x = fP h x" "fS h' = fS h" "dom h' = dom h"
    and new: "fF h' q = q" "fV h' q = q" "fS h q \<notin> fS h ` set (heads tr)"
  shows "\<exists>tr'. free_tree h' r' tr' \<and> nodes tr' = insert q (nodes tr)"
proof -
  note fd = free_treeD [OF ft]
  let ?tr = "ins_leaf (fS h) (fS h q) q tr"
  obtain us vs where io: "inorder tr = us @ vs" "inorder ?tr = us @ [q] # vs" using ins_leaf_inorder by metis
  have n: "nodes ?tr = insert q (nodes tr)" using io by (auto simp: nodes_def simp del: set_inorder)
  have "rings h' zss \<longleftrightarrow> rings h zss" if "set zss \<subseteq> set (inorder tr)" for zss
  proof (rule rings_cong, intro ballI conjI)
    fix zs y assume zs: "zs \<in> set zss"
    then have m: "y \<in> nodes tr" if "y \<in> set zs" for y using that \<open>set zss \<subseteq> _\<close> in_nodes by blast
    then show "fF h' y = fF h y" "fV h' y = fV h y" "fS h' y = fS h y" if "y \<in> set zs" for y
      using that same by auto
    assume "y \<in> set (tl zs)"
    then have "y \<in> set zs" by (cases zs) auto
    then show "fP h' y = fP h y" using m same by auto
  qed
  from this [of us] this [of vs] have "rings h' us" "rings h' vs" using fd(2) io(1) by auto
  then have "rings h' (inorder ?tr)" using new io(2) by (simp add: ring_single)
  moreover have "distinct (concat (inorder ?tr))" using fd(3) io q(1) by (auto simp: nodes_def simp del: set_inorder)
  moreover have "sorted_wrt (<) (map (fS h') (heads ?tr))"
    using ins_leaf_sorted [OF fd(6) refl new(3)] same(2) by simp
  moreover have "nil \<notin> nodes ?tr" "nodes ?tr \<subseteq> dom h'" using n fd(4,5) q same(3) by auto
  ultimately show ?thesis using tree n unfolding free_tree_def by blast
qed

lemma pooladd_added:
  assumes ft: "free_tree (p_hdr p) (p_root p) tr" and q: "q \<notin> nodes tr" "q \<noteq> nil"
  shows "added q p tr"
proof -
  define h where "h = hQ q (p_hdr p)"
  define r where "r = p_root p"
  define p1 where "p1 = p\<lparr>p_hdr := h\<rparr>"
  have p1: "p_hdr p1 = h" "p_root p1 = r" by (simp_all add: p1_def r_def)
  have fh: "free_tree h r tr" unfolding h_def r_def
  proof (rule free_tree_cong [OF ft])
    show "dom (p_hdr p) \<subseteq> dom (hQ q (p_hdr p))" by (simp add: subset_insertI)
    show "hQ q (p_hdr p) x = p_hdr p x" if "x \<in> nodes tr" for x using that q by (intro other_Q) auto
  qed
  note fd = free_treeD [OF fh]
  have qv: "fL h q = nil" "fR h q = nil" "fP h q = nil" "fF h q = q" "fV h q = q" "q \<in> dom h"
    by (simp_all add: h_def del: domIff)
  let ?M = "\<lambda>x h. case findplace h (b_size x) nil r of
           None \<Rightarrow> pfail
         | Some (Same t) \<Rightarrow> pseq [
             pbind (getb t) (\<lambda>b. set_fwd q (b_fwd b)),
             pbind (getb q) (\<lambda>b. set_prev (b_fwd b) q),
             set_prev q t,
             set_fwd t q]
         | Some (Below tp) \<Rightarrow> pseq [
             set_parent q tp,
             pbind (getb tp) (\<lambda>b. if b_size x < b_size b then set_left tp q else set_right tp q)]"
  have run: "pooladd q p = (if r = nil then set_root q p1 else ?M (gb h q) h p1)"
    unfolding pooladd_run p1_def [symmetric, folded h_def] using qv(6) p1
    by (simp add: pget_run getb_run h_def [symmetric] p1_def [symmetric] del: domIff cong del: option.case_cong_weak place.case_cong_weak)
  have rn: "r = nil \<longleftrightarrow> tr = Leaf" using fd(1) by (cases tr) auto
  have pp: "p1\<lparr>p_hdr := h', p_root := r'\<rparr> = p\<lparr>p_hdr := h', p_root := r'\<rparr>"
     "p1\<lparr>p_hdr := h'\<rparr> = p\<lparr>p_hdr := h', p_root := r\<rparr>" for h' r'
    by (simp_all add: p1_def r_def)
  have oQ: "only (insert q (nodes tr)) h h" by (simp add: only_def)
  define BB where "BB b \<longleftrightarrow> (\<forall>L' R' P' z. z \<notin> set (heads tr) \<longrightarrow> z \<noteq> nil \<longrightarrow> L' z = nil \<longrightarrow> R' z = nil \<longrightarrow> P' z = b \<longrightarrow>
        (\<forall>x \<in> set (heads tr). P' x = fP h x \<and> L' x = (if x = b \<and> fS h q < fS h b then z else fL h x) \<and>
          R' x = (if x = b \<and> \<not> fS h q < fS h b then z else fR h x)) \<longrightarrow>
        ftree L' R' P' nil (if tr = Leaf then z else r) (ins_leaf (fS h) (fS h q) z tr))" for b
  have "(\<exists>t. findplace h (fS h q) nil r = Some (Same t) \<and> t \<in> set (heads tr) \<and> fS h t = fS h q) \<or>
    (\<exists>b. findplace h (fS h q) nil r = Some (Below b) \<and> fS h q \<notin> fS h ` set (heads tr) \<and> (tr \<noteq> Leaf \<longrightarrow> b \<in> set (heads tr)) \<and>
      (tr = Leaf \<longrightarrow> b = nil) \<and> BB b)"
    unfolding BB_def by (rule findplace_ftree [OF fd(1) subset_trans [OF fd(8,5)] fd(9,6)])
  then consider "tr = Leaf" | t where "findplace h (fS h q) nil r = Some (Same t)" "t \<in> set (heads tr)" "fS h t = fS h q"
    | b where "tr \<noteq> Leaf" "findplace h (fS h q) nil r = Some (Below b)" "fS h q \<notin> fS h ` set (heads tr)" "b \<in> set (heads tr)" "BB b"
    by blast
  then show ?thesis
  proof cases
    case 1
    have "pooladd q p = Some ((), p\<lparr>p_hdr := h, p_root := q\<rparr>)"
      using run rn 1 by (simp add: set_root_def pupd_def p1_def)
    moreover have "\<exists>tr'. free_tree h q tr' \<and> nodes tr' = insert q (nodes tr)"
      by (rule pooladd_leaf [OF fh q qv(6)]) (use 1 q qv in auto)
    ultimately show ?thesis using oQ unfolding added_def h_def by blast
  next
    case 2
    let ?h = "hF t q (hV q t (hV (fF h t) q (hF q (fF h t) h)))"
    note same = pooladd_same [OF fh q qv(6,3) 2(2,3)]
    have "?M (gb h q) h p1 = Some ((), p1\<lparr>p_hdr := ?h\<rparr>)"
      using add_same_run [of q p1 t] 2 p1 qv(6) same(2,3) fd(5) by (auto simp: field_getb simp del: domIff)
    then have "pooladd q p = Some ((), p\<lparr>p_hdr := ?h, p_root := r\<rparr>)"
      using run rn 2 pp by auto
    moreover have "only (insert q (nodes tr)) h ?h"
    proof (rule onlyI)
      have "t \<in> dom h" "fF h t \<in> dom h" using same(2,3) fd(5) by blast+
      then show "dom ?h = dom h" using qv(6) by (simp add: dom_upd del: domIff)
      fix x assume "x \<notin> insert q (nodes tr)"
      then have "x \<noteq> q" "x \<noteq> t" "x \<noteq> fF h t" using same(2,3) by auto
      then show "?h x = h x" by (simp add: other_upd)
    qed simp_all
    ultimately show ?thesis using same(1) unfolding added_def h_def by blast
  next
    case 3
    define k where "k = hP q b h"
    define k' where "k' = (if fS h q < fS h b then hL b q k else hR b q k)"
    have bn: "b \<in> nodes tr" "b \<in> dom h" "b \<noteq> nil" "b \<noteq> q" using 3(4) sub_dom [OF fh] q by auto
    have dk: "dom k = dom h" using qv(6) by (simp only: k_def dom_upd)
    then have dk': "dom k' = dom h" using bn by (simp add: k'_def dom_upd del: domIff)
    have "set_parent q b p1 = Some ((), p1\<lparr>p_hdr := k\<rparr>)" using set_run(3) [of q p1 b] qv(6) p1 by (simp add: k_def del: domIff)
    moreover have "pbind (getb b) (\<lambda>x. if fS h q < b_size x then set_left b q else set_right b q) (p1\<lparr>p_hdr := k\<rparr>)
        = Some ((), p1\<lparr>p_hdr := k'\<rparr>)"
      using dk bn by (subst getb_run; simp add: field_getb k'_def set_run k_def del: domIff)
    ultimately have "?M (gb h q) h p1 = Some ((), p1\<lparr>p_hdr := k'\<rparr>)"
      using 3(2) by (simp add: field_getb) (simp only: pseq_run)
    then have "pooladd q p = Some ((), p\<lparr>p_hdr := k', p_root := r\<rparr>)" using run rn 3(1) pp by auto
    moreover have "\<exists>tr'. free_tree k' r tr' \<and> nodes tr' = insert q (nodes tr)"
    proof (rule pooladd_leaf [OF fh q])
      show "q \<in> dom k'" using dk' qv(6) by blast
      have qh: "q \<notin> set (heads tr)" using q(1) fd(8) by blast
      have "ftree (fL k') (fR k') (fP k') nil (if tr = Leaf then q else r) (ins_leaf (fS h) (fS h q) q tr)"
        by (rule 3(5) [unfolded BB_def, rule_format]) (use q(2) qh qv bn in \<open>auto simp: k'_def k_def\<close>)
      then show "ftree (fL k') (fR k') (fP k') nil r (ins_leaf (fS h) (fS h q) q tr)" using 3(1) by simp
    qed (use q qv dk' 3 in \<open>auto simp: k'_def k_def\<close>)
    moreover have "only (insert q (nodes tr)) h k'"
    proof (rule onlyI [OF dk'])
      fix x assume "x \<notin> insert q (nodes tr)"
      then have "x \<noteq> q" "x \<noteq> b" using bn by auto
      then show "k' x = h x" by (simp add: k'_def k_def other_upd)
    qed (simp_all add: k'_def k_def)
    ultimately show ?thesis unfolding added_def h_def by blast
  qed
qed

end
