(* ===== verification/Arena.thy ===== *)
theory Arena
  imports Freetree
begin

text \<open>
  How the blocks of a pool lie in memory. An arena is a leader, blocks that tile the space behind it, and an end
  mark; every block that is not free or is free has its tail, and no two neighbours are both free. The invariant
  of a pool (\<open>inv\<close>) ties the arenas to the free tree of \<open>Freetree\<close>, to the chain of leaders and to what the
  host granted. The lemmas say what taking a block off the tree, giving one to it, joining two neighbours and
  splitting a block do to the invariant; the operations of \<open>emu/alloc.c\<close> are built from these steps.
\<close>

section \<open>Blocks that tile an arena\<close>

text \<open>
  \<open>S\<close>, \<open>K\<close> and \<open>T\<close> are the sizes, the magics and the tails. \<open>tiles S T a bs e\<close>: the blocks \<open>bs\<close> fill the
  space from \<open>a\<close> to \<open>e\<close> and each has its tail.
\<close>

fun tiles :: "(addr \<Rightarrow> u32) \<Rightarrow> (addr \<rightharpoonup> addr) \<Rightarrow> addr \<Rightarrow> addr list \<Rightarrow> addr \<Rightarrow> bool" where
  "tiles S T a [] e \<longleftrightarrow> a = e"
| "tiles S T a (b # bs) e \<longleftrightarrow> a = b \<and> 32 dvd unat (S b) \<and> S b \<noteq> 0 \<and> T (b + unat (S b) - 8) = Some b \<and>
     tiles S T (b + unat (S b)) bs e"

lemma size_ge: "32 dvd unat (s :: u32) \<Longrightarrow> s \<noteq> 0 \<Longrightarrow> 32 \<le> unat s"
  by (simp add: dvd_imp_le unat_gt_0)

lemma tiles_append: "tiles S T a (us @ vs) e \<longleftrightarrow> (\<exists>m. tiles S T a us m \<and> tiles S T m vs e)"
  by (induction us arbitrary: a) auto

lemma tiles_split: "tiles S T a (us @ b # vs) e \<longleftrightarrow> tiles S T a us b \<and> 32 dvd unat (S b) \<and> S b \<noteq> 0 \<and>
    T (b + unat (S b) - 8) = Some b \<and> tiles S T (b + unat (S b)) vs e"
  by (auto simp: tiles_append)

lemma tiles_range:
  "tiles S T a bs e \<Longrightarrow> a \<le> e \<and> (\<forall>b \<in> set bs. a \<le> b \<and> b + unat (S b) \<le> e \<and> 32 \<le> unat (S b))"
proof (induction bs arbitrary: a)
  case (Cons b bs)
  then show ?case using size_ge [of "S b"] by fastforce
qed simp

lemma tiles_frame:
  "tiles S T a bs e \<Longrightarrow> (\<And>x. a \<le> x \<Longrightarrow> x < e \<Longrightarrow> S' x = S x \<and> T' x = T x) \<Longrightarrow> tiles S' T' a bs e"
proof (induction bs arbitrary: a)
  case (Cons b bs)
  then have t: "32 dvd unat (S b)" "S b \<noteq> 0" "T (b + unat (S b) - 8) = Some b" "tiles S T (b + unat (S b)) bs e" "a = b" by auto
  have e: "32 \<le> unat (S b)" "b + unat (S b) \<le> e" using size_ge t tiles_range [OF t(4)] by auto
  have "tiles S' T' (b + unat (S b)) bs e" by (rule Cons.IH [OF t(4)]) (use Cons.prems(2) t(5) in auto)
  moreover have "S' b = S b" "T' (b + unat (S b) - 8) = T (b + unat (S b) - 8)"
    using Cons.prems(2) [of b] Cons.prems(2) [of "b + unat (S b) - 8"] t(5) e by auto
  ultimately show ?case using t by simp
qed simp

lemma tiles_sep:
  assumes "tiles S T a (us @ b # vs) e" "x \<in> set us \<union> set vs"
  shows "x \<noteq> b" "x + unat (S x) \<le> b \<or> b + unat (S b) \<le> x"
proof -
  have t: "tiles S T a us b" "tiles S T (b + unat (S b)) vs e" "32 \<le> unat (S b)"
    using assms(1) size_ge by (auto simp: tiles_split)
  then show s: "x + unat (S x) \<le> b \<or> b + unat (S b) \<le> x"
    using tiles_range [OF t(1)] tiles_range [OF t(2)] assms(2) by auto
  show "x \<noteq> b" using tiles_range [OF t(1)] tiles_range [OF t(2)] assms(2) t(3) by fastforce
qed

section \<open>Arenas\<close>

text \<open>An arena is its leader, its blocks and its end mark. No two neighbours are both free.\<close>

type_synonym arena = "addr \<times> addr list \<times> addr"

definition is_block :: "magic \<Rightarrow> bool" where
  "is_block m \<longleftrightarrow> m \<in> {MAGIC_A, MAGIC_F, MAGIC_I}"

definition calm :: "(addr \<Rightarrow> magic) \<Rightarrow> addr list \<Rightarrow> bool" where
  "calm K bs \<longleftrightarrow> successively (\<lambda>x y. K x = MAGIC_F \<longrightarrow> K y \<noteq> MAGIC_F) bs"

lemma calm_Nil [simp]: "calm K []"
  by (simp add: calm_def)

lemma calm_cong: "(\<And>x. x \<in> set bs \<Longrightarrow> K' x = K x) \<Longrightarrow> calm K' bs \<longleftrightarrow> calm K bs"
  unfolding calm_def by (intro successively_cong) auto

lemma calm_split: "calm K (us @ b # vs) \<longleftrightarrow> calm K us \<and> calm K vs \<and>
    (us \<noteq> [] \<longrightarrow> K (last us) = MAGIC_F \<longrightarrow> K b \<noteq> MAGIC_F) \<and> (vs \<noteq> [] \<longrightarrow> K b = MAGIC_F \<longrightarrow> K (hd vs) \<noteq> MAGIC_F)"
  by (auto simp: calm_def successively_append_iff successively_Cons)

fun arena_ok :: "(addr \<Rightarrow> u32) \<Rightarrow> (addr \<Rightarrow> magic) \<Rightarrow> (addr \<rightharpoonup> addr) \<Rightarrow> arena \<Rightarrow> bool" where
  "arena_ok S K T (l, bs, e) \<longleftrightarrow> l \<noteq> nil \<and> e + 4 \<le> 2 ^ 32 \<and> K l = MAGIC_E \<and> S l = 32 \<and> T (l + 24) = Some l \<and>
     tiles S T (l + 32) bs e \<and> K e = MAGIC_E \<and> (\<forall>b \<in> set bs. is_block (K b)) \<and> calm K bs"

declare arena_ok.simps [simp del]

fun apart :: "arena \<Rightarrow> arena \<Rightarrow> bool" where
  "apart (l, _, e) (l', _, e') \<longleftrightarrow> e + 4 \<le> l' \<or> e' + 4 \<le> l"

definition blocks :: "arena list \<Rightarrow> addr set" where
  "blocks AS = (\<Union>(l, bs, e) \<in> set AS. set bs)"

lemma is_block_simps [simp]: "is_block MAGIC_A" "is_block MAGIC_F" "is_block MAGIC_I" "\<not> is_block MAGIC_E" "\<not> is_block No_magic"
  by (simp_all add: is_block_def)

lemma magic_dom: "fM h x \<noteq> No_magic \<Longrightarrow> x \<in> dom h"
  by (auto simp: fields gb_def raw_Bhdr_def split: option.splits)

definition layout :: "(addr \<Rightarrow> u32) \<Rightarrow> (addr \<Rightarrow> magic) \<Rightarrow> (addr \<rightharpoonup> addr) \<Rightarrow> arena list \<Rightarrow> bool" where
  "layout S K T AS \<longleftrightarrow> (\<forall>r \<in> set AS. arena_ok S K T r) \<and> sorted_wrt apart AS \<and>
     (\<forall>x. is_block (K x) \<longrightarrow> x \<in> blocks AS)"

text \<open>The number of bytes in blocks that are not free, as the code counts it.\<close>

definition held_in :: "(addr \<Rightarrow> u32) \<Rightarrow> (addr \<Rightarrow> magic) \<Rightarrow> addr list \<Rightarrow> u32" where
  "held_in S K bs = sum_list (map (\<lambda>b. if K b = MAGIC_F then 0 else S b) bs)"

definition held :: "(addr \<Rightarrow> u32) \<Rightarrow> (addr \<Rightarrow> magic) \<Rightarrow> arena list \<Rightarrow> u32" where
  "held S K AS = sum_list (map (\<lambda>(l, bs, e). held_in S K bs) AS)"

lemma arenas_sym: "apart r r' \<longleftrightarrow> apart r' r"
  by (cases r; cases r') auto

declare apart.simps [simp del]

lemma arena_frame:
  assumes "arena_ok S K T (l, bs, e)" "\<And>x. l \<le> x \<Longrightarrow> x \<le> e \<Longrightarrow> S' x = S x \<and> K' x = K x \<and> T' x = T x"
  shows "arena_ok S' K' T' (l, bs, e)" "held_in S' K' bs = held_in S K bs"
proof -
  have t: "tiles S T (l + 32) bs e" using assms(1) by (simp add: arena_ok.simps)
  note r = tiles_range [OF t]
  have le: "l + 32 \<le> e" using r by simp
  have b: "S' x = S x" "K' x = K x" if "x \<in> set bs" for x
    using assms(2) [of x] bspec [OF conjunct2 [OF r] that] by auto
  have "tiles S' T' (l + 32) bs e" by (rule tiles_frame [OF t]) (use assms(2) in auto)
  moreover have "S' l = S l" "K' l = K l" "K' e = K e" "T' (l + 24) = T (l + 24)" using assms(2) le by auto
  ultimately show "arena_ok S' K' T' (l, bs, e)"
    using assms(1) b calm_cong [of bs K' K] by (auto simp: arena_ok.simps)
  show "held_in S' K' bs = held_in S K bs" using b unfolding held_in_def by (intro arg_cong [where f = sum_list] map_cong) auto
qed

lemma sorted_wrt_apart:
  assumes "sorted_wrt apart (AS1 @ r # AS2)" "r' \<in> set AS1 \<union> set AS2"
  shows "apart r r'"
proof -
  have "\<forall>x \<in> set AS1. apart x r" "\<forall>x \<in> set AS2. apart r x" using assms(1) by (simp_all add: sorted_wrt_append)
  then show ?thesis using assms(2) arenas_sym [of r r'] by blast
qed

lemma layout_arena: "layout S K T AS \<Longrightarrow> r \<in> set AS \<Longrightarrow> arena_ok S K T r"
  by (simp only: layout_def)

lemma layout_replace:
  assumes lay: "layout S K T (AS1 @ (l, bs, e) # AS2)"
    and out: "\<And>x. x < l \<or> e < x \<Longrightarrow> S' x = S x \<and> K' x = K x \<and> T' x = T x"
    and new: "arena_ok S' K' T' (l, bs', e)" "\<And>x. l \<le> x \<Longrightarrow> x \<le> e \<Longrightarrow> is_block (K' x) \<Longrightarrow> x \<in> set bs'"
  shows "layout S' K' T' (AS1 @ (l, bs', e) # AS2)"
    and "held S' K' (AS1 @ (l, bs', e) # AS2) + held_in S K bs = held S K (AS1 @ (l, bs, e) # AS2) + held_in S' K' bs'"
proof -
  let ?AS = "AS1 @ (l, bs, e) # AS2"
  have st: "sorted_wrt apart ?AS" using lay by (simp add: layout_def)
  have oth: "arena_ok S' K' T' (l1, b1, e1) \<and> held_in S' K' b1 = held_in S K b1" if "(l1, b1, e1) \<in> set AS1 \<union> set AS2" for l1 b1 e1
  proof -
    have ok: "arena_ok S K T (l1, b1, e1)" by (rule layout_arena [OF lay]) (use that in auto)
    have "apart (l, bs, e) (l1, b1, e1)" by (rule sorted_wrt_apart [OF st that])
    then have "x < l \<or> e < x" if "l1 \<le> x" "x \<le> e1" for x using that by (auto simp: apart.simps)
    then show ?thesis using arena_frame [OF ok] out by metis
  qed
  have "sorted_wrt apart (AS1 @ (l, bs', e) # AS2)"
    using st by (auto simp: sorted_wrt_append apart.simps)
  moreover have "x \<in> blocks (AS1 @ (l, bs', e) # AS2)" if x: "is_block (K' x)" for x
  proof (cases "l \<le> x \<and> x \<le> e")
    case True
    then show ?thesis using new(2) x by (auto simp: blocks_def)
  next
    case False
    then have o: "x < l \<or> e < x" by auto
    then have "x \<in> blocks ?AS" using lay out x by (auto simp: layout_def)
    moreover have "x \<notin> set bs"
    proof
      assume "x \<in> set bs"
      moreover have "tiles S T (l + 32) bs e" using lay by (auto simp: layout_def arena_ok.simps)
      ultimately show False using o tiles_range [of S T "l + 32" bs e] by fastforce
    qed
    ultimately show ?thesis by (auto simp: blocks_def)
  qed
  ultimately show "layout S' K' T' (AS1 @ (l, bs', e) # AS2)"
    using oth new(1) unfolding layout_def by auto
  have "held S' K' AS1 = held S K AS1" "held S' K' AS2 = held S K AS2"
    unfolding held_def using oth by (auto intro!: arg_cong [where f = sum_list] map_cong)
  then show "held S' K' (AS1 @ (l, bs', e) # AS2) + held_in S K bs = held S K ?AS + held_in S' K' bs'"
    by (simp add: held_def)
qed

text \<open>The arena of a block.\<close>

lemma arena_of:
  assumes "layout S K T AS" "is_block (K b)"
  obtains AS1 l us vs e AS2 where "AS = AS1 @ (l, us @ b # vs, e) # AS2" "arena_ok S K T (l, us @ b # vs, e)"
proof -
  from assms have "b \<in> blocks AS" by (simp add: layout_def)
  then obtain l bs e where r: "(l, bs, e) \<in> set AS" "b \<in> set bs" by (auto simp: blocks_def)
  then obtain us vs where bs: "bs = us @ b # vs" by (meson split_list)
  from r(1) obtain AS1 AS2 where "AS = AS1 @ (l, bs, e) # AS2" by (meson split_list)
  then show thesis using that bs assms(1) by (auto simp: layout_def)
qed

section \<open>The neighbours of a block\<close>

lemma block_facts:
  assumes "arena_ok S K T (l, us @ b # vs, e)"
  shows "l + 32 \<le> b" "b + unat (S b) \<le> e" "32 \<le> unat (S b)" "32 dvd unat (S b)" "T (b + unat (S b) - 8) = Some b"
    "e + 4 \<le> 2 ^ 32" "b \<notin> set us" "b \<notin> set vs" "is_block (K b)" "K l = MAGIC_E" "K e = MAGIC_E" "l \<noteq> nil"
    "\<And>x. x \<in> set us \<union> set vs \<Longrightarrow> x + unat (S x) \<le> b \<or> b + unat (S b) \<le> x"
    "tiles S T (l + 32) us b" "tiles S T (b + unat (S b)) vs e"
proof -
  have t: "tiles S T (l + 32) (us @ b # vs) e" using assms by (simp add: arena_ok.simps)
  show "l + 32 \<le> b" "b + unat (S b) \<le> e" "32 \<le> unat (S b)" using tiles_range [OF t] by auto
  show "b \<notin> set us" "b \<notin> set vs" using tiles_sep(1) [OF t] by auto
  show "\<And>x. x \<in> set us \<union> set vs \<Longrightarrow> x + unat (S x) \<le> b \<or> b + unat (S b) \<le> x" by (rule tiles_sep(2) [OF t])
qed (use assms in \<open>auto simp: arena_ok.simps tiles_split\<close>)

lemma next_block:
  assumes "arena_ok S K T (l, us @ b # vs, e)"
  shows "b + unat (S b) = (case vs of [] \<Rightarrow> e | c # _ \<Rightarrow> c)"
  using block_facts(15) [OF assms] by (cases vs) auto

lemma prev_block:
  assumes "arena_ok S K T (l, us @ b # vs, e)"
  shows "T (b - 8) = Some (if us = [] then l else last us)"
proof (cases us rule: rev_cases)
  case Nil
  then have "b - 8 = l + 24" "T (l + 24) = Some l" using assms block_facts(14) [OF assms] by (auto simp: arena_ok.simps)
  then show ?thesis using Nil by simp
next
  case (snoc ws c)
  then have "tiles S T (l + 32) (ws @ c # b # vs) e" using assms by (simp add: arena_ok.simps)
  then show ?thesis using snoc by (auto simp: tiles_split)
qed

lemma next_not_free:
  assumes "arena_ok S K T (l, us @ b # vs, e)" "K b = MAGIC_F" "K (b + unat (S b)) = MAGIC_F"
  shows False
  using assms next_block [OF assms(1)] by (cases vs) (auto simp: arena_ok.simps calm_split)

section \<open>What the operations do to an arena\<close>

text \<open>Mark a block.\<close>

lemma arena_mark:
  assumes ok: "arena_ok S K T (l, us @ b # vs, e)" and m: "is_block m"
    and free: "m = MAGIC_F \<Longrightarrow> (us \<noteq> [] \<longrightarrow> K (last us) \<noteq> MAGIC_F) \<and> (vs \<noteq> [] \<longrightarrow> K (hd vs) \<noteq> MAGIC_F)"
  shows "arena_ok S (K(b := m)) T (l, us @ b # vs, e)"
proof -
  note f = block_facts [OF ok]
  have "calm K us" "calm K vs" using ok by (auto simp: arena_ok.simps calm_split)
  moreover have "calm (K(b := m)) us \<longleftrightarrow> calm K us" "calm (K(b := m)) vs \<longleftrightarrow> calm K vs"
    using f(7,8) by (auto intro!: calm_cong)
  moreover have "us \<noteq> [] \<Longrightarrow> last us \<noteq> b" "vs \<noteq> [] \<Longrightarrow> hd vs \<noteq> b" using f(7,8) by auto
  ultimately have "calm (K(b := m)) (us @ b # vs)" using free by (auto simp: calm_split)
  moreover have "l \<noteq> b" "e \<noteq> b" using f(1,2,3) by auto
  ultimately show ?thesis using ok m by (auto simp: arena_ok.simps)
qed

text \<open>Join a block with the next one, neither being free.\<close>

lemma arena_join:
  assumes ok: "arena_ok S K T (l, us @ b # c # vs, e)" and K: "K b \<noteq> MAGIC_F" "\<And>x. x \<noteq> c \<Longrightarrow> K' x = K x"
  shows "arena_ok (S(b := S b + S c)) K' (T(b + unat (S b + S c) - 8 \<mapsto> b)) (l, us @ b # vs, e)"
    and "unat (S b + S c) = unat (S b) + unat (S c)" "c = b + unat (S b)"
proof -
  note f = block_facts [OF ok]
  have ok2: "arena_ok S K T (l, (us @ [b]) @ c # vs, e)" using ok by simp
  note g = block_facts [OF ok2]
  show c: "c = b + unat (S b)" using next_block [OF ok] by simp
  have "unat (S b) + unat (S c) < 2 ^ 32" using c g(2,6) by linarith
  then show n: "unat (S b + S c) = unat (S b) + unat (S c)" by (simp add: unat_word_ariths)
  let ?S = "S(b := S b + S c)" and ?T = "T(b + unat (S b + S c) - 8 \<mapsto> b)"
  have t1: "tiles ?S ?T (l + 32) us b" by (rule tiles_frame [OF f(14)]) (use n f(3) in auto)
  have t2: "tiles ?S ?T (c + unat (S c)) vs e"
    by (rule tiles_frame [OF g(15)]) (use n c f(3) g(3) in auto)
  have "tiles ?S ?T (l + 32) (us @ b # vs) e"
    using t1 t2 n c f(3,4) g(4) by (auto simp: tiles_split add.assoc unat_gt_0 [symmetric])
  moreover have "?S l = S l" "?T (l + 24) = T (l + 24)" "K' l = K l" "K' e = K e"
    using f(1,3) g(1,2,3) n K(2) by auto
  moreover have same: "K' x = K x" if "x \<in> set (us @ b # vs)" for x
    by (rule K(2)) (use that g(7,8) in auto)
  moreover have "calm K (us @ b # vs)" using ok K(1) calm_split [of K us b "c # vs"] calm_split [of K "[]" c vs]
    by (simp add: arena_ok.simps calm_split)
  then have "calm K' (us @ b # vs)" using calm_cong [of "us @ b # vs" K' K] same by blast
  ultimately show "arena_ok ?S K' ?T (l, us @ b # vs, e)"
    using ok by (auto simp: arena_ok.simps)
qed

text \<open>Split a block that is not free.\<close>

lemma arena_split:
  assumes ok: "arena_ok S K T (l, us @ b # vs, e)" and K: "K b \<noteq> MAGIC_F"
    and s: "32 dvd unat s" "s \<noteq> 0" "s < S b" and c: "c = b + unat s"
  shows "arena_ok (S(b := s, c := S b - s)) (K(c := MAGIC_A)) (T(b + unat s - 8 \<mapsto> b, c + unat (S b - s) - 8 \<mapsto> c)) (l, us @ b # c # vs, e)"
    and "unat (S b - s) = unat (S b) - unat s" "c \<notin> set (us @ b # vs)" "b < c" "c < b + unat (S b)"
proof -
  note f = block_facts [OF ok]
  have lt: "unat s < unat (S b)" using s(3) by (simp add: word_less_nat_alt)
  then show n: "unat (S b - s) = unat (S b) - unat s" by (simp add: unat_sub word_le_nat_alt)
  have s32: "32 \<le> unat s" using size_ge s by simp
  have d: "32 dvd unat (S b - s)" using n f(4) s(1) by (simp add: dvd_diff_nat)
  have nz: "S b - s \<noteq> 0" using s(3) by simp
  then have r32: "32 \<le> unat (S b - s)" using size_ge d by simp
  show bc: "b < c" "c < b + unat (S b)" using c s32 lt by auto
  have cb: "c \<noteq> x" if "x \<in> set us \<union> set vs" for x
    using f(13) [OF that] bc size_ge tiles_range [OF f(14)] tiles_range [OF f(15)] that by fastforce
  then show cn: "c \<notin> set (us @ b # vs)" using bc by auto
  let ?S = "S(b := s, c := S b - s)" and ?T = "T(b + unat s - 8 \<mapsto> b, c + unat (S b - s) - 8 \<mapsto> c)" and ?K = "K(c := MAGIC_A)"
  have t1: "tiles ?S ?T (l + 32) us b" by (rule tiles_frame [OF f(14)]) (use c s32 r32 bc in auto)
  have t2: "tiles ?S ?T (b + unat (S b)) vs e"
    by (rule tiles_frame [OF f(15)]) (use c s32 r32 bc n in auto)
  have ce: "c + unat (S b - s) = b + unat (S b)" using c n lt by simp
  have "?T (b + unat s - 8) = Some b" using ce r32 s32 c by auto
  then have "tiles ?S ?T (l + 32) (us @ b # c # vs) e"
    using t1 t2 s d nz bc ce c [symmetric] by (simp add: tiles_split)
  moreover have "?S l = S l" "?T (l + 24) = T (l + 24)" "?K l = K l" "?K e = K e"
    using f(1,2,3) c bc s32 r32 by auto
  moreover have "calm ?K us \<longleftrightarrow> calm K us" "calm ?K vs \<longleftrightarrow> calm K vs"
    using cn by (auto intro!: calm_cong)
  then have "calm ?K (us @ b # c # vs)"
    using ok K bc calm_split [of K us b vs] calm_split [of ?K us b "c # vs"] calm_split [of ?K "[]" c vs] 
    by (auto simp: arena_ok.simps)
  ultimately show "arena_ok ?S ?K ?T (l, us @ b # c # vs, e)"
    using ok cb by (auto simp: arena_ok.simps is_block_def)
qed

section \<open>What the operations do to the layout\<close>

lemma held_in_split: "held_in S K (us @ b # vs) = held_in S K us + (if K b = MAGIC_F then 0 else S b) + held_in S K vs"
  by (simp add: held_in_def)

lemma held_in_Cons: "held_in S K (b # vs) = (if K b = MAGIC_F then 0 else S b) + held_in S K vs"
  by (simp add: held_in_def)

lemma held_in_cong: "(\<And>x. x \<in> set bs \<Longrightarrow> S' x = S x \<and> K' x = K x) \<Longrightarrow> held_in S' K' bs = held_in S K bs"
  unfolding held_in_def by (intro arg_cong [where f = sum_list] map_cong) auto

lemma block_in_arena:
  assumes lay: "layout S K T AS" and r: "(l, bs, e) \<in> set AS" and x: "x \<in> blocks AS" "l \<le> x" "x \<le> e"
  shows "x \<in> set bs"
proof -
  from x(1) obtain l1 b1 e1 where r1: "(l1, b1, e1) \<in> set AS" "x \<in> set b1" by (auto simp: blocks_def)
  have "l1 \<le> x \<and> x \<le> e1" using layout_arena [OF lay r1(1)] r1(2) tiles_range by (fastforce simp: arena_ok.simps)
  show ?thesis
  proof (cases "(l1, b1, e1) = (l, bs, e)")
    case False
    obtain AS1 AS2 where AS: "AS = AS1 @ (l, bs, e) # AS2" using r by (meson split_list)
    then have "sorted_wrt apart (AS1 @ (l, bs, e) # AS2)" using lay by (simp add: layout_def)
    then have "apart (l, bs, e) (l1, b1, e1)" using sorted_wrt_apart [of AS1 "(l, bs, e)" AS2 "(l1, b1, e1)"] r1(1) False AS by auto
    then show ?thesis using \<open>l1 \<le> x \<and> x \<le> e1\<close> x by (auto simp: apart.simps)
  qed (use r1 in auto)
qed

lemma layout_mark:
  assumes lay: "layout S K T AS" and b: "is_block (K b)" and m: "is_block m"
    and free: "m = MAGIC_F \<Longrightarrow> (\<forall>c. T (b - 8) = Some c \<longrightarrow> K c \<noteq> MAGIC_F) \<and> K (b + unat (S b)) \<noteq> MAGIC_F"
  shows "layout S (K(b := m)) T AS"
    and "held S (K(b := m)) AS + (if K b = MAGIC_F then 0 else S b) = held S K AS + (if m = MAGIC_F then 0 else S b)"
proof -
  obtain AS1 l us vs e AS2 where AS: "AS = AS1 @ (l, us @ b # vs, e) # AS2" and ok: "arena_ok S K T (l, us @ b # vs, e)"
    using arena_of [OF lay b] by metis
  note f = block_facts [OF ok]
  have nb: "(us \<noteq> [] \<longrightarrow> K (last us) \<noteq> MAGIC_F) \<and> (vs \<noteq> [] \<longrightarrow> K (hd vs) \<noteq> MAGIC_F)" if "m = MAGIC_F"
    using free [OF that] prev_block [OF ok] next_block [OF ok] by (auto split: list.splits)
  have ok': "arena_ok S (K(b := m)) T (l, us @ b # vs, e)" by (rule arena_mark [OF ok m nb])
  have inb: "x \<in> set (us @ b # vs)" if "l \<le> x" "x \<le> e" "is_block ((K(b := m)) x)" for x
  proof (cases "x = b")
    case False
    then have "x \<in> blocks AS" using lay that(3) by (simp add: layout_def)
    then show ?thesis using block_in_arena [OF lay, of l "us @ b # vs" e x] AS that by auto
  qed simp
  have out: "\<And>x. x < l \<or> e < x \<Longrightarrow> S x = S x \<and> (K(b := m)) x = K x \<and> T x = T x" using f(1,2,3) by auto
  note r = layout_replace [OF lay[unfolded AS] out ok' inb]
  show "layout S (K(b := m)) T AS" using r(1) AS by simp
  have h: "held_in S (K(b := m)) us = held_in S K us" "held_in S (K(b := m)) vs = held_in S K vs"
    using f(7,8) by (auto intro!: held_in_cong)
  show "held S (K(b := m)) AS + (if K b = MAGIC_F then 0 else S b) = held S K AS + (if m = MAGIC_F then 0 else S b)"
    using r(2) AS by (simp add: held_in_split h)
qed

lemma layout_join:
  assumes lay: "layout S K T AS" and b: "is_block (K b)" "K b \<noteq> MAGIC_F" and c: "c = b + unat (S b)" "is_block (K c)" "K c \<noteq> MAGIC_F"
  defines "S' \<equiv> S(b := S b + S c)" and "T' \<equiv> T(b + unat (S b + S c) - 8 \<mapsto> b)" and "K' \<equiv> K(c := No_magic)"
  shows "\<exists>AS'. layout S' K' T' AS' \<and> held S' K' AS' = held S K AS \<and> map fst AS' = map fst AS \<and> map (snd \<circ> snd) AS' = map (snd \<circ> snd) AS"
    and "unat (S b + S c) = unat (S b) + unat (S c)"
proof -
  obtain AS1 l us ws e AS2 where AS: "AS = AS1 @ (l, us @ b # ws, e) # AS2" and ok: "arena_ok S K T (l, us @ b # ws, e)"
    using arena_of [OF lay b(1)] by metis
  have "c \<noteq> e" using block_facts(11) [OF ok] c(2) by (auto simp: is_block_def)
  then obtain vs where ws: "ws = c # vs" using next_block [OF ok] c(1) by (cases ws) auto
  note ok = ok[unfolded ws] and AS = AS[unfolded ws]
  note f = block_facts [OF ok]
  have "arena_ok S K T (l, (us @ [b]) @ c # vs, e)" using ok by simp
  note g = block_facts [OF this]
  note j = arena_join [OF ok b(2), of K']
  have ok': "arena_ok S' K' T' (l, us @ b # vs, e)" unfolding S'_def T'_def by (rule j(1)) (simp add: K'_def)
  show n: "unat (S b + S c) = unat (S b) + unat (S c)" by (rule j(2)) (simp add: K'_def)
  have out: "S' x = S x \<and> K' x = K x \<and> T' x = T x" if "x < l \<or> e < x" for x
    using that f(1,2,3) g(1,2,3) n c(1) by (auto simp: S'_def K'_def T'_def)
  have inb: "x \<in> set (us @ b # vs)" if "l \<le> x" "x \<le> e" "is_block (K' x)" for x
  proof -
    have "x \<noteq> c" "is_block (K x)" using that(3) by (auto simp: K'_def is_block_def split: if_splits)
    moreover have "x \<in> blocks AS" using calculation lay by (simp add: layout_def)
    ultimately show ?thesis using block_in_arena [OF lay, of l "us @ b # c # vs" e x] AS that by auto
  qed
  note r = layout_replace [OF lay[unfolded AS] out ok' inb]
  have h: "held_in S' K' us = held_in S K us" "held_in S' K' vs = held_in S K vs"
    using f(7,8) g(7,8) by (auto intro!: held_in_cong simp: S'_def K'_def)
  have "c \<noteq> b" using g(7) by auto
  then have "held_in S' K' (us @ b # vs) = held_in S K (us @ b # c # vs)"
    using b(2) c(3) by (simp add: held_in_split held_in_Cons h) (simp add: S'_def K'_def)
  then have "held S' K' (AS1 @ (l, us @ b # vs, e) # AS2) = held S K AS" using r(2) AS by simp
  then show "\<exists>AS'. layout S' K' T' AS' \<and> held S' K' AS' = held S K AS \<and> map fst AS' = map fst AS \<and> map (snd \<circ> snd) AS' = map (snd \<circ> snd) AS"
    using r(1) AS by (intro exI [of _ "AS1 @ (l, us @ b # vs, e) # AS2"]) simp
qed

lemma layout_split:
  assumes lay: "layout S K T AS" and b: "is_block (K b)" "K b \<noteq> MAGIC_F"
    and s: "32 dvd unat s" "s \<noteq> 0" "s < S b" and c: "c = b + unat s"
  defines "S' \<equiv> S(b := s, c := S b - s)" and "T' \<equiv> T(b + unat s - 8 \<mapsto> b, c + unat (S b - s) - 8 \<mapsto> c)" and "K' \<equiv> K(c := MAGIC_A)"
  shows "\<exists>AS'. layout S' K' T' AS' \<and> held S' K' AS' = held S K AS \<and> map fst AS' = map fst AS \<and> map (snd \<circ> snd) AS' = map (snd \<circ> snd) AS"
    and "\<not> is_block (K c)" "unat (S b - s) = unat (S b) - unat s" "c \<noteq> b" "c \<notin> fst ` set AS"
proof -
  obtain AS1 l us vs e AS2 where AS: "AS = AS1 @ (l, us @ b # vs, e) # AS2" and ok: "arena_ok S K T (l, us @ b # vs, e)"
    using arena_of [OF lay b(1)] by metis
  note f = block_facts [OF ok]
  note j = arena_split [OF ok b(2) s c]
  have ok': "arena_ok S' K' T' (l, us @ b # c # vs, e)" unfolding S'_def T'_def K'_def by (rule j(1))
  show "unat (S b - s) = unat (S b) - unat s" "c \<noteq> b" using j by auto
  have ce: "l \<le> c" "c \<le> e" using j(4,5) f(1,2) by auto
  show nc: "\<not> is_block (K c)"
  proof
    assume "is_block (K c)"
    then have "c \<in> blocks AS" using lay by (simp add: layout_def)
    then show False using block_in_arena [OF lay, of l "us @ b # vs" e c] AS ce j(3) by auto
  qed
  show "c \<notin> fst ` set AS"
  proof
    assume "c \<in> fst ` set AS"
    then obtain bs1 e1 where r: "(c, bs1, e1) \<in> set AS" by auto
    show False
    proof (cases "(c, bs1, e1) \<in> set AS1 \<union> set AS2")
      case True
      have "sorted_wrt apart (AS1 @ (l, us @ b # vs, e) # AS2)" using lay AS by (simp add: layout_def)
      then have "apart (l, us @ b # vs, e) (c, bs1, e1)" using sorted_wrt_apart True by metis
      moreover have "c \<le> e1" using layout_arena [OF lay r] tiles_range by (fastforce simp: arena_ok.simps)
      ultimately show False using ce by (auto simp: apart.simps)
    next
      case False
      then show False using r AS j(4) f(1) by auto
    qed
  qed
  have out: "S' x = S x \<and> K' x = K x \<and> T' x = T x" if "x < l \<or> e < x" for x
    using that f(1,2,3) j(2,4,5) s c by (auto simp: S'_def K'_def T'_def word_less_nat_alt)
  have inb: "x \<in> set (us @ b # c # vs)" if "l \<le> x" "x \<le> e" "is_block (K' x)" for x
  proof (cases "x = c")
    case False
    then have "x \<in> blocks AS" using lay that(3) by (simp add: layout_def K'_def)
    then show ?thesis using block_in_arena [OF lay, of l "us @ b # vs" e x] AS that by auto
  qed simp
  note r = layout_replace [OF lay[unfolded AS] out ok' inb]
  have h: "held_in S' K' us = held_in S K us" "held_in S' K' vs = held_in S K vs"
    using f(7,8) j(3) by (auto intro!: held_in_cong simp: S'_def K'_def)
  have "held_in S' K' (us @ b # c # vs) = held_in S K (us @ b # vs)"
    using b(2) j(3) \<open>c \<noteq> b\<close> by (simp add: held_in_split held_in_Cons h) (simp add: S'_def K'_def)
  then have "held S' K' (AS1 @ (l, us @ b # c # vs, e) # AS2) = held S K AS" using r(2) AS by simp
  then show "\<exists>AS'. layout S' K' T' AS' \<and> held S' K' AS' = held S K AS \<and> map fst AS' = map fst AS \<and> map (snd \<circ> snd) AS' = map (snd \<circ> snd) AS"
    using r(1) AS by (intro exI [of _ "AS1 @ (l, us @ b # c # vs, e) # AS2"]) simp
qed

section \<open>The invariant of a pool\<close>

definition fC :: "(addr \<rightharpoonup> Bhdr) \<Rightarrow> addr \<Rightarrow> addr" where "fC h a = b_clink (gb h a)"
definition fZ :: "(addr \<rightharpoonup> Bhdr) \<Rightarrow> addr \<Rightarrow> int" where "fZ h a = b_csize (gb h a)"

text \<open>The chain of arenas, newest first; each leader knows the length of its arena.\<close>

fun chained :: "(addr \<Rightarrow> addr) \<Rightarrow> (addr \<Rightarrow> int) \<Rightarrow> addr \<Rightarrow> arena list \<Rightarrow> bool" where
  "chained C Z a [] \<longleftrightarrow> a = nil"
| "chained C Z a ((l, bs, e) # AS) \<longleftrightarrow> a = l \<and> Z l = int e - int l \<and> chained C Z (C l) AS"

text \<open>
  What the host promises of \<open>sbrk\<close>: an answer is an interval of addresses that is not at 0 and does not
  overlap the answer to another call.
\<close>

definition sbrk_ok :: "(nat \<Rightarrow> int \<Rightarrow> addr option) \<Rightarrow> bool" where
  "sbrk_ok f \<longleftrightarrow> (\<forall>n sz a. f n sz = Some a \<longrightarrow> a \<noteq> nil \<and> int a + sz \<le> 2 ^ 32) \<and>
     (\<forall>i j m n a b. i < j \<longrightarrow> f i m = Some a \<longrightarrow> f j n = Some b \<longrightarrow> int a + m \<le> int b \<or> int b + n \<le> int a)"

definition granted :: "pool \<Rightarrow> arena list \<Rightarrow> bool" where
  "granted p AS \<longleftrightarrow> sbrk_ok (p_sbrk p) \<and>
     (\<forall>(l, bs, e) \<in> set AS. int e - int l < 2 ^ 31 - 4 \<and> (\<exists>n < p_nbrk p. p_sbrk p n (int e + 4 - int l) = Some l))"

definition params :: "pool \<Rightarrow> bool" where
  "params p \<longleftrightarrow> p_quanta p = 31 \<and> 32 dvd p_chunk p \<and> 0 < p_chunk p \<and> p_chunk p < 2 ^ 30"

definition inv :: "pool \<Rightarrow> (addr \<Rightarrow> magic) \<Rightarrow> arena list \<Rightarrow> addr list tree \<Rightarrow> bool" where
  "inv p K AS tr \<longleftrightarrow> free_tree (p_hdr p) (p_root p) tr \<and> layout (fS (p_hdr p)) K (p_tail p) AS \<and>
     nodes tr = {x. K x = MAGIC_F} \<and> {x. is_block (K x)} \<subseteq> dom (p_hdr p) \<and>
     chained (fC (p_hdr p)) (fZ (p_hdr p)) (p_chain p) AS \<and> granted p AS \<and> params p"

lemma chained_cong:
  assumes "chained C Z a AS" "map fst AS' = map fst AS" "map (snd \<circ> snd) AS' = map (snd \<circ> snd) AS"
    "\<And>l. l \<in> fst ` set AS \<Longrightarrow> C' l = C l \<and> Z' l = Z l"
  shows "chained C' Z' a AS'"
  using assms
proof (induction AS arbitrary: a AS')
  case (Cons r AS)
  obtain l bs e where r: "r = (l, bs, e)" by (cases r)
  obtain r' AS2 where AS': "AS' = r' # AS2" using Cons.prems(2) by (cases AS') auto
  obtain l' bs' e' where r': "r' = (l', bs', e')" by (cases r')
  have "chained C' Z' (C l) AS2"
    by (rule Cons.IH) (use Cons.prems AS' r r' in auto)
  then show ?case using Cons.prems r r' AS' by auto
qed simp

lemma granted_cong:
  assumes "granted p AS" "map fst AS' = map fst AS" "map (snd \<circ> snd) AS' = map (snd \<circ> snd) AS"
    "p_sbrk p' = p_sbrk p" "p_nbrk p' = p_nbrk p"
  shows "granted p' AS'"
proof -
  have "\<exists>bs'. (l, bs', e) \<in> set AS" if r: "(l, bs, e) \<in> set AS'" for l bs e
  proof -
    have z: "map (\<lambda>r. (fst r, snd (snd r))) X = zip (map fst X) (map (snd \<circ> snd) X)" for X :: "arena list"
      by (induction X) auto
    have "map (\<lambda>r. (fst r, snd (snd r))) AS' = map (\<lambda>r. (fst r, snd (snd r))) AS"
      unfolding z using assms(2,3) by simp
    moreover have "(l, e) \<in> set (map (\<lambda>r. (fst r, snd (snd r))) AS')" using r by force
    ultimately have "(l, e) \<in> set (map (\<lambda>r. (fst r, snd (snd r))) AS)" by simp
    then show ?thesis by auto
  qed
  then show ?thesis using assms(1,4,5) by (fastforce simp: granted_def)
qed

lemma invD:
  assumes "inv p K AS tr"
  shows "free_tree (p_hdr p) (p_root p) tr" "layout (fS (p_hdr p)) K (p_tail p) AS" "nodes tr = {x. K x = MAGIC_F}"
    "\<And>x. is_block (K x) \<Longrightarrow> x \<in> dom (p_hdr p)" "chained (fC (p_hdr p)) (fZ (p_hdr p)) (p_chain p) AS"
    "granted p AS" "params p"
  using assms by (auto simp: inv_def)

lemma leader_kind: "layout S K T AS \<Longrightarrow> l \<in> fst ` set AS \<Longrightarrow> K l = MAGIC_E"
  by (auto simp: layout_def arena_ok.simps)

lemma inv_change:
  assumes inv: "inv p K AS tr"
    and p': "p_sbrk p' = p_sbrk p" "p_nbrk p' = p_nbrk p" "p_quanta p' = p_quanta p" "p_chunk p' = p_chunk p" "p_chain p' = p_chain p"
    and tree: "free_tree (p_hdr p') (p_root p') tr'" and lay: "layout (fS (p_hdr p')) K' (p_tail p') AS'"
    and nd: "nodes tr' = {x. K' x = MAGIC_F}" and dm: "\<And>x. is_block (K' x) \<Longrightarrow> x \<in> dom (p_hdr p')"
    and AS: "map fst AS' = map fst AS" "map (snd \<circ> snd) AS' = map (snd \<circ> snd) AS"
    and ld: "\<And>l. K l = MAGIC_E \<Longrightarrow> fC (p_hdr p') l = fC (p_hdr p) l \<and> fZ (p_hdr p') l = fZ (p_hdr p) l"
  shows "inv p' K' AS' tr'"
proof -
  note i = invD [OF inv]
  have "chained (fC (p_hdr p')) (fZ (p_hdr p')) (p_chain p') AS'"
    unfolding p'(5) by (rule chained_cong [OF i(5) AS]) (use ld leader_kind [OF i(2)] in blast)
  moreover have "granted p' AS'" by (rule granted_cong [OF i(6) AS p'(1,2)])
  moreover have "params p'" using i(7) p' by (simp add: params_def)
  ultimately show ?thesis using tree lay nd dm by (auto simp: inv_def)
qed

section \<open>Taking a block off the free tree\<close>

lemma take_run:
  assumes inv: "inv p K AS tr" and b: "K b = MAGIC_F"
  shows "\<exists>h r tr'. pooldel b p = Some ((), p\<lparr>p_hdr := h, p_root := r\<rparr>) \<and> inv (p\<lparr>p_hdr := h, p_root := r\<rparr>) (K(b := MAGIC_A)) AS tr' \<and>
    fS h = fS (p_hdr p) \<and> fM h = fM (p_hdr p)"
    and "held (fS (p_hdr p)) (K(b := MAGIC_A)) AS = held (fS (p_hdr p)) K AS + fS (p_hdr p) b"
proof -
  note i = invD [OF inv]
  have "b \<in> nodes tr" using i(3) b by simp
  from pooldel_gone [OF i(1) this] obtain h r tr' where g: "pooldel b p = Some ((), p\<lparr>p_hdr := h, p_root := r\<rparr>)"
      "free_tree h r tr'" "nodes tr' = nodes tr - {b}" "only (nodes tr) (p_hdr p) h" by (auto simp: gone_def)
  then have o: "dom h = dom (p_hdr p)" "fS h = fS (p_hdr p)" "fM h = fM (p_hdr p)" "\<And>x. x \<notin> nodes tr \<Longrightarrow> h x = p_hdr p x"
    by (auto simp: only_def)
  have bl: "is_block (K b)" "is_block MAGIC_A" using b by (simp_all add: is_block_def)
  note m = layout_mark [OF i(2) bl, simplified]
  have "inv (p\<lparr>p_hdr := h, p_root := r\<rparr>) (K(b := MAGIC_A)) AS tr'"
  proof (rule inv_change [OF inv])
    show "x \<in> dom (p_hdr (p\<lparr>p_hdr := h, p_root := r\<rparr>))" if "is_block ((K(b := MAGIC_A)) x)" for x
      using that i(4) [of x] i(4) [of b] b o(1) is_block_simps by (auto simp del: domIff split: if_splits)
    show "fC (p_hdr (p\<lparr>p_hdr := h, p_root := r\<rparr>)) l = fC (p_hdr p) l \<and> fZ (p_hdr (p\<lparr>p_hdr := h, p_root := r\<rparr>)) l = fZ (p_hdr p) l"
      if "K l = MAGIC_E" for l using o(4) [of l] i(3) that by (simp add: fC_def fZ_def gb_def)
  qed (use g o m(1) i(3) in auto)
  then show "\<exists>h r tr'. pooldel b p = Some ((), p\<lparr>p_hdr := h, p_root := r\<rparr>) \<and> inv (p\<lparr>p_hdr := h, p_root := r\<rparr>) (K(b := MAGIC_A)) AS tr' \<and>
    fS h = fS (p_hdr p) \<and> fM h = fM (p_hdr p)" using g(1) o by blast
  show "held (fS (p_hdr p)) (K(b := MAGIC_A)) AS = held (fS (p_hdr p)) K AS + fS (p_hdr p) b"
    using m(2) b by (simp add: algebra_simps)
qed

section \<open>Giving a block to the free tree\<close>

lemma give_run:
  assumes inv: "inv p K AS tr" and b: "is_block (K b)" "K b \<noteq> MAGIC_F"
    and nb: "\<And>c. p_tail p (b - 8) = Some c \<Longrightarrow> K c \<noteq> MAGIC_F" "K (b + unat (fS (p_hdr p) b)) \<noteq> MAGIC_F"
  shows "\<exists>h r tr'. pooladd b p = Some ((), p\<lparr>p_hdr := h, p_root := r\<rparr>) \<and> inv (p\<lparr>p_hdr := h, p_root := r\<rparr>) (K(b := MAGIC_F)) AS tr' \<and>
    fS h = fS (p_hdr p) \<and> fM h = (fM (p_hdr p))(b := MAGIC_F)"
    and "held (fS (p_hdr p)) (K(b := MAGIC_F)) AS + fS (p_hdr p) b = held (fS (p_hdr p)) K AS"
proof -
  note i = invD [OF inv]
  have bn: "b \<notin> nodes tr" using i(3) b by simp
  have bd: "b \<in> dom (p_hdr p)" by (rule i(4) [OF b(1)])
  have "b \<noteq> nil"
  proof -
    obtain AS1 l us vs e AS2 where "arena_ok (fS (p_hdr p)) K (p_tail p) (l, us @ b # vs, e)"
      using arena_of [OF i(2) b(1)] by metis
    from block_facts(1) [OF this] show ?thesis by (auto simp: nil_def)
  qed
  from pooladd_added [OF i(1) bn this] obtain h r tr' where g: "pooladd b p = Some ((), p\<lparr>p_hdr := h, p_root := r\<rparr>)"
      "free_tree h r tr'" "nodes tr' = insert b (nodes tr)" "only (insert b (nodes tr)) (hQ b (p_hdr p)) h" by (auto simp: added_def)
  then have o: "dom h = dom (p_hdr p)" "fS h = fS (p_hdr p)" "fM h = (fM (p_hdr p))(b := MAGIC_F)"
      "\<And>x. x \<notin> insert b (nodes tr) \<Longrightarrow> h x = p_hdr p x"
    using bd by (auto simp: only_def other_Q insert_absorb simp del: domIff)
  have bl: "is_block MAGIC_F" by (simp add: is_block_def)
  note m = layout_mark [OF i(2) b(1) bl, simplified]
  have nb': "(\<forall>c. p_tail p (b - 8) = Some c \<longrightarrow> K c \<noteq> MAGIC_F) \<and> K (b + unat (fS (p_hdr p) b)) \<noteq> MAGIC_F" using nb by auto
  have "inv (p\<lparr>p_hdr := h, p_root := r\<rparr>) (K(b := MAGIC_F)) AS tr'"
  proof (rule inv_change [OF inv])
    show "x \<in> dom (p_hdr (p\<lparr>p_hdr := h, p_root := r\<rparr>))" if "is_block ((K(b := MAGIC_F)) x)" for x
      using that i(4) [of x] bd o(1) by (auto simp del: domIff split: if_splits)
    show "fC (p_hdr (p\<lparr>p_hdr := h, p_root := r\<rparr>)) l = fC (p_hdr p) l \<and> fZ (p_hdr (p\<lparr>p_hdr := h, p_root := r\<rparr>)) l = fZ (p_hdr p) l"
      if "K l = MAGIC_E" for l
    proof -
      have "l \<notin> insert b (nodes tr)" using i(3) that b(1) by (auto simp: is_block_def)
      then show ?thesis using o(4) [of l] by (simp add: fC_def fZ_def gb_def)
    qed
  qed (use g o m(1) [OF nb'] i(3) in auto)
  then show "\<exists>h r tr'. pooladd b p = Some ((), p\<lparr>p_hdr := h, p_root := r\<rparr>) \<and> inv (p\<lparr>p_hdr := h, p_root := r\<rparr>) (K(b := MAGIC_F)) AS tr' \<and>
    fS h = fS (p_hdr p) \<and> fM h = (fM (p_hdr p))(b := MAGIC_F)" using g(1) o by blast
  show "held (fS (p_hdr p)) (K(b := MAGIC_F)) AS + fS (p_hdr p) b = held (fS (p_hdr p)) K AS"
    using m(2) [OF nb'] b(2) by simp
qed

section \<open>Joining and splitting\<close>

definition hS :: "addr \<Rightarrow> u32 \<Rightarrow> (addr \<rightharpoonup> Bhdr) \<Rightarrow> addr \<rightharpoonup> Bhdr" where "hS a v h = h(a \<mapsto> (gb h a)\<lparr>b_size := v\<rparr>)"
definition hM :: "addr \<Rightarrow> magic \<Rightarrow> (addr \<rightharpoonup> Bhdr) \<Rightarrow> addr \<rightharpoonup> Bhdr" where "hM a v h = h(a \<mapsto> (gb h a)\<lparr>b_magic := v\<rparr>)"

lemma field_SM [simp]:
  "fS (hS a v h) = (fS h)(a := v)" "fM (hS a v h) = fM h" "fC (hS a v h) = fC h" "fZ (hS a v h) = fZ h" 
  "fS (hM a m h) = fS h" "fM (hM a m h) = (fM h)(a := m)" "fC (hM a m h) = fC h" "fZ (hM a m h) = fZ h"
  "dom (hS a v h) = insert a (dom h)" "dom (hM a m h) = insert a (dom h)"
  by (auto simp: fields fC_def fZ_def hS_def hM_def gb_def fun_eq_iff split: option.splits)

lemma other_SM: "x \<noteq> a \<Longrightarrow> hS a v h x = h x" "x \<noteq> a \<Longrightarrow> hM a m h x = h x"
  by (simp_all add: hS_def hM_def)

lemma poke_run:
  "set_magic a m p = Some ((), p\<lparr>p_hdr := hM a m (p_hdr p)\<rparr>)" "set_size a v p = Some ((), p\<lparr>p_hdr := hS a v (p_hdr p)\<rparr>)"
  by (simp_all add: set_magic_def set_size_def pokeb_def pupd_def hM_def hS_def gb_def)

lemma setb_run: "a \<in> dom (p_hdr p) \<Longrightarrow> setb a f p = Some ((), p\<lparr>p_hdr := (p_hdr p)(a \<mapsto> f (gb (p_hdr p) a))\<rparr>)"
  by (auto simp: setb_def pbind_def getb_def pupd_def gb_def)

lemma ptr_nat: "0 \<le> x \<Longrightarrow> x < 2 ^ 32 \<Longrightarrow> ptr x = nat x"
  by (simp add: ptr_def)

lemma set_tail_run:
  assumes "a \<in> dom (p_hdr p)" "8 \<le> unat (fS (p_hdr p) a)" "a + unat (fS (p_hdr p) a) < 2 ^ 32"
  shows "set_tail a p = Some ((), p\<lparr>p_tail := (p_tail p)(a + unat (fS (p_hdr p) a) - 8 \<mapsto> a)\<rparr>)"
proof -
  have "B2T a (gb (p_hdr p) a) = a + unat (fS (p_hdr p) a) - 8"
  proof -
    have "int a + uint (b_size (gb (p_hdr p) a)) - 8 = int (a + unat (fS (p_hdr p) a) - 8)"
      using assms(2) by (simp add: field_getb)
    then show ?thesis using assms(3) by (simp add: B2T_def ptr_nat)
  qed
  then show ?thesis using assms(1) unfolding set_tail_def by (simp add: getb_run pupd_def del: domIff)
qed

text \<open>The statements that join \<open>b\<close> with the block \<open>c\<close> after it.\<close>

lemma join_run:
  assumes inv: "inv p K AS tr" and b: "is_block (K b)" "K b \<noteq> MAGIC_F"
    and c: "c = b + unat (fS (p_hdr p) b)" "is_block (K c)" "K c \<noteq> MAGIC_F"
  shows "\<exists>p' AS'. pseq [set_magic c No_magic, pbind (getb c) (\<lambda>y. setb b (\<lambda>x. x\<lparr>b_size := b_size x + b_size y\<rparr>)), set_tail b] p = Some ((), p') \<and>
    inv p' (K(c := No_magic)) AS' tr \<and> fS (p_hdr p') = (fS (p_hdr p))(b := fS (p_hdr p) b + fS (p_hdr p) c) \<and>
    fM (p_hdr p') = (fM (p_hdr p))(c := No_magic) \<and> held (fS (p_hdr p')) (K(c := No_magic)) AS' = held (fS (p_hdr p)) K AS \<and>
    p' = p\<lparr>p_hdr := p_hdr p', p_tail := p_tail p'\<rparr> \<and>
    p_tail p' = (p_tail p)(b + unat (fS (p_hdr p) b + fS (p_hdr p) c) - 8 \<mapsto> b)"
    and "unat (fS (p_hdr p) b + fS (p_hdr p) c) = unat (fS (p_hdr p) b) + unat (fS (p_hdr p) c)"
proof -
  let ?S = "fS (p_hdr p)"
  note i = invD [OF inv]
  note j = layout_join [OF i(2) b c]
  show n: "unat (?S b + ?S c) = unat (?S b) + unat (?S c)" by (rule j(2))
  from j(1) obtain AS' where AS': "layout (?S(b := ?S b + ?S c)) (K(c := No_magic)) ((p_tail p)(b + unat (?S b + ?S c) - 8 \<mapsto> b)) AS'"
      "held (?S(b := ?S b + ?S c)) (K(c := No_magic)) AS' = held ?S K AS" "map fst AS' = map fst AS" "map (snd \<circ> snd) AS' = map (snd \<circ> snd) AS"
    by blast
  have bd: "b \<in> dom (p_hdr p)" "c \<in> dom (p_hdr p)" using i(4) [OF b(1)] i(4) [OF c(2)] by auto
  obtain l us ws e where ok: "arena_ok ?S K (p_tail p) (l, us @ c # ws, e)"
    using arena_of [OF i(2) c(2)] by metis
  have fit: "b + unat (?S b + ?S c) < 2 ^ 32" "8 \<le> unat (?S b + ?S c)"
    using block_facts(2,3,6) [OF ok] c(1) n by auto
  have "32 \<le> unat (?S b)" using arena_of [OF i(2) b(1)] block_facts(3) by metis
  then have cb: "c \<noteq> b" using c(1) by simp
  define h where "h = hS b (?S b + ?S c) (hM c No_magic (p_hdr p))"
  define p' where "p' = p\<lparr>p_hdr := h, p_tail := (p_tail p)(b + unat (?S b + ?S c) - 8 \<mapsto> b)\<rparr>"
  have run: "pseq [set_magic c No_magic, pbind (getb c) (\<lambda>y. setb b (\<lambda>x. x\<lparr>b_size := b_size x + b_size y\<rparr>)), set_tail b] p = Some ((), p')"
  proof -
    let ?h1 = "hM c No_magic (p_hdr p)"
    have 1: "set_magic c No_magic p = Some ((), p\<lparr>p_hdr := ?h1\<rparr>)" by (rule poke_run)
    have "pbind (getb c) (\<lambda>y. setb b (\<lambda>x. x\<lparr>b_size := b_size x + b_size y\<rparr>)) (p\<lparr>p_hdr := ?h1\<rparr>)
        = setb b (\<lambda>x. x\<lparr>b_size := b_size x + ?S c\<rparr>) (p\<lparr>p_hdr := ?h1\<rparr>)"
      by (subst getb_run) (simp_all add: field_getb del: domIff)
    also have "\<dots> = Some ((), p\<lparr>p_hdr := h\<rparr>)"
      using bd by (subst setb_run) (simp_all add: h_def hS_def field_getb del: domIff)
    finally have 2: "pbind (getb c) (\<lambda>y. setb b (\<lambda>x. x\<lparr>b_size := b_size x + b_size y\<rparr>)) (p\<lparr>p_hdr := ?h1\<rparr>) = Some ((), p\<lparr>p_hdr := h\<rparr>)" .
    have "fS h b = ?S b + ?S c" "b \<in> dom h" by (simp_all add: h_def del: domIff)
    then have 3: "set_tail b (p\<lparr>p_hdr := h\<rparr>) = Some ((), p')"
      using set_tail_run [of b "p\<lparr>p_hdr := h\<rparr>"] fit by (simp add: p'_def del: domIff)
    show ?thesis using 1 2 3 by (simp only: pseq_run)
  qed
  have bn: "b \<notin> nodes tr" "c \<notin> nodes tr" using i(3) b c by auto
  have "inv p' (K(c := No_magic)) AS' tr"
  proof (rule inv_change [OF inv])
    have "h x = p_hdr p x" if "x \<in> nodes tr" for x
    proof -
      have "x \<noteq> b" "x \<noteq> c" using that bn by auto
      then show ?thesis by (simp add: h_def other_SM)
    qed
    moreover have "dom (p_hdr p) \<subseteq> dom h" by (auto simp: h_def simp del: domIff)
    ultimately have "free_tree h (p_root p) tr" using free_tree_cong [OF i(1)] by blast
    then show "free_tree (p_hdr p') (p_root p') tr" by (simp add: p'_def)
    show "layout (fS (p_hdr p')) (K(c := No_magic)) (p_tail p') AS'" using AS'(1) by (simp add: p'_def h_def)
    show "nodes tr = {x. (K(c := No_magic)) x = MAGIC_F}" using i(3) c(3) by auto
    show "x \<in> dom (p_hdr p')" if "is_block ((K(c := No_magic)) x)" for x
      using that i(4) [of x] by (auto simp: p'_def h_def simp del: domIff split: if_splits)
  qed (use AS' in \<open>simp_all add: p'_def h_def\<close>)
  then show "\<exists>p' AS'. pseq [set_magic c No_magic, pbind (getb c) (\<lambda>y. setb b (\<lambda>x. x\<lparr>b_size := b_size x + b_size y\<rparr>)), set_tail b] p = Some ((), p') \<and>
    inv p' (K(c := No_magic)) AS' tr \<and> fS (p_hdr p') = ?S(b := ?S b + ?S c) \<and>
    fM (p_hdr p') = (fM (p_hdr p))(c := No_magic) \<and> held (fS (p_hdr p')) (K(c := No_magic)) AS' = held ?S K AS \<and>
    p' = p\<lparr>p_hdr := p_hdr p', p_tail := p_tail p'\<rparr> \<and> p_tail p' = (p_tail p)(b + unat (?S b + ?S c) - 8 \<mapsto> b)"
    using run AS'(2) by (intro exI [of _ p'] exI [of _ AS']) (simp add: p'_def h_def)
qed

text \<open>The statements that split the block \<open>b\<close>.\<close>

lemma split_run:
  assumes inv: "inv p K AS tr" and b: "is_block (K b)" "K b \<noteq> MAGIC_F"
    and s: "32 dvd unat s" "s \<noteq> 0" "s < fS (p_hdr p) b" and c: "c = b + unat s"
  shows "\<exists>p' AS'. pseq [set_size b s, set_tail b, set_size c (fS (p_hdr p) b - s), set_tail c] p = Some ((), p') \<and>
    inv p' (K(c := MAGIC_A)) AS' tr \<and> fS (p_hdr p') = (fS (p_hdr p))(b := s, c := fS (p_hdr p) b - s) \<and>
    fM (p_hdr p') = fM (p_hdr p) \<and> held (fS (p_hdr p')) (K(c := MAGIC_A)) AS' = held (fS (p_hdr p)) K AS \<and>
    p' = p\<lparr>p_hdr := p_hdr p', p_tail := p_tail p'\<rparr> \<and> p_tail p' (c - 8) = Some b"
    and "\<not> is_block (K c)" "unat (fS (p_hdr p) b - s) = unat (fS (p_hdr p) b) - unat s" "c \<noteq> b"
proof -
  let ?S = "fS (p_hdr p)"
  note i = invD [OF inv]
  note j = layout_split [OF i(2) b s c]
  show n: "\<not> is_block (K c)" "unat (?S b - s) = unat (?S b) - unat s" "c \<noteq> b" by (rule j)+
  let ?T = "(p_tail p)(b + unat s - 8 \<mapsto> b, c + unat (?S b - s) - 8 \<mapsto> c)"
  from j(1) obtain AS' where AS': "layout (?S(b := s, c := ?S b - s)) (K(c := MAGIC_A)) ?T AS'"
      "held (?S(b := s, c := ?S b - s)) (K(c := MAGIC_A)) AS' = held ?S K AS" "map fst AS' = map fst AS" "map (snd \<circ> snd) AS' = map (snd \<circ> snd) AS"
    by blast
  have bd: "b \<in> dom (p_hdr p)" by (rule i(4) [OF b(1)])
  obtain l us ws e where ok: "arena_ok ?S K (p_tail p) (l, us @ b # ws, e)"
    using arena_of [OF i(2) b(1)] by metis
  have lt: "unat s < unat (?S b)" using s(3) by (simp add: word_less_nat_alt)
  have "32 dvd unat (?S b - s)" "?S b - s \<noteq> 0" using n(2) block_facts(4) [OF ok] s by (simp_all add: dvd_diff_nat)
  then have ge: "32 \<le> unat s" "32 \<le> unat (?S b - s)" using size_ge s by auto
  have fit: "b + unat (?S b) < 2 ^ 32" using block_facts(2,6) [OF ok] by auto
  define h1 where "h1 = hS b s (p_hdr p)"
  define h where "h = hS c (?S b - s) h1"
  define p' where "p' = p\<lparr>p_hdr := h, p_tail := ?T\<rparr>"
  let ?T1 = "(p_tail p)(b + unat s - 8 \<mapsto> b)"
  have run: "pseq [set_size b s, set_tail b, set_size c (?S b - s), set_tail c] p = Some ((), p')"
  proof -
    have 1: "set_size b s p = Some ((), p\<lparr>p_hdr := h1\<rparr>)" unfolding h1_def by (rule poke_run)
    have 2: "set_tail b (p\<lparr>p_hdr := h1\<rparr>) = Some ((), p\<lparr>p_hdr := h1, p_tail := ?T1\<rparr>)"
      using set_tail_run [of b "p\<lparr>p_hdr := h1\<rparr>"] bd ge fit lt by (simp add: h1_def del: domIff)
    have 3: "set_size c (?S b - s) (p\<lparr>p_hdr := h1, p_tail := ?T1\<rparr>) = Some ((), p\<lparr>p_hdr := h, p_tail := ?T1\<rparr>)"
      by (simp add: poke_run h_def)
    have "fS h c = ?S b - s" "c \<in> dom h" by (simp_all add: h_def del: domIff)
    then have 4: "set_tail c (p\<lparr>p_hdr := h, p_tail := ?T1\<rparr>) = Some ((), p')"
      using set_tail_run [of c "p\<lparr>p_hdr := h, p_tail := ?T1\<rparr>"] ge fit c n(2) lt by (simp add: p'_def del: domIff)
    show ?thesis using 1 2 3 4 by (simp only: pseq_run)
  qed
  have bn: "b \<notin> nodes tr" "c \<notin> nodes tr" using i(3) b n(1) by (auto simp: is_block_def)
  have "inv p' (K(c := MAGIC_A)) AS' tr"
  proof (rule inv_change [OF inv])
    have "h x = p_hdr p x" if "x \<in> nodes tr" for x
    proof -
      have "x \<noteq> b" "x \<noteq> c" using that bn by auto
      then show ?thesis by (simp add: h_def h1_def other_SM)
    qed
    moreover have "dom (p_hdr p) \<subseteq> dom h" by (auto simp: h_def h1_def simp del: domIff)
    ultimately have "free_tree h (p_root p) tr" using free_tree_cong [OF i(1)] by blast
    then show "free_tree (p_hdr p') (p_root p') tr" by (simp add: p'_def)
    show "layout (fS (p_hdr p')) (K(c := MAGIC_A)) (p_tail p') AS'" using AS'(1) by (simp add: p'_def h_def h1_def)
    show "nodes tr = {x. (K(c := MAGIC_A)) x = MAGIC_F}" using i(3) n(1) by (auto simp: is_block_def)
    show "x \<in> dom (p_hdr p')" if "is_block ((K(c := MAGIC_A)) x)" for x
      using that i(4) [of x] by (auto simp: p'_def h_def h1_def simp del: domIff split: if_splits)
  qed (use AS' in \<open>simp_all add: p'_def h_def h1_def\<close>)
  moreover have "p_tail p' (c - 8) = Some b" using ge c by (auto simp: p'_def)
  ultimately show "\<exists>p' AS'. pseq [set_size b s, set_tail b, set_size c (?S b - s), set_tail c] p = Some ((), p') \<and>
    inv p' (K(c := MAGIC_A)) AS' tr \<and> fS (p_hdr p') = ?S(b := s, c := ?S b - s) \<and>
    fM (p_hdr p') = fM (p_hdr p) \<and> held (fS (p_hdr p')) (K(c := MAGIC_A)) AS' = held ?S K AS \<and>
    p' = p\<lparr>p_hdr := p_hdr p', p_tail := p_tail p'\<rparr> \<and> p_tail p' (c - 8) = Some b"
    using run AS'(2) by (intro exI [of _ p'] exI [of _ AS']) (simp add: p'_def h_def h1_def)
qed

end
