(* ===== verification/Poolops.thy ===== *)
theory Poolops
  imports Arena
begin

text \<open>
  The operations of the allocator, \<open>poolalloc\<close> and \<open>poolfree\<close> of \<open>emu/alloc.c\<close>, run from a pool in good order:
  they succeed, keep the pool in good order, and change what is live by one block. The view for a client is
  the map \<open>live\<close> from the addresses it holds to the bytes behind them. The locale \<open>allocator\<close> states the
  contract; it is interpreted on the pools of the program, so that every client that gives back only what
  it holds runs to its end with blocks that are apart.
\<close>

section \<open>Release\<close>

definition used :: "magic \<Rightarrow> bool" where
  "used m \<longleftrightarrow> m = MAGIC_A \<or> m = MAGIC_I"

text \<open>The addresses a client holds, with the number of bytes behind each.\<close>

definition live :: "pool \<Rightarrow> addr \<rightharpoonup> nat" where
  "live p v = (if 8 \<le> v \<and> used (fM (p_hdr p) (v - 8)) then Some (unat (fS (p_hdr p) (v - 8)) - 16) else None)"

definition pool_ok :: "pool \<Rightarrow> arena list \<Rightarrow> addr list tree \<Rightarrow> bool" where
  "pool_ok p AS tr \<longleftrightarrow> inv p (fM (p_hdr p)) AS tr \<and> p_cursize p = held (fS (p_hdr p)) (fM (p_hdr p)) AS"

text \<open>Only the headers, the tree and the tails change.\<close>

definition same_rest :: "pool \<Rightarrow> pool \<Rightarrow> bool" where
  "same_rest p p' \<longleftrightarrow> p' = p\<lparr>p_hdr := p_hdr p', p_root := p_root p', p_tail := p_tail p'\<rparr>"

lemma same_restI [simp]: "same_rest p (p\<lparr>p_hdr := h\<rparr>)" "same_rest p (p\<lparr>p_hdr := h, p_root := r\<rparr>)"
  "same_rest p (p\<lparr>p_hdr := h, p_tail := t\<rparr>)" "same_rest p p"
  by (simp_all add: same_rest_def)

lemma same_rest_trans: "same_rest p p' \<Longrightarrow> same_rest p' p'' \<Longrightarrow> same_rest p p''"
  unfolding same_rest_def by (cases p; cases p'; cases p''; auto)

lemma same_rest_fields:
  "same_rest p p' \<Longrightarrow> p_cursize p' = p_cursize p \<and> p_mem p' = p_mem p \<and> p_nfree p' = p_nfree p \<and> p_nalloc p' = p_nalloc p \<and>
    p_nbrk p' = p_nbrk p \<and> p_sbrk p' = p_sbrk p \<and> p_arenasize p' = p_arenasize p"
  unfolding same_rest_def by (cases p; cases p'; auto)

lemma pseq_append: "pseq xs p = Some ((), p') \<Longrightarrow> pseq (xs @ ys) p = pseq ys p'"
  by (induction xs arbitrary: p) (auto simp: pseq.simps pret_def pbind_def split: option.splits)

lemma used_block: "used m \<Longrightarrow> is_block m \<and> m \<noteq> MAGIC_F"
  by (auto simp: used_def is_block_def)

lemma block_used: "is_block m \<Longrightarrow> m \<noteq> MAGIC_F \<Longrightarrow> used m"
  by (auto simp: used_def is_block_def)

text \<open>What is known of the neighbours of a block.\<close>

lemma neighbours:
  assumes lay: "layout S K T AS" and b: "is_block (K b)"
  shows "32 \<le> unat (S b)" "b + unat (S b) + 4 \<le> 2 ^ 32" "32 \<le> b"
    "K (b + unat (S b)) \<noteq> No_magic" "is_block (K (b + unat (S b))) \<or> K (b + unat (S b)) = MAGIC_E"
    "\<exists>c. T (b - 8) = Some c \<and> (K c = MAGIC_E \<or> is_block (K c) \<and> b = c + unat (S c))"
    "K b = MAGIC_F \<Longrightarrow> K (b + unat (S b)) \<noteq> MAGIC_F"
proof -
  obtain AS1 l us vs e AS2 where ok: "arena_ok S K T (l, us @ b # vs, e)" using arena_of [OF lay b] by metis
  note f = block_facts [OF ok]
  show "32 \<le> unat (S b)" "b + unat (S b) + 4 \<le> 2 ^ 32" "32 \<le> b" using f(1,2,3,6) by auto
  have bl: "\<forall>x \<in> set (us @ b # vs). is_block (K x)" using ok by (auto simp: arena_ok.simps)
  then show x: "is_block (K (b + unat (S b))) \<or> K (b + unat (S b)) = MAGIC_E"
    using next_block [OF ok] f(11) by (auto split: list.splits)
  then show "K (b + unat (S b)) \<noteq> No_magic" by (auto simp: is_block_def)
  show "\<exists>c. T (b - 8) = Some c \<and> (K c = MAGIC_E \<or> is_block (K c) \<and> b = c + unat (S c))"
  proof (cases us rule: rev_cases)
    case Nil
    then show ?thesis using prev_block [OF ok] f(10) by simp
  next
    case (snoc ws c)
    then have "arena_ok S K T (l, ws @ c # b # vs, e)" using ok by simp
    then have "b = c + unat (S c)" using next_block by fastforce
    then show ?thesis using prev_block [OF ok] snoc bl by simp
  qed
  show "K b = MAGIC_F \<Longrightarrow> K (b + unat (S b)) \<noteq> MAGIC_F" using next_not_free [OF ok] by blast
qed

lemma join_forward:
  assumes inv: "inv p (fM (p_hdr p)) AS tr" and b: "used (fM (p_hdr p) b)" and c: "c = b + unat (fS (p_hdr p) b)"
  shows "\<exists>p' AS' tr'. pwhen (fM (p_hdr p) c = MAGIC_F) (pseq [pooldel c, set_magic c No_magic,
      pbind (getb c) (\<lambda>y. setb b (\<lambda>x. x\<lparr>b_size := b_size x + b_size y\<rparr>)), set_tail b]) p = Some ((), p') \<and>
    inv p' (fM (p_hdr p')) AS' tr' \<and> same_rest p p' \<and> fM (p_hdr p') b = fM (p_hdr p) b \<and>
    fM (p_hdr p') (b + unat (fS (p_hdr p') b)) \<noteq> MAGIC_F \<and>
    (\<forall>x. x \<noteq> b \<longrightarrow> fS (p_hdr p') x = fS (p_hdr p) x) \<and> (\<forall>x. used (fM (p_hdr p') x) \<longleftrightarrow> used (fM (p_hdr p) x)) \<and>
    held (fS (p_hdr p')) (fM (p_hdr p')) AS' + fS (p_hdr p) b = held (fS (p_hdr p)) (fM (p_hdr p)) AS + fS (p_hdr p') b"
proof (cases "fM (p_hdr p) c = MAGIC_F")
  case False
  then show ?thesis using inv c by (intro exI [of _ p] exI [of _ AS] exI [of _ tr]) (simp add: pwhen_def pret_def)
next
  case True
  let ?K = "fM (p_hdr p)" and ?S = "fS (p_hdr p)"
  note i = invD [OF inv] and ub = used_block [OF b]
  have cb: "c \<noteq> b" using ub True by auto
  from take_run [OF inv True] obtain h r tr' where t: "pooldel c p = Some ((), p\<lparr>p_hdr := h, p_root := r\<rparr>)"
      "inv (p\<lparr>p_hdr := h, p_root := r\<rparr>) (?K(c := MAGIC_A)) AS tr'" "fS h = ?S" "fM h = ?K"
      "held ?S (?K(c := MAGIC_A)) AS = held ?S ?K AS + ?S c" by blast
  define p1 where "p1 = p\<lparr>p_hdr := h, p_root := r\<rparr>"
  have p1: "fS (p_hdr p1) = ?S" "fM (p_hdr p1) = ?K" "p_tail p1 = p_tail p" "same_rest p p1" using t(3,4) by (simp_all add: p1_def)
  note t = t[folded p1_def]
  have "is_block ((?K(c := MAGIC_A)) b)" "(?K(c := MAGIC_A)) b \<noteq> MAGIC_F" "c = b + unat (fS (p_hdr p1) b)"
    "is_block ((?K(c := MAGIC_A)) c)" "(?K(c := MAGIC_A)) c \<noteq> MAGIC_F" using ub cb c p1(1) by (auto simp: is_block_def)
  note j = join_run [OF t(2) this]
  from j(1) [unfolded p1(1,2)] obtain p' AS' where p': "pseq [set_magic c No_magic, pbind (getb c) (\<lambda>y. setb b (\<lambda>x. x\<lparr>b_size := b_size x + b_size y\<rparr>)), set_tail b] p1 = Some ((), p')"
      "inv p' ((?K(c := MAGIC_A))(c := No_magic)) AS' tr'" "fS (p_hdr p') = ?S(b := ?S b + ?S c)" "fM (p_hdr p') = ?K(c := No_magic)"
      "held (fS (p_hdr p')) ((?K(c := MAGIC_A))(c := No_magic)) AS' = held ?S (?K(c := MAGIC_A)) AS"
      "p' = p1\<lparr>p_hdr := p_hdr p', p_tail := p_tail p'\<rparr>"
    by blast
  have K': "(?K(c := MAGIC_A))(c := No_magic) = fM (p_hdr p')" using p'(4) by simp
  have "pwhen (?K c = MAGIC_F) (pseq [pooldel c, set_magic c No_magic,
      pbind (getb c) (\<lambda>y. setb b (\<lambda>x. x\<lparr>b_size := b_size x + b_size y\<rparr>)), set_tail b]) p = Some ((), p')"
    using True p'(1) by (simp add: pwhen_def pseq_run(2) [where m = "pooldel c", OF t(1)])
  moreover have "same_rest p p'"
    using same_rest_trans [of p p1 p'] p1(4) p'(6) by (metis same_restI(3))
  moreover have "fM (p_hdr p') (b + unat (fS (p_hdr p') b)) \<noteq> MAGIC_F"
  proof -
    have "unat (?S b + ?S c) = unat (?S b) + unat (?S c)" using j(2) p1(1) by simp
    then have "b + unat (fS (p_hdr p') b) = c + unat (?S c)" using p'(3) c by simp
    moreover have "?K (c + unat (?S c)) \<noteq> MAGIC_F"
      using neighbours(7) [OF i(2), of c] True by (simp add: is_block_def)
    ultimately show ?thesis using p'(4) by simp
  qed
  moreover have "held (fS (p_hdr p')) (fM (p_hdr p')) AS' + ?S b = held ?S ?K AS + fS (p_hdr p') b"
    using p'(3,5) t(5) K' by (simp add: algebra_simps)
  ultimately show ?thesis using p'(2,3,4) K' cb True
    by (intro exI [of _ p'] exI [of _ AS'] exI [of _ tr']) (auto simp: used_def)
qed

lemma join_backward:
  assumes inv: "inv p (fM (p_hdr p)) AS tr" and b: "used (fM (p_hdr p) b)" and c: "p_tail p (b - 8) = Some c"
    and nx: "fM (p_hdr p) (b + unat (fS (p_hdr p) b)) \<noteq> MAGIC_F"
  shows "\<exists>p' AS' tr'. (if fM (p_hdr p) c = MAGIC_F then pseq [pooldel c, set_magic b No_magic,
      pbind (getb b) (\<lambda>x. setb c (\<lambda>y. y\<lparr>b_size := b_size y + b_size x\<rparr>)), set_tail c, pooladd c] else pooladd b) p = Some ((), p') \<and>
    inv p' (fM (p_hdr p')) AS' tr' \<and> same_rest p p' \<and> \<not> used (fM (p_hdr p') b) \<and>
    (\<forall>x. x \<noteq> b \<longrightarrow> (used (fM (p_hdr p') x) \<longleftrightarrow> used (fM (p_hdr p) x)) \<and> (used (fM (p_hdr p) x) \<longrightarrow> fS (p_hdr p') x = fS (p_hdr p) x)) \<and>
    held (fS (p_hdr p')) (fM (p_hdr p')) AS' + fS (p_hdr p) b = held (fS (p_hdr p)) (fM (p_hdr p)) AS"
proof (cases "fM (p_hdr p) c = MAGIC_F")
  case False
  note ub = used_block [OF b]
  have "\<And>c'. p_tail p (b - 8) = Some c' \<Longrightarrow> fM (p_hdr p) c' \<noteq> MAGIC_F" using c False by simp
  from give_run [OF inv conjunct1 [OF ub] conjunct2 [OF ub] this nx] obtain h r tr' where
    g: "pooladd b p = Some ((), p\<lparr>p_hdr := h, p_root := r\<rparr>)" "inv (p\<lparr>p_hdr := h, p_root := r\<rparr>) ((fM (p_hdr p))(b := MAGIC_F)) AS tr'"
      "fS h = fS (p_hdr p)" "fM h = (fM (p_hdr p))(b := MAGIC_F)"
      "held (fS (p_hdr p)) ((fM (p_hdr p))(b := MAGIC_F)) AS + fS (p_hdr p) b = held (fS (p_hdr p)) (fM (p_hdr p)) AS" by blast
  then show ?thesis using False
    by (intro exI [of _ "p\<lparr>p_hdr := h, p_root := r\<rparr>"] exI [of _ AS] exI [of _ tr']) (auto simp: used_def)
next
  case True
  let ?K = "fM (p_hdr p)" and ?S = "fS (p_hdr p)"
  note i = invD [OF inv] and ub = used_block [OF b]
  have cb: "c \<noteq> b" using ub True by auto
  have bc: "b = c + unat (?S c)" using neighbours(6) [OF i(2), of b] ub c True by auto
  from take_run [OF inv True] obtain h r tr' where t: "pooldel c p = Some ((), p\<lparr>p_hdr := h, p_root := r\<rparr>)"
      "inv (p\<lparr>p_hdr := h, p_root := r\<rparr>) (?K(c := MAGIC_A)) AS tr'" "fS h = ?S" "fM h = ?K"
      "held ?S (?K(c := MAGIC_A)) AS = held ?S ?K AS + ?S c" by blast
  define p1 where "p1 = p\<lparr>p_hdr := h, p_root := r\<rparr>"
  have p1: "fS (p_hdr p1) = ?S" "fM (p_hdr p1) = ?K" "p_tail p1 = p_tail p" "same_rest p p1" using t(3,4) by (simp_all add: p1_def)
  note t = t[folded p1_def]
  have "is_block ((?K(c := MAGIC_A)) c)" "(?K(c := MAGIC_A)) c \<noteq> MAGIC_F" "b = c + unat (fS (p_hdr p1) c)"
    "is_block ((?K(c := MAGIC_A)) b)" "(?K(c := MAGIC_A)) b \<noteq> MAGIC_F" using ub cb bc p1(1) by (auto simp: is_block_def)
  note j = join_run [OF t(2) this]
  from j(1) [unfolded p1(1-3)] obtain p2 AS' where p2: "pseq [set_magic b No_magic, pbind (getb b) (\<lambda>x. setb c (\<lambda>y. y\<lparr>b_size := b_size y + b_size x\<rparr>)), set_tail c] p1 = Some ((), p2)"
      "inv p2 ((?K(c := MAGIC_A))(b := No_magic)) AS' tr'" "fS (p_hdr p2) = ?S(c := ?S c + ?S b)" "fM (p_hdr p2) = ?K(b := No_magic)"
      "held (fS (p_hdr p2)) ((?K(c := MAGIC_A))(b := No_magic)) AS' = held ?S (?K(c := MAGIC_A)) AS"
      "p2 = p1\<lparr>p_hdr := p_hdr p2, p_tail := p_tail p2\<rparr>" "p_tail p2 = (p_tail p)(c + unat (?S c + ?S b) - 8 \<mapsto> c)"
    by blast
  let ?K2 = "(?K(c := MAGIC_A))(b := No_magic)"
  have n: "unat (?S c + ?S b) = unat (?S c) + unat (?S b)" using j(2) p1(1) by simp
  have end_: "c + unat (fS (p_hdr p2) c) = b + unat (?S b)" using p2(3) n bc by simp
  have nb: "32 \<le> unat (?S c)" "32 \<le> unat (?S b)" "32 \<le> c"
    using neighbours [OF i(2), of c] neighbours [OF i(2), of b] ub True by (auto simp: is_block_def)
  have bl: "is_block (?K2 c)" "?K2 c \<noteq> MAGIC_F" using cb by (auto simp: is_block_def)
  have pr: "?K2 d \<noteq> MAGIC_F" if d: "p_tail p2 (c - 8) = Some d" for d
  proof -
    have T: "p_tail p (c - 8) = Some d" using d p2(7) n nb by (auto split: if_splits)
    have "is_block (?K c)" using True by (simp add: is_block_def)
    from neighbours(6) [OF i(2) this] T have "?K d = MAGIC_E \<or> is_block (?K d) \<and> c = d + unat (?S d)" by auto
    then show ?thesis
    proof
      assume "is_block (?K d) \<and> c = d + unat (?S d)"
      then have "?K d \<noteq> MAGIC_F" using neighbours(7) [OF i(2), of d] True by auto
      then show ?thesis by simp
    qed auto
  qed
  have "?K2 (c + unat (fS (p_hdr p2) c)) \<noteq> MAGIC_F"
    unfolding end_ using nx by simp
  from give_run [OF p2(2) bl pr this] obtain h' r' tr'' where
    g: "pooladd c p2 = Some ((), p2\<lparr>p_hdr := h', p_root := r'\<rparr>)" "inv (p2\<lparr>p_hdr := h', p_root := r'\<rparr>) (?K2(c := MAGIC_F)) AS' tr''"
      "fS h' = fS (p_hdr p2)" "fM h' = (fM (p_hdr p2))(c := MAGIC_F)"
      "held (fS (p_hdr p2)) (?K2(c := MAGIC_F)) AS' + fS (p_hdr p2) c = held (fS (p_hdr p2)) ?K2 AS'" by blast
  let ?p' = "p2\<lparr>p_hdr := h', p_root := r'\<rparr>"
  have K': "?K2(c := MAGIC_F) = fM (p_hdr ?p')" using g(4) p2(4) by auto
  have "pseq [pooldel c, set_magic b No_magic, pbind (getb b) (\<lambda>x. setb c (\<lambda>y. y\<lparr>b_size := b_size y + b_size x\<rparr>)), set_tail c, pooladd c] p
    = pseq ([set_magic b No_magic, pbind (getb b) (\<lambda>x. setb c (\<lambda>y. y\<lparr>b_size := b_size y + b_size x\<rparr>)), set_tail c] @ [pooladd c]) p1"
    by (simp add: pseq_run(2) [where m = "pooldel c", OF t(1)])
  also have "\<dots> = pseq [pooladd c] p2" by (rule pseq_append [OF p2(1)])
  also have "\<dots> = Some ((), ?p')" by (simp add: pseq_run(2) [where m = "pooladd c", OF g(1)] pseq_run(1))
  finally have "(if ?K c = MAGIC_F then pseq [pooldel c, set_magic b No_magic,
      pbind (getb b) (\<lambda>x. setb c (\<lambda>y. y\<lparr>b_size := b_size y + b_size x\<rparr>)), set_tail c, pooladd c] else pooladd b) p = Some ((), ?p')"
    using True by simp
  moreover have "same_rest p ?p'"
    using same_rest_trans [of p p1 p2] same_rest_trans [of p p2 ?p'] p1(4) p2(6) by (metis same_restI(2,3))
  moreover have "held (fS (p_hdr ?p')) (fM (p_hdr ?p')) AS' + ?S b = held ?S ?K AS"
    using g(3,5) K' p2(3,5) t(5) by (simp add: algebra_simps)
  moreover have "inv ?p' (fM (p_hdr ?p')) AS' tr''" using g(2) K' by simp
  moreover have "fM (p_hdr ?p') = (?K(b := No_magic))(c := MAGIC_F)" "fS (p_hdr ?p') = ?S(c := ?S c + ?S b)" using g(3,4) p2(3,4) by simp_all
  ultimately show ?thesis using cb True
    by (intro exI [of _ ?p'] exI [of _ AS'] exI [of _ tr'']) (auto simp: used_def simp del: pool.simps)
qed

lemma inv_counts:
  "inv (p\<lparr>p_nfree := x\<rparr>) K AS tr \<longleftrightarrow> inv p K AS tr" "inv (p\<lparr>p_nalloc := z\<rparr>) K AS tr \<longleftrightarrow> inv p K AS tr"
  "inv (p\<lparr>p_cursize := y\<rparr>) K AS tr \<longleftrightarrow> inv p K AS tr"
  by (simp_all add: inv_def granted_def params_def)

lemma D2B_run:
  "D2B v p = (case p_hdr p (ptr (int v - 8)) of None \<Rightarrow> None
     | Some b \<Rightarrow> if used (b_magic b) then Some (ptr (int v - 8), p) else None)"
  by (auto simp: D2B_def pbind_def getb_def pfail_def pret_def used_def split: option.splits)

lemma live_block:
  assumes "pool_ok p AS tr" "live p v = Some n"
  shows "used (fM (p_hdr p) (v - 8))" "v = (v - 8) + 8" "v - 8 \<in> dom (p_hdr p)" "ptr (int v - 8) = v - 8" "v < 2 ^ 32"
    "n = unat (fS (p_hdr p) (v - 8)) - 16" "v \<noteq> nil"
proof -
  have inv: "inv p (fM (p_hdr p)) AS tr" using assms(1) by (simp add: pool_ok_def)
  note i = invD [OF inv]
  show u: "used (fM (p_hdr p) (v - 8))" and "n = unat (fS (p_hdr p) (v - 8)) - 16" and e: "v = (v - 8) + 8"
    using assms(2) by (auto simp: live_def split: if_splits)
  show "v - 8 \<in> dom (p_hdr p)" by (rule magic_dom) (use u in \<open>auto simp: used_def\<close>)
  show lt: "v < 2 ^ 32" using neighbours(1,2) [OF i(2), of "v - 8"] used_block [OF u] e by linarith
  have "nat (int v - 8) = v - 8" by simp
  then show "ptr (int v - 8) = v - 8" using lt e by (simp add: ptr_nat)
  show "v \<noteq> nil" using e by (simp add: nil_def)
qed

text \<open>\<open>poolfree\<close> on an address that a client holds.\<close>

lemma poolfree_run:
  assumes ok: "pool_ok p AS tr" and v: "live p v = Some n"
  shows "\<exists>p' AS' tr'. poolfree v p = Some ((), p') \<and> pool_ok p' AS' tr' \<and> live p' = (live p)(v := None) \<and>
    p_mem p' = p_mem p \<and> p_nfree p' = Suc (p_nfree p) \<and> p_nalloc p' = p_nalloc p \<and>
    p_cursize p' = p_cursize p - word_of_nat (n + 16)"
proof -
  define b where "b = v - 8"
  note l = live_block [OF ok v, folded b_def]
  define x where "x = fS (p_hdr p) b"
  define p0 where "p0 = p\<lparr>p_nfree := Suc (p_nfree p), p_cursize := p_cursize p - x\<rparr>"
  define c where "c = b + unat x"
  have hp: "p_hdr p0 = p_hdr p" "p_tail p0 = p_tail p" by (simp_all add: p0_def)
  have inv: "inv p0 (fM (p_hdr p0)) AS tr" using ok by (simp add: pool_ok_def p0_def inv_counts)
  note i = invD [OF inv]
  have u0: "used (fM (p_hdr p0) b)" using l(1) hp by simp
  note nb = neighbours [OF i(2) conjunct1 [OF used_block [OF u0]]]
  have cd: "c \<in> dom (p_hdr p0)" unfolding c_def x_def hp(1) [symmetric] by (rule magic_dom [OF nb(4)])
  have B2: "B2NB b (gb (p_hdr p) b) = c"
  proof -
    have e: "int b + uint (b_size (gb (p_hdr p) b)) = int c" by (simp add: c_def x_def field_getb)
    have "c < 2 ^ 32" using nb(2) hp by (simp add: c_def x_def)
    then show ?thesis unfolding B2NB_def e by (simp add: ptr_nat)
  qed
  have c0: "c = b + unat (fS (p_hdr p0) b)" by (simp add: c_def x_def hp)
  from join_forward [OF inv u0 c0] obtain p1 AS1 tr1 where f:
    "pwhen (fM (p_hdr p0) c = MAGIC_F) (pseq [pooldel c, set_magic c No_magic,
      pbind (getb c) (\<lambda>y. setb b (\<lambda>x. x\<lparr>b_size := b_size x + b_size y\<rparr>)), set_tail b]) p0 = Some ((), p1)"
    "inv p1 (fM (p_hdr p1)) AS1 tr1" "same_rest p0 p1" "fM (p_hdr p1) b = fM (p_hdr p0) b"
    "fM (p_hdr p1) (b + unat (fS (p_hdr p1) b)) \<noteq> MAGIC_F"
    "\<forall>x. x \<noteq> b \<longrightarrow> fS (p_hdr p1) x = fS (p_hdr p0) x" "\<forall>x. used (fM (p_hdr p1) x) \<longleftrightarrow> used (fM (p_hdr p0) x)"
    "held (fS (p_hdr p1)) (fM (p_hdr p1)) AS1 + fS (p_hdr p0) b = held (fS (p_hdr p0)) (fM (p_hdr p0)) AS + fS (p_hdr p1) b"
    by blast
  have u1: "used (fM (p_hdr p1) b)" using f(7) u0 by simp
  note nb1 = neighbours [OF invD(2) [OF f(2)] conjunct1 [OF used_block [OF u1]]]
  from nb1(6) obtain d where d: "p_tail p1 (b - 8) = Some d" "fM (p_hdr p1) d = MAGIC_E \<or> is_block (fM (p_hdr p1) d)" by blast
  have dd: "d \<in> dom (p_hdr p1)" by (rule magic_dom) (use d(2) in \<open>auto simp: is_block_def\<close>)
  from join_backward [OF f(2) u1 d(1) f(5)] obtain p' AS' tr' where g:
    "(if fM (p_hdr p1) d = MAGIC_F then pseq [pooldel d, set_magic b No_magic,
      pbind (getb b) (\<lambda>x. setb d (\<lambda>y. y\<lparr>b_size := b_size y + b_size x\<rparr>)), set_tail d, pooladd d] else pooladd b) p1 = Some ((), p')"
    "inv p' (fM (p_hdr p')) AS' tr'" "same_rest p1 p'" "\<not> used (fM (p_hdr p') b)"
    "\<forall>x. x \<noteq> b \<longrightarrow> (used (fM (p_hdr p') x) \<longleftrightarrow> used (fM (p_hdr p1) x)) \<and> (used (fM (p_hdr p1) x) \<longrightarrow> fS (p_hdr p') x = fS (p_hdr p1) x)"
    "held (fS (p_hdr p')) (fM (p_hdr p')) AS' + fS (p_hdr p1) b = held (fS (p_hdr p1)) (fM (p_hdr p1)) AS1"
    by blast
  have B2PT: "B2PT b = b - 8"
  proof -
    have "32 \<le> b" "b < 4294967296" using nb(2,3) by simp_all
    then have "0 \<le> int b - 8" "int b - 8 < 2 ^ 32" by simp_all
    then have "B2PT b = nat (int b - 8)" unfolding B2PT_def by (rule ptr_nat)
    then show ?thesis by simp
  qed
  have "poolfree v p = Some ((), p')"
  proof -
    have u: "used (b_magic (gb (p_hdr p) b))" using l(1) by (simp add: field_getb)
    obtain hb where hb: "p_hdr p b = Some hb" using l(3) by auto
    then have "gb (p_hdr p) b = hb" by (simp add: gb_def)
    then have D: "D2B v p = Some (b, p)" using D2B_run [of v p] l(4) hb u by simp
    let ?J = "\<lambda>o1. case o1 of None \<Rightarrow> pfail | Some c \<Rightarrow>
     pbind (getb c) (\<lambda>y.
       if b_magic y = MAGIC_F then pseq [
         pooldel c,
         set_magic b No_magic,
         pbind (getb b) (\<lambda>x. setb c (\<lambda>y. y\<lparr>b_size := b_size y + b_size x\<rparr>)),
         set_tail c,
         pooladd c]
       else pooladd b)"
    have 2: "pbind (pget (\<lambda>p. p_tail p (B2PT b))) ?J p1 = Some ((), p')"
    proof -
      have "pbind (pget (\<lambda>p. p_tail p (B2PT b))) ?J p1 = (if fM (p_hdr p1) d = MAGIC_F then pseq [pooldel d, set_magic b No_magic,
          pbind (getb b) (\<lambda>x. setb d (\<lambda>y. y\<lparr>b_size := b_size y + b_size x\<rparr>)), set_tail d, pooladd d] else pooladd b) p1"
        unfolding pget_run B2PT d(1) by (simp only: option.case getb_run [OF dd] field_getb)
      then show ?thesis using g(1) by simp
    qed
    have "poolfree v p = pbind (pupd (\<lambda>p. p\<lparr>p_nfree := Suc (p_nfree p), p_cursize := p_cursize p - x\<rparr>)) (\<lambda>_.
      pbind (getb c) (\<lambda>y. pbind (pwhen (b_magic y = MAGIC_F) (pseq [
         pooldel c,
         set_magic c No_magic,
         pbind (getb c) (\<lambda>y. setb b (\<lambda>x. x\<lparr>b_size := b_size x + b_size y\<rparr>)),
         set_tail b])) (\<lambda>_. pbind (pget (\<lambda>p. p_tail p (B2PT b))) ?J))) p"
      unfolding poolfree_def using D l(3) by (simp add: bind_run getb_run B2 Let_def field_getb x_def [symmetric] del: domIff)
    also have "\<dots> = pbind (getb c) (\<lambda>y. pbind (pwhen (b_magic y = MAGIC_F) (pseq [
         pooldel c,
         set_magic c No_magic,
         pbind (getb c) (\<lambda>y. setb b (\<lambda>x. x\<lparr>b_size := b_size x + b_size y\<rparr>)),
         set_tail b])) (\<lambda>_. pbind (pget (\<lambda>p. p_tail p (B2PT b))) ?J)) p0"
      by (simp add: pbind_def pupd_def p0_def)
    also have "\<dots> = pbind (pget (\<lambda>p. p_tail p (B2PT b))) ?J p1"
      unfolding getb_run [OF cd] field_getb by (rule trans [OF bind_run], rule f(1), rule refl)
    finally show ?thesis using 2 by simp
  qed
  moreover have rest: "same_rest p0 p'" by (rule same_rest_trans [OF f(3) g(3)])
  moreover have "held (fS (p_hdr p')) (fM (p_hdr p')) AS' + x = held (fS (p_hdr p)) (fM (p_hdr p)) AS"
  proof -
    have "held (fS (p_hdr p')) (fM (p_hdr p')) AS' + x + fS (p_hdr p1) b = held (fS (p_hdr p)) (fM (p_hdr p)) AS + fS (p_hdr p1) b"
      using f(8) g(6) hp by (simp add: x_def algebra_simps)
    then show ?thesis by simp
  qed
  then have "held (fS (p_hdr p')) (fM (p_hdr p')) AS' = p_cursize p - x"
    using ok by (simp add: pool_ok_def algebra_simps)
  moreover have "live p' = (live p)(v := None)"
  proof
    fix w
    show "live p' w = ((live p)(v := None)) w"
    proof (cases "w = v")
      case True
      then show ?thesis using g(4) by (simp add: live_def b_def)
    next
      case False
      show ?thesis
      proof (cases "8 \<le> w")
        case True
        then have "w - 8 \<noteq> b" using False l(2) by auto
        then have "used (fM (p_hdr p') (w - 8)) \<longleftrightarrow> used (fM (p_hdr p) (w - 8))"
          "used (fM (p_hdr p) (w - 8)) \<Longrightarrow> fS (p_hdr p') (w - 8) = fS (p_hdr p) (w - 8)"
          using f(6,7) g(5) hp by auto
        then show ?thesis using False by (simp add: live_def)
      qed (use False in \<open>simp add: live_def\<close>)
    qed
  qed
  moreover have "x = word_of_nat (n + 16)"
    using l(6) nb(1) hp by (simp add: x_def word_of_nat_eq_0_iff flip: of_nat_add)
  ultimately show ?thesis using g(2) same_rest_fields [OF rest]
    by (intro exI [of _ p'] exI [of _ AS'] exI [of _ tr']) (auto simp: pool_ok_def p0_def)
qed

text \<open>Anything else is refused: \<open>D2B\<close> panics.\<close>

lemma poolfree_refused:
  assumes ok: "pool_ok p AS tr" and v: "live p v = None" "8 \<le> v" "v < 2 ^ 32"
  shows "poolfree v p = None"
proof -
  have "nat (int v - 8) = v - 8" by simp
  then have "ptr (int v - 8) = v - 8" using v(2,3) by (simp add: ptr_nat)
  moreover have "\<not> used (fM (p_hdr p) (v - 8))" using v(1,2) by (simp add: live_def split: if_splits)
  ultimately have "D2B v p = None" by (auto simp: D2B_run fields gb_def split: option.splits)
  then show ?thesis by (simp add: poolfree_def pbind_def)
qed

section \<open>A new arena\<close>

text \<open>A leader at \<open>l\<close>, a block of \<open>s\<close> bytes that is held, and the rest, not yet in the free tree.\<close>

definition fresh_blocks :: "addr \<Rightarrow> u32 \<Rightarrow> u32 \<Rightarrow> addr list" where
  "fresh_blocks l s r = (if r = 0 then [l + 32] else [l + 32, l + 32 + unat s])"

lemma fresh_layout:
  assumes lay: "layout S K T AS" and apart: "\<And>l1 bs1 e1. (l1, bs1, e1) \<in> set AS \<Longrightarrow> e1 + 4 \<le> l \<or> e + 4 \<le> l1"
    and s: "32 dvd unat s" "s \<noteq> 0" "32 dvd unat r" and e: "e = l + 32 + unat s + unat r" "e + 4 \<le> 2 ^ 32" "l \<noteq> nil"
  defines "t \<equiv> l + 32" and "q \<equiv> l + 32 + unat s"
  assumes S': "S' l = 32" "S' t = s" "r \<noteq> 0 \<Longrightarrow> S' q = r" "\<And>x. x < l \<or> e < x \<Longrightarrow> S' x = S x"
    and K': "K' l = MAGIC_E" "K' t = MAGIC_A" "r \<noteq> 0 \<Longrightarrow> K' q = MAGIC_A" "K' e = MAGIC_E"
      "\<And>x. x \<notin> {l, t, q, e} \<Longrightarrow> K' x = K x"
    and T': "T' (l + 24) = Some l" "T' (t + unat s - 8) = Some t" "r \<noteq> 0 \<Longrightarrow> T' (q + unat r - 8) = Some q"
      "\<And>x. x < l \<or> e < x \<Longrightarrow> T' x = T x"
  shows "layout S' K' T' ((l, fresh_blocks l s r, e) # AS)"
    and "held S' K' ((l, fresh_blocks l s r, e) # AS) = held S K AS + s + r"
    and "\<And>x. l \<le> x \<Longrightarrow> x \<le> e \<Longrightarrow> \<not> is_block (K x)"
proof -
  let ?bs = "fresh_blocks l s r"
  have s32: "32 \<le> unat s" using size_ge s by simp
  show none: "\<not> is_block (K x)" if "l \<le> x" "x \<le> e" for x
  proof
    assume "is_block (K x)"
    then have "x \<in> blocks AS" using lay by (simp add: layout_def)
    then obtain l1 b1 e1 where r1: "(l1, b1, e1) \<in> set AS" "x \<in> set b1" by (auto simp: blocks_def)
    then have "l1 \<le> x \<and> x \<le> e1" using layout_arena [OF lay r1(1)] tiles_range by (fastforce simp: arena_ok.simps)
    then show False using apart [OF r1(1)] that by auto
  qed
  have oth: "arena_ok S' K' T' r1" if r1: "r1 \<in> set AS" for r1
  proof (cases r1)
    case (fields l1 b1 e1)
    have ok: "arena_ok S K T (l1, b1, e1)" using layout_arena [OF lay] r1 fields by simp
    have "x < l \<or> e < x" if "l1 \<le> x" "x \<le> e1" for x using apart [of l1 b1 e1] r1 fields that by auto
    moreover have "x \<notin> {l, t, q, e}" if "x < l \<or> e < x" for x using that e(1) by (auto simp: t_def q_def)
    ultimately have "S' x = S x \<and> K' x = K x \<and> T' x = T x" if "l1 \<le> x" "x \<le> e1" for x
      using S'(4) K'(5) T'(4) that by metis
    from arena_frame(1) [OF ok this] show ?thesis using fields by simp
  qed
  have bs: "x \<in> {t, q}" if "x \<in> set ?bs" for x using that by (auto simp: fresh_blocks_def t_def q_def split: if_splits)
  have "tiles S' T' t ?bs e"
  proof (cases "r = 0")
    case True
    then show ?thesis using S' T' s e by (simp add: fresh_blocks_def t_def)
  next
    case False
    have "S' (l + 32) = s" "S' (l + 32 + unat s) = r" "T' (l + 32 + unat s - 8) = Some (l + 32)"
      "T' (l + 32 + unat s + unat r - 8) = Some (l + 32 + unat s)"
      using False S' T' by (auto simp: t_def q_def)
    then show ?thesis using False s e(1) by (simp add: fresh_blocks_def t_def)
  qed
  moreover have "is_block (K' x)" if "x \<in> set ?bs" for x
    using that K' by (auto simp: fresh_blocks_def t_def q_def split: if_splits)
  moreover have "calm K' ?bs" using K'(2) by (simp add: fresh_blocks_def calm_def t_def)
  ultimately have new: "arena_ok S' K' T' (l, ?bs, e)"
    using S'(1) K'(1,4) T'(1) e by (simp add: arena_ok.simps t_def)
  have "x \<in> blocks ((l, ?bs, e) # AS)" if x: "is_block (K' x)" for x
  proof (cases "x \<in> {l, t, q, e}")
    case True
    then have "x = t \<or> x = q \<and> r \<noteq> 0" using x K'(1,4) e(1) by (auto simp: q_def)
    then show ?thesis by (auto simp: blocks_def fresh_blocks_def t_def q_def)
  next
    case False
    then show ?thesis using lay x K'(5) by (auto simp: layout_def blocks_def)
  qed
  moreover have "apart (l, ?bs, e) r1" if "r1 \<in> set AS" for r1
    using apart [of "fst r1" "fst (snd r1)" "snd (snd r1)"] that by (cases r1) (auto simp: apart.simps)
  ultimately show "layout S' K' T' ((l, ?bs, e) # AS)" using lay oth new by (simp add: layout_def)
  have "held S' K' AS = held S K AS" unfolding held_def
  proof (intro arg_cong [where f = sum_list] map_cong refl)
    fix r1 assume r1: "r1 \<in> set AS"
    obtain l1 b1 e1 where fields: "r1 = (l1, b1, e1)" by (cases r1)
    have ok: "arena_ok S K T (l1, b1, e1)" using layout_arena [OF lay] r1 fields by simp
    have "x < l \<or> e < x" if "l1 \<le> x" "x \<le> e1" for x using apart [of l1 b1 e1] r1 fields that by auto
    moreover have "x \<notin> {l, t, q, e}" if "x < l \<or> e < x" for x using that e(1) by (auto simp: t_def q_def)
    ultimately have "S' x = S x \<and> K' x = K x \<and> T' x = T x" if "l1 \<le> x" "x \<le> e1" for x
      using S'(4) K'(5) T'(4) that by metis
    from arena_frame(2) [OF ok this] show "(case r1 of (l, bs, e) \<Rightarrow> held_in S' K' bs) = (case r1 of (l, bs, e) \<Rightarrow> held_in S K bs)"
      using fields by simp
  qed
  moreover have "held_in S' K' ?bs = s + r"
  proof (cases "r = 0")
    case False
    then have "S' (l + 32 + unat s) = r" "K' (l + 32 + unat s) = MAGIC_A" using S'(3) K'(3) by (simp_all add: q_def)
    then show ?thesis using False S'(2) K'(2) by (simp add: fresh_blocks_def held_in_def t_def)
  qed (use S'(2) K'(2) in \<open>simp add: fresh_blocks_def held_in_def t_def\<close>)
  ultimately show "held S' K' ((l, ?bs, e) # AS) = held S K AS + s + r" by (simp add: held_def algebra_simps)
qed

definition hA :: "addr \<Rightarrow> int \<Rightarrow> addr \<Rightarrow> (addr \<rightharpoonup> Bhdr) \<Rightarrow> addr \<rightharpoonup> Bhdr" where
  "hA l z c h = h(l \<mapsto> (gb h l)\<lparr>b_magic := MAGIC_E, b_size := 32, b_csize := z, b_clink := c\<rparr>)"

lemma field_A [simp]:
  "fS (hA l z c h) = (fS h)(l := 32)" "fM (hA l z c h) = (fM h)(l := MAGIC_E)" "fC (hA l z c h) = (fC h)(l := c)"
  "fZ (hA l z c h) = (fZ h)(l := z)" "dom (hA l z c h) = insert l (dom h)"
  by (auto simp: fields fC_def fZ_def hA_def gb_def fun_eq_iff split: option.splits)

lemma other_A: "x \<noteq> l \<Longrightarrow> hA l z c h x = h x"
  by (simp add: hA_def)

text \<open>The size of a request, rounded up with room for the header and the tail.\<close>

lemma int32_id: "- (2 ^ 31) \<le> x \<Longrightarrow> x < 2 ^ 31 \<Longrightarrow> int32 x = x"
  unfolding int32_def sint_sbintrunc' by (rule signed_take_bit_int_eq_self) simp_all

lemma and_not_31: "(x :: int) AND NOT 31 = 32 * (x div 32)"
proof -
  have "x AND NOT (mask 5) = push_bit 5 (drop_bit 5 x)"
    by (rule bit_eqI) (auto simp: bit_simps not_le)
  then have "x AND NOT 31 = push_bit 5 (drop_bit 5 x)" by (simp add: mask_eq_exp_minus_1)
  then show ?thesis by (simp add: push_bit_eq_mult drop_bit_eq_div)
qed

section \<open>Allocation\<close>

text \<open>What a successful request for \<open>n\<close> bytes promises.\<close>

definition got :: "pool \<Rightarrow> nat \<Rightarrow> addr \<Rightarrow> pool \<Rightarrow> bool" where
  "got p n v p' \<longleftrightarrow> (\<exists>AS tr k. pool_ok p' AS tr \<and> live p v = None \<and> live p' = (live p)(v \<mapsto> k) \<and> n \<le> k \<and> v \<noteq> nil \<and>
     p_mem p' = p_mem p \<and> p_nfree p' = p_nfree p)"

lemma B2D_block:
  assumes "layout S K T AS" "is_block (K b)"
  shows "B2D b = b + 8" "b + 8 \<noteq> nil"
proof -
  have "b + 8 < 4294967296" using neighbours(1,2) [OF assms] by simp
  then show "B2D b = b + 8" unfolding B2D_def by (subst ptr_nat) simp_all
qed (simp add: nil_def)

lemma taken_run:
  assumes inv: "inv p (fM (p_hdr p)) AS tr" and q: "fM (p_hdr p) q = MAGIC_F"
  shows "\<exists>p1 tr1. pseq [pooldel q, set_magic q MAGIC_A] p = Some ((), p1) \<and> inv p1 (fM (p_hdr p1)) AS tr1 \<and> same_rest p p1 \<and>
    p_tail p1 = p_tail p \<and> fM (p_hdr p1) = (fM (p_hdr p))(q := MAGIC_A) \<and> fS (p_hdr p1) = fS (p_hdr p) \<and>
    held (fS (p_hdr p1)) (fM (p_hdr p1)) AS = held (fS (p_hdr p)) (fM (p_hdr p)) AS + fS (p_hdr p) q"
proof -
  from take_run [OF inv q] obtain h r tr1 where t: "pooldel q p = Some ((), p\<lparr>p_hdr := h, p_root := r\<rparr>)"
      "inv (p\<lparr>p_hdr := h, p_root := r\<rparr>) ((fM (p_hdr p))(q := MAGIC_A)) AS tr1" "fS h = fS (p_hdr p)" "fM h = fM (p_hdr p)"
      "held (fS (p_hdr p)) ((fM (p_hdr p))(q := MAGIC_A)) AS = held (fS (p_hdr p)) (fM (p_hdr p)) AS + fS (p_hdr p) q" by blast
  define p1 where "p1 = p\<lparr>p_hdr := hM q MAGIC_A h, p_root := r\<rparr>"
  have "pseq [pooldel q, set_magic q MAGIC_A] p = Some ((), p1)"
    using poke_run(1) [of q MAGIC_A "p\<lparr>p_hdr := h, p_root := r\<rparr>"]
    by (simp add: pseq_run(2) [where m = "pooldel q", OF t(1)] pseq_run(1) p1_def
        pseq_run(2) [where m = "set_magic q MAGIC_A" and p = "p\<lparr>p_hdr := h, p_root := r\<rparr>"])
  moreover have "inv p1 ((fM (p_hdr p))(q := MAGIC_A)) AS tr1"
  proof (rule inv_change [OF t(2)])
    note i = invD [OF t(2)]
    have "q \<notin> nodes tr1" using i(3) by auto
    then have "hM q MAGIC_A h x = h x" if "x \<in> nodes tr1" for x using that by (intro other_SM) auto
    moreover have "dom h \<subseteq> dom (hM q MAGIC_A h)" by (auto simp del: domIff)
    ultimately have "free_tree (hM q MAGIC_A h) r tr1" using i(1) free_tree_cong by fastforce
    then show "free_tree (p_hdr p1) (p_root p1) tr1" by (simp add: p1_def)
    show "layout (fS (p_hdr p1)) ((fM (p_hdr p))(q := MAGIC_A)) (p_tail p1) AS" using i(2) by (simp add: p1_def)
    show "nodes tr1 = {x. ((fM (p_hdr p))(q := MAGIC_A)) x = MAGIC_F}" using i(3) .
    show "x \<in> dom (p_hdr p1)" if "is_block (((fM (p_hdr p))(q := MAGIC_A)) x)" for x
      using i(4) [OF that] by (simp add: p1_def del: domIff)
  qed (simp_all add: p1_def)
  moreover have "same_rest p p1" by (simp add: p1_def)
  ultimately show ?thesis using t(3-5) by (intro exI [of _ p1] exI [of _ tr1]) (simp add: p1_def)
qed

lemma whole_block:
  assumes ok: "pool_ok p AS tr" and q: "fM (p_hdr p) q = MAGIC_F" and n: "n + 16 \<le> unat (fS (p_hdr p) q)"
  shows "\<exists>p1 p'. pseq [pooldel q, set_magic q MAGIC_A] p = Some ((), p1) \<and> q \<in> dom (p_hdr p1) \<and> fS (p_hdr p1) = fS (p_hdr p) \<and>
    pbind (add_cursize (fS (p_hdr p) q)) (\<lambda>_. pret (B2D q)) p1 = Some (q + 8, p') \<and> got p n (q + 8) p'"
proof -
  have inv: "inv p (fM (p_hdr p)) AS tr" and cur: "p_cursize p = held (fS (p_hdr p)) (fM (p_hdr p)) AS"
    using ok by (simp_all add: pool_ok_def)
  have bq: "is_block (fM (p_hdr p) q)" using q by simp
  note B = B2D_block [OF invD(2) [OF inv] bq]
  from taken_run [OF inv q] obtain p1 tr1 where t: "pseq [pooldel q, set_magic q MAGIC_A] p = Some ((), p1)"
    "inv p1 (fM (p_hdr p1)) AS tr1" "same_rest p p1" "fM (p_hdr p1) = (fM (p_hdr p))(q := MAGIC_A)" "fS (p_hdr p1) = fS (p_hdr p)"
    "held (fS (p_hdr p1)) (fM (p_hdr p1)) AS = held (fS (p_hdr p)) (fM (p_hdr p)) AS + fS (p_hdr p) q" by blast
  let ?p' = "p1\<lparr>p_cursize := p_cursize p1 + fS (p_hdr p) q\<rparr>"
  have run: "pbind (add_cursize (fS (p_hdr p) q)) (\<lambda>_. pret (B2D q)) p1 = Some (q + 8, ?p')"
    by (simp add: add_cursize_def pbind_def pupd_def pret_def B)
  note r = same_rest_fields [OF t(3)]
  have "pool_ok ?p' AS tr1" using t(2,6) r cur by (simp add: pool_ok_def inv_counts)
  moreover have "live p (q + 8) = None" using q by (simp add: live_def used_def)
  moreover have "live ?p' = (live p)(q + 8 \<mapsto> unat (fS (p_hdr p) q) - 16)"
    using t(4,5) by (auto simp: live_def fun_eq_iff used_def)
  ultimately have "got p n (q + 8) ?p'" using n B r unfolding got_def
    by (intro exI [of _ AS] exI [of _ tr1] exI [of _ "unat (fS (p_hdr p) q) - 16"]) simp
  moreover have "q \<in> dom (p_hdr p1)" by (rule magic_dom) (simp add: t(4))
  ultimately show ?thesis using t(1,5) run by blast
qed

text \<open>Giving a part of a block.\<close>

lemma part_block:
  assumes ok: "pool_ok p AS tr" and q: "fM (p_hdr p) q = MAGIC_F" and s: "32 dvd unat s" "s < fS (p_hdr p) q"
    and n: "n + 16 \<le> unat s" and c: "c = q + unat s"
  shows "\<exists>p1 p'. pseq [pooldel q, set_magic q MAGIC_A] p = Some ((), p1) \<and> q \<in> dom (p_hdr p1) \<and> fS (p_hdr p1) = fS (p_hdr p) \<and>
    pseq [set_size q s, set_tail q, set_size c (fS (p_hdr p) q - s), set_tail c, pooladd c, add_cursize s] p1 = Some ((), p') \<and>
    B2D q = q + 8 \<and> got p n (q + 8) p'"
proof -
  let ?S = "fS (p_hdr p)" and ?K = "fM (p_hdr p)"
  have inv: "inv p ?K AS tr" and cur: "p_cursize p = held ?S ?K AS" using ok by (simp_all add: pool_ok_def)
  have bq: "is_block (?K q)" using q by simp
  note B = B2D_block [OF invD(2) [OF inv] bq] and nb = neighbours [OF invD(2) [OF inv] bq]
  have s0: "s \<noteq> 0" using n by auto
  from taken_run [OF inv q] obtain p1 tr1 where t: "pseq [pooldel q, set_magic q MAGIC_A] p = Some ((), p1)"
    "inv p1 (fM (p_hdr p1)) AS tr1" "same_rest p p1" "fM (p_hdr p1) = ?K(q := MAGIC_A)" "fS (p_hdr p1) = ?S"
    "held (fS (p_hdr p1)) (fM (p_hdr p1)) AS = held ?S ?K AS + ?S q" by blast
  have u: "is_block (fM (p_hdr p1) q)" "fM (p_hdr p1) q \<noteq> MAGIC_F" "s < fS (p_hdr p1) q" using t(4,5) s(2) by simp_all
  note sp = split_run [OF t(2) u(1,2) s(1) s0 u(3) c, unfolded t(5)]
  from sp(1) obtain p2 AS' where p2: "pseq [set_size q s, set_tail q, set_size c (?S q - s), set_tail c] p1 = Some ((), p2)"
    "inv p2 ((fM (p_hdr p1))(c := MAGIC_A)) AS' tr1" "fS (p_hdr p2) = ?S(q := s, c := ?S q - s)" "fM (p_hdr p2) = fM (p_hdr p1)"
    "held (fS (p_hdr p2)) ((fM (p_hdr p1))(c := MAGIC_A)) AS' = held ?S (fM (p_hdr p1)) AS"
    "p2 = p1\<lparr>p_hdr := p_hdr p2, p_tail := p_tail p2\<rparr>" "p_tail p2 (c - 8) = Some q" by blast
  let ?K2 = "(fM (p_hdr p1))(c := MAGIC_A)"
  have ns: "unat (?S q - s) = unat (?S q) - unat s" "c \<noteq> q" "\<not> is_block (fM (p_hdr p1) c)" using sp(2-4) by auto
  have le: "unat s \<le> unat (?S q)" using s(2) by (simp add: word_less_nat_alt)
  have "?K2 (c + unat (fS (p_hdr p2) c)) \<noteq> MAGIC_F"
  proof -
    have "c + unat (fS (p_hdr p2) c) = q + unat (?S q)" using p2(3) ns(1) c le by simp
    moreover have "?K (q + unat (?S q)) \<noteq> MAGIC_F" using nb(7) q by simp
    ultimately show ?thesis using t(4) by auto
  qed
  moreover have "?K2 d \<noteq> MAGIC_F" if "p_tail p2 (c - 8) = Some d" for d using that p2(7) ns(2) t(4) by auto
  moreover have "is_block (?K2 c)" "?K2 c \<noteq> MAGIC_F" by simp_all
  ultimately obtain h r tr' where g: "pooladd c p2 = Some ((), p2\<lparr>p_hdr := h, p_root := r\<rparr>)"
    "inv (p2\<lparr>p_hdr := h, p_root := r\<rparr>) (?K2(c := MAGIC_F)) AS' tr'" "fS h = fS (p_hdr p2)" "fM h = (fM (p_hdr p2))(c := MAGIC_F)"
    "held (fS (p_hdr p2)) (?K2(c := MAGIC_F)) AS' + fS (p_hdr p2) c = held (fS (p_hdr p2)) ?K2 AS'"
    using give_run [OF p2(2), of c] by blast
  define p3 where "p3 = p2\<lparr>p_hdr := h, p_root := r\<rparr>"
  let ?p' = "p3\<lparr>p_cursize := p_cursize p3 + s\<rparr>"
  have "pseq ([set_size q s, set_tail q, set_size c (?S q - s), set_tail c] @ [pooladd c, add_cursize s]) p1 = Some ((), ?p')"
    unfolding pseq_append [OF p2(1)] using g(1)
    by (simp only: pseq_run(2) [where m = "pooladd c", OF g(1)] p3_def [symmetric])
      (simp add: pseq.simps pbind_def pret_def add_cursize_def pupd_def)
  then have run: "pseq [set_size q s, set_tail q, set_size c (?S q - s), set_tail c, pooladd c, add_cursize s] p1 = Some ((), ?p')" by simp
  have K3: "?K2(c := MAGIC_F) = fM h" using g(4) p2(4) by simp
  have rest: "same_rest p p3"
    using same_rest_trans [OF t(3), of p2] same_rest_trans [of p p2 p3] p2(6) by (metis p3_def same_restI(2,3))
  note rf = same_rest_fields [OF rest]
  have "held (fS h) (fM h) AS' = held ?S ?K AS + s"
    using g(3,5) p2(3,5) t(5,6) K3 ns(2) by (simp add: algebra_simps)
  then have "pool_ok ?p' AS' tr'" using g(2) rf cur K3 by (simp add: pool_ok_def inv_counts p3_def)
  moreover have "live p (q + 8) = None" using q by (simp add: live_def used_def)
  moreover have "live ?p' = (live p)(q + 8 \<mapsto> unat s - 16)"
  proof
    fix w
    have M: "fM (p_hdr ?p') = ?K(q := MAGIC_A, c := MAGIC_F)" "fS (p_hdr ?p') = ?S(q := s, c := ?S q - s)"
      using g(3,4) p2(3,4) t(4) by (simp_all add: p3_def)
    have "\<not> used (?K c)" using ns(2,3) t(4) used_block by auto
    then show "live ?p' w = ((live p)(q + 8 \<mapsto> unat s - 16)) w"
      using ns(2) unfolding live_def M by (auto simp: used_def)
  qed
  ultimately have "got p n (q + 8) ?p'" using n B rf unfolding got_def
    by (intro exI [of _ AS'] exI [of _ tr'] exI [of _ "unat s - 16"]) simp
  moreover have "q \<in> dom (p_hdr p1)" by (rule magic_dom) (simp add: t(4))
  ultimately show ?thesis using t(1,5) run B(1) by blast
qed

text \<open>A new arena at \<open>l\<close>: \<open>sz\<close> bytes for the request, \<open>rs\<close> left over. This is the state before the rest is
  given to the free tree and the end mark is written.\<close>

definition fresh_hdr :: "addr \<Rightarrow> int \<Rightarrow> addr \<Rightarrow> u32 \<Rightarrow> u32 \<Rightarrow> (addr \<rightharpoonup> Bhdr) \<Rightarrow> addr \<rightharpoonup> Bhdr" where
  "fresh_hdr l z c s r h = (let h5 = hS (l + 32) s (hM (l + 32) MAGIC_A (hA l z c h)) in
     if r = 0 then h5 else hS (l + 32 + unat s) r h5)"

definition fresh_tail :: "addr \<Rightarrow> u32 \<Rightarrow> u32 \<Rightarrow> (addr \<rightharpoonup> addr) \<Rightarrow> addr \<rightharpoonup> addr" where
  "fresh_tail l s r T = (let T5 = T(l + 24 \<mapsto> l, l + 32 + unat s - 8 \<mapsto> l + 32) in
     if r = 0 then T5 else T5(l + 32 + unat s + unat r - 8 \<mapsto> l + 32 + unat s))"

definition fresh_kind :: "addr \<Rightarrow> u32 \<Rightarrow> u32 \<Rightarrow> (addr \<Rightarrow> magic) \<Rightarrow> addr \<Rightarrow> magic" where
  "fresh_kind l s r K = (let K5 = K(l := MAGIC_E, l + 32 := MAGIC_A) in
     (if r = 0 then K5 else K5(l + 32 + unat s := MAGIC_A))(l + 32 + unat s + unat r := MAGIC_E))"

lemma fresh_inv:
  assumes ok: "inv p K AS tr"
    and apart: "\<And>l1 bs1 e1. (l1, bs1, e1) \<in> set AS \<Longrightarrow> e1 + 4 \<le> l \<or> e + 4 \<le> l1"
    and s: "32 dvd unat s" "s \<noteq> 0" "32 dvd unat r" and e: "e = l + 32 + unat s + unat r" "e + 4 \<le> 2 ^ 32" "l \<noteq> nil"
    and p': "p_hdr p' = fresh_hdr l (32 + int (unat s + unat r)) (p_chain p) s r (p_hdr p)" "p_tail p' = fresh_tail l s r (p_tail p)"
      "p_root p' = p_root p" "p_chain p' = l" "params p'" "granted p' ((l, fresh_blocks l s r, e) # AS)"
  shows "inv p' (fresh_kind l s r K) ((l, fresh_blocks l s r, e) # AS) tr"
    and "held (fS (p_hdr p')) (fresh_kind l s r K) ((l, fresh_blocks l s r, e) # AS) = held (fS (p_hdr p)) K AS + s + r"
    and "\<And>x. l \<le> x \<Longrightarrow> x \<le> e \<Longrightarrow> \<not> is_block (K x)"
proof -
  note i = invD [OF ok]
  let ?K = "fresh_kind l s r K" and ?AS = "(l, fresh_blocks l s r, e) # AS"
  have s32: "32 \<le> unat s" using size_ge s by simp
  have r32: "32 \<le> unat r" if "r \<noteq> 0" using size_ge s that by simp
  have S: "fS (p_hdr p') l = 32" "fS (p_hdr p') (l + 32) = s" "r \<noteq> 0 \<Longrightarrow> fS (p_hdr p') (l + 32 + unat s) = r"
      "\<And>x. x < l \<or> e < x \<Longrightarrow> fS (p_hdr p') x = fS (p_hdr p) x"
    using s32 e(1) by (auto simp: p'(1) fresh_hdr_def Let_def)
  have K: "?K l = MAGIC_E" "?K (l + 32) = MAGIC_A" "r \<noteq> 0 \<Longrightarrow> ?K (l + 32 + unat s) = MAGIC_A" "?K e = MAGIC_E"
      "\<And>x. x \<notin> {l, l + 32, l + 32 + unat s, e} \<Longrightarrow> ?K x = K x"
    using s32 r32 e(1) by (cases "r = 0"; auto simp: fresh_kind_def Let_def)+
  have T: "p_tail p' (l + 24) = Some l" "p_tail p' (l + 32 + unat s - 8) = Some (l + 32)"
      "r \<noteq> 0 \<Longrightarrow> p_tail p' (l + 32 + unat s + unat r - 8) = Some (l + 32 + unat s)"
      "\<And>x. x < l \<or> e < x \<Longrightarrow> p_tail p' x = p_tail p x"
    using s32 r32 e(1) by (cases "r = 0"; auto simp: p'(2) fresh_tail_def Let_def)+
  show none: "\<not> is_block (K x)" if "l \<le> x" "x \<le> e" for x
    using fresh_layout(3) [OF i(2) apart s e S K T] that by simp
  show "held (fS (p_hdr p')) ?K ?AS = held (fS (p_hdr p)) K AS + s + r"
    using fresh_layout(2) [OF i(2) apart s e S K T] by simp
  have lay: "layout (fS (p_hdr p')) ?K (p_tail p') ?AS"
    using fresh_layout(1) [OF i(2) apart s e S K T] by simp
  have out: "x \<notin> {l, l + 32, l + 32 + unat s, e}" if "is_block (K x)" for x
    using none [of x] that e(1) by fastforce
  have "p_hdr p' x = p_hdr p x" if "x \<in> nodes tr" for x
  proof -
    have "x \<notin> {l, l + 32, l + 32 + unat s, e}" using out [of x] that i(3) by simp
    then show ?thesis by (auto simp: p'(1) fresh_hdr_def Let_def other_SM other_A)
  qed
  moreover have dom: "dom (p_hdr p') = (if r = 0 then {} else {l + 32 + unat s}) \<union> {l + 32, l} \<union> dom (p_hdr p)"
    by (simp add: p'(1) fresh_hdr_def Let_def insert_commute)
  ultimately have "free_tree (p_hdr p') (p_root p') tr"
    unfolding p'(3) by (intro free_tree_cong [OF i(1)]) auto
  moreover have "nodes tr = {x. ?K x = MAGIC_F}"
  proof -
    have "?K x = MAGIC_F \<longleftrightarrow> K x = MAGIC_F" for x
    proof (cases "x \<in> {l, l + 32, l + 32 + unat s, e}")
      case True
      then have "?K x \<noteq> MAGIC_F" using K e(1) by (cases "r = 0") auto
      moreover have "K x \<noteq> MAGIC_F" using out [of x] True by auto
      ultimately show ?thesis by simp
    qed (use K(5) in simp)
    then show ?thesis using i(3) by simp
  qed
  moreover have "x \<in> dom (p_hdr p')" if x: "is_block (?K x)" for x
  proof (cases "x \<in> {l, l + 32, l + 32 + unat s, e}")
    case True
    then have "x = l + 32 \<or> x = l + 32 + unat s \<and> r \<noteq> 0" using K x e(1) by (cases "r = 0") auto
    then show ?thesis unfolding dom by auto
  next
    case False
    then show ?thesis using i(4) [of x] x K(5) [of x] unfolding dom by auto
  qed
  moreover have "chained (fC (p_hdr p')) (fZ (p_hdr p')) (p_chain p') ?AS"
  proof -
    have "l1 \<noteq> l" if "(l1, bs1, e1) \<in> set AS" for l1 bs1 e1
    proof -
      have "l1 \<le> e1" using layout_arena [OF i(2) that] tiles_range by (fastforce simp: arena_ok.simps)
      then show ?thesis using apart [OF that] e(1) by auto
    qed
    then have "l \<notin> fst ` set AS" by force
    then have "l1 \<noteq> l" if "l1 \<in> fst ` set AS" for l1 using that by metis
    moreover have CZ: "fC (p_hdr p') = (fC (p_hdr p))(l := p_chain p)"
        "fZ (p_hdr p') = (fZ (p_hdr p))(l := 32 + int (unat s + unat r))"
      by (simp_all add: p'(1) fresh_hdr_def Let_def)
    ultimately have "chained (fC (p_hdr p')) (fZ (p_hdr p')) (p_chain p) AS"
      by (intro chained_cong [OF i(5) refl refl]) auto
    then show ?thesis using p'(4) e(1) CZ by simp
  qed
  ultimately show "inv p' ?K ?AS tr" using lay p'(5,6) by (auto simp: inv_def)
qed

definition denied :: "pool \<Rightarrow> pool \<Rightarrow> bool" where
  "denied p p' \<longleftrightarrow> (\<exists>AS tr. pool_ok p' AS tr) \<and> live p' = live p \<and> p_mem p' = p_mem p \<and> p_nfree p' = p_nfree p"

lemma pret_nil: "pret a p = Some (a, p)"
  by (simp add: pret_def)

text \<open>The statements that lay out the new arena, up to the end mark.\<close>

lemma fresh_run:
  assumes s: "32 \<le> unat s" and fit: "l + 32 + unat s + unat r + 4 \<le> 2 ^ 32" and r: "r \<noteq> 0 \<Longrightarrow> 32 \<le> unat r"
  shows "pseq [
             pokeb l (\<lambda>b. b\<lparr>b_magic := MAGIC_E, b_size := 32, b_csize := z, b_clink := c\<rparr>),
             pupd (\<lambda>p. p\<lparr>p_chain := l\<rparr>),
             set_tail l,
             pokeb (l + 32) (\<lambda>b. b\<lparr>b_magic := MAGIC_A, b_size := s\<rparr>),
             set_tail (l + 32)] p =
    Some ((), p\<lparr>p_hdr := hS (l + 32) s (hM (l + 32) MAGIC_A (hA l z c (p_hdr p))), p_chain := l,
      p_tail := (p_tail p)(l + 24 \<mapsto> l, l + 32 + unat s - 8 \<mapsto> l + 32)\<rparr>)"
proof -
  define h1 where "h1 = hA l z c (p_hdr p)"
  define h2 where "h2 = hS (l + 32) s (hM (l + 32) MAGIC_A h1)"
  have 1: "pokeb l (\<lambda>b. b\<lparr>b_magic := MAGIC_E, b_size := 32, b_csize := z, b_clink := c\<rparr>) p = Some ((), p\<lparr>p_hdr := h1\<rparr>)"
    by (simp add: pokeb_def pupd_def h1_def hA_def gb_def)
  have 2: "pupd (\<lambda>p. p\<lparr>p_chain := l\<rparr>) (p\<lparr>p_hdr := h1\<rparr>) = Some ((), p\<lparr>p_hdr := h1, p_chain := l\<rparr>)"
    by (simp add: pupd_def)
  have 3: "set_tail l (p\<lparr>p_hdr := h1, p_chain := l\<rparr>) = Some ((), p\<lparr>p_hdr := h1, p_chain := l, p_tail := (p_tail p)(l + 24 \<mapsto> l)\<rparr>)"
    using set_tail_run [of l "p\<lparr>p_hdr := h1, p_chain := l\<rparr>"] fit by (simp add: h1_def add.commute [of 24 l] del: domIff)
  let ?p3 = "p\<lparr>p_hdr := h1, p_chain := l, p_tail := (p_tail p)(l + 24 \<mapsto> l)\<rparr>"
  have 4: "pokeb (l + 32) (\<lambda>b. b\<lparr>b_magic := MAGIC_A, b_size := s\<rparr>) ?p3 = Some ((), ?p3\<lparr>p_hdr := h2\<rparr>)"
    by (simp add: pokeb_def pupd_def h2_def hS_def hM_def gb_def)
  have 5: "set_tail (l + 32) (?p3\<lparr>p_hdr := h2\<rparr>) = Some ((), ?p3\<lparr>p_hdr := h2, p_tail := (p_tail p)(l + 24 \<mapsto> l, l + 32 + unat s - 8 \<mapsto> l + 32)\<rparr>)"
    using set_tail_run [of "l + 32" "?p3\<lparr>p_hdr := h2\<rparr>"] fit s by (simp add: h2_def del: domIff)
  show ?thesis
    using 1 2 3 4 5 by (simp only: pseq_run) (simp add: h2_def h1_def)
qed

lemma rest_run:
  assumes r: "32 \<le> unat r" and fit: "q + unat r < 2 ^ 32"
  shows "pseq [set_size q r, set_tail q, pooladd q] p =
    pooladd q (p\<lparr>p_hdr := hS q r (p_hdr p), p_tail := (p_tail p)(q + unat r - 8 \<mapsto> q)\<rparr>)"
proof -
  have 1: "set_size q r p = Some ((), p\<lparr>p_hdr := hS q r (p_hdr p)\<rparr>)" by (rule poke_run)
  have 2: "set_tail q (p\<lparr>p_hdr := hS q r (p_hdr p)\<rparr>) = Some ((), p\<lparr>p_hdr := hS q r (p_hdr p), p_tail := (p_tail p)(q + unat r - 8 \<mapsto> q)\<rparr>)"
    using set_tail_run [of q "p\<lparr>p_hdr := hS q r (p_hdr p)\<rparr>"] r fit by (simp del: domIff)
  have "pseq [m] p = m p" for m :: "unit P" and p by (simp add: pseq.simps pbind_def pret_def split: option.splits)
  then show ?thesis using 1 2 by (simp only: pseq_run)
qed

text \<open>The rest, if there is one, is given to the free tree; then the end mark is written.\<close>

lemma fresh_give:
  assumes inv: "inv p1 K AS tr" and kind: "is_block (K t)" "K t \<noteq> MAGIC_F" "K e = MAGIC_E" "\<forall>x. x \<notin> {q, e} \<longrightarrow> fM (p_hdr p1) x = K x"
    and q: "r \<noteq> 0 \<Longrightarrow> K q = MAGIC_A \<and> p_tail p1 (q - 8) = Some t \<and> fS (p_hdr p1) q = r \<and> q \<noteq> t" and e: "e = q + unat r" "e \<noteq> t"
  shows "\<exists>p2 tr'. (if r \<noteq> 0 then pooladd q else pret ()) p1 = Some ((), p2) \<and>
    inv (p2\<lparr>p_hdr := hM e MAGIC_E (p_hdr p2)\<rparr>) (fM (hM e MAGIC_E (p_hdr p2))) AS tr' \<and> same_rest p1 p2 \<and>
    fS (p_hdr p2) = fS (p_hdr p1) \<and> fM (hM e MAGIC_E (p_hdr p2)) = (if r = 0 then K else K(q := MAGIC_F)) \<and>
    held (fS (p_hdr p1)) (fM (hM e MAGIC_E (p_hdr p2))) AS + r = held (fS (p_hdr p1)) K AS"
proof -
  have mark: "inv (p2\<lparr>p_hdr := hM e MAGIC_E (p_hdr p2)\<rparr>) K2 AS tr2" if i2: "inv p2 K2 AS tr2" and k: "K2 e = MAGIC_E" for p2 K2 tr2
  proof (rule inv_change [OF i2])
    note i = invD [OF i2]
    have en: "e \<notin> nodes tr2" using i(3) k by simp
    then have "hM e MAGIC_E (p_hdr p2) x = p_hdr p2 x" if "x \<in> nodes tr2" for x using that by (intro other_SM) auto
    moreover have "dom (p_hdr p2) \<subseteq> dom (hM e MAGIC_E (p_hdr p2))" by (auto simp del: domIff)
    ultimately show "free_tree (p_hdr (p2\<lparr>p_hdr := hM e MAGIC_E (p_hdr p2)\<rparr>)) (p_root (p2\<lparr>p_hdr := hM e MAGIC_E (p_hdr p2)\<rparr>)) tr2"
      using i(1) free_tree_cong by simp
  qed (use invD [OF i2] in \<open>auto simp del: domIff\<close>)
  show ?thesis
  proof (cases "r = 0")
    case True
    then have "fM (hM e MAGIC_E (p_hdr p1)) = K" using kind e by (auto simp: fun_eq_iff)
    then show ?thesis using True mark [OF inv kind(3)] by (intro exI [of _ p1] exI [of _ tr]) (simp add: pret_def)
  next
    case False
    note q = q [OF False]
    have "is_block (K q)" "K q \<noteq> MAGIC_F" "\<And>c. p_tail p1 (q - 8) = Some c \<Longrightarrow> K c \<noteq> MAGIC_F"
      "K (q + unat (fS (p_hdr p1) q)) \<noteq> MAGIC_F" using q kind e by auto
    from give_run [OF inv this] obtain h rt tr' where g: "pooladd q p1 = Some ((), p1\<lparr>p_hdr := h, p_root := rt\<rparr>)"
      "inv (p1\<lparr>p_hdr := h, p_root := rt\<rparr>) (K(q := MAGIC_F)) AS tr'" "fS h = fS (p_hdr p1)" "fM h = (fM (p_hdr p1))(q := MAGIC_F)"
      "held (fS (p_hdr p1)) (K(q := MAGIC_F)) AS + fS (p_hdr p1) q = held (fS (p_hdr p1)) K AS" by blast
    have "e \<noteq> q" using q kind(3) by auto
    then have ke: "(K(q := MAGIC_F)) e = MAGIC_E" using kind(3) by simp
    have M: "fM (hM e MAGIC_E h) = K(q := MAGIC_F)" using g(4) kind \<open>e \<noteq> q\<close> by (auto simp: fun_eq_iff)
    have "inv (p1\<lparr>p_hdr := h, p_root := rt\<rparr>\<lparr>p_hdr := hM e MAGIC_E (p_hdr (p1\<lparr>p_hdr := h, p_root := rt\<rparr>))\<rparr>) (K(q := MAGIC_F)) AS tr'"
      by (rule mark [OF g(2) ke])
    then have "inv (p1\<lparr>p_root := rt, p_hdr := hM e MAGIC_E h\<rparr>) (K(q := MAGIC_F)) AS tr'" by simp
    then show ?thesis using False g M q
      by (intro exI [of _ "p1\<lparr>p_hdr := h, p_root := rt\<rparr>"] exI [of _ tr']) simp
  qed
qed

lemma word_size:
  assumes "0 \<le> x" "x < 2 ^ 31" "32 dvd x"
  shows "unat (word_of_int x :: u32) = nat x" "32 dvd unat (word_of_int x :: u32)" "(word_of_int x :: u32) = 0 \<longleftrightarrow> x = 0"
proof -
  have "uint (word_of_int x :: u32) = x" using assms by (simp add: uint_word_of_int)
  then show u: "unat (word_of_int x :: u32) = nat x" unfolding unat_eq_nat_uint by simp
  obtain k where k: "x = 32 * k" using assms(3) by (rule dvdE)
  then have "nat x = 32 * nat k" using assms(1) by (simp add: nat_mult_distrib)
  then show "32 dvd unat (word_of_int x :: u32)" unfolding u by simp
  have "unat (word_of_int x :: u32) = 0 \<longleftrightarrow> x = 0" unfolding u using assms(1) by auto
  then show "(word_of_int x :: u32) = 0 \<longleftrightarrow> x = 0" unfolding unat_eq_zero .
qed

lemma granted_more:
  assumes g: "granted p AS" and p': "p_sbrk p' = p_sbrk p" "p_nbrk p \<le> p_nbrk p'"
  shows "granted p' AS"
  unfolding granted_def
proof (intro conjI ballI)
  show "sbrk_ok (p_sbrk p')" using g p' by (simp add: granted_def)
  fix r assume r: "r \<in> set AS"
  obtain l bs e where f: "r = (l, bs, e)" by (cases r)
  then obtain n where "int e - int l < 2 ^ 31 - 4" "n < p_nbrk p" "p_sbrk p n (int e + 4 - int l) = Some l"
    using g r by (auto simp: granted_def)
  then show "case r of (l, bs, e) \<Rightarrow> int e - int l < 2 ^ 31 - 4 \<and> (\<exists>n < p_nbrk p'. p_sbrk p' n (int e + 4 - int l) = Some l)"
    using f p' less_le_trans by fastforce
qed

lemma new_arena_unfold:
  assumes "p_quanta p = 31" "ns = max sz (p_chunk p)" "int32 (ns + 36) = ns + 36" "int32 (ns + 32) = ns + 32" "int32 (ns - sz) = ns - sz"
  shows "new_arena sz p = (if p_arenasize p + word_of_int (ns + 36) > p_maxsize p then Some (nil, p)
    else (let p0 = p\<lparr>p_arenasize := p_arenasize p + word_of_int (ns + 36), p_nbrk := Suc (p_nbrk p)\<rparr> in
      case p_sbrk p (p_nbrk p) (ns + 36) of None \<Rightarrow> Some (nil, p0)
      | Some l \<Rightarrow> (let t = ptr (int l + 32); q = ptr (int t + sz); rest = ns - sz in
          pbind (pseq ([
             pokeb l (\<lambda>b. b\<lparr>b_magic := MAGIC_E, b_size := 32, b_csize := ns + 32, b_clink := p_chain p\<rparr>),
             pupd (\<lambda>p. p\<lparr>p_chain := l\<rparr>),
             set_tail l,
             pokeb t (\<lambda>b. b\<lparr>b_magic := MAGIC_A, b_size := word_of_int sz\<rparr>),
             set_tail t] @ [
             pwhen (rest > 0) (pseq [set_size q (word_of_int rest), set_tail q, pooladd q]),
             set_magic (if rest > 0 then ptr (int q + rest) else q) MAGIC_E,
             add_cursize (word_of_int sz)])) (\<lambda>_. pret (B2D t)) p0)))"
proof -
  have "ns + (31 + 1) + 4 = ns + 36" "(word_of_int (31 + 1) :: u32) = 32" "ns + (31 + 1) = ns + 32" "\<And>l. int l + (31 + 1) = int l + 32"
    by simp_all
  then show ?thesis
    unfolding new_arena_def pget_run Let_def assms(1) assms(2) [symmetric]
    by (simp only: assms(3-5) append.simps) (simp add: pret_nil bind_run pupd_def pbind_def split: option.splits)
qed

lemma pool_ok_counts:
  assumes "pool_ok p AS tr" "p_hdr p' = p_hdr p" "p_tail p' = p_tail p" "p_root p' = p_root p" "p_chain p' = p_chain p"
    "p_cursize p' = p_cursize p" "p_sbrk p' = p_sbrk p" "p_nbrk p \<le> p_nbrk p'" "p_quanta p' = p_quanta p" "p_chunk p' = p_chunk p"
  shows "pool_ok p' AS tr" "live p' = live p"
proof -
  have "granted p' AS" if "granted p AS" by (rule granted_more [OF that assms(7,8)])
  then show "pool_ok p' AS tr" using assms by (simp add: pool_ok_def inv_def params_def)
  show "live p' = live p" by (rule ext) (simp add: live_def assms(2))
qed

lemma new_arena_run:
  assumes ok: "pool_ok p AS tr" and sz: "0 < sz" "32 dvd sz" "sz \<le> 2 ^ 30 + 64" and n: "int n + 16 \<le> sz"
  shows "\<exists>v p'. new_arena sz p = Some (v, p') \<and> (if v = nil then denied p p' else got p n v p')"
proof -
  note i = invD [OF ok[unfolded pool_ok_def, THEN conjunct1]]
  have pr: "p_quanta p = 31" "32 dvd p_chunk p" "0 < p_chunk p" "p_chunk p < 2 ^ 30" using i(7) by (auto simp: params_def)
  define ns where "ns = max sz (p_chunk p)"
  have ns: "sz \<le> ns" "32 dvd ns" "ns \<le> 2 ^ 30 + 64" using sz pr by (auto simp: ns_def max_def)
  have "int32 (ns + 36) = ns + 36" "int32 (ns + 32) = ns + 32" "int32 (ns - sz) = ns - sz"
    using ns sz by (auto intro!: int32_id)
  note run = new_arena_unfold [OF pr(1) ns_def this]
  define p0 where "p0 = p\<lparr>p_arenasize := p_arenasize p + word_of_int (ns + 36), p_nbrk := Suc (p_nbrk p)\<rparr>"
  show ?thesis
  proof (cases "p_arenasize p + word_of_int (ns + 36) > p_maxsize p")
    case True
    then have "new_arena sz p = Some (nil, p)"
      by (simp only: run if_True)
    moreover have "denied p p" using ok by (auto simp: denied_def)
    ultimately show ?thesis by auto
  next
    case room: False
    show ?thesis
    proof (cases "p_sbrk p (p_nbrk p) (ns + 36)")
      case None
      then have "new_arena sz p = Some (nil, p0)"
        using room by (simp only: run if_False Let_def option.case p0_def)
      moreover have "denied p p0" unfolding denied_def
        using pool_ok_counts [OF ok, of p0] by (auto simp: p0_def)
      ultimately show ?thesis by auto
    next
      case (Some l)
      define s where "s = (word_of_int sz :: u32)"
      define rs where "rs = ns - sz"
      define r where "r = (word_of_int rs :: u32)"
      have rs: "0 \<le> rs" "rs < 2 ^ 31" "32 dvd rs" "int32 rs = rs" 
        using ns sz by (auto simp: rs_def intro!: int32_id dvd_diff)
      have s: "unat s = nat sz" "32 dvd unat s" "s \<noteq> 0" using word_size [of sz] sz by (auto simp: s_def)
      have r: "unat r = nat rs" "32 dvd unat r" "r = 0 \<longleftrightarrow> rs = 0" using word_size [of rs] rs by (auto simp: r_def)
      have s32: "32 \<le> unat s" by (rule size_ge [OF s(2,3)])
      define e where "e = l + 32 + unat s + unat r"
      have ee: "int e = int l + 32 + ns" using s r sz rs by (simp add: e_def rs_def)
      have sb: "sbrk_ok (p_sbrk p)" using i(6) by (simp add: granted_def)
      have l: "l \<noteq> nil" "int l + ns + 36 \<le> 2 ^ 32" using sb Some unfolding sbrk_ok_def by (metis, metis add.assoc)
      have fit: "l + 32 + unat s + unat r + 4 \<le> 2 ^ 32"
      proof -
        have "int (l + 32 + unat s + unat r + 4) \<le> int (2 ^ 32)" using l(2) ee by (simp add: e_def)
        then show ?thesis by (simp only: of_nat_le_iff)
      qed
      have apart: "e1 + 4 \<le> l \<or> e + 4 \<le> l1" if a: "(l1, bs1, e1) \<in> set AS" for l1 bs1 e1
      proof -
        obtain m where m: "m < p_nbrk p" "p_sbrk p m (int e1 + 4 - int l1) = Some l1" using i(6) a by (fastforce simp: granted_def)
        then have "int l1 + (int e1 + 4 - int l1) \<le> int l \<or> int l + (ns + 36) \<le> int l1" using sb Some unfolding sbrk_ok_def by blast
        then show ?thesis using ee by linarith
      qed
      have t: "ptr (int l + 32) = l + 32" and q: "ptr (int (l + 32) + sz) = l + 32 + unat s"
        and qe: "ptr (int (l + 32 + unat s) + rs) = e"
      proof -
        have "l + 32 + unat s + unat r < 4294967296" using fit by simp
        then show "ptr (int l + 32) = l + 32" "ptr (int (l + 32) + sz) = l + 32 + unat s" "ptr (int (l + 32 + unat s) + rs) = e"
          using s(1) r(1) rs(1) sz(1) by (auto simp: ptr_nat e_def nat_add_distrib intro!: nat_eq_iff [THEN iffD2])
      qed
      let ?h5 = "hS (l + 32) s (hM (l + 32) MAGIC_A (hA l (ns + 32) (p_chain p) (p_hdr p)))"
      define p5 where "p5 = p0\<lparr>p_hdr := ?h5, p_chain := l, p_tail := (p_tail p)(l + 24 \<mapsto> l, l + 32 + unat s - 8 \<mapsto> l + 32)\<rparr>"
      define p7 where "p7 = (if r = 0 then p5 else p5\<lparr>p_hdr := hS (l + 32 + unat s) r (p_hdr p5),
        p_tail := (p_tail p5)(l + 32 + unat s + unat r - 8 \<mapsto> l + 32 + unat s)\<rparr>)"
      let ?K = "fresh_kind l s r (fM (p_hdr p))" and ?AS = "(l, fresh_blocks l s r, e) # AS"
      have z: "ns + 32 = 32 + int (unat s + unat r)" using s(1) r(1) rs(1) sz(1) by (simp add: rs_def)
      have g7: "granted p7 ?AS"
      proof -
        have "granted p7 AS" by (rule granted_more [OF i(6)]) (auto simp: p7_def p5_def p0_def)
        moreover have "int e - int l < 2 ^ 31 - 4" "int e + 4 - int l = ns + 36" using ee ns by auto
        moreover have "p_sbrk p7 (p_nbrk p) (int e + 4 - int l) = Some l" "p_nbrk p < p_nbrk p7"
          using Some calculation(3) by (simp_all only: p7_def p5_def p0_def) simp_all
        ultimately show ?thesis unfolding granted_def by (auto simp del: of_nat_diff)
      qed
      have par7: "params p7" using i(7) by (auto simp: params_def p7_def p5_def p0_def)
      have h7: "p_hdr p7 = fresh_hdr l (32 + int (unat s + unat r)) (p_chain p) s r (p_hdr p)"
        "p_tail p7 = fresh_tail l s r (p_tail p)" "p_root p7 = p_root p" "p_chain p7 = l"
        unfolding z [symmetric] by (auto simp: p7_def p5_def p0_def fresh_hdr_def fresh_tail_def Let_def)
      have "e + 4 \<le> 2 ^ 32" using fit by (simp add: e_def)
      note fi = fresh_inv [OF ok[unfolded pool_ok_def, THEN conjunct1] _ s(2,3) r(2) e_def this l(1) h7 par7 g7]
      have fr: "inv p7 ?K ?AS tr" "held (fS (p_hdr p7)) ?K ?AS = held (fS (p_hdr p)) (fM (p_hdr p)) AS + s + r"
        by (rule fi, erule apart)+
      have fr3: "\<not> is_block (fM (p_hdr p) x)" if "l \<le> x" "x \<le> e" for x
        by (rule fi(3) [OF _ that], erule apart)
      have r32: "32 \<le> unat r" if "r \<noteq> 0" by (rule size_ge [OF r(2) that])
      let ?q = "l + 32 + unat s"
      have eq: "e = ?q + unat r" by (simp add: e_def)
      have Kq: "?K (l + 32) = MAGIC_A" "?K e = MAGIC_E" "r \<noteq> 0 \<Longrightarrow> ?K ?q = MAGIC_A" "\<And>x. x \<notin> {l, l + 32, ?q, e} \<Longrightarrow> ?K x = fM (p_hdr p) x" "?K l = MAGIC_E"
        using s32 r32 eq by (auto simp: fresh_kind_def Let_def)
      have M7: "fM (p_hdr p7) x = ?K x" if "x \<notin> {?q, e}" for x
        using that s32 r32 eq by (cases "r = 0"; auto simp: p7_def p5_def fresh_kind_def Let_def)+
      have S7: "fS (p_hdr p7) (l + 32) = s" "r \<noteq> 0 \<Longrightarrow> fS (p_hdr p7) ?q = r" "\<And>x. x < l \<or> e < x \<Longrightarrow> fS (p_hdr p7) x = fS (p_hdr p) x"
        using s32 r32 eq by (cases "r = 0"; auto simp: p7_def p5_def)+
      have T7: "p_tail p7 (?q - 8) = Some (l + 32)" using s32 r32 by (cases "r = 0"; auto simp: p7_def p5_def)+
      obtain p8 tr8 where g: "(if r \<noteq> 0 then pooladd ?q else pret ()) p7 = Some ((), p8)"
        "inv (p8\<lparr>p_hdr := hM e MAGIC_E (p_hdr p8)\<rparr>) (fM (hM e MAGIC_E (p_hdr p8))) ?AS tr8" "same_rest p7 p8"
        "fS (p_hdr p8) = fS (p_hdr p7)" "fM (hM e MAGIC_E (p_hdr p8)) = (if r = 0 then ?K else ?K(?q := MAGIC_F))"
        "held (fS (p_hdr p7)) (fM (hM e MAGIC_E (p_hdr p8))) ?AS + r = held (fS (p_hdr p7)) ?K ?AS"
      proof -
        have "is_block (?K (l + 32))" "?K (l + 32) \<noteq> MAGIC_F" "e \<noteq> l + 32" using Kq s32 eq by auto
        moreover have "?K ?q = MAGIC_A \<and> p_tail p7 (?q - 8) = Some (l + 32) \<and> fS (p_hdr p7) ?q = r \<and> ?q \<noteq> l + 32" if "r \<noteq> 0"
          using that Kq(3) T7 S7(2) s32 by simp
        ultimately show ?thesis using fresh_give [where t = "l + 32" and q = ?q, OF fr(1) _ _ Kq(2) _ _ eq] M7 that by blast
      qed
      define p' where "p' = p8\<lparr>p_hdr := hM e MAGIC_E (p_hdr p8), p_cursize := p_cursize p8 + s\<rparr>"
      have rest: "(rs > 0) = (r \<noteq> 0)" using r(3) rs(1) by auto
      have go: "new_arena sz p = Some (B2D (l + 32), p')"
      proof -
        let ?five = "[pokeb l (\<lambda>b. b\<lparr>b_magic := MAGIC_E, b_size := 32, b_csize := ns + 32, b_clink := p_chain p\<rparr>),
             pupd (\<lambda>p. p\<lparr>p_chain := l\<rparr>), set_tail l,
             pokeb (l + 32) (\<lambda>b. b\<lparr>b_magic := MAGIC_A, b_size := s\<rparr>), set_tail (l + 32)]"
        let ?rest = "pwhen (rs > 0) (pseq [set_size ?q r, set_tail ?q, pooladd ?q])"
        have e': "(if rs > 0 then e else ?q) = e" using rest eq by auto
        have "new_arena sz p = pbind (pseq (?five @ [?rest, set_magic e MAGIC_E, add_cursize s])) (\<lambda>_. pret (B2D (l + 32))) p0"
          unfolding run p0_def [symmetric] rs_def [symmetric] Let_def Some option.case if_not_P [OF room] t q qe e' s_def [symmetric] r_def [symmetric] ..
        note unf = this
        have rest_step: "?rest p5 = Some ((), p8)"
        proof (cases "r = 0")
          case True
          then show ?thesis using rest g(1) by (simp add: pwhen_def p7_def)
        next
          case False
          have "?q + unat r < 2 ^ 32" using fit by simp
          then show ?thesis using rest g(1) False rest_run [OF r32 [OF False], of ?q p5] by (simp add: pwhen_def p7_def)
        qed
        have "pseq (?five @ [?rest, set_magic e MAGIC_E, add_cursize s]) p0 = pseq [?rest, set_magic e MAGIC_E, add_cursize s] p5"
          using fresh_run [OF s32 fit r32] by (intro pseq_append) (simp add: p5_def p0_def)
        also have "\<dots> = pseq [set_magic e MAGIC_E, add_cursize s] p8" by (rule pseq_run(2)) (rule rest_step)
        also have "\<dots> = pseq [add_cursize s] (p8\<lparr>p_hdr := hM e MAGIC_E (p_hdr p8)\<rparr>)"
          by (rule pseq_run(2)) (rule poke_run)
        also have "\<dots> = Some ((), p')" by (simp add: pseq.simps add_cursize_def pbind_def pret_def pupd_def p'_def)
        finally show ?thesis unfolding unf by (simp add: pbind_def pret_def)
      qed
      note rf = same_rest_fields [OF g(3)]
      have b: "is_block (fM (hM e MAGIC_E (p_hdr p8)) (l + 32))" using g(5) Kq(1) s32 by auto
      note B = B2D_block [OF invD(2) [OF g(2)] b]
      have "pool_ok p' ?AS tr8"
      proof -
        have "held (fS (p_hdr p')) (fM (p_hdr p')) ?AS = held (fS (p_hdr p)) (fM (p_hdr p)) AS + s"
          using g(4,6) fr(2) by (simp add: p'_def algebra_simps)
        moreover have "p_cursize p8 = p_cursize p" using rf by (simp add: p7_def p5_def p0_def)
        ultimately show ?thesis using g(2) ok by (simp add: pool_ok_def inv_counts p'_def)
      qed
      moreover have "live p (l + 32 + 8) = None" using fr3 [of "l + 32"] eq used_block [of "fM (p_hdr p) (l + 32)"] by (auto simp: live_def add.commute [of 32 l])
      moreover have "live p' = (live p)(l + 32 + 8 \<mapsto> unat s - 16)"
      proof
        fix w
        have M: "fM (p_hdr p') = (if r = 0 then ?K else ?K(?q := MAGIC_F))" "fS (p_hdr p') = fS (p_hdr p7)"
          using g(4,5) by (simp_all add: p'_def)
        have "\<not> used (fM (p_hdr p) x)" if "l \<le> x" "x \<le> e" for x using fr3 [OF that] used_block by blast
        moreover have "used (fM (p_hdr p') x) = used (fM (p_hdr p) x) \<and> fS (p_hdr p') x = fS (p_hdr p) x" if "x < l \<or> e < x" for x
          using that Kq(4) [of x] S7(3) [OF that] s32 eq by (auto simp: M)
        moreover have "\<not> used (fM (p_hdr p') x)" if "l \<le> x" "x \<le> e" "x \<noteq> l + 32" for x
          using that Kq fr3 [OF that(1,2)] eq by (cases "r = 0"; cases "x \<in> {l, ?q, e}") (auto simp: M used_def is_block_def)
        moreover have "used (fM (p_hdr p') (l + 32))" "fS (p_hdr p') (l + 32) = s" using Kq(1) S7(1) s32 by (auto simp: M used_def)
        ultimately show "live p' w = ((live p)(l + 32 + 8 \<mapsto> unat s - 16)) w"
          unfolding live_def by (cases "w - 8 < l \<or> e < w - 8"; cases "w = l + 40") (auto simp: add.commute [of 32 l])
      qed
      moreover have "p_mem p' = p_mem p" "p_nfree p' = p_nfree p" using rf by (simp_all add: p'_def p7_def p5_def p0_def)
      moreover have "n \<le> unat s - 16" using n s(1) by simp
      ultimately have "got p n (l + 32 + 8) p'" using B unfolding got_def by blast
      then show ?thesis using go B by auto
    qed
  qed
qed

lemma block_small:
  assumes inv: "inv p K AS tr" and b: "is_block (K b)"
  shows "unat (fS (p_hdr p) b) < 2 ^ 31"
proof -
  note i = invD [OF inv]
  obtain AS1 l us vs e AS2 where r: "AS = AS1 @ (l, us @ b # vs, e) # AS2" "arena_ok (fS (p_hdr p)) K (p_tail p) (l, us @ b # vs, e)"
    using arena_of [OF i(2) b] by metis
  then have "int e - int l < 2 ^ 31 - 4" using i(6) by (auto simp: granted_def)
  then show ?thesis using block_facts(1,2) [OF r(2)] by simp
qed

lemma round_size_31:
  assumes "0 \<le> n" "n < 2 ^ 30"
  shows "round_size 31 n = 32 * ((n + 47) div 32)"
proof -
  have "int32 (n + 47) = n + 47" "int32 (32 * ((n + 47) div 32)) = 32 * ((n + 47) div 32)" using assms by (auto intro!: int32_id)
  then show ?thesis unfolding round_size_def BHDRSIZE_def using and_not_31 [of "n + 47"] by (simp add: add.assoc)
qed

text \<open>A block that is larger than the request: the code keeps it whole when less than a quarter of the request would be left.\<close>

lemma take_larger_run:
  assumes ok: "pool_ok p AS tr" and q: "fM (p_hdr p) q = MAGIC_F"
    and sz: "32 dvd sz" "0 < sz" "sz < 2 ^ 31" "word_of_int sz < fS (p_hdr p) q" and n: "int n + 16 \<le> sz"
  shows "\<exists>p'. take_larger q sz p = Some (q + 8, p') \<and> got p n (q + 8) p'"
proof -
  define s where "s = (word_of_int sz :: u32)"
  have s: "unat s = nat sz" "32 dvd unat s" "uint s = sz" using word_size [of sz] sz by (auto simp: s_def uint_nat)
  have inv: "inv p (fM (p_hdr p)) AS tr" using ok by (simp add: pool_ok_def)
  have bq: "is_block (fM (p_hdr p) q)" using q by simp
  note nb = neighbours [OF invD(2) [OF inv] bq]
  have lt: "unat s < unat (fS (p_hdr p) q)" using sz(4) by (simp add: s_def word_less_nat_alt)
  have c: "ptr (int q + uint s) = q + unat s"
  proof -
    have "q + unat s < 2 ^ 32" using nb(2) lt by simp
    then show ?thesis using ptr_nat [of "int q + uint s"] s(3) s(1) sz(2) by (simp add: nat_add_distrib)
  qed
  have n': "n + 16 \<le> unat s" "n + 16 \<le> unat (fS (p_hdr p) q)" using n s(1) lt by auto
  from whole_block [OF ok q n'(2)] obtain p1 p' where w: "pseq [pooldel q, set_magic q MAGIC_A] p = Some ((), p1)" "q \<in> dom (p_hdr p1)"
    "fS (p_hdr p1) = fS (p_hdr p)" "pbind (add_cursize (fS (p_hdr p) q)) (\<lambda>_. pret (B2D q)) p1 = Some (q + 8, p')" "got p n (q + 8) p'" by blast
  from part_block [OF ok q s(2) _ n'(1) refl] obtain p1' p'' where t: "pseq [pooldel q, set_magic q MAGIC_A] p = Some ((), p1')"
    "pseq [set_size q s, set_tail q, set_size (q + unat s) (fS (p_hdr p) q - s), set_tail (q + unat s), pooladd (q + unat s), add_cursize s] p1' = Some ((), p'')"
    "B2D q = q + 8" "got p n (q + 8) p''" using sz(4) unfolding s_def [symmetric] by blast
  have e: "p1' = p1" using w(1) t(1) by simp
  have run: "take_larger q sz p = (if sint (fS (p_hdr p) q - s) < sz div 4 then Some (q + 8, p') else Some (q + 8, p''))"
    unfolding take_larger_def bind_run [where m = "pseq _", OF w(1)] getb_run [OF w(2)] Let_def s_def [symmetric] c field_getb w(3)
    using w(4) t(2,3) e by (simp add: pbind_def pret_def)
  then show ?thesis using w(5) t(4) by (cases "sint (fS (p_hdr p) q - s) < sz div 4") auto
qed

lemma nodes_heads:
  assumes "free_tree h r tr" "x \<in> nodes tr"
  shows "\<exists>y \<in> set (heads tr). fS h y = fS h x"
proof -
  obtain xs where xs: "xs \<in> set (inorder tr)" "x \<in> set xs" using assms(2) by (auto simp: nodes_def)
  then have "fS h x = fS h (hd xs)" using free_treeD(2) [OF assms(1)] by (auto simp: rings_def)
  then show ?thesis using xs(1) by (force simp: heads_def)
qed

text \<open>The search answers with the smallest block that is large enough.\<close>

lemma bestfit_pool:
  assumes "free_tree h r tr"
  shows "(\<exists>t. bestfit h sz nil r = Some (Exact t) \<and> t \<in> nodes tr \<and> fS h t = sz) \<or>
    (\<exists>t. bestfit h sz nil r = Some (Larger t) \<and> t \<noteq> nil \<and> t \<in> nodes tr \<and> sz < fS h t \<and> (\<forall>x \<in> nodes tr. sz \<le> fS h x \<longrightarrow> fS h t \<le> fS h x)) \<or>
    bestfit h sz nil r = Some (Larger nil) \<and> (\<forall>x \<in> nodes tr. fS h x < sz)"
proof -
  note f = free_treeD [OF assms]
  have "set (heads tr) \<subseteq> dom h" using f(5,8) by blast
  from bestfit_ftree [OF f(1) this f(6), of sz nil] show ?thesis
  proof (elim disjE exE conjE)
    fix t assume t: "bestfit h sz nil r = Some (Larger t)" "t \<in> set (heads tr)" "sz < fS h t" "\<forall>x \<in> set (heads tr). fS h x < sz \<or> fS h t \<le> fS h x"
    have "fS h t \<le> fS h x" if "x \<in> nodes tr" "sz \<le> fS h x" for x
      using nodes_heads [OF assms that(1)] t(4) that(2) by force
    then show ?thesis using t f(4,8) by blast
  next
    assume t: "bestfit h sz nil r = Some (Larger nil)" "\<forall>x \<in> set (heads tr). fS h x < sz"
    then show ?thesis using nodes_heads [OF assms] by fastforce
  qed (use f(8) in blast)
qed

lemma pupd_bind: "pbind (pupd f) k p = k () (f p)"
  by (simp add: pbind_def pupd_def)

lemma poolalloc_run:
  assumes ok: "pool_ok p AS tr" and n: "n < 2 ^ 30"
  shows "\<exists>v p'. poolalloc (int n) p = Some (v, p') \<and> (if v = nil then denied p p' else got p n v p')"
proof -
  define sz where "sz = 32 * ((int n + 47) div 32)"
  have qu: "p_quanta p = 31" using ok by (simp add: pool_ok_def inv_def params_def)
  have rs: "round_size 31 (int n) = sz" using n by (simp add: round_size_31 sz_def)
  have sz: "int n + 16 \<le> sz" "32 dvd sz" "0 < sz" "sz \<le> 2 ^ 30 + 64" "sz < 2 ^ 31" using n by (auto simp: sz_def)
  define p0 where "p0 = p\<lparr>p_nalloc := Suc (p_nalloc p)\<rparr>"
  define s where "s = (word_of_int sz :: u32)"
  have s: "unat s = nat sz" using word_size [of sz] sz by (simp add: s_def)
  have ok0: "pool_ok p0 AS tr" and live0: "live p0 = live p" using pool_ok_counts [OF ok, of p0] by (auto simp: p0_def)
  have lift: "if v = nil then denied p p' else got p n v p'" if "if v = nil then denied p0 p' else got p0 n v p'" for v p'
    using that live0 by (auto simp: denied_def got_def p0_def split: if_splits)
  have ft: "free_tree (p_hdr p0) (p_root p0) tr" and nd: "nodes tr = {x. fM (p_hdr p0) x = MAGIC_F}"
    using ok0 by (auto simp: pool_ok_def inv_def)
  have "poolalloc (int n) p = (case bestfit (p_hdr p0) s nil (p_root p0) of
         None \<Rightarrow> pfail
       | Some (Exact t) \<Rightarrow> pbind (pseq [pooldel t, set_magic t MAGIC_A]) (\<lambda>_.
           pbind (getb t) (\<lambda>b. pbind (add_cursize (b_size b)) (\<lambda>_. pret (B2D t))))
       | Some (Larger q) \<Rightarrow> if q \<noteq> nil then take_larger q sz else new_arena sz) p0"
    unfolding poolalloc_def pget_run qu rs Let_def pupd_bind p0_def [symmetric] s_def [symmetric] ..
  note run = this
  from bestfit_pool [OF ft, of s] show ?thesis
  proof (elim disjE exE conjE)
    fix t assume t: "bestfit (p_hdr p0) s nil (p_root p0) = Some (Exact t)" "t \<in> nodes tr" "fS (p_hdr p0) t = s"
    have q: "fM (p_hdr p0) t = MAGIC_F" using t(2) nd by simp
    have "n + 16 \<le> unat (fS (p_hdr p0) t)" using t(3) s sz(1) by simp
    from whole_block [OF ok0 q this] obtain p1 p' where w: "pseq [pooldel t, set_magic t MAGIC_A] p0 = Some ((), p1)" "t \<in> dom (p_hdr p1)"
      "fS (p_hdr p1) = fS (p_hdr p0)" "pbind (add_cursize (fS (p_hdr p0) t)) (\<lambda>_. pret (B2D t)) p1 = Some (t + 8, p')" "got p0 n (t + 8) p'" by blast
    have "poolalloc (int n) p = Some (t + 8, p')"
      unfolding run t(1) option.case fit.case bind_run [where m = "pseq _", OF w(1)] getb_run [OF w(2)] field_getb w(3) by (rule w(4))
    moreover have "t + 8 \<noteq> nil" by (simp add: nil_def)
    ultimately show ?thesis using lift [of "t + 8" p'] w(5) by auto
  next
    fix t assume t: "bestfit (p_hdr p0) s nil (p_root p0) = Some (Larger t)" "t \<noteq> nil" "t \<in> nodes tr" "s < fS (p_hdr p0) t"
    have q: "fM (p_hdr p0) t = MAGIC_F" using t(3) nd by simp
    from take_larger_run [OF ok0 q sz(2,3,5) t(4)[unfolded s_def] sz(1)] obtain p' where
      p': "take_larger t sz p0 = Some (t + 8, p')" "got p0 n (t + 8) p'" by blast
    have "poolalloc (int n) p = Some (t + 8, p')" unfolding run t(1) option.case fit.case using t(2) p'(1) by simp
    moreover have "t + 8 \<noteq> nil" by (simp add: nil_def)
    ultimately show ?thesis using lift [of "t + 8" p'] p'(2) by auto
  next
    assume t: "bestfit (p_hdr p0) s nil (p_root p0) = Some (Larger nil)"
    from new_arena_run [OF ok0 sz(3,2,4,1)] obtain v p' where
      p': "new_arena sz p0 = Some (v, p')" "if v = nil then denied p0 p' else got p0 n v p'" by blast
    have "poolalloc (int n) p = Some (v, p')" unfolding run t(1) option.case fit.case using p'(1) by simp
    then show ?thesis using lift p'(2) by auto
  qed
qed

section \<open>The pools the system starts with\<close>

lemma empty_magic [simp]: "fM Map.empty x = No_magic"
  by (simp add: fields gb_def raw_Bhdr_def)

lemma table_ok:
  assumes "sbrk_ok f" "p \<in> set (table f)"
  shows "pool_ok p [] Leaf" "live p = Map.empty" "p_sbrk p = f"
proof -
  obtain s m c where p: "p = table_pool s m c f" "c = 256 * 1024 \<or> c = 1024 * 1024" using assms(2) by (auto simp: table_def)
  show "live p = Map.empty" by (rule ext) (simp add: p(1) live_def table_pool_def used_def)
  show "p_sbrk p = f" by (simp add: p(1) table_pool_def)
  have "params p" using p(2) by (auto simp: p(1) params_def table_pool_def)
  moreover have "granted p []" using assms(1) by (simp add: granted_def p(1) table_pool_def)
  moreover have "free_tree Map.empty nil Leaf" by (simp add: free_tree_def rings_def nodes_def)
  ultimately show "pool_ok p [] Leaf"
    by (simp add: pool_ok_def inv_def p(1) table_pool_def layout_def nodes_def held_def is_block_def)
qed

section \<open>What is live is apart\<close>

lemma block_apart:
  assumes lay: "layout S K T AS" and b: "is_block (K b)" and c: "is_block (K c)" and ne: "b \<noteq> c"
  shows "b + unat (S b) \<le> c \<or> c + unat (S c) \<le> b"
proof -
  obtain AS1 l us vs e AS2 where r: "AS = AS1 @ (l, us @ b # vs, e) # AS2" "arena_ok S K T (l, us @ b # vs, e)"
    using arena_of [OF lay b] by metis
  have "c \<in> blocks AS" using lay c by (simp add: layout_def)
  then obtain l' bs' e' where r': "(l', bs', e') \<in> set AS" "c \<in> set bs'" by (auto simp: blocks_def)
  have ok': "arena_ok S K T (l', bs', e')" by (rule layout_arena [OF lay r'(1)])
  show ?thesis
  proof (cases "(l', bs', e') = (l, us @ b # vs, e)")
    case True
    then have "c \<in> set us \<union> set vs" using r'(2) ne by auto
    then show ?thesis using block_facts(13) [OF r(2)] by blast
  next
    case False
    have "sorted_wrt apart (AS1 @ (l, us @ b # vs, e) # AS2)" using lay r(1) by (simp add: layout_def)
    then have "apart (l, us @ b # vs, e) (l', bs', e')"
      using sorted_wrt_apart [of AS1 "(l, us @ b # vs, e)" AS2 "(l', bs', e')"] r'(1) False r(1) by auto
    moreover have "l \<le> b" "b + unat (S b) \<le> e" using block_facts [OF r(2)] by auto
    moreover have "tiles S T (l' + 32) bs' e'" using ok' by (simp add: arena_ok.simps)
    then have "l' \<le> c" "c + unat (S c) \<le> e'" using tiles_range r'(2) by fastforce+
    ultimately show ?thesis by (auto simp: apart.simps)
  qed
qed

lemma live_apart:
  assumes ok: "pool_ok p AS tr" and v: "live p v = Some n" and w: "live p w = Some k" and ne: "v \<noteq> w"
  shows "v + n + 16 \<le> w \<or> w + k + 16 \<le> v"
proof -
  have lay: "layout (fS (p_hdr p)) (fM (p_hdr p)) (p_tail p) AS" using ok by (simp add: pool_ok_def inv_def)
  have b: "8 \<le> x \<and> is_block (fM (p_hdr p) (x - 8)) \<and> 32 \<le> unat (fS (p_hdr p) (x - 8)) \<and> m = unat (fS (p_hdr p) (x - 8)) - 16" if "live p x = Some m" for x m
  proof -
    have "8 \<le> x" "used (fM (p_hdr p) (x - 8))" "m = unat (fS (p_hdr p) (x - 8)) - 16" using that by (auto simp: live_def split: if_splits)
    then show ?thesis using used_block neighbours(1) [OF lay] by blast
  qed
  have "v - 8 \<noteq> w - 8" using b [OF v] b [OF w] ne by auto
  then have "v - 8 + unat (fS (p_hdr p) (v - 8)) \<le> w - 8 \<or> w - 8 + unat (fS (p_hdr p) (w - 8)) \<le> v - 8"
    using block_apart [OF lay] b [OF v] b [OF w] by blast
  then show ?thesis using b [OF v] b [OF w] by linarith
qed

text \<open>Every live block is inside what the host granted.\<close>

lemma live_granted:
  assumes ok: "pool_ok p AS tr" and v: "live p v = Some n"
  shows "\<exists>i l z. i < p_nbrk p \<and> p_sbrk p i z = Some l \<and> l + 32 + 8 \<le> v \<and> int v + int n + 8 + 4 \<le> int l + z"
proof -
  have inv: "inv p (fM (p_hdr p)) AS tr" using ok by (simp add: pool_ok_def)
  note i = invD [OF inv]
  have b: "8 \<le> v" "used (fM (p_hdr p) (v - 8))" "n = unat (fS (p_hdr p) (v - 8)) - 16" using v by (auto simp: live_def split: if_splits)
  have k: "is_block (fM (p_hdr p) (v - 8))" using used_block [OF b(2)] by simp
  obtain AS1 l us vs e AS2 where r: "AS = AS1 @ (l, us @ (v - 8) # vs, e) # AS2"
      "arena_ok (fS (p_hdr p)) (fM (p_hdr p)) (p_tail p) (l, us @ (v - 8) # vs, e)"
    using arena_of [OF i(2) k] by metis
  obtain m where m: "m < p_nbrk p" "p_sbrk p m (int e + 4 - int l) = Some l" using i(6) r(1) by (auto simp: granted_def)
  have "l + 32 + 8 \<le> v" "int v + int n + 8 + 4 \<le> int l + (int e + 4 - int l)"
  proof -
    define z where "z = unat (fS (p_hdr p) (v - 8))"
    have "l + 32 \<le> v - 8" "v - 8 + z \<le> e" "n = z - 16" "32 \<le> z" "8 \<le> v" using block_facts(1-3) [OF r(2)] b(1,3) by (auto simp: z_def)
    then show "l + 32 + 8 \<le> v" "int v + int n + 8 + 4 \<le> int l + (int e + 4 - int l)" by linarith+
  qed
  then show ?thesis using m by blast
qed

section \<open>The contract\<close>

locale allocator =
  fixes good :: "'s \<Rightarrow> bool" and held_by :: "'s \<Rightarrow> addr \<rightharpoonup> nat"
    and get :: "nat \<Rightarrow> 's \<Rightarrow> (addr \<times> 's) option" and put :: "addr \<Rightarrow> 's \<Rightarrow> (unit \<times> 's) option" and limit :: nat
  assumes separate: "good s \<Longrightarrow> held_by s v = Some n \<Longrightarrow> held_by s w = Some k \<Longrightarrow> v \<noteq> w \<Longrightarrow> v + n \<le> w \<or> w + k \<le> v"
    and gets: "good s \<Longrightarrow> n < limit \<Longrightarrow> \<exists>v s'. get n s = Some (v, s') \<and> good s' \<and>
      (if v = nil then held_by s' = held_by s else held_by s v = None \<and> (\<exists>k \<ge> n. held_by s' = (held_by s)(v \<mapsto> k)))"
    and puts: "good s \<Longrightarrow> held_by s v = Some n \<Longrightarrow> \<exists>s'. put v s = Some ((), s') \<and> good s' \<and> held_by s' = (held_by s)(v := None)"
    and null: "good s \<Longrightarrow> held_by s nil = None"

text \<open>
  A client: it asks for \<open>n\<close> bytes, or gives back the \<open>i\<close>-th of the blocks it holds. It holds a list of addresses
  with the sizes it asked for; a request that is denied adds nothing.
\<close>

datatype request = Get nat | Put nat

fun serve :: "(nat \<Rightarrow> 's \<Rightarrow> (addr \<times> 's) option) \<Rightarrow> (addr \<Rightarrow> 's \<Rightarrow> (unit \<times> 's) option) \<Rightarrow> request list \<Rightarrow>
    (addr \<times> nat) list \<Rightarrow> 's \<Rightarrow> ((addr \<times> nat) list \<times> 's) option" where
  "serve get put [] hs s = Some (hs, s)"
| "serve get put (Get n # rs) hs s = (case get n s of None \<Rightarrow> None
     | Some (v, s') \<Rightarrow> serve get put rs (if v = nil then hs else (v, n) # hs) s')"
| "serve get put (Put i # rs) hs s = (if i < length hs then
       (case put (fst (hs ! i)) s of None \<Rightarrow> None
        | Some (_, s') \<Rightarrow> serve get put rs (take i hs @ drop (Suc i) hs) s')
     else serve get put rs hs s)"

fun sized :: "nat \<Rightarrow> request \<Rightarrow> bool" where
  "sized m (Get n) \<longleftrightarrow> n < m"
| "sized m (Put i) \<longleftrightarrow> True"

text \<open>Each held block is live with at least the bytes asked for, and no two are the same.\<close>

definition owns :: "(addr \<rightharpoonup> nat) \<Rightarrow> (addr \<times> nat) list \<Rightarrow> bool" where
  "owns m hs \<longleftrightarrow> distinct (map fst hs) \<and> (\<forall>(v, n) \<in> set hs. \<exists>k \<ge> n. m v = Some k)"

lemma owns_drop:
  assumes "owns m hs" "i < length hs"
  shows "owns (m(fst (hs ! i) := None)) (take i hs @ drop (Suc i) hs)"
proof -
  have hs: "hs = take i hs @ hs ! i # drop (Suc i) hs" using assms(2) by (simp add: id_take_nth_drop)
  define us x vs where "us = take i hs" and "x = hs ! i" and "vs = drop (Suc i) hs"
  have "owns m (us @ x # vs)" using assms(1) hs by (simp add: us_def x_def vs_def)
  note o = this
  have f: "fst x \<notin> fst ` set us" "fst x \<notin> fst ` set vs" "distinct (map fst (us @ vs))"
      "\<forall>(v, n) \<in> set (us @ vs). \<exists>k \<ge> n. m v = Some k"
    using o by (auto simp: owns_def)
  have "\<exists>k \<ge> n. (m(fst x := None)) v = Some k" if a: "(v, n) \<in> set (us @ vs)" for v n
  proof -
    have "v \<noteq> fst x" using a f(1,2) by (metis Un_iff fst_conv image_eqI set_append)
    then show ?thesis using bspec [OF f(4) a] by simp
  qed
  then have "owns (m(fst x := None)) (us @ vs)" using f(3) unfolding owns_def by blast
  then show ?thesis by (simp add: us_def x_def vs_def)
qed

context allocator begin

lemma serve_runs:
  assumes "good s" "owns (held_by s) hs" "\<forall>r \<in> set rs. sized limit r"
  shows "\<exists>hs' s'. serve get put rs hs s = Some (hs', s') \<and> good s' \<and> owns (held_by s') hs'"
  using assms
proof (induction rs arbitrary: hs s)
  case (Cons r rs)
  show ?case
  proof (cases r)
    case (Get n)
    then obtain v s' where g: "get n s = Some (v, s')" "good s'"
      "if v = nil then held_by s' = held_by s else held_by s v = None \<and> (\<exists>k \<ge> n. held_by s' = (held_by s)(v \<mapsto> k))"
      using gets [OF Cons.prems(1), of n] Cons.prems(3) by auto
    have "owns (held_by s') (if v = nil then hs else (v, n) # hs)"
    proof (cases "v = nil")
      case False
      then obtain k where k: "held_by s v = None" "n \<le> k" "held_by s' = (held_by s)(v \<mapsto> k)" using g(3) by auto
      then have "v \<notin> fst ` set hs" using Cons.prems(2) by (fastforce simp: owns_def)
      then show ?thesis using False Cons.prems(2) k by (fastforce simp: owns_def)
    qed (use g Cons.prems in simp)
    then show ?thesis using Cons.IH [OF g(2)] g(1) Get Cons.prems(3) by simp
  next
    case (Put i)
    show ?thesis
    proof (cases "i < length hs")
      case True
      then have "hs ! i \<in> set hs" by simp
      then obtain k where "held_by s (fst (hs ! i)) = Some k" using Cons.prems(2) by (fastforce simp: owns_def)
      from puts [OF Cons.prems(1) this] obtain s' where "put (fst (hs ! i)) s = Some ((), s')" "good s'"
        "held_by s' = (held_by s)(fst (hs ! i) := None)" by blast
      note p = this
      have o: "owns (held_by s') (take i hs @ drop (Suc i) hs)" using owns_drop [OF Cons.prems(2) True] unfolding p(3) .
      have "\<exists>hs' s''. serve get put rs (take i hs @ drop (Suc i) hs) s' = Some (hs', s'') \<and> good s'' \<and> owns (held_by s'') hs'"
        by (rule Cons.IH [OF p(2) o]) (use Cons.prems(3) in simp)
      then show ?thesis using p(1) Put True by simp
    next
      case False
      then show ?thesis using Cons.IH [OF Cons.prems(1,2)] Cons.prems(3) Put by simp
    qed
  qed
qed simp

lemma owned_apart:
  assumes "good s" "owns (held_by s) hs" "i < length hs" "j < length hs" "i \<noteq> j"
  shows "fst (hs ! i) + snd (hs ! i) \<le> fst (hs ! j) \<or> fst (hs ! j) + snd (hs ! j) \<le> fst (hs ! i)"
proof -
  have "\<exists>m. held_by s (fst (hs ! x)) = Some m \<and> snd (hs ! x) \<le> m" if "x < length hs" for x
    using assms(2) nth_mem [OF that] by (fastforce simp: owns_def)
  then obtain m k where m: "held_by s (fst (hs ! i)) = Some m" "snd (hs ! i) \<le> m"
    and k: "held_by s (fst (hs ! j)) = Some k" "snd (hs ! j) \<le> k" using assms(3,4) by blast
  have "fst (hs ! i) \<noteq> fst (hs ! j)"
    using assms(2-5) by (auto simp: owns_def distinct_conv_nth)
  from separate [OF assms(1) m(1) k(1) this] show ?thesis using m(2) k(2) by auto
qed

end

definition pool_good :: "pool \<Rightarrow> bool" where
  "pool_good p \<longleftrightarrow> (\<exists>AS tr. pool_ok p AS tr)"

lemma poolalloc_contract:
  assumes "pool_good p" "n < 2 ^ 30"
  shows "\<exists>v p'. poolalloc (int n) p = Some (v, p') \<and> pool_good p' \<and>
      (if v = nil then live p' = live p else live p v = None \<and> (\<exists>k \<ge> n. live p' = (live p)(v \<mapsto> k)))"
proof -
  obtain AS tr where ok: "pool_ok p AS tr" using assms(1) by (auto simp: pool_good_def)
  from poolalloc_run [OF ok assms(2)] obtain v p' where r: "poolalloc (int n) p = Some (v, p')" "if v = nil then denied p p' else got p n v p'" by blast
  show ?thesis
  proof (cases "v = nil")
    case True
    then show ?thesis using r by (auto simp: denied_def pool_good_def)
  next
    case False
    then show ?thesis using r unfolding got_def pool_good_def by auto
  qed
qed

lemma poolfree_contract:
  assumes "pool_good p" "live p v = Some n"
  shows "\<exists>p'. poolfree v p = Some ((), p') \<and> pool_good p' \<and> live p' = (live p)(v := None)"
  using assms poolfree_run unfolding pool_good_def by blast

interpretation pm: allocator pool_good live "\<lambda>n. poolalloc (int n)" poolfree "2 ^ 30"
proof
  fix p v w n k assume "pool_good p" "live p v = Some n" "live p w = Some k" "v \<noteq> w"
  then show "v + n \<le> w \<or> w + k \<le> v" using live_apart unfolding pool_good_def by fastforce
qed (use poolalloc_contract poolfree_contract in \<open>auto simp: live_def nil_def\<close>)

section \<open>A pool to try it on\<close>

definition one_brk :: "nat \<Rightarrow> int \<Rightarrow> addr option" where
  "one_brk n z = (if n = 0 \<and> z \<le> 2 ^ 20 then Some 4096 else None)"

definition main_pool :: pool where
  "main_pool = table_pool ''main'' (4 * 1024 * 1024) (256 * 1024) one_brk"

lemma one_brk_ok: "sbrk_ok one_brk"
  by (auto simp: sbrk_ok_def one_brk_def nil_def split: if_splits)

lemma main_pool_table: "main_pool \<in> set (table one_brk)"
  by (simp add: main_pool_def table_def)

lemma main_pool_good: "pool_good main_pool"
  using table_ok(1) [OF one_brk_ok main_pool_table] unfolding pool_good_def by blast

lemma main_pool_first: "\<exists>p. poolalloc 100 main_pool = Some (4136, p)"
proof -
  have "int32 262180 = 262180" "int32 262176 = 262176" "int32 262016 = 262016" "round_size 31 100 = 128"
    by (auto intro: int32_id simp: round_size_31)
  then show ?thesis
    by (simp add: poolalloc_def main_pool_def table_pool_def pget_run pupd_bind bestfit.simps new_arena_def Let_def one_brk_def pseq.simps pbind_def pret_def pupd_def pokeb_def set_tail_def getb_def
        ptr_def B2D_def B2T_def pwhen_def set_size_def set_magic_def pooladd_def add_cursize_def pget_def setb_def set_root_def set_fwd_def set_prev_def set_left_def set_right_def set_parent_def raw_Bhdr_def)
qed


lemma main_pool_joined:
  "\<exists>p p'. poolalloc 100 main_pool = Some (4136, p) \<and> poolfree 4136 p = Some ((), p') \<and> fM (p_hdr p') 4128 = MAGIC_F"
proof -
  have "int32 262180 = 262180" "int32 262176 = 262176" "int32 262016 = 262016" "round_size 31 100 = 128"
    by (auto intro: int32_id simp: round_size_31)
  then show ?thesis
    by (simp add: poolalloc_def main_pool_def table_pool_def pget_run pupd_bind bestfit.simps new_arena_def Let_def one_brk_def pseq.simps pbind_def pret_def pupd_def pokeb_def set_tail_def getb_def
        ptr_def B2D_def B2T_def pwhen_def set_size_def set_magic_def pooladd_def add_cursize_def pget_def setb_def set_root_def set_fwd_def set_prev_def set_left_def set_right_def set_parent_def raw_Bhdr_def poolfree_def D2B_def B2NB_def B2PT_def pooldel_def pooldel_ring_def pooldel_two_def unring_def relink_def fields gb_def)
qed

text \<open>\<open>realloc\<close> of a block the client holds.\<close>

lemma realloc_run:
  assumes g: "pool_good p" and v: "live p v = Some n" and sz: "sz < 2 ^ 30"
  shows "\<exists>w p'. realloc v (word_of_nat sz) p = Some (w, p') \<and> pool_good p' \<and>
    (if w = nil then live p' = live p \<and> p_mem p' = p_mem p
     else (\<exists>k \<ge> sz. live p' = (live p)(v := None, w \<mapsto> k)) \<and> (\<forall>i < n. p_mem p' (w + i) = p_mem p (v + i)) \<and>
       (\<forall>u m. u \<noteq> v \<longrightarrow> live p u = Some m \<longrightarrow> (\<forall>i < m. p_mem p' (u + i) = p_mem p (u + i))))"
proof -
  obtain AS tr where ok: "pool_ok p AS tr" using g by (auto simp: pool_good_def)
  note l = live_block [OF ok v]
  have us: "unat (word_of_nat sz :: u32) = sz" using sz by (simp add: unat_of_nat)
  have ss: "sint (word_of_nat sz :: u32) = int sz"
    using int32_id [of "int sz"] sz by (simp add: int32_def)
  let ?o = "fS (p_hdr p) (v - 8) - word_of_int BHDRSIZE"
  have lay: "layout (fS (p_hdr p)) (fM (p_hdr p)) (p_tail p) AS" using ok by (simp add: pool_ok_def inv_def)
  have "32 \<le> unat (fS (p_hdr p) (v - 8))" using neighbours(1) [OF lay] used_block [OF l(1)] by blast
  then have o: "unat ?o = n" unfolding l(6) BHDRSIZE_def
    by (simp add: unat_sub word_le_nat_alt)
  have D: "D2B v p = Some (v - 8, p)" using l(1,4) l(3) by (auto simp: D2B_run fields gb_def split: option.splits)
  have run: "realloc v (word_of_nat sz) p = (if sz \<le> n then Some (v, p)
     else pbind (poolalloc (int sz)) (\<lambda>nv. pbind (pwhen (nv \<noteq> nil) (pseq [
           pupd (\<lambda>p. p\<lparr>p_mem := memmove nv v n (p_mem p)\<rparr>), free v])) (\<lambda>_. pret nv)) p)"
    using l(7) by (simp add: realloc_def bind_run [where m = "D2B v", OF D] getb_run [OF l(3)] Let_def field_getb word_le_nat_alt us o ss pret_def)
  show ?thesis
  proof (cases "sz \<le> n")
    case True
    then show ?thesis using run g v l(7) by (auto simp: fun_eq_iff intro!: exI [of _ v] exI [of _ p])
  next
    case False
    from poolalloc_run [OF ok sz] obtain w p1 where a: "poolalloc (int sz) p = Some (w, p1)" "if w = nil then denied p p1 else got p sz w p1" by blast
    show ?thesis
    proof (cases "w = nil")
      case True
      then have "realloc v (word_of_nat sz) p = Some (nil, p1)" using run False a(1) by (simp add: pbind_def pwhen_def pret_def)
      then show ?thesis using True a(2) by (auto simp: denied_def pool_good_def)
    next
      case w: False
      then obtain AS1 tr1 k where b: "pool_ok p1 AS1 tr1" "live p w = None" "live p1 = (live p)(w \<mapsto> k)" "sz \<le> k" "p_mem p1 = p_mem p"
        using a(2) by (auto simp: got_def)
      define p2 where "p2 = p1\<lparr>p_mem := memmove w v n (p_mem p1)\<rparr>"
      have ok2: "pool_ok p2 AS1 tr1" and live2: "live p2 = live p1" using pool_ok_counts [OF b(1), of p2] by (auto simp: p2_def)
      have vw: "v \<noteq> w" using b(2) v by auto
      have v1: "live p2 v = Some n" using live2 b(3) v vw by simp
      from poolfree_run [OF ok2 v1] obtain p3 AS3 tr3 where f: "poolfree v p2 = Some ((), p3)" "pool_ok p3 AS3 tr3"
        "live p3 = (live p2)(v := None)" "p_mem p3 = p_mem p2" by blast
      note l2 = live_block [OF ok2 v1]
      have D2: "D2B v p2 = Some (v - 8, p2)" using l2(1,4) l2(3) by (auto simp: D2B_run fields gb_def split: option.splits)
      have fr: "free v p2 = Some ((), p3)" using f(1) l(7) by (simp add: free_def pwhen_def bind_run [where m = "D2B v", OF D2])
      have u: "pupd (\<lambda>p. p\<lparr>p_mem := memmove w v n (p_mem p)\<rparr>) p1 = Some ((), p2)" by (simp add: pupd_def p2_def)
      have "realloc v (word_of_nat sz) p = Some (w, p3)"
        using run False w a(1) fr u by (simp add: pbind_def pwhen_def pret_def pseq.simps)
      moreover have "live p3 = (live p)(v := None, w \<mapsto> k)" using f(3) live2 b(3) vw by (simp add: fun_upd_twist)
      moreover have "p_mem p3 (w + i) = p_mem p (v + i)" if "i < n" for i
        using that by (simp add: f(4) p2_def b(5) memmove_def)
      moreover have "p_mem p3 (x + i) = p_mem p (x + i)" if x: "x \<noteq> v" "live p x = Some m" "i < m" for x m i
      proof -
        have "x \<noteq> w" using x(2) b(2) by auto
        then have "live p1 x = Some m" "live p1 w = Some k" using b(3) x(2) by auto
        from live_apart [OF b(1) this \<open>x \<noteq> w\<close>] show ?thesis
          using x(3) False b(4) by (auto simp: f(4) p2_def b(5) memmove_def)
      qed
      moreover have "pool_good p3" using f(2) by (auto simp: pool_good_def)
      ultimately show ?thesis using w b(4) by (intro exI [of _ w] exI [of _ p3]) auto
    qed
  qed
qed


lemma bestfit_free:
  assumes "pool_good p"
  shows "case bestfit (p_hdr p) z nil (p_root p) of None \<Rightarrow> False
    | Some (Exact t) \<Rightarrow> fM (p_hdr p) t = MAGIC_F \<and> fS (p_hdr p) t = z
    | Some (Larger t) \<Rightarrow> if t = nil then (\<forall>x. fM (p_hdr p) x = MAGIC_F \<longrightarrow> fS (p_hdr p) x < z)
        else fM (p_hdr p) t = MAGIC_F \<and> z < fS (p_hdr p) t \<and>
          (\<forall>x. fM (p_hdr p) x = MAGIC_F \<longrightarrow> z \<le> fS (p_hdr p) x \<longrightarrow> fS (p_hdr p) t \<le> fS (p_hdr p) x)"
proof -
  obtain AS tr where "free_tree (p_hdr p) (p_root p) tr" and n: "nodes tr = {x. fM (p_hdr p) x = MAGIC_F}"
    using assms by (auto simp: pool_good_def pool_ok_def inv_def)
  from bestfit_pool [OF this(1), of z] show ?thesis unfolding n by auto
qed

lemma release_twice:
  assumes "pool_good p" "live p v = Some n" "poolfree v p = Some ((), p')"
  shows "poolfree v p' = None"
proof -
  obtain AS tr where ok: "pool_ok p AS tr" using assms(1) by (auto simp: pool_good_def)
  from poolfree_run [OF ok assms(2)] assms(3) obtain AS' tr' where f: "pool_ok p' AS' tr'" "live p' = (live p)(v := None)" by auto
  show ?thesis using poolfree_refused [OF f(1), of v] f(2) live_block(2,5) [OF ok assms(2)] by simp
qed

lemma client_runs:
  assumes "sbrk_ok f" "p \<in> set (table f)" "\<forall>r \<in> set rs. sized (2 ^ 30) r"
  shows "\<exists>hs p'. serve (\<lambda>n. poolalloc (int n)) poolfree rs [] p = Some (hs, p') \<and> pool_good p' \<and>
    (\<forall>i < length hs. \<exists>k \<ge> snd (hs ! i). live p' (fst (hs ! i)) = Some k) \<and>
    (\<forall>i < length hs. \<forall>j < length hs. i \<noteq> j \<longrightarrow>
       fst (hs ! i) + snd (hs ! i) \<le> fst (hs ! j) \<or> fst (hs ! j) + snd (hs ! j) \<le> fst (hs ! i))"
proof -
  have "pool_good p" using table_ok(1) [OF assms(1,2)] by (auto simp: pool_good_def)
  moreover have "owns (live p) []" by (simp add: owns_def)
  ultimately obtain hs p' where r: "serve (\<lambda>n. poolalloc (int n)) poolfree rs [] p = Some (hs, p')" "pool_good p'" "owns (live p') hs"
    using pm.serve_runs assms(3) by blast
  have "\<exists>k \<ge> snd (hs ! i). live p' (fst (hs ! i)) = Some k" if "i < length hs" for i
    using r(3) nth_mem [OF that] by (fastforce simp: owns_def)
  then show ?thesis using r pm.owned_apart [OF r(2,3)] by blast
qed

lemma no_free_pair:
  assumes "pool_good p" "fM (p_hdr p) b = MAGIC_F"
  shows "fM (p_hdr p) (b + unat (fS (p_hdr p) b)) \<noteq> MAGIC_F" "fM (p_hdr p) (b + unat (fS (p_hdr p) b)) \<noteq> No_magic"
proof -
  obtain AS where lay: "layout (fS (p_hdr p)) (fM (p_hdr p)) (p_tail p) AS" using assms(1) by (auto simp: pool_good_def pool_ok_def inv_def)
  have "is_block (fM (p_hdr p) b)" using assms(2) by simp
  then show "fM (p_hdr p) (b + unat (fS (p_hdr p) b)) \<noteq> MAGIC_F" "fM (p_hdr p) (b + unat (fS (p_hdr p) b)) \<noteq> No_magic"
    using neighbours(4,7) [OF lay] assms(2) by blast+
qed

lemma release_coalesces:
  assumes "pool_good p" "live p v = Some n" "poolfree v p = Some ((), p')" "fM (p_hdr p') b = MAGIC_F"
  shows "fM (p_hdr p') (b + unat (fS (p_hdr p') b)) \<notin> {MAGIC_F, No_magic}"
  using poolfree_contract [OF assms(1,2)] assms(3) no_free_pair [OF _ assms(4)] by auto

text \<open>The first allocation of the pool above, and the release of what it gave.\<close>

lemma main_pool_step:
  "\<exists>p k. poolalloc 100 main_pool = Some (4136, p) \<and> pool_good p \<and> live p 4136 = Some k"
proof -
  obtain p where p: "poolalloc 100 main_pool = Some (4136, p)" using main_pool_first by blast
  with poolalloc_contract [OF main_pool_good, of 100] show ?thesis by (auto simp: nil_def)
qed

lemma main_pool_back:
  "\<exists>p k p'. poolalloc 100 main_pool = Some (4136, p) \<and> pool_good p \<and> live p 4136 = Some k \<and> poolfree 4136 p = Some ((), p') \<and> pool_good p'"
  using main_pool_step poolfree_contract by blast

section \<open>Properties\<close>

text \<open>C20: A request below $2^{30}$ bytes to a pool in good order returns; it is denied and nothing live changes, or it
  is granted a block that was not live, with at least the bytes asked for, and every other live block stays.\<close>

theorem poolalloc_grants:
  assumes "pool_good p" "n < 2 ^ 30"
  shows "\<exists>v p'. poolalloc (int n) p = Some (v, p') \<and> pool_good p' \<and>
      (if v = nil then live p' = live p else live p v = None \<and> (\<exists>k \<ge> n. live p' = (live p)(v \<mapsto> k)))"
  using assms by (rule poolalloc_contract)

theorem poolalloc_grants_witness:
  "\<exists>v p'. poolalloc (int 100) main_pool = Some (v, p') \<and> pool_good p' \<and>
      (if v = nil then live p' = live main_pool else live main_pool v = None \<and> (\<exists>k \<ge> 100. live p' = (live main_pool)(v \<mapsto> k)))"
  by (rule poolalloc_grants [OF main_pool_good]) simp

text \<open>C11: Release of a live block succeeds, joins it with its free neighbours, and takes exactly that block out of what
  is live and its size out of the count.\<close>

theorem poolfree_releases:
  assumes "pool_good p" "live p v = Some n"
  shows "\<exists>p'. poolfree v p = Some ((), p') \<and> pool_good p' \<and> live p' = (live p)(v := None) \<and> p_mem p' = p_mem p \<and>
    p_cursize p' = p_cursize p - word_of_nat (n + 16)"
  using assms poolfree_run unfolding pool_good_def by blast

theorem poolfree_releases_witness:
  "\<exists>p k p'. poolalloc 100 main_pool = Some (4136, p) \<and> poolfree 4136 p = Some ((), p') \<and> live p' = (live p)(4136 := None) \<and>
    p_cursize p' = p_cursize p - word_of_nat (k + 16)"
  using main_pool_step poolfree_releases by blast

text \<open>A block that is released a second time is refused: \<open>D2B\<close> panics.\<close>

theorem double_free_refused:
  assumes "pool_good p" "live p v = Some n" "poolfree v p = Some ((), p')"
  shows "poolfree v p' = None"
  using assms by (rule release_twice)

theorem double_free_refused_witness:
  "\<exists>p p'. poolalloc 100 main_pool = Some (4136, p) \<and> poolfree 4136 p = Some ((), p') \<and> poolfree 4136 p' = None"
  using main_pool_back double_free_refused by blast

text \<open>C36: After a release no free block is followed by a free block, and what follows it is a block or an end mark.\<close>

theorem poolfree_coalesces:
  assumes "pool_good p" "live p v = Some n" "poolfree v p = Some ((), p')" "fM (p_hdr p') b = MAGIC_F"
  shows "fM (p_hdr p') (b + unat (fS (p_hdr p') b)) \<notin> {MAGIC_F, No_magic}"
  using assms by (rule release_coalesces)

theorem poolfree_coalesces_witness:
  "\<exists>p p'. poolalloc 100 main_pool = Some (4136, p) \<and> poolfree 4136 p = Some ((), p') \<and> fM (p_hdr p') 4128 = MAGIC_F \<and>
     fM (p_hdr p') (4128 + unat (fS (p_hdr p') 4128)) \<notin> {MAGIC_F, No_magic}"
proof -
  obtain p p' where p: "poolalloc 100 main_pool = Some (4136, p)" "poolfree 4136 p = Some ((), p')" "fM (p_hdr p') 4128 = MAGIC_F"
    using main_pool_joined by blast
  moreover obtain k where "pool_good p" "live p 4136 = Some k" using main_pool_step p(1) by auto
  ultimately show ?thesis using poolfree_coalesces [of p 4136 k p' 4128] by blast
qed

text \<open>The search of the free tree answers with a block of the size, else with the smallest that is larger, else with none
  when there is none.\<close>

theorem bestfit_best:
  assumes "pool_good p"
  shows "case bestfit (p_hdr p) z nil (p_root p) of None \<Rightarrow> False
    | Some (Exact t) \<Rightarrow> fM (p_hdr p) t = MAGIC_F \<and> fS (p_hdr p) t = z
    | Some (Larger t) \<Rightarrow> if t = nil then (\<forall>x. fM (p_hdr p) x = MAGIC_F \<longrightarrow> fS (p_hdr p) x < z)
        else fM (p_hdr p) t = MAGIC_F \<and> z < fS (p_hdr p) t \<and>
          (\<forall>x. fM (p_hdr p) x = MAGIC_F \<longrightarrow> z \<le> fS (p_hdr p) x \<longrightarrow> fS (p_hdr p) t \<le> fS (p_hdr p) x)"
  using assms by (rule bestfit_free)

theorem bestfit_best_witness:
  "case bestfit (p_hdr main_pool) 128 nil (p_root main_pool) of Some (Larger t) \<Rightarrow> t = nil | _ \<Rightarrow> False"
  using bestfit_best [OF main_pool_good, of 128] by (simp add: main_pool_def table_pool_def bestfit.simps)

text \<open>C21: \<open>realloc\<close> of a live block keeps the bytes of that block, at its new place, and of every other live block.\<close>

theorem realloc_keeps:
  assumes "pool_good p" "live p v = Some n" "sz < 2 ^ 30"
  shows "\<exists>w p'. realloc v (word_of_nat sz) p = Some (w, p') \<and> pool_good p' \<and>
    (if w = nil then live p' = live p \<and> p_mem p' = p_mem p
     else (\<exists>k \<ge> sz. live p' = (live p)(v := None, w \<mapsto> k)) \<and> (\<forall>i < n. p_mem p' (w + i) = p_mem p (v + i)) \<and>
       (\<forall>u m. u \<noteq> v \<longrightarrow> live p u = Some m \<longrightarrow> (\<forall>i < m. p_mem p' (u + i) = p_mem p (u + i))))"
  using assms by (rule realloc_run)

theorem realloc_keeps_witness:
  "\<exists>p w p'. poolalloc 100 main_pool = Some (4136, p) \<and> realloc 4136 (word_of_nat 200) p = Some (w, p') \<and> pool_good p'"
proof -
  obtain p k where p: "poolalloc 100 main_pool = Some (4136, p)" "pool_good p" "live p 4136 = Some k" using main_pool_step by blast
  from realloc_keeps [OF p(2,3), of 200] p(1) show ?thesis by auto
qed

text \<open>C1: A client that gives back only what it holds runs to its end on each of the pools of the program, whatever the order
  of its requests and of the answers of the host; the blocks it holds are live, large enough, and apart.\<close>

theorem client_safe:
  assumes "sbrk_ok f" "p \<in> set (table f)" "\<forall>r \<in> set rs. sized (2 ^ 30) r"
  shows "\<exists>hs p'. serve (\<lambda>n. poolalloc (int n)) poolfree rs [] p = Some (hs, p') \<and> pool_good p' \<and>
    (\<forall>i < length hs. \<exists>k \<ge> snd (hs ! i). live p' (fst (hs ! i)) = Some k) \<and>
    (\<forall>i < length hs. \<forall>j < length hs. i \<noteq> j \<longrightarrow>
       fst (hs ! i) + snd (hs ! i) \<le> fst (hs ! j) \<or> fst (hs ! j) + snd (hs ! j) \<le> fst (hs ! i))"
  using assms by (rule client_runs)

theorem client_safe_witness:
  "\<exists>hs p'. serve (\<lambda>n. poolalloc (int n)) poolfree [Get 100, Get 5000, Put 1, Get 70, Put 0] [] main_pool = Some (hs, p') \<and> pool_good p'"
proof -
  have "\<forall>r \<in> set [Get 100, Get 5000, Put 1, Get 70, Put 0]. sized (2 ^ 30) r" by simp
  from client_safe [OF one_brk_ok main_pool_table this] show ?thesis by blast
qed

text \<open>A pool whose free tree has a root with two children.\<close>

definition tree_pool :: pool where
  "tree_pool = main_pool\<lparr>p_root := 100, p_hdr := (let n = raw_Bhdr\<lparr>b_magic := MAGIC_F, b_left := nil, b_right := nil, b_parent := 100\<rparr> in
     [100 \<mapsto> n\<lparr>b_size := 64, b_left := 200, b_right := 300, b_parent := nil, b_fwd := 100, b_prev := 100\<rparr>,
      200 \<mapsto> n\<lparr>b_size := 32, b_fwd := 200, b_prev := 200\<rparr>,
      300 \<mapsto> n\<lparr>b_size := 96, b_fwd := 300, b_prev := 300\<rparr>])\<rparr>"

lemma tree_pool_tree:
  "free_tree (p_hdr tree_pool) (p_root tree_pool) (Node (Node Leaf [200] Leaf) [100] (Node Leaf [300] Leaf))"
  by (simp add: free_tree_def tree_pool_def Let_def rings_def ring_def nodes_def fields gb_def nil_def dom_def)

text \<open>C12: On the free tree, \<open>pooldel\<close> of any block (alone at its node or in its ring, with no, one or two children) ends and
  implements removal from the set of free blocks; the tree is a search tree by size again and no size or magic changed.\<close>

theorem pooldel_removes:
  assumes "free_tree (p_hdr p) (p_root p) tr" "t \<in> nodes tr"
  shows "\<exists>p' tr'. pooldel t p = Some ((), p') \<and> free_tree (p_hdr p') (p_root p') tr' \<and> nodes tr' = nodes tr - {t} \<and>
    fS (p_hdr p') = fS (p_hdr p) \<and> fM (p_hdr p') = fM (p_hdr p)"
proof -
  from pooldel_gone [OF assms] obtain h r tr' where "pooldel t p = Some ((), p\<lparr>p_hdr := h, p_root := r\<rparr>)" "free_tree h r tr'"
    "nodes tr' = nodes tr - {t}" "only (nodes tr) (p_hdr p) h" unfolding gone_def by blast
  then show ?thesis by (intro exI [of _ "p\<lparr>p_hdr := h, p_root := r\<rparr>"] exI [of _ tr']) (simp add: only_def)
qed

theorem pooldel_removes_witness:
  "\<exists>p' tr'. pooldel 100 tree_pool = Some ((), p') \<and> free_tree (p_hdr p') (p_root p') tr' \<and> nodes tr' = {200, 300}"
proof -
  have "100 \<in> nodes (Node (Node Leaf [200] Leaf) [100] (Node Leaf [300 :: addr] Leaf))"
    "nodes (Node (Node Leaf [200] Leaf) [100] (Node Leaf [300 :: addr] Leaf)) - {100} = {200, 300}" by (auto simp: nodes_def)
  with pooldel_removes [OF tree_pool_tree, of 100] show ?thesis by auto
qed

end
