(* ===== verification/Gc.thy ===== *)
theory Gc
  imports Control Poolops
begin

text \<open>
  The collector, \<open>interp/gc.c\<close>: an incremental mark and sweep that finds what reference counts miss.
  Every heap block has a colour; the three colours \<open>mutator\<close>, \<open>marker\<close> and \<open>sweeper\<close> change their roles
  from epoch to epoch, and \<open>propagator\<close> is a block that is reached but not yet scanned. \<open>rungc\<close> runs after
  each quantum of the scheduler and visits at most \<open>Quanta\<close> blocks, in the order of the arenas of the heap pool.

  The state \<open>gc\<close> is the virtual machine, the heap pool with its block headers, and the static variables of
  \<open>gc.c\<close>. What an operation of the virtual machine gives back to the heap pool is in its history \<open>v_freed\<close>;
  \<open>vmrun\<close> does the same to the pool, in the same order. A trap, a panic, an \<open>error()\<close> that nothing catches
  and a loop that does not end are \<open>None\<close>: \<open>None\<close> means that \<open>rungc\<close> does not return.
\<close>

section \<open>Marking\<close>

definition Quanta :: nat where "Quanta = 50"

definition markbit :: "addr \<Rightarrow> byte \<Rightarrow> nat \<Rightarrow> unit M" where
  "markbit w c j = iff (bit c (7 - j)) (bindM (getp (w + 4 * j)) (\<lambda>q. iff (q \<noteq> H) (Setmark (D2H q))))"

fun markmap :: "addr \<Rightarrow> byte list \<Rightarrow> unit M" where
  "markmap w [] = skip"
| "markmap w (c # p) = steps [
     iff (c \<noteq> 0) (steps (map (markbit w c) [0, 1, 2, 3, 4, 5, 6, 7])),
     markmap (w + 32) p]"

definition markheap :: "addr \<Rightarrow> addr \<Rightarrow> unit M" where
  "markheap t vw = (if t = nil then skip else bindM (deref v_types t) (\<lambda>x.
     if t_np x = 0 then skip else markmap vw (t_map x)))"

definition markarray :: "addr \<Rightarrow> unit M" where
  "markarray vw = bindM (deref v_arrays vw) (\<lambda>a. steps [
     iff (a_root a \<noteq> H) (Setmark (D2H (a_root a))),
     bindM (deref v_types (a_t a)) (\<lambda>t. iff (t_np t \<noteq> 0)
       (foreach (nat (sint (a_len a))) (nat (t_size t)) (a_data a) (markheap (a_t a))))])"

definition markmod :: "addr \<Rightarrow> unit M" where
  "markmod m = bindM (deref v_mods m) (\<lambda>x. iff (m_mp x \<noteq> H) (Setmark (D2H (m_mp x))))"

definition markmodl :: "addr \<Rightarrow> unit M" where
  "markmodl vw = bindM (deref v_modlinks vw) (\<lambda>ml. markmod (ml_m ml))"

text \<open>The static \<open>visit\<close> is only ever tested for being positive; it is a natural number here.\<close>

fun marktail :: "nat \<Rightarrow> addr \<Rightarrow> nat M" where
  "marktail 0 l = bindM (deref v_lists l) (\<lambda>x. let l = l_tail x in
     bindM (iff (l \<noteq> H) (bindM (deref v_heaps (D2H l)) (\<lambda>h. steps [
       set_heap (D2H l) (h\<lparr>h_color := propagator\<rparr>),
       upd (\<lambda>st. st\<lparr>v_nprop := True\<rparr>)]))) (\<lambda>_. ret 0))"
| "marktail (Suc visit) l = bindM (deref v_lists l) (\<lambda>x. let l = l_tail x in
     if l = H then ret (Suc visit)
     else bindM (steps [
       Setmark (D2H l),
       bindM (deref v_lists l) (\<lambda>x. markheap (l_t x) (list_data l))]) (\<lambda>_. marktail visit l))"

definition marklist :: "nat \<Rightarrow> addr \<Rightarrow> nat M" where
  "marklist visit vw = bindM (bindM (deref v_lists vw) (\<lambda>l. markheap (l_t l) (list_data vw)))
     (\<lambda>_. marktail visit vw)"

text \<open>The call \<open>t->mark(t, vw)\<close>: the visits that are left.\<close>

definition call_mark :: "markfn \<Rightarrow> addr \<Rightarrow> addr \<Rightarrow> nat \<Rightarrow> nat M" where
  "call_mark mk t vw visit =
    (case mk of
       Mark_nil \<Rightarrow> fault
     | Noptrs \<Rightarrow> ret visit
     | Markheap \<Rightarrow> bindM (markheap t vw) (\<lambda>_. ret visit)
     | Markarray \<Rightarrow> bindM (markarray vw) (\<lambda>_. ret visit)
     | Markmodl \<Rightarrow> bindM (markmodl vw) (\<lambda>_. ret visit)
     | Marklist \<Rightarrow> marklist visit vw)"

section \<open>The roots\<close>

text \<open>The frames of one stack extent, and the extents of one stack.\<close>

definition markframes :: "addr \<Rightarrow> addr \<Rightarrow> addr \<Rightarrow> nat \<Rightarrow> nat M" where
  "markframes ex fp sp visit = loop (\<lambda>(fp, visit).
     if fp = sp then leave visit
     else bindM (getp (f_t fp)) (\<lambda>t. bindM (getp (x_TR ex)) (\<lambda>tr. let t = (if t = nil then tr else t) in
       bindM (deref v_types t) (\<lambda>x. bindM (call_mark (t_mark x) t fp visit) (\<lambda>visit.
       bindM (getp (f_mr fp)) (\<lambda>m. bindM (iff (m \<noteq> nil) (markmod m)) (\<lambda>_.
       again (fp + nat (t_size x), visit)))))))) (fp, visit)"

definition markexts :: "addr \<Rightarrow> addr \<Rightarrow> nat \<Rightarrow> nat M" where
  "markexts ex sp visit = loop (\<lambda>(ex, sp, visit).
     if ex = nil then leave visit
     else bindM (markframes ex (x_fu ex) sp visit) (\<lambda>visit.
       bindM (getp (x_EX ex)) (\<lambda>e. bindM (getp (x_SP ex)) (\<lambda>s. again (e, s, visit))))) (ex, sp, visit)"

definition markprogs :: "addr \<Rightarrow> nat \<Rightarrow> nat M" where
  "markprogs root visit = loop (\<lambda>(root, visit).
     if root = nil then leave visit
     else bindM (deref v_progs root) (\<lambda>p. bindM (markmod (r_M (p_R p))) (\<lambda>_.
       bindM (markexts (r_EX (p_R p)) (r_SP (p_R p)) visit) (\<lambda>visit.
       again (p_next p, visit))))) (root, visit)"

definition markmodules :: "addr \<Rightarrow> unit M" where
  "markmodules m = loop (\<lambda>m.
     if m = nil then leave ()
     else bindM (markmod m) (\<lambda>_. bindM (deref v_mods m) (\<lambda>x. again (m_link x)))) m"

definition markroots :: "addr \<Rightarrow> nat \<Rightarrow> nat M" where
  "markroots root visit = bindM (markprogs root visit) (\<lambda>visit.
     bindM (gets v_modules) (\<lambda>m. bindM (markmodules m) (\<lambda>_. ret visit)))"

section \<open>The state of the collector\<close>

record gc =
  g_vm :: vm
  g_pool :: pool
  g_base :: addr
  g_limit :: addr
  g_ptr :: addr
  g_marker :: int
  g_sweeper :: int

fun replay :: "addr list \<Rightarrow> pool \<Rightarrow> pool option" where
  "replay [] p = Some p"
| "replay (h # hs) p = (case Alloc.poolfree h p of None \<Rightarrow> None | Some (_, p') \<Rightarrow> replay hs p')"

definition vmrun :: "'a M \<Rightarrow> gc \<Rightarrow> ('a \<times> gc) option" where
  "vmrun m g = (case m ((g_vm g)\<lparr>v_freed := []\<rparr>) of
     Ok a st \<Rightarrow> (case replay (rev (v_freed st)) (g_pool g) of
       None \<Rightarrow> None
     | Some p \<Rightarrow> Some (a, g\<lparr>g_vm := st, g_pool := p\<rparr>))
   | Raise e st \<Rightarrow> None
   | Fault \<Rightarrow> None)"

text \<open>
  The colour of an epoch. \<open>gccolor\<close> is a C \<open>int\<close>: \<open>gccolor++\<close> and the subtractions are taken to wrap around, and
  \<open>%\<close> truncates, so the colours of epochs below 0 are 0, -1 and -2.
\<close>

definition role :: "u32 \<Rightarrow> int" where
  "role c = sint c smod 3"

definition rootset :: "addr \<Rightarrow> nat \<Rightarrow> gc \<Rightarrow> gc option" where
  "rootset root visit g = (let c = v_gccolor (g_vm g) in
     map_option snd (vmrun (markroots root visit)
       (g\<lparr>g_vm := (g_vm g)\<lparr>v_mutator := role c\<rparr>, g_marker := role (c - 1), g_sweeper := role (c - 2)\<rparr>)))"

definition okbhdr :: "pool \<Rightarrow> addr \<Rightarrow> bool" where
  "okbhdr p b \<longleftrightarrow> b \<noteq> nil \<and> (case p_hdr p b of None \<Rightarrow> False | Some x \<Rightarrow> b_magic x \<in> {MAGIC_A, MAGIC_F, MAGIC_E, MAGIC_I})"

section \<open>The sweep\<close>

text \<open>A block of the sweeper's colour is garbage: clear the pointers in it, release what else it owns, free it.\<close>

definition sweep_block :: "addr \<Rightarrow> unit M" where
  "sweep_block h = bindM (deref v_heaps h) (\<lambda>x. steps [
     iff (h_t x \<noteq> nil) (bindM (deref v_types (h_t x)) (\<lambda>t. steps [
       iff (t_nogc t = 0) (steps [
         gclock,
         initmem (h_t x) (H2D h),
         call_free destroy (t_free t) h,
         gcunlock]),
       freetype (h_t x)])),
     Heapc.poolfree h])"

definition scan_block :: "addr \<Rightarrow> nat \<Rightarrow> nat M" where
  "scan_block h visit = bindM (deref v_heaps h) (\<lambda>x. bindM (gets v_mutator) (\<lambda>c. bindM (set_heap h (x\<lparr>h_color := c\<rparr>)) (\<lambda>_.
     if h_t x = nil then ret visit
     else bindM (deref v_types (h_t x)) (\<lambda>t. call_mark (t_mark t) (h_t x) (H2D h) visit))))"

text \<open>On to the next block, or the next arena; \<open>None\<close> in the second place when there is none.\<close>

definition next_block :: "gc \<Rightarrow> (bool \<times> gc) option" where
  "next_block g = (case p_hdr (g_pool g) (g_ptr g) of None \<Rightarrow> None
   | Some b \<Rightarrow> let q = B2NB (g_ptr g) b in
       if q < g_limit g then Some (True, g\<lparr>g_ptr := q\<rparr>)
       else (case p_hdr (g_pool g) (g_base g) of None \<Rightarrow> None
         | Some l \<Rightarrow> let c = b_clink l; g = g\<lparr>g_ptr := q, g_base := c\<rparr> in
             if c = nil then Some (False, g)
             else (case p_hdr (g_pool g) c of None \<Rightarrow> None
               | Some x \<Rightarrow> Some (True, g\<lparr>g_ptr := c, g_limit := B2LIMIT c x\<rparr>))))"

text \<open>
  The loop. It returns whether it was left by \<open>return\<close>, the visits left, and the state. Each iteration uses up a visit,
  so \<open>Quanta\<close> bounds the iterations.
\<close>

fun sweep :: "nat \<Rightarrow> nat \<Rightarrow> int \<Rightarrow> addr \<Rightarrow> gc \<Rightarrow> (bool \<times> nat \<times> gc) option" where
  "sweep n visit mflag prev g =
    (if visit = 0 then Some (False, 0, g)
     else (case n of
         0 \<Rightarrow> None
       | Suc k \<Rightarrow> (case p_hdr (g_pool g) (g_ptr g) of None \<Rightarrow> None
         | Some b \<Rightarrow>
             let h = B2D (g_ptr g);
                 color = (if b_magic b = MAGIC_A then map_option h_color (v_heaps (g_vm g) h) else Some (-1));
                 onward = (\<lambda>visit g. case next_block g of None \<Rightarrow> None
                   | Some (True, g') \<Rightarrow> sweep k (visit - 1) mflag (g_ptr g) g'
                   | Some (False, g') \<Rightarrow> Some (False, visit, g'))
             in case color of None \<Rightarrow> None
               | Some c \<Rightarrow>
                   if b_magic b \<noteq> MAGIC_A then onward visit g
                   else if c = propagator then (case vmrun (scan_block h visit) g of None \<Rightarrow> None | Some (visit, g) \<Rightarrow> onward visit g)
                   else if c = g_sweeper g then
                     (if mflag > 1 then None
                      else (case vmrun (sweep_block h) g of None \<Rightarrow> None
                        | Some (_, g) \<Rightarrow>
                            if okbhdr (g_pool g) prev then sweep k (visit - 1) mflag prev (g\<lparr>g_ptr := prev\<rparr>)
                            else Some (True, visit, g\<lparr>g_ptr := prev, g_base := nil\<rparr>)))
                   else onward visit g)))"

declare sweep.simps [simp del]

text \<open>\<open>rungc\<close> when it may run and the cursor is good.\<close>

definition gcstep :: "int \<Rightarrow> addr \<Rightarrow> gc \<Rightarrow> gc option" where
  "gcstep mflag root g = (case sweep Quanta Quanta mflag nil g of None \<Rightarrow> None
     | Some (True, visit, g) \<Rightarrow> Some g
     | Some (False, visit, g) \<Rightarrow>
         if g_base g \<noteq> nil then Some g
         else if \<not> v_nprop (g_vm g) then
           rootset root visit (g\<lparr>g_vm := (g_vm g)\<lparr>v_gccolor := v_gccolor (g_vm g) + 1\<rparr>\<rparr>)
         else Some (g\<lparr>g_vm := (g_vm g)\<lparr>v_nprop := False\<rparr>\<rparr>))"

definition rungc :: "int \<Rightarrow> addr \<Rightarrow> gc \<Rightarrow> gc option" where
  "rungc mflag root g =
    (if v_gchalt (g_vm g) > 0 then Some g
     else (case (if g_base g = nil then
           (let b = p_chain (g_pool g) in case p_hdr (g_pool g) b of None \<Rightarrow> None
            | Some x \<Rightarrow> Some (g\<lparr>g_base := b, g_ptr := b, g_limit := B2LIMIT b x\<rparr>)) else Some g) of
         None \<Rightarrow> None
       | Some g \<Rightarrow> if \<not> okbhdr (g_pool g) (g_ptr g) then Some (g\<lparr>g_base := nil\<rparr>) else gcstep mflag root g))"

end
