(* ===== verification/Gcrun.thy ===== *)
theory Gcrun
  imports Gc
begin

text \<open>
  What the collector does. Marking a block is described by the set of headers its pointers name (\<open>mapped\<close>,
  \<open>marked\<close>). Three relations are followed through the statements: \<open>same_roles\<close> (the colours of the roles stay),
  \<open>gentle\<close> (blocks only change colour) and \<open>quiet\<close> (no block changes). The locales \<open>flow\<close> and \<open>mark_relation\<close>
  carry a relation through the marking code, \<open>sweep_relation\<close> carries a relation between states of the collector
  through the loop of \<open>rungc\<close>; they are interpreted on these relations, on \<open>settled\<close> (pool and colours) and on
  \<open>spares\<close> (what is not garbage survives).
\<close>

section \<open>What marking does\<close>

text \<open>The headers of the words that a pointer map names: the bytes of the map stand for eight words each.\<close>

definition ptrs_of :: "(addr \<Rightarrow> byte) \<Rightarrow> addr \<Rightarrow> byte \<Rightarrow> nat set \<Rightarrow> addr set" where
  "ptrs_of m w c J = (\<lambda>j. D2H (unat (ld32 m (w + 4 * j)))) ` {j \<in> J. bit c (7 - j) \<and> unat (ld32 m (w + 4 * j)) \<noteq> H}"

fun mapped :: "(addr \<Rightarrow> byte) \<Rightarrow> addr \<Rightarrow> byte list \<Rightarrow> addr set" where
  "mapped m w [] = {}"
| "mapped m w (c # p) = ptrs_of m w c {..<8} \<union> mapped m (w + 32) p"

text \<open>What marking a set of headers comes to.\<close>

definition hue :: "addr set \<Rightarrow> int \<Rightarrow> (addr \<rightharpoonup> Heap) \<Rightarrow> addr \<rightharpoonup> Heap" where
  "hue A c hs = (\<lambda>h. map_option (\<lambda>x. if h \<in> A \<and> h_color x \<noteq> c then x\<lparr>h_color := propagator\<rparr> else x) (hs h))"

definition fresh_marks :: "addr set \<Rightarrow> int \<Rightarrow> (addr \<rightharpoonup> Heap) \<Rightarrow> bool" where
  "fresh_marks A c hs \<longleftrightarrow> (\<exists>h \<in> A. \<exists>x. hs h = Some x \<and> h_color x \<noteq> c)"

definition marked :: "addr set \<Rightarrow> vm \<Rightarrow> vm" where
  "marked A st = st\<lparr>v_heaps := hue A (v_mutator st) (v_heaps st),
     v_nprop := v_nprop st \<or> fresh_marks A (v_mutator st) (v_heaps st)\<rparr>"

lemma hue_simps [simp]: "dom (hue A c hs) = dom hs" "hue {} c hs = hs" "\<not> fresh_marks {} c hs"
  by (auto simp: hue_def fresh_marks_def fun_eq_iff option.map_id0 [unfolded id_def])

lemma hue_hue: "hue B c (hue A c hs) = hue (A \<union> B) c hs"
  by (rule ext) (simp add: hue_def option.map_comp comp_def; rule option.map_cong; auto)

lemma fresh_hue: "fresh_marks A c hs \<or> fresh_marks B c (hue A c hs) \<longleftrightarrow> fresh_marks (A \<union> B) c hs"
  unfolding fresh_marks_def hue_def by (fastforce split: if_splits)

lemma marked_fields [simp]:
  "v_mem (marked A st) = v_mem st" "v_types (marked A st) = v_types st" "v_mutator (marked A st) = v_mutator st"
  "v_heaps (marked A st) = hue A (v_mutator st) (v_heaps st)"
  by (simp_all add: marked_def)

lemma marked_empty [simp]: "marked {} st = st"
  by (simp add: marked_def)

lemma marked_marked: "marked B (marked A st) = marked (A \<union> B) st"
  using fresh_hue [of A "v_mutator st" "v_heaps st" B] by (auto simp: marked_def hue_hue)

lemma Setmark_marked:
  assumes "h \<in> dom (v_heaps st)"
  shows "Setmark h st = Ok () (marked {h} st)"
proof -
  obtain x where x: "v_heaps st h = Some x" using assms by auto
  have e: "hue {h} c (v_heaps st) = (if h_color x \<noteq> c then (v_heaps st)(h \<mapsto> x\<lparr>h_color := propagator\<rparr>) else v_heaps st)" for c
  proof (rule ext)
    show "hue {h} c (v_heaps st) k = (if h_color x \<noteq> c then (v_heaps st)(h \<mapsto> x\<lparr>h_color := propagator\<rparr>) else v_heaps st) k" for k
      using x by (cases "k = h"; cases "v_heaps st k") (auto simp: hue_def)
  qed
  show ?thesis using x e by (simp add: Setmark_def marked_def set_heap_def vm_defs fresh_marks_def)
qed

lemma markbit_marked:
  assumes "ptrs_of (v_mem st) w c {j} \<subseteq> dom (v_heaps st)"
  shows "markbit w c j st = Ok () (marked (ptrs_of (v_mem st) w c {j}) st)"
proof -
  let ?q = "unat (ld32 (v_mem st) (w + 4 * j))"
  have e: "ptrs_of (v_mem st) w c {j} = (if bit c (7 - j) \<and> ?q \<noteq> H then {D2H ?q} else {})" by (auto simp: ptrs_of_def)
  then show ?thesis using assms Setmark_marked [of "D2H ?q" st] unfolding e
    by (auto simp: markbit_def getp_def vm_defs split: if_splits)
qed

lemma ptrs_of_Un: "ptrs_of m w c (I \<union> J) = ptrs_of m w c I \<union> ptrs_of m w c J"
  by (auto simp: ptrs_of_def)

lemma markbits_marked:
  "ptrs_of (v_mem st) w c (set js) \<subseteq> dom (v_heaps st) \<Longrightarrow>
    steps (map (markbit w c) js) st = Ok () (marked (ptrs_of (v_mem st) w c (set js)) st)"
proof (induction js arbitrary: st)
  case Nil
  then show ?case by (simp add: skip_def ptrs_of_def)
next
  case (Cons j js)
  have s: "ptrs_of (v_mem st) w c (set (j # js)) = ptrs_of (v_mem st) w c {j} \<union> ptrs_of (v_mem st) w c (set js)"
    using ptrs_of_Un [of _ _ _ "{j}" "set js"] by simp
  let ?st = "marked (ptrs_of (v_mem st) w c {j}) st"
  have 1: "markbit w c j st = Ok () ?st" using Cons.prems unfolding s by (intro markbit_marked) auto
  have 2: "steps (map (markbit w c) js) ?st = Ok () (marked (ptrs_of (v_mem st) w c (set js)) ?st)"
    using Cons.IH [of ?st] Cons.prems unfolding s by simp
  show ?case unfolding s using 1 2 by (simp add: bindM_def marked_marked)
qed

lemma markmap_marked: "mapped (v_mem st) w p \<subseteq> dom (v_heaps st) \<Longrightarrow> markmap w p st = Ok () (marked (mapped (v_mem st) w p) st)"
proof (induction p arbitrary: w st)
  case Nil
  then show ?case by (simp add: skip_def)
next
  case (Cons c p)
  let ?A = "ptrs_of (v_mem st) w c {..<8}"
  have "{..<8} = set [0, 1, 2, 3, 4, 5, 6, 7 :: nat]" by auto
  then have b: "steps (map (markbit w c) [0, 1, 2, 3, 4, 5, 6, 7]) st = Ok () (marked ?A st)"
    using markbits_marked [of st w c "[0, 1, 2, 3, 4, 5, 6, 7]"] Cons.prems by simp
  have 1: "iff (c \<noteq> 0) (steps (map (markbit w c) [0, 1, 2, 3, 4, 5, 6, 7])) st = Ok () (marked ?A st)"
  proof (cases "c = 0")
    case True
    then have "?A = {}" by (simp add: ptrs_of_def)
    then show ?thesis using True by (simp add: iff_def skip_def)
  next
    case False
    then have "iff (c \<noteq> 0) m = m" for m by (simp add: iff_def)
    then show ?thesis using b by (simp only:)
  qed
  have 2: "markmap (w + 32) p (marked ?A st) = Ok () (marked (mapped (v_mem st) (w + 32) p) (marked ?A st))"
    using Cons.IH [of "marked ?A st" "w + 32"] Cons.prems by simp
  show ?case using 1 2 unfolding markmap.simps steps.simps by (simp add: bindM_def skip_def marked_marked)
qed

lemma markheap_marked:
  assumes "v_types st t = Some x" "t \<noteq> nil" "t_np x = int (length (t_map x))" "mapped (v_mem st) vw (t_map x) \<subseteq> dom (v_heaps st)"
  shows "markheap t vw st = Ok () (marked (mapped (v_mem st) vw (t_map x)) st)"
  using assms markmap_marked [of st vw "t_map x"] by (auto simp: markheap_def vm_defs)

section \<open>What the sweep of a block does\<close>

lemma initmap_outside: "a < w \<or> w + 32 * length p \<le> a \<Longrightarrow> initmap w p m a = m a"
proof (induction w p m rule: initmap.induct)
  case (2 w c p m)
  have "initbit w c i m' a = m' a" if "i \<in> set [0, 1, 2, 3, 4, 5, 6, 7]" for i m'
    using 2(2) that by (auto simp: initbit_def st_outside)
  then have "(if c \<noteq> 0 then fold (initbit w c) [0, 1, 2, 3, 4, 5, 6, 7] m else m) a = m a" by simp
  moreover have "a < w + 32 \<or> w + 32 + 32 * length p \<le> a" using 2(2) by auto
  ultimately show ?case using 2(1) unfolding initmap.simps by (simp only:)
qed simp

lemma initbits_set:
  assumes "distinct is" "\<forall>i \<in> set is. i < 8" "i \<in> set is" "bit c i"
  shows "ld32 (fold (initbit w c) is m) (w + 4 * (7 - i)) = of_nat H"
  using assms
proof (induction "is" arbitrary: m)
  case (Cons k ks)
  show ?case
  proof (cases "i \<in> set ks")
    case False
    then have i: "i = k" and i8: "i < 8" using Cons.prems by auto
    have un: "ld32 (fold (initbit w c) js m') (w + 4 * (7 - i)) = ld32 m' (w + 4 * (7 - i))" if "i \<notin> set js" "\<forall>k \<in> set js. k < 8" for js m'
      using that
    proof (induction js arbitrary: m')
      case (Cons k js)
      have "ld32 (initbit w c k m') (w + 4 * (7 - i)) = ld32 m' (w + 4 * (7 - i))"
      proof -
        have "7 - k + 1 \<le> 7 - i \<or> 7 - i + 1 \<le> 7 - k" using Cons.prems i8 by auto
        then have "w + 4 * (7 - i) + 4 \<le> w + 4 * (7 - k) \<or> w + 4 * (7 - k) + 4 \<le> w + 4 * (7 - i)" by auto
        then show ?thesis by (simp add: initbit_def ld_st_other)
      qed
      then show ?case using Cons by simp
    qed simp
    have "initbit w c k m = st32 m (w + 4 * (7 - k)) (of_nat H)" using Cons.prems i by (simp add: initbit_def)
    then show ?thesis using un [of ks "initbit w c k m"] False Cons.prems(2) i by simp
  qed (use Cons in auto)
qed simp


lemma initmap_sets:
  "k < length p \<Longrightarrow> i < 8 \<Longrightarrow> bit (p ! k) i \<Longrightarrow> ld32 (initmap w p m) (w + 32 * k + 4 * (7 - i)) = of_nat H"
proof (induction w p m arbitrary: k rule: initmap.induct)
  case (2 w c p m)
  show ?case
  proof (cases k)
    case 0
    then have c: "bit c i" "c \<noteq> 0" using 2(4) by auto
    have i: "i \<in> set [0, 1, 2, 3, 4, 5, 6, 7]" using 2(3) by auto
    let ?m = "fold (initbit w c) [0, 1, 2, 3, 4, 5, 6, 7] m"
    have "ld32 ?m (w + 4 * (7 - i)) = of_nat H" by (rule initbits_set [OF _ _ i c(1)]) auto
    moreover have "ld32 (initmap (w + 32) p ?m) (w + 4 * (7 - i)) = ld32 ?m (w + 4 * (7 - i))"
      by (rule ld32_initmap) simp
    ultimately show ?thesis using 0 c(2) unfolding initmap.simps by (simp only: if_True) simp
  next
    case (Suc n)
    then show ?thesis using 2(1) [of n] 2(2-4) unfolding initmap.simps by (simp only:) (simp add: add.assoc)
  qed
qed simp

lemma freemap_cleared:
  "(\<And>k i. k < length p \<Longrightarrow> i < 8 \<Longrightarrow> bit (p ! k) i \<Longrightarrow> ld32 (v_mem st) (w + 32 * k + 4 * (7 - i)) = of_nat H) \<Longrightarrow>
    freemap D w p st = Ok () st"
proof (induction p arbitrary: w)
  case (Cons c p)
  have "unat (of_nat H :: u32) = H" by (simp add: H_def)
  then have b: "freebit D w c i st = Ok () st" if "i < 8" for i
    using Cons.prems [of 0 i] that by (auto simp: freebit_def getp_def vm_defs)
  have "steps (map (freebit D w c) is) st = Ok () st" if "\<forall>i \<in> set is. i < 8" for "is"
    using that by (induction "is") (auto simp: b bindM_def skip_def)
  note all = this
  have 1: "steps (map (freebit D w c) [0, 1, 2, 3, 4, 5, 6, 7]) st = Ok () st" by (rule all) auto
  then have "iff (c \<noteq> 0) (steps (map (freebit D w c) [0, 1, 2, 3, 4, 5, 6, 7])) st = Ok () st"
    by (cases "c = 0") (simp_all only: iff_def if_True if_False skip_def simp_thms)
  moreover have "freemap D (w + 32) p st = Ok () st"
    using Cons.prems [of "Suc _"] by (intro Cons.IH) (simp add: add.assoc)
  ultimately show ?case unfolding freemap.simps steps.simps by (simp add: bindM_def skip_def)
qed (simp add: skip_def)

text \<open>Types may lose references and go away; their functions stay.\<close>

definition types_le :: "(addr \<rightharpoonup> Type) \<Rightarrow> (addr \<rightharpoonup> Type) \<Rightarrow> bool" where
  "types_le T T' \<longleftrightarrow> (\<forall>t ty'. T' t = Some ty' \<longrightarrow> (\<exists>ty. T t = Some ty \<and> t_free ty = t_free ty' \<and> t_nogc ty = t_nogc ty'))"

lemma types_le_refl [simp]: "types_le T T"
  by (simp add: types_le_def)

lemma types_le_trans: "types_le T T' \<Longrightarrow> types_le T' T'' \<Longrightarrow> types_le T T''"
  unfolding types_le_def by metis

definition quiet :: "vm \<Rightarrow> vm \<Rightarrow> bool" where
  "quiet st st' \<longleftrightarrow> v_heaps st' = v_heaps st \<and> v_mutator st' = v_mutator st \<and> types_le (v_types st) (v_types st')"

lemma quiet_trans: "quiet st st' \<Longrightarrow> quiet st' st'' \<Longrightarrow> quiet st st''"
  unfolding quiet_def using types_le_trans by auto

lemma freetype_leaves:
  assumes "v_types st t = Some ty"
  shows "\<exists>st'. freetype t st = Ok () st' \<and> v_heaps st' = v_heaps st \<and> v_freed st' = v_freed st \<and> v_mem st' = v_mem st \<and>
    v_gchalt st' = v_gchalt st \<and> quiet st st'"
  using assms by (auto simp: freetype_def vm_defs set_type_def Heapc.free_def free_type_def quiet_def types_le_def)

lemma sweep_block_run:
  assumes x: "v_heaps st h = Some x" "h_t x \<noteq> nil" and t: "v_types st (h_t x) = Some ty" "t_free ty = Freeheap" "t_nogc ty = 0"
  shows "\<exists>st'. sweep_block h st = Ok () st' \<and> v_heaps st' = (v_heaps st)(h := None) \<and> v_freed st' = h # v_freed st \<and>
    v_mem st' = initmap (H2D h) (t_map ty) (v_mem st) \<and> v_gchalt st' = v_gchalt st \<and>
    v_mutator st' = v_mutator st \<and> types_le (v_types st) (v_types st')"
proof -
  define st1 where "st1 = st\<lparr>v_gchalt := Suc (v_gchalt st), v_mem := initmap (H2D h) (t_map ty) (v_mem st)\<rparr>"
  have m: "ld32 (v_mem st1) (H2D h + 32 * k + 4 * (7 - i)) = of_nat H" if "k < length (t_map ty)" "i < 8" "bit (t_map ty ! k) i" for k i
    using initmap_sets [OF that] by (simp add: st1_def)
  have "freeptrs destroy (H2D h) (h_t x) st1 = Ok () st1"
    using freemap_cleared [OF m] t(1) by (auto simp: freeptrs_def vm_defs st1_def)
  then have f: "call_free destroy (t_free ty) h st1 = Ok () st1"
    using x t(2) by (simp add: call_free_def freeheap_def vm_defs st1_def)
  define st2 where "st2 = st1\<lparr>v_gchalt := v_gchalt st\<rparr>"
  have "steps [gclock, initmem (h_t x) (H2D h), call_free destroy (t_free ty) h, gcunlock] st = Ok () st2"
    using t(1) f by (simp add: gclock_def gcunlock_def initmem_def setm_def vm_defs st1_def [symmetric])
      (simp add: st1_def st2_def)
  moreover obtain st3 where "freetype (h_t x) st2 = Ok () st3" "v_heaps st3 = v_heaps st2" "v_freed st3 = v_freed st2" "v_mem st3 = v_mem st2"
      "v_gchalt st3 = v_gchalt st2" "quiet st2 st3"
    using freetype_leaves [of st2 "h_t x" ty] t(1) by (auto simp: st1_def st2_def)
  ultimately have "sweep_block h st = Heapc.poolfree h st3"
    using x t(1,3) by (simp add: sweep_block_def vm_defs split: outcome.splits)
  then show ?thesis using \<open>v_heaps st3 = _\<close> \<open>v_freed st3 = _\<close> \<open>v_mem st3 = _\<close> \<open>v_gchalt st3 = _\<close> \<open>quiet st2 st3\<close>
    by (simp add: Heapc.poolfree_def upd_def st1_def st2_def quiet_def)
qed

section \<open>The pool under the collector\<close>

lemma poolfree_mod: "Alloc.poolfree v p = Alloc.poolfree (nat (int v mod 2 ^ 32)) p"
proof -
  have "ptr (int v - 8) = ptr (int (nat (int v mod 2 ^ 32)) - 8)"
    unfolding ptr_def by (simp add: mod_simps)
  note e = this
  show ?thesis unfolding Alloc.poolfree_def D2B_def e ..
qed

lemma poolfree_live:
  assumes g: "pool_good p" and f: "Alloc.poolfree v p = Some ((), p')"
  shows "pool_good p' \<and> live p' \<subseteq>\<^sub>m live p"
proof -
  define w where "w = nat (int v mod 2 ^ 32)"
  have fw: "Alloc.poolfree w p = Some ((), p')" using f poolfree_mod unfolding w_def by simp
  have w: "w < 2 ^ 32" by (simp add: w_def nat_less_iff)
  obtain AS tr where ok: "pool_ok p AS tr" using g by (auto simp: pool_good_def)
  show ?thesis
  proof (cases "live p w")
    case (Some n)
    from poolfree_contract [OF g this] fw show ?thesis by (auto simp: map_le_def)
  next
    case None
    show ?thesis
    proof (cases "8 \<le> w")
      case True
      then show ?thesis using poolfree_refused [OF ok None _ w] fw by simp
    next
      case False
      have lay: "layout (fS (p_hdr p)) (fM (p_hdr p)) (p_tail p) AS" using ok by (simp add: pool_ok_def inv_def)
      have "ptr (int w - 8) = nat (int w - 8 + 2 ^ 32)"
      proof -
        have "(int w - 8 + 2 ^ 32) mod 2 ^ 32 = int w - 8 + 2 ^ 32" using False by (intro mod_pos_pos_trivial) auto
        moreover have "(int w - 8 + 2 ^ 32) mod 2 ^ 32 = (int w - 8) mod 2 ^ 32" by (rule mod_add_self2)
        ultimately show ?thesis unfolding ptr_def by (simp only:)
      qed
      moreover have "\<not> is_block (fM (p_hdr p) (nat (int w - 8 + 2 ^ 32)))"
      proof
        assume "is_block (fM (p_hdr p) (nat (int w - 8 + 2 ^ 32)))"
        from neighbours(1,2) [OF lay this] show False using False by simp
      qed
      ultimately have "\<not> used (fM (p_hdr p) (ptr (int w - 8)))" using used_block by auto
      then have "D2B w p = None" by (auto simp: D2B_run fields gb_def split: option.splits)
      then show ?thesis using fw by (simp add: Alloc.poolfree_def pbind_def)
    qed
  qed
qed

lemma replay_live: "pool_good p \<Longrightarrow> replay hs p = Some p' \<Longrightarrow> pool_good p' \<and> live p' \<subseteq>\<^sub>m live p"
proof (induction hs arbitrary: p)
  case (Cons h hs)
  then obtain p1 where "Alloc.poolfree h p = Some ((), p1)" "replay hs p1 = Some p'" by (auto split: option.splits)
  then show ?case using poolfree_live [OF Cons.prems(1)] Cons.IH [of p1] map_le_trans by blast
qed auto

text \<open>What stays as it was, or shrinks, from one state of the collector to another.\<close>

definition settled :: "gc \<Rightarrow> gc \<Rightarrow> bool" where
  "settled g g' \<longleftrightarrow> v_mutator (g_vm g') = v_mutator (g_vm g) \<and> v_gccolor (g_vm g') = v_gccolor (g_vm g) \<and>
     g_marker g' = g_marker g \<and> g_sweeper g' = g_sweeper g \<and>
     (pool_good (g_pool g) \<longrightarrow> pool_good (g_pool g') \<and> live (g_pool g') \<subseteq>\<^sub>m live (g_pool g))"

lemma settled_refl [simp]: "settled g g"
  by (simp add: settled_def)

lemma settled_trans: "settled g g' \<Longrightarrow> settled g' g'' \<Longrightarrow> settled g g''"
  unfolding settled_def using map_le_trans by (metis (no_types, lifting))

lemma settled_cursor [simp]: "settled g (g'\<lparr>g_ptr := a\<rparr>) = settled g g'" "settled g (g'\<lparr>g_base := a\<rparr>) = settled g g'"
  "settled g (g'\<lparr>g_limit := a\<rparr>) = settled g g'"
  by (simp_all add: settled_def)

text \<open>
  What a relation needs beside that, to hold across marking: blocks may become the mutator's or the propagator's
  colour, and \<open>nprop\<close> may be set.
\<close>

locale mark_relation = flow +
  assumes recolor: "v_heaps st h = Some x \<Longrightarrow> c \<in> {propagator, v_mutator st} \<Longrightarrow> Q st (st\<lparr>v_heaps := (v_heaps st)(h \<mapsto> x\<lparr>h_color := c\<rparr>)\<rparr>)"
    and nprop: "Q st (st\<lparr>v_nprop := True\<rparr>)"

context mark_relation begin

lemma Setmark [flow_intros]: "follows Q (Setmark h)"
proof -
  have "Q st (st\<lparr>v_heaps := (v_heaps st)(h \<mapsto> x\<lparr>h_color := propagator\<rparr>), v_nprop := True\<rparr>)" if "v_heaps st h = Some x" for st x
    using trans [OF recolor [OF that, of propagator] nprop] by simp
  then show ?thesis by (auto simp: follows_def Setmark_def set_heap_def vm_defs refl split: option.splits if_splits)
qed

lemma markheap [flow_intros]: "follows Q (markheap t vw)"
proof -
  have "follows Q (markmap w p)" for w p
    by (induction w p rule: markmap.induct) (auto simp del: steps.simps simp: markbit_def intro!: flow_intros)
  then show ?thesis unfolding markheap_def by (intro flow_intros)
qed

lemma markmod [flow_intros]: "follows Q (markmod m)"
  unfolding markmod_def by (intro flow_intros)

lemma marktail [flow_intros]: "follows Q (marktail visit l)"
proof (induction visit arbitrary: l)
  case 0
  have "Q st (st\<lparr>v_heaps := (v_heaps st)(h \<mapsto> x\<lparr>h_color := propagator\<rparr>), v_nprop := True\<rparr>)" if "v_heaps st h = Some x" for st h x
    using trans [OF recolor [OF that, of propagator] nprop] by simp
  then have p: "follows Q (bindM (deref v_heaps h) (\<lambda>x. steps [set_heap h (x\<lparr>h_color := propagator\<rparr>), upd (\<lambda>st. st\<lparr>v_nprop := True\<rparr>)]))" for h
    by (auto simp: follows_def set_heap_def vm_defs split: option.splits)
  show ?case unfolding marktail.simps Let_def by (rule p | rule flow_intros)+
next
  case (Suc visit)
  then show ?case unfolding marktail.simps Let_def by (intro flow_intros)
qed

lemma call_mark [flow_intros]: "follows Q (call_mark mk t vw visit)"
  unfolding call_mark_def markarray_def marklist_def markmodl_def
  by (cases mk) (auto simp del: steps.simps intro!: flow_intros)

lemma markframes [flow_intros]: "follows Q (markframes ex fp sp visit)"
  unfolding markframes_def case_prod_beta Let_def by (intro flow_intros)

lemma markexts [flow_intros]: "follows Q (markexts ex sp visit)"
  unfolding markexts_def case_prod_beta by (intro flow_intros)

lemma markprogs [flow_intros]: "follows Q (markprogs root visit)"
  unfolding markprogs_def case_prod_beta by (intro flow_intros)

lemma markmodules [flow_intros]: "follows Q (markmodules m)"
  unfolding markmodules_def by (intro flow_intros)

lemma markroots: "follows Q (markroots root visit)"
  unfolding markroots_def by (intro flow_intros)

lemma scan_block: "follows Q (scan_block h visit)"
proof -
  have s: "scan_block h visit = bindM (bindM (deref v_heaps h) (\<lambda>x. bindM (gets v_mutator) (\<lambda>c. bindM (set_heap h (x\<lparr>h_color := c\<rparr>)) (\<lambda>_. ret x))))
      (\<lambda>x. if h_t x = nil then ret visit else bindM (deref v_types (h_t x)) (\<lambda>t. call_mark (t_mark t) (h_t x) (H2D h) visit))"
    by (simp add: scan_block_def bind_assoc)
  have p: "follows Q (bindM (deref v_heaps h) (\<lambda>x. bindM (gets v_mutator) (\<lambda>c. bindM (set_heap h (x\<lparr>h_color := c\<rparr>)) (\<lambda>_. ret x))))"
    using recolor by (auto simp: follows_def set_heap_def vm_defs split: option.splits)
  show ?thesis unfolding s by (rule p | rule flow_intros)+
qed

end

text \<open>Operations of the machine that leave the colours of the roles alone.\<close>

definition same_roles :: "vm \<Rightarrow> vm \<Rightarrow> bool" where
  "same_roles st st' \<longleftrightarrow> v_mutator st' = v_mutator st \<and> v_gccolor st' = v_gccolor st"

interpretation roles: mark_relation same_roles
  by unfold_locales (auto simp: same_roles_def)

lemma keeps_roles: "keeps m \<Longrightarrow> follows same_roles m"
  unfolding keeps_def follows_def hcore_def same_roles_def by simp

lemma roles_prims: "follows same_roles gclock" "follows same_roles gcunlock" "follows same_roles (initmem t a)" "follows same_roles (Heapc.poolfree h)"
  by (auto simp: follows_def same_roles_def gclock_def gcunlock_def initmem_def setm_def Heapc.poolfree_def vm_defs split: option.splits)

lemma sweep_block_roles: "follows same_roles (sweep_block h)"
proof -
  have "follows same_roles (call_free destroy f h)" for f by (rule keeps_roles) (intro keep_intros)
  moreover have "follows same_roles (freetype t)" for t by (rule keeps_roles) (rule keep_intros)
  ultimately show ?thesis unfolding sweep_block_def by (intro roles.bind roles.seq roles.conds roles.pure roles_prims)
qed

lemma vmrun_settled:
  assumes "follows same_roles m" "vmrun m g = Some (a, g')"
  shows "settled g g' \<and> g_base g' = g_base g \<and> g_ptr g' = g_ptr g \<and> g_limit g' = g_limit g"
proof -
  obtain st p where r: "m ((g_vm g)\<lparr>v_freed := []\<rparr>) = Ok a st" "replay (rev (v_freed st)) (g_pool g) = Some p" "g' = g\<lparr>g_vm := st, g_pool := p\<rparr>"
    using assms(2) unfolding vmrun_def by (auto split: outcome.splits option.splits)
  have "v_mutator st = v_mutator (g_vm g)" "v_gccolor st = v_gccolor (g_vm g)" using assms(1) r(1) unfolding follows_def same_roles_def by fastforce+
  then show ?thesis using replay_live r(2,3) unfolding settled_def by auto
qed

text \<open>
  What a relation between states needs, to hold between the start and the end of the loop: the cursor may move, a
  reached block may be scanned, and a block of the sweeper's colour may be swept.
\<close>

locale sweep_relation =
  fixes R :: "gc \<Rightarrow> gc \<Rightarrow> bool"
  assumes refl: "R g g" and trans: "R g g' \<Longrightarrow> R g' g'' \<Longrightarrow> R g g''"
    and cursor: "R g g' \<Longrightarrow> R g (g'\<lparr>g_ptr := a\<rparr>)" "R g g' \<Longrightarrow> R g (g'\<lparr>g_base := a\<rparr>)" "R g g' \<Longrightarrow> R g (g'\<lparr>g_limit := a\<rparr>)"
    and scans: "vmrun (scan_block h visit) g = Some (v, g') \<Longrightarrow> R g g'"
    and sweeps: "v_heaps (g_vm g) h = Some x \<Longrightarrow> h_color x = g_sweeper g \<Longrightarrow> vmrun (sweep_block h) g = Some ((), g') \<Longrightarrow> R g g'"

context sweep_relation begin

lemma next_rel: "next_block g = Some (b, g') \<Longrightarrow> R g g'"
  by (auto simp: next_block_def Let_def split: option.splits if_splits intro!: cursor refl)

lemma sweep_rel: "sweep n visit mflag prev g = Some (b, k, g') \<Longrightarrow> R g g'"
proof (induction n arbitrary: visit prev g)
  case 0
  then show ?case by (subst (asm) sweep.simps) (auto split: if_splits intro: refl)
next
  case (Suc n)
  have on: "R g g'"
    if "(case next_block g1 of None \<Rightarrow> None | Some (True, g2) \<Rightarrow> sweep n (v - 1) mflag (g_ptr g1) g2 | Some (False, g2) \<Rightarrow> Some (False, v, g2)) = Some (b, k, g')"
      "R g g1" for v g1
  proof -
    from that(1) obtain c g2 where nb: "next_block g1 = Some (c, g2)" "if c then sweep n (v - 1) mflag (g_ptr g1) g2 = Some (b, k, g') else g2 = g'"
      by (auto split: option.splits bool.splits)
    have "R g g2" using trans [OF that(2) next_rel [OF nb(1)]] .
    then show ?thesis using nb(2) Suc.IH trans by (cases c) auto
  qed
  show ?case
  proof (cases "visit = 0")
    case True
    then show ?thesis using Suc.prems by (subst (asm) sweep.simps) (simp add: refl)
  next
    case False
    obtain x where x: "p_hdr (g_pool g) (g_ptr g) = Some x" using Suc.prems False by (subst (asm) sweep.simps) (auto split: option.splits)
    note eq = sweep.simps [of "Suc n" visit mflag prev g, unfolded nat.case if_not_P [OF False] x option.case Let_def]
    let ?h = "B2D (g_ptr g)"
    show ?thesis
    proof (cases "b_magic x = MAGIC_A")
      case False
      then show ?thesis using Suc.prems on [of visit g] unfolding eq by (simp add: refl)
    next
      case A: True
      obtain y where y: "v_heaps (g_vm g) ?h = Some y" using Suc.prems A unfolding eq by (auto split: option.splits)
      note eq2 = eq [unfolded A simp_thms if_True y option.map option.case if_False]
      consider "h_color y = propagator" | "h_color y \<noteq> propagator" "h_color y = g_sweeper g" | "h_color y \<noteq> propagator" "h_color y \<noteq> g_sweeper g" by blast
      then show ?thesis
      proof cases
        case 1
        then obtain v g1 where "vmrun (scan_block ?h visit) g = Some (v, g1)"
          "(case next_block g1 of None \<Rightarrow> None | Some (True, g2) \<Rightarrow> sweep n (v - 1) mflag (g_ptr g1) g2 | Some (False, g2) \<Rightarrow> Some (False, v, g2)) = Some (b, k, g')"
          using Suc.prems unfolding eq2 by (auto split: option.splits)
        then show ?thesis using on scans by blast
      next
        case 2
        then obtain g1 where s: "vmrun (sweep_block ?h) g = Some ((), g1)"
          "(if okbhdr (g_pool g1) prev then sweep n (visit - 1) mflag prev (g1\<lparr>g_ptr := prev\<rparr>) else Some (True, visit, g1\<lparr>g_ptr := prev, g_base := nil\<rparr>)) = Some (b, k, g')"
          using Suc.prems unfolding eq2 by (auto split: option.splits if_splits)
        have r: "R g (g1\<lparr>g_ptr := prev\<rparr>)" using cursor(1) sweeps [OF y 2(2) s(1)] .
        show ?thesis
        proof (cases "okbhdr (g_pool g1) prev")
          case True
          then show ?thesis using s(2) Suc.IH trans [OF r] by simp
        next
          case False
          then show ?thesis using s(2) cursor(2) [OF r, of nil] by auto
        qed
      next
        case 3
        then show ?thesis using Suc.prems on [of visit g] unfolding eq2 by (simp add: refl)
      qed
    qed
  qed
qed

text \<open>One call of \<open>rungc\<close>: the loop, then perhaps a new epoch.\<close>

lemma rungc_rel:
  assumes "rungc mflag root g = Some g'"
  shows "R g g' \<or> (\<exists>g1 visit. R g g1 \<and> (g' = g1\<lparr>g_vm := (g_vm g1)\<lparr>v_nprop := False\<rparr>\<rparr> \<or>
    rootset root visit (g1\<lparr>g_vm := (g_vm g1)\<lparr>v_gccolor := v_gccolor (g_vm g1) + 1\<rparr>\<rparr>) = Some g'))"
proof (cases "v_gchalt (g_vm g) > 0")
  case True
  then show ?thesis using assms refl by (auto simp: rungc_def)
next
  case False
  then obtain g0 where g0: "R g g0" "(if \<not> okbhdr (g_pool g0) (g_ptr g0) then Some (g0\<lparr>g_base := nil\<rparr>) else gcstep mflag root g0) = Some g'"
    using assms by (fastforce simp: rungc_def Let_def split: option.splits if_splits intro: cursor refl)
  show ?thesis
  proof (cases "okbhdr (g_pool g0) (g_ptr g0)")
    case True
    then obtain b visit g1 where s: "sweep Quanta Quanta mflag nil g0 = Some (b, visit, g1)"
      "(if b then Some g1 else if g_base g1 \<noteq> nil then Some g1 else if \<not> v_nprop (g_vm g1) then
          rootset root visit (g1\<lparr>g_vm := (g_vm g1)\<lparr>v_gccolor := v_gccolor (g_vm g1) + 1\<rparr>\<rparr>)
        else Some (g1\<lparr>g_vm := (g_vm g1)\<lparr>v_nprop := False\<rparr>\<rparr>)) = Some g'"
      using g0(2) unfolding gcstep_def by (auto split: option.splits bool.splits)
    have "R g g1" using trans [OF g0(1) sweep_rel [OF s(1)]] .
    then show ?thesis using s(2) by (auto split: if_splits)
  next
    case False
    then show ?thesis using g0 cursor by auto
  qed
qed

end

interpretation settled: sweep_relation settled
proof
  fix g g' h visit v assume "vmrun (scan_block h visit) g = Some (v, g')"
  then show "settled g g'" using vmrun_settled [OF roles.scan_block] by blast
next
  fix g g' h x assume "vmrun (sweep_block h) g = Some ((), g')"
  then show "settled g g'" using vmrun_settled [OF sweep_block_roles] by blast
qed (auto intro: settled_trans)

text \<open>
  The colours of the roles are those of the epoch and of the two before it. Before the first epoch ends, \<open>marker\<close> and
  \<open>sweeper\<close> have the values they are initialised with, which are the other way round.
\<close>

definition gc_ok :: "gc \<Rightarrow> bool" where
  "gc_ok g \<longleftrightarrow> pool_good (g_pool g) \<and> (let c = v_gccolor (g_vm g) in v_mutator (g_vm g) = role c \<and>
     (g_marker g = role (c - 1) \<and> g_sweeper g = role (c - 2) \<or> c = 3 \<and> g_marker g = 1 \<and> g_sweeper g = 2))"

lemma smod3: "x smod 3 = (if 0 \<le> x then x mod 3 else - ((- x) mod (3 :: int)))"
proof (cases "0 \<le> x")
  case False
  then have "(- x) mod 3 = - x - 3 * ((- x) div 3)" by (simp add: minus_mult_div_eq_mod)
  then show ?thesis using False by (simp add: signed_modulo_int_def signed_divide_int_def sgn_if abs_if)
qed (simp add: signed_modulo_int_def signed_divide_int_def sgn_if minus_div_mult_eq_mod)

lemma sdiv_mod_eq3: "x = 3 * (x sdiv 3) + x smod (3 :: int)"
  by (rule mult_sdiv_smod_eq [symmetric])

lemma smod3_differ: "x smod 3 \<noteq> (x - 1) smod 3 \<and> (x - 1) smod 3 \<noteq> (x - 2) smod 3 \<and> x smod 3 \<noteq> (x - 2) smod (3 :: int)"
proof -
  have d: "3 dvd x - y" if "x smod 3 = y smod 3" for x y :: int
  proof -
    have "x - y = 3 * (x sdiv 3 - y sdiv 3)" using that sdiv_mod_eq3 [of x] sdiv_mod_eq3 [of y] by simp
    then show ?thesis by simp
  qed
  have "\<not> 3 dvd x - (x - 1)" "\<not> 3 dvd x - 1 - (x - 2)" "\<not> 3 dvd x - (x - 2)" by simp_all
  then show ?thesis using d by blast
qed

lemma sint_pred: "sint (c - 1 :: u32) = (if sint c = - (2 ^ 31) then 2 ^ 31 - 1 else sint c - 1)"
proof -
  have b: "- (2 ^ 31) \<le> sint c" "sint c < 2 ^ 31" using sint_greater_eq [of c] sint_lt [of c] by simp_all
  have e: "c - 1 = word_of_int (sint c - 1)" by simp
  show ?thesis
  proof (cases "sint c = - (2 ^ 31)")
    case True
    then show ?thesis unfolding e by simp
  next
    case False
    then show ?thesis using cint_id [of "sint c - 1"] b unfolding e cint_def by simp
  qed
qed

text \<open>Three epochs in a row have three colours.\<close>

lemma roles_differ: "role c \<noteq> role (c - 1)" "role (c - 1) \<noteq> role (c - 2)" "role c \<noteq> role (c - 2)" "\<bar>role c\<bar> < 3"
proof -
  have e: "c - 2 = c - 1 - (1 :: u32)" by simp
  define x where "x = sint c"
  have x: "- (2 ^ 31) \<le> x" "x < 2 ^ 31" using sint_greater_eq [of c] sint_lt [of c] by (simp_all add: x_def)
  have a: "sint (c - 1) = (if x = - (2 ^ 31) then 2 ^ 31 - 1 else x - 1)" by (simp only: sint_pred x_def)
  have b: "sint (c - 2) = (if sint (c - 1) = - (2 ^ 31) then 2 ^ 31 - 1 else sint (c - 1) - 1)" unfolding e sint_pred [of "c - 1"] ..
  consider "x = - (2 ^ 31)" | "x = - (2 ^ 31) + 1" | "- (2 ^ 31) + 1 < x" using x by linarith
  then have "role c \<noteq> role (c - 1) \<and> role (c - 1) \<noteq> role (c - 2) \<and> role c \<noteq> role (c - 2)"
  proof cases
    case 1
    then have "sint (c - 1) = 2 ^ 31 - 1" "sint (c - 2) = 2 ^ 31 - 2" using a b by simp_all
    then show ?thesis using 1 by (simp add: role_def smod3 x_def [symmetric])
  next
    case 2
    then have "sint (c - 1) = - (2 ^ 31)" "sint (c - 2) = 2 ^ 31 - 1" using a b by simp_all
    then show ?thesis using 2 by (simp add: role_def smod3 x_def [symmetric])
  next
    case 3
    then have "sint (c - 1) = x - 1" "sint (c - 2) = x - 2" using a b x by simp_all
    then show ?thesis using smod3_differ [of x] by (simp only: role_def x_def [symmetric] simp_thms)
  qed
  then show "role c \<noteq> role (c - 1)" "role (c - 1) \<noteq> role (c - 2)" "role c \<noteq> role (c - 2)" by blast+
  show "\<bar>role c\<bar> < 3" unfolding role_def smod3 by (auto simp: abs_if)
qed

definition new_epoch :: "gc \<Rightarrow> gc" where
  "new_epoch g = g\<lparr>g_vm := (g_vm g)\<lparr>v_mutator := role (v_gccolor (g_vm g))\<rparr>,
      g_marker := role (v_gccolor (g_vm g) - 1), g_sweeper := role (v_gccolor (g_vm g) - 2)\<rparr>"

lemma rootset_run: "rootset root visit g = Some g' \<Longrightarrow> \<exists>k. vmrun (markroots root visit) (new_epoch g) = Some (k, g')"
  unfolding rootset_def Let_def new_epoch_def by auto

lemma rootset_ok:
  assumes "rootset root visit g = Some g'" "pool_good (g_pool g)"
  shows "gc_ok g' \<and> live (g_pool g') \<subseteq>\<^sub>m live (g_pool g)"
proof -
  have "settled (new_epoch g) g'" using rootset_run [OF assms(1)] vmrun_settled [OF roles.markroots] by blast
  then show ?thesis using assms(2) by (simp add: settled_def gc_ok_def new_epoch_def)
qed

lemma rungc_ok:
  assumes "gc_ok g" "rungc mflag root g = Some g'"
  shows "gc_ok g' \<and> live (g_pool g') \<subseteq>\<^sub>m live (g_pool g)"
proof -
  have s: "gc_ok g1 \<and> live (g_pool g1) \<subseteq>\<^sub>m live (g_pool g)" if "settled g g1" for g1
    using that assms(1) unfolding settled_def gc_ok_def by simp
  from settled.rungc_rel [OF assms(2)] show ?thesis
  proof (elim disjE exE conjE)
    fix g1 assume g1: "settled g g1" "g' = g1\<lparr>g_vm := (g_vm g1)\<lparr>v_nprop := False\<rparr>\<rparr>"
    show ?thesis using s [OF g1(1)] unfolding g1(2) gc_ok_def by simp
  next
    fix g1 visit assume g1: "settled g g1" "rootset root visit (g1\<lparr>g_vm := (g_vm g1)\<lparr>v_gccolor := v_gccolor (g_vm g1) + 1\<rparr>\<rparr>) = Some g'"
    have "pool_good (g_pool g1)" "live (g_pool g1) \<subseteq>\<^sub>m live (g_pool g)" using s [OF g1(1)] by (auto simp: gc_ok_def)
    then show ?thesis using rootset_ok [OF g1(2)] map_le_trans by auto
  qed (rule s)
qed

section \<open>What the collector spares\<close>

definition kin :: "Heap \<Rightarrow> Heap \<Rightarrow> bool" where
  "kin x x' \<longleftrightarrow> h_ref x' = h_ref x \<and> h_t x' = h_t x"

lemma kin_trans: "kin x y \<Longrightarrow> kin y z \<Longrightarrow> kin x z"
  by (simp add: kin_def)

definition gentle :: "vm \<Rightarrow> vm \<Rightarrow> bool" where
  "gentle st st' \<longleftrightarrow> v_mutator st' = v_mutator st \<and> types_le (v_types st) (v_types st') \<and> dom (v_heaps st') = dom (v_heaps st) \<and>
     (\<forall>h x x'. v_heaps st h = Some x \<longrightarrow> v_heaps st' h = Some x' \<longrightarrow> kin x x' \<and>
        (h_color x' = h_color x \<or> h_color x' \<in> {propagator, v_mutator st}))"


lemma gentle_block:
  assumes "gentle st st'"
  shows "v_heaps st h = Some x \<Longrightarrow> \<exists>x'. v_heaps st' h = Some x' \<and> kin x x' \<and> (h_color x' = h_color x \<or> h_color x' \<in> {propagator, v_mutator st})"
    and "v_heaps st' h = Some x' \<Longrightarrow> \<exists>x. v_heaps st h = Some x \<and> h_t x' = h_t x"
proof -
  have d: "h \<in> dom (v_heaps st') \<longleftrightarrow> h \<in> dom (v_heaps st)" using assms unfolding gentle_def by simp
  have k: "kin x x' \<and> (h_color x' = h_color x \<or> h_color x' \<in> {propagator, v_mutator st})" if "v_heaps st h = Some x" "v_heaps st' h = Some x'" for x x'
    using assms that unfolding gentle_def by blast
  show "\<exists>x'. v_heaps st' h = Some x' \<and> kin x x' \<and> (h_color x' = h_color x \<or> h_color x' \<in> {propagator, v_mutator st})" if "v_heaps st h = Some x"
    using d k [OF that] that by auto
  show "\<exists>x. v_heaps st h = Some x \<and> h_t x' = h_t x" if "v_heaps st' h = Some x'"
    using d k [OF _ that] that by (auto simp: kin_def)
qed

lemma gentle_trans:
  assumes "gentle st st'" "gentle st' st''"
  shows "gentle st st''"
proof -
  have e: "v_mutator st' = v_mutator st" "v_mutator st'' = v_mutator st" using assms unfolding gentle_def by simp_all
  have "kin x x'' \<and> (h_color x'' = h_color x \<or> h_color x'' \<in> {propagator, v_mutator st})" if x: "v_heaps st h = Some x" "v_heaps st'' h = Some x''" for h x x''
  proof -
    from gentle_block(1) [OF assms(1) x(1)] obtain x' where x': "v_heaps st' h = Some x'" "kin x x'"
      "h_color x' = h_color x \<or> h_color x' \<in> {propagator, v_mutator st}" by blast
    from gentle_block(1) [OF assms(2) x'(1)] x(2) have "kin x' x''" "h_color x'' = h_color x' \<or> h_color x'' \<in> {propagator, v_mutator st}"
      using e by auto
    then show ?thesis using x'(2,3) by (auto simp: kin_def)
  qed
  moreover have "types_le (v_types st) (v_types st'')" "dom (v_heaps st'') = dom (v_heaps st)"
    using assms types_le_trans unfolding gentle_def by auto
  ultimately show ?thesis using e unfolding gentle_def by blast
qed

interpretation gentle: mark_relation gentle
proof unfold_locales
  show "gentle st st" for st by (auto simp: gentle_def kin_def)
  show "gentle st st' \<Longrightarrow> gentle st' st'' \<Longrightarrow> gentle st st''" for st st' st'' by (rule gentle_trans)
  show "v_heaps st h = Some x \<Longrightarrow> c \<in> {propagator, v_mutator st} \<Longrightarrow> gentle st (st\<lparr>v_heaps := (v_heaps st)(h \<mapsto> x\<lparr>h_color := c\<rparr>)\<rparr>)" for st h x c
    by (auto simp: gentle_def kin_def split: if_splits)
  show "gentle st (st\<lparr>v_nprop := True\<rparr>)" for st by (auto simp: gentle_def kin_def)
qed

interpretation quiet: flow quiet
  by unfold_locales (auto simp: quiet_def intro: types_le_trans)

text \<open>
  The release of a block cannot reach another block once its pointers are cleared, unless it is a module link:
  that may unload the module and destroy its data. \<open>no_link st h\<close>: the block \<open>h\<close> is not one.
\<close>

definition no_link :: "vm \<Rightarrow> addr \<Rightarrow> bool" where
  "no_link st h \<longleftrightarrow> (\<forall>x ty. v_heaps st h = Some x \<longrightarrow> v_types st (h_t x) = Some ty \<longrightarrow> t_nogc ty = 0 \<longrightarrow>
     t_free ty \<in> {Freeheap, Freechan})"

lemma freetype_quiet: "follows quiet (freetype t)"
  unfolding follows_def
proof (intro allI impI)
  fix st a st' assume f: "freetype t st = Ok a st'"
  show "quiet st st'"
  proof (cases "v_types st t")
    case None
    then show ?thesis using f by (auto simp: freetype_def vm_defs quiet_def split: if_splits)
  next
    case (Some ty)
    from freetype_leaves [OF this] f show ?thesis by auto
  qed
qed

lemma sweep_block_alone:
  assumes tm: "no_link st h" and x: "v_heaps st h = Some x" and s: "sweep_block h st = Ok () st'"
  shows "v_heaps st' = (v_heaps st)(h := None) \<and> v_mutator st' = v_mutator st \<and> types_le (v_types st) (v_types st')"
proof -
  have free: "v_heaps st2 = (v_heaps st)(h := None) \<and> v_mutator st2 = v_mutator st \<and> types_le (v_types st) (v_types st2)"
    if "quiet st st1" "Heapc.poolfree h st1 = Ok () st2" for st1 st2
    using that by (auto simp: quiet_def Heapc.poolfree_def upd_def)
  show ?thesis
  proof (cases "h_t x = nil")
    case True
    then have "Heapc.poolfree h st = Ok () st'" using s x by (simp add: sweep_block_def vm_defs split: outcome.splits)
    moreover have "quiet st st" by (simp add: quiet_def)
    ultimately show ?thesis using free by blast
  next
    case False
    then obtain ty where ty: "v_types st (h_t x) = Some ty" using s x by (auto simp: sweep_block_def vm_defs split: option.splits)
    show ?thesis
    proof (cases "t_nogc ty = 0 \<and> t_free ty = Freeheap")
      case True
      from sweep_block_run [of st h x ty] x False ty True s show ?thesis by auto
    next
      case rest: False
      have p: "follows quiet gclock" "follows quiet gcunlock" "follows quiet (initmem t a)" for t a
        by (auto simp: follows_def quiet_def gclock_def gcunlock_def initmem_def setm_def vm_defs split: option.splits)
      have c: "follows quiet (freechan h)" unfolding freechan_def by (intro quiet.bind quiet.conds quiet.pure freetype_quiet)
      have "follows quiet (iff (t_nogc ty = 0) (steps [gclock, initmem (h_t x) (H2D h), call_free destroy (t_free ty) h, gcunlock]))"
      proof (cases "t_nogc ty = 0")
        case True
        then have "t_free ty = Freechan" using tm x ty rest by (auto simp: no_link_def)
        then show ?thesis by (simp only: call_free_def freefn.case) (intro quiet.conds quiet.seq p c)
      qed (simp add: iff_def quiet.pure)
      then have "follows quiet (steps [iff (t_nogc ty = 0) (steps [gclock, initmem (h_t x) (H2D h), call_free destroy (t_free ty) h, gcunlock]), freetype (h_t x)])"
        by (intro quiet.seq freetype_quiet)
      moreover define F where "F t = steps [iff (t_nogc t = 0) (steps [gclock, initmem (h_t x) (H2D h), call_free destroy (t_free t) h, gcunlock]), freetype (h_t x)]" for t :: Type
      have "sweep_block h st = steps [iff (h_t x \<noteq> nil) (bindM (deref v_types (h_t x)) F), Heapc.poolfree h] st"
        unfolding sweep_block_def F_def by (rule bind_Ok) (simp add: deref_def x)
      then have "bindM (F ty) (\<lambda>_. bindM (Heapc.poolfree h) (\<lambda>_. skip)) st = Ok () st'"
        using s False ty by (simp add: iff_def bindM_def deref_def)
      then obtain st1 where "F ty st = Ok () st1" "Heapc.poolfree h st1 = Ok () st'"
        by (auto simp: bindM_def skip_def split: outcome.splits)
      ultimately show ?thesis using free unfolding follows_def F_def by blast
    qed
  qed
qed

text \<open>What happens to a block that is not garbage while the roles stay: it is not garbage then, and stays reached.\<close>

definition kept :: "int \<Rightarrow> int \<Rightarrow> Heap \<Rightarrow> Heap \<Rightarrow> bool" where
  "kept mut swp x x' \<longleftrightarrow> kin x x' \<and> h_color x' \<noteq> swp \<and> (h_color x \<in> {mut, propagator} \<longrightarrow> h_color x' \<in> {mut, propagator})"

definition harmless :: "gc \<Rightarrow> bool" where
  "harmless g \<longleftrightarrow> g_sweeper g \<noteq> propagator \<and> g_sweeper g \<noteq> v_mutator (g_vm g) \<and>
     (\<forall>h x. v_heaps (g_vm g) h = Some x \<longrightarrow> h_color x = g_sweeper g \<longrightarrow> no_link (g_vm g) h)"

definition spares :: "gc \<Rightarrow> gc \<Rightarrow> bool" where
  "spares g g' \<longleftrightarrow> (harmless g \<longrightarrow>
     harmless g' \<and> g_sweeper g' = g_sweeper g \<and> v_mutator (g_vm g') = v_mutator (g_vm g) \<and> v_gccolor (g_vm g') = v_gccolor (g_vm g) \<and>
     (\<forall>h x. v_heaps (g_vm g) h = Some x \<longrightarrow> h_color x \<noteq> g_sweeper g \<longrightarrow>
        (\<exists>x'. v_heaps (g_vm g') h = Some x' \<and> kept (v_mutator (g_vm g)) (g_sweeper g) x x')))"

lemma kept_trans: "kept m s x y \<Longrightarrow> kept m s y z \<Longrightarrow> kept m s x z"
  by (auto simp: kept_def kin_def)

lemma sparesD:
  assumes "spares g g'" "harmless g"
  shows "harmless g'" "g_sweeper g' = g_sweeper g" "v_mutator (g_vm g') = v_mutator (g_vm g)" "v_gccolor (g_vm g') = v_gccolor (g_vm g)"
    "v_heaps (g_vm g) h = Some x \<Longrightarrow> h_color x \<noteq> g_sweeper g \<Longrightarrow> \<exists>x'. v_heaps (g_vm g') h = Some x' \<and> kept (v_mutator (g_vm g)) (g_sweeper g) x x'"
  using assms unfolding spares_def by blast+

lemma sparesI:
  assumes "harmless g \<Longrightarrow> harmless g'" "g_sweeper g' = g_sweeper g" "harmless g \<Longrightarrow> v_mutator (g_vm g') = v_mutator (g_vm g)"
    "harmless g \<Longrightarrow> v_gccolor (g_vm g') = v_gccolor (g_vm g)"
    "\<And>h x. harmless g \<Longrightarrow> v_heaps (g_vm g) h = Some x \<Longrightarrow> h_color x \<noteq> g_sweeper g \<Longrightarrow>
       \<exists>x'. v_heaps (g_vm g') h = Some x' \<and> kept (v_mutator (g_vm g)) (g_sweeper g) x x'"
  shows "spares g g'"
  using assms unfolding spares_def by blast

lemma spares_trans:
  assumes "spares g g'" "spares g' g''"
  shows "spares g g''"
proof (cases "harmless g")
  case True
  note 1 = sparesD [OF assms(1) True]
  note 2 = sparesD [OF assms(2) 1(1)]
  show ?thesis
  proof (rule sparesI)
    fix h x assume x: "v_heaps (g_vm g) h = Some x" "h_color x \<noteq> g_sweeper g"
    then obtain x' where x': "v_heaps (g_vm g') h = Some x'" "kept (v_mutator (g_vm g)) (g_sweeper g) x x'" using 1(5) by blast
    then have "h_color x' \<noteq> g_sweeper g'" using 1(2) by (simp add: kept_def)
    with 2(5) [OF x'(1)] 1 show "\<exists>x''. v_heaps (g_vm g'') h = Some x'' \<and> kept (v_mutator (g_vm g)) (g_sweeper g) x x''"
      using kept_trans [OF x'(2)] by auto
  qed (use 1 2 in simp_all)
qed (simp add: spares_def)

text \<open>Garbage that is there later was garbage before, and its type was there.\<close>

lemma harmless_less:
  assumes "harmless g" "types_le (v_types (g_vm g)) (v_types (g_vm g'))" "g_sweeper g' = g_sweeper g" "v_mutator (g_vm g') = v_mutator (g_vm g)"
    "\<And>h x'. v_heaps (g_vm g') h = Some x' \<Longrightarrow> h_color x' = g_sweeper g \<Longrightarrow>
       \<exists>x. v_heaps (g_vm g) h = Some x \<and> h_color x = g_sweeper g \<and> h_t x' = h_t x"
  shows "harmless g'"
proof -
  have "no_link (g_vm g') h" if x': "v_heaps (g_vm g') h = Some x'" "h_color x' = g_sweeper g" for h x'
  proof -
    obtain x where x: "v_heaps (g_vm g) h = Some x" "h_color x = g_sweeper g" "h_t x' = h_t x" using assms(5) x' by blast
    have n: "no_link (g_vm g) h" using assms(1) x(1,2) by (auto simp: harmless_def)
    show ?thesis
      unfolding no_link_def
    proof (intro allI impI)
      fix y ty assume y: "v_heaps (g_vm g') h = Some y" "v_types (g_vm g') (h_t y) = Some ty" "t_nogc ty = 0"
      have "y = x'" using y(1) x'(1) by simp
      then obtain ty' where "v_types (g_vm g) (h_t x) = Some ty'" "t_free ty' = t_free ty" "t_nogc ty' = t_nogc ty"
        using assms(2) y(2) x(3) by (auto simp: types_le_def)
      then show "t_free ty \<in> {Freeheap, Freechan}" using n x(1) y(3) by (auto simp: no_link_def)
    qed
  qed
  then show ?thesis using assms(1,3,4) unfolding harmless_def by simp
qed

lemma gentle_spares:
  assumes gn: "gentle (g_vm g) (g_vm g')" and s: "g_sweeper g' = g_sweeper g" and c: "v_gccolor (g_vm g') = v_gccolor (g_vm g)"
  shows "spares g g'"
proof (rule sparesI)
  assume t: "harmless g"
  then have sw: "g_sweeper g \<noteq> propagator" "g_sweeper g \<noteq> v_mutator (g_vm g)" by (simp_all add: harmless_def)
  have e: "types_le (v_types (g_vm g)) (v_types (g_vm g'))" "v_mutator (g_vm g') = v_mutator (g_vm g)" using gn by (simp_all add: gentle_def)
  show "v_mutator (g_vm g') = v_mutator (g_vm g)" by (rule e)
  show "harmless g'"
  proof (rule harmless_less [OF t e(1) s e(2)])
    fix h x' assume x': "v_heaps (g_vm g') h = Some x'" "h_color x' = g_sweeper g"
    then obtain x where x: "v_heaps (g_vm g) h = Some x" using gentle_block(2) [OF gn] by blast
    from gentle_block(1) [OF gn x] x' sw show "\<exists>x. v_heaps (g_vm g) h = Some x \<and> h_color x = g_sweeper g \<and> h_t x' = h_t x"
      using x by (auto simp: kin_def)
  qed
  fix h x assume "v_heaps (g_vm g) h = Some x" "h_color x \<noteq> g_sweeper g"
  from gentle_block(1) [OF gn this(1)] this(2) sw
  show "\<exists>x'. v_heaps (g_vm g') h = Some x' \<and> kept (v_mutator (g_vm g)) (g_sweeper g) x x'" by (auto simp: kept_def)
qed (rule s c)+

lemma vmrun_vm: "vmrun m g = Some (a, g') \<Longrightarrow> m ((g_vm g)\<lparr>v_freed := []\<rparr>) = Ok a (g_vm g') \<and> g_sweeper g' = g_sweeper g"
  unfolding vmrun_def by (auto split: outcome.splits option.splits)

lemma vmrun_gentle:
  assumes "follows gentle m" "vmrun m g = Some (a, g')"
  shows "gentle (g_vm g) (g_vm g')"
proof -
  have "gentle ((g_vm g)\<lparr>v_freed := []\<rparr>) (g_vm g')" using vmrun_vm [OF assms(2)] assms(1) by (auto simp: follows_def)
  then show ?thesis by (simp add: gentle_def)
qed

interpretation spares: sweep_relation spares
proof
  fix g g' h visit v assume r: "vmrun (scan_block h visit) g = Some (v, g')"
  have "settled g g'" using vmrun_settled [OF roles.scan_block r] by blast
  then show "spares g g'"
    using gentle_spares [OF vmrun_gentle [OF gentle.scan_block r]] vmrun_vm [OF r] by (simp add: settled_def)
next
  fix g g' h x assume x: "v_heaps (g_vm g) h = Some x" "h_color x = g_sweeper g" and r: "vmrun (sweep_block h) g = Some ((), g')"
  have st: "settled g g'" using vmrun_settled [OF sweep_block_roles r] by blast
  show "spares g g'"
  proof (cases "harmless g")
    case True
    let ?st = "(g_vm g)\<lparr>v_freed := []\<rparr>"
    have "no_link ?st h" using True x by (auto simp: harmless_def no_link_def)
    from sweep_block_alone [OF this, of x "g_vm g'"] vmrun_vm [OF r] x(1) have s: "v_heaps (g_vm g') = (v_heaps (g_vm g))(h := None)"
      "v_mutator (g_vm g') = v_mutator (g_vm g)" "types_le (v_types (g_vm g)) (v_types (g_vm g'))" by auto
    have sw: "g_sweeper g' = g_sweeper g" using vmrun_vm [OF r] by simp
    show ?thesis
    proof (rule sparesI)
      show "harmless g'" by (rule harmless_less [OF True s(3) sw s(2)]) (auto simp: s(1) split: if_splits)
      show "v_gccolor (g_vm g') = v_gccolor (g_vm g)" using st by (simp add: settled_def)
    qed (use s sw x in \<open>auto simp: kept_def kin_def\<close>)
  qed (simp add: spares_def)
next
  fix g g' g'' assume "spares g g'" "spares g' g''"
  then show "spares g g''" by (rule spares_trans)
qed (simp_all add: spares_def kept_def kin_def harmless_def)

lemma gc_ok_sweeper:
  assumes "gc_ok g"
  shows "g_sweeper g \<noteq> propagator" "g_sweeper g \<noteq> v_mutator (g_vm g)"
proof -
  let ?c = "v_gccolor (g_vm g)"
  have "g_sweeper g = role (?c - 2) \<or> ?c = 3 \<and> g_sweeper g = 2" "v_mutator (g_vm g) = role ?c" using assms by (auto simp: gc_ok_def Let_def)
  moreover have "role 3 = 0" by (simp add: role_def smod3)
  ultimately show "g_sweeper g \<noteq> propagator" "g_sweeper g \<noteq> v_mutator (g_vm g)"
    using roles_differ(3) [of ?c] roles_differ(4) [of "?c - 2"] by (auto simp: propagator_def)
qed

text \<open>A new epoch changes no colour but to the propagator's, and its sweeper's colour is the one before the old mutator's.\<close>

lemma rootset_spares:
  assumes r: "rootset root visit g = Some g'" and m: "v_mutator (g_vm g) = role (v_gccolor (g_vm g) - 1)" and x: "v_heaps (g_vm g) h = Some x"
  shows "\<exists>x'. v_heaps (g_vm g') h = Some x' \<and> kin x x' \<and> v_gccolor (g_vm g') = v_gccolor (g_vm g) \<and>
    (h_color x \<in> {v_mutator (g_vm g), propagator} \<longrightarrow> h_color x' \<noteq> g_sweeper g')"
proof -
  let ?c = "v_gccolor (g_vm g)"
  obtain k where k: "vmrun (markroots root visit) (new_epoch g) = Some (k, g')" using rootset_run [OF r] by blast
  have s: "v_gccolor (g_vm g') = ?c" "g_sweeper g' = role (?c - 2)"
    using vmrun_settled [OF roles.markroots k] by (simp_all add: settled_def new_epoch_def)
  have "v_heaps (g_vm (new_epoch g)) h = Some x" "v_mutator (g_vm (new_epoch g)) = role ?c" using x by (simp_all add: new_epoch_def)
  from gentle_block(1) [OF vmrun_gentle [OF gentle.markroots k] this(1)] this(2) obtain x' where
    x': "v_heaps (g_vm g') h = Some x'" "kin x x'" "h_color x' = h_color x \<or> h_color x' \<in> {propagator, role ?c}" by auto
  have "h_color x' \<noteq> role (?c - 2)" if "h_color x \<in> {role (?c - 1), propagator}"
    using x'(3) that roles_differ [of ?c] roles_differ(4) [of "?c - 2"] by (auto simp: propagator_def)
  then show ?thesis using x' s m by auto
qed

lemma rungc_spares:
  assumes ok: "gc_ok g" and t: "\<forall>h x. v_heaps (g_vm g) h = Some x \<longrightarrow> h_color x = g_sweeper g \<longrightarrow> no_link (g_vm g) h"
    and r: "rungc mflag root g = Some g'" and x: "v_heaps (g_vm g) h = Some x" "h_color x \<noteq> g_sweeper g"
  shows "\<exists>x'. v_heaps (g_vm g') h = Some x' \<and> kin x x' \<and>
    (h_color x \<in> {v_mutator (g_vm g), propagator} \<or> v_gccolor (g_vm g') = v_gccolor (g_vm g) \<longrightarrow> h_color x' \<noteq> g_sweeper g')"
proof -
  have hl: "harmless g" using gc_ok_sweeper [OF ok] t unfolding harmless_def by simp
  have s: "\<exists>x'. v_heaps (g_vm g1) h = Some x' \<and> kept (v_mutator (g_vm g)) (g_sweeper g) x x' \<and> g_sweeper g1 = g_sweeper g \<and>
      v_mutator (g_vm g1) = v_mutator (g_vm g) \<and> v_gccolor (g_vm g1) = v_gccolor (g_vm g)" if "spares g g1" for g1
    using sparesD [OF that hl] x by blast
  from spares.rungc_rel [OF r] show ?thesis
  proof (elim disjE exE conjE)
    assume "spares g g'"
    from s [OF this] show ?thesis by (auto simp: kept_def)
  next
    fix g1 assume g1: "spares g g1" "g' = g1\<lparr>g_vm := (g_vm g1)\<lparr>v_nprop := False\<rparr>\<rparr>"
    show ?thesis using s [OF g1(1)] by (auto simp: g1(2) kept_def)
  next
    fix g1 visit assume g1: "spares g g1" "rootset root visit (g1\<lparr>g_vm := (g_vm g1)\<lparr>v_gccolor := v_gccolor (g_vm g1) + 1\<rparr>\<rparr>) = Some g'"
    obtain x1 where x1: "v_heaps (g_vm g1) h = Some x1" "kept (v_mutator (g_vm g)) (g_sweeper g) x x1"
      "v_mutator (g_vm g1) = v_mutator (g_vm g)" "v_gccolor (g_vm g1) = v_gccolor (g_vm g)" using s [OF g1(1)] by blast
    have m: "v_mutator (g_vm g) = role (v_gccolor (g_vm g))" using ok by (simp add: gc_ok_def Let_def)
    from rootset_spares [OF g1(2), of h x1] x1 m obtain x' where
      "v_heaps (g_vm g') h = Some x'" "kin x1 x'" "v_gccolor (g_vm g') = v_gccolor (g_vm g) + 1"
      "h_color x1 \<in> {v_mutator (g_vm g), propagator} \<longrightarrow> h_color x' \<noteq> g_sweeper g'" by auto
    then show ?thesis using x1(2) kin_trans by (auto simp: kept_def)
  qed
qed

section \<open>A heap with one block to sweep and one to keep\<close>

lemmas pool_eval = poolalloc_def main_pool_def table_pool_def pget_run pupd_bind bestfit.simps new_arena_def Let_def one_brk_def
  pseq.simps pbind_def pret_def pupd_def pokeb_def Alloc.set_tail_def getb_def ptr_def B2D_def B2T_def pwhen_def set_size_def set_magic_def
  pooladd_def add_cursize_def pget_def setb_def set_root_def set_fwd_def Alloc.set_prev_def set_left_def set_right_def set_parent_def raw_Bhdr_def
  Alloc.poolfree_def D2B_def B2NB_def B2PT_def pooldel_def pooldel_ring_def pooldel_two_def unring_def relink_def fields gb_def take_larger_def

definition hdr_at :: "magic \<Rightarrow> u32 \<Rightarrow> addr \<Rightarrow> int \<Rightarrow> Bhdr" where
  "hdr_at m s q z = raw_Bhdr\<lparr>b_magic := m, b_size := s, b_prev := q, b_fwd := q, b_csize := z\<rparr>"

text \<open>The pool after two allocations.\<close>

definition two_pool :: pool where
  "two_pool = main_pool\<lparr>p_cursize := 224, p_arenasize := 262180, p_root := 4352, p_chain := 4096, p_nalloc := 2, p_nbrk := 1,
     p_hdr := [4096 \<mapsto> hdr_at MAGIC_E 32 nil 262176, 4128 \<mapsto> hdr_at MAGIC_A 128 nil 0, 266272 \<mapsto> hdr_at MAGIC_E 0 nil 0,
       4256 \<mapsto> hdr_at MAGIC_A 96 4256 0, 4352 \<mapsto> hdr_at MAGIC_F 261920 4352 0],
     p_tail := [4120 \<mapsto> 4096, 4248 \<mapsto> 4128, 4344 \<mapsto> 4256, 266264 \<mapsto> 4352]\<rparr>"

lemma two_pool_made: "\<exists>p. poolalloc 100 main_pool = Some (4136, p) \<and> poolalloc 50 p = Some (4264, two_pool)"
proof -
  have "int32 262180 = 262180" "int32 262176 = 262176" "int32 262016 = 262016" "round_size 31 100 = 128" "round_size 31 50 = 96"
    by (auto intro: int32_id simp: round_size_31)
  then show ?thesis by (simp add: pool_eval two_pool_def hdr_at_def) (simp add: nil_def)
qed

lemma two_pool_good: "pool_good two_pool"
  using two_pool_made poolalloc_contract [OF main_pool_good, of 100] poolalloc_contract [of _ 50] by fastforce

definition gc_type :: Type where
  "gc_type = (type_of Freeheap Markheap 8 0 [0x80])\<lparr>t_ref := 3\<rparr>"

definition gc_state :: gc where
  "gc_state = \<lparr>g_vm = zero_vm\<lparr>v_types := static_types(400 \<mapsto> gc_type), v_gccolor := 6,
     v_heaps := [4136 \<mapsto> \<lparr>h_color = 1, h_ref = 1, h_t = 400\<rparr>, 4264 \<mapsto> \<lparr>h_color = 0, h_ref = 7, h_t = 400\<rparr>]\<rparr>,
     g_pool = two_pool, g_base = nil, g_limit = nil, g_ptr = nil, g_marker = 2, g_sweeper = 1\<rparr>"

lemma gc_state_ok: "gc_ok gc_state" "no_link (g_vm gc_state) h"
  using two_pool_good
  by (auto simp: gc_ok_def gc_state_def zero_vm_def role_def smod3 no_link_def gc_type_def type_of_def split: if_splits)

lemma no_progs: "markprogs nil visit = ret visit" "markmodules nil = skip"
  by (simp_all add: markprogs_def markmodules_def loop_unfold [of _ "(nil, visit)"] loop_unfold [of _ nil] leave_def, simp add: ret_def skip_def)

lemma gc_state_release:
  "\<exists>p. Alloc.poolfree 4136 two_pool = Some ((), p) \<and> p_hdr p 4096 = Some (hdr_at MAGIC_E 32 nil 262176) \<and>
     (\<exists>x. p_hdr p 4128 = Some x \<and> b_magic x = MAGIC_F \<and> b_size x = 128) \<and>
     (\<exists>x. p_hdr p 4256 = Some x \<and> b_magic x = MAGIC_A \<and> b_size x = 96) \<and>
     (\<exists>x. p_hdr p 4352 = Some x \<and> b_magic x = MAGIC_F \<and> b_size x = 261920)"
  by (simp add: two_pool_def pool_eval hdr_at_def findplace.simps)

lemma gc_state_swept:
  "\<exists>st. sweep_block 4136 (g_vm gc_state) = Ok () st \<and> v_heaps st = [4264 \<mapsto> \<lparr>h_color = 0, h_ref = 7, h_t = 400\<rparr>] \<and> v_freed st = [4136] \<and>
     v_modules st = nil \<and> \<not> v_nprop st \<and> v_gccolor st = 6 \<and> v_mutator st = 0 \<and> v_gchalt st = 0"
proof -
  have H: "unat (word_of_nat H :: u32) = H" by (simp add: H_def)
  show ?thesis
   by (simp add: gc_state_def zero_vm_def sweep_block_def vm_defs gclock_def gcunlock_def initmem_def setm_def call_free_def freeheap_def freeptrs_def freebit_def H
      getp_def freetype_def set_type_def Heapc.poolfree_def gc_type_def type_of_def H2D_def sizeof_Heap_def nil_def initbit_def fun_upd_twist)
qed


lemma gc_state_runs:
  "\<exists>g'. rungc 0 nil gc_state = Some g' \<and> v_heaps (g_vm g') = [4264 \<mapsto> \<lparr>h_color = 0, h_ref = 7, h_t = 400\<rparr>] \<and> v_gccolor (g_vm g') = 7"
proof -
  obtain p x1 x2 x3 where p: "Alloc.poolfree 4136 two_pool = Some ((), p)" "p_hdr p 4096 = Some (hdr_at MAGIC_E 32 nil 262176)"
    "p_hdr p 4128 = Some x1" "b_magic x1 = MAGIC_F" "b_size x1 = 128" "p_hdr p 4256 = Some x2" "b_magic x2 = MAGIC_A" "b_size x2 = 96"
    "p_hdr p 4352 = Some x3" "b_magic x3 = MAGIC_F" "b_size x3 = 261920" using gc_state_release by blast
  obtain st where st: "sweep_block 4136 (g_vm gc_state) = Ok () st" "v_heaps st = [4264 \<mapsto> \<lparr>h_color = 0, h_ref = 7, h_t = 400\<rparr>]" "v_freed st = [4136]"
     "v_modules st = nil" "\<not> v_nprop st" "v_gccolor st = 6" "v_mutator st = 0" using gc_state_swept by blast
  define g0 where "g0 = gc_state\<lparr>g_base := 4096, g_ptr := 4096, g_limit := 266272\<rparr>"
  define g1 where "g1 = gc_state\<lparr>g_vm := st, g_pool := p, g_base := 4096, g_ptr := 4096, g_limit := 266272\<rparr>"
  have hd: "p_hdr two_pool 4096 = Some (hdr_at MAGIC_E 32 nil 262176)" "p_hdr two_pool 4128 = Some (hdr_at MAGIC_A 128 nil 0)" "p_chain two_pool = 4096"
    by (simp_all add: two_pool_def)
  have run: "vmrun (sweep_block 4136) (gc_state\<lparr>g_base := 4096, g_ptr := 4128, g_limit := 266272\<rparr>) = Some ((), g1\<lparr>g_ptr := 4128\<rparr>)"
  proof -
    have "(g_vm gc_state)\<lparr>v_freed := []\<rparr> = g_vm gc_state" by (simp add: gc_state_def zero_vm_def)
    moreover have "g_pool gc_state = two_pool" by (simp add: gc_state_def)
    ultimately show ?thesis using st(1,3) p(1) by (simp add: vmrun_def g1_def)
  qed
  have step: "sweep Quanta Quanta 0 nil g0 = sweep 48 48 0 4096 g1"
  proof -
    have "sweep Quanta Quanta 0 nil g0 = sweep 49 49 0 4096 (g0\<lparr>g_ptr := 4128\<rparr>)"
      by (subst sweep.simps) (simp add: g0_def gc_state_def hd Quanta_def next_block_def B2NB_def ptr_def hdr_at_def raw_Bhdr_def)
    also have "\<dots> = sweep 48 48 0 4096 g1"
    proof -
      have "okbhdr p 4096" using p(2) by (simp add: okbhdr_def hdr_at_def nil_def)
      moreover have "v_heaps (g_vm (g0\<lparr>g_ptr := 4128\<rparr>)) 4136 = Some \<lparr>h_color = 1, h_ref = 1, h_t = 400\<rparr>" "g_sweeper (g0\<lparr>g_ptr := 4128\<rparr>) = 1"
        "p_hdr (g_pool (g0\<lparr>g_ptr := 4128\<rparr>)) 4128 = Some (hdr_at MAGIC_A 128 nil 0)"
        using hd by (simp_all add: g0_def gc_state_def)
      moreover have "g0\<lparr>g_ptr := 4128\<rparr> = gc_state\<lparr>g_base := 4096, g_ptr := 4128, g_limit := 266272\<rparr>" by (simp add: g0_def)
      moreover have "g_pool g1 = p" "g1\<lparr>g_ptr := 4096\<rparr> = g1" by (simp_all add: g1_def)
      ultimately show ?thesis using run
        by (subst sweep.simps) (simp add: B2D_def ptr_def hdr_at_def propagator_def)
    qed
    finally show ?thesis .
  qed
  have rest: "sweep 48 48 0 4096 g1 = Some (False, 45, g1\<lparr>g_ptr := 266272, g_base := nil\<rparr>)"
    apply (subst sweep.simps, simp add: g1_def p next_block_def B2NB_def ptr_def hdr_at_def raw_Bhdr_def)
    apply (subst sweep.simps, simp add: p next_block_def B2NB_def ptr_def hdr_at_def raw_Bhdr_def)
    apply (subst sweep.simps, simp add: p st B2D_def next_block_def B2NB_def ptr_def hdr_at_def raw_Bhdr_def propagator_def gc_state_def)
    apply (subst sweep.simps, simp add: p st B2D_def next_block_def B2NB_def ptr_def hdr_at_def raw_Bhdr_def propagator_def gc_state_def)
    done
  have ok: "okbhdr two_pool 4096" by (simp add: okbhdr_def hd hdr_at_def nil_def)
  have "rungc 0 nil gc_state = gcstep 0 nil g0"
    using ok by (simp add: rungc_def g0_def gc_state_def zero_vm_def hd hdr_at_def B2LIMIT_def ptr_def raw_Bhdr_def)
  also have "\<dots> = rootset nil 45 (g1\<lparr>g_ptr := 266272, g_base := nil, g_vm := st\<lparr>v_gccolor := 7\<rparr>\<rparr>)"
    unfolding gcstep_def step rest using st by (simp add: g1_def)
  also have "\<dots> = Some (g1\<lparr>g_ptr := 266272, g_base := nil, g_vm := st\<lparr>v_gccolor := 7, v_mutator := 1, v_freed := []\<rparr>, g_marker := 0, g_sweeper := 2\<rparr>)"
    using st by (simp add: rootset_def vmrun_def markroots_def no_progs role_def smod3 vm_defs g1_def)
  finally show ?thesis using st by simp
qed

section \<open>The bound on the iterations\<close>

lemma marktail_visit: "marktail visit l st = Ok v st' \<Longrightarrow> v \<le> visit"
proof (induction visit arbitrary: l st)
  case 0
  then show ?case by (auto simp: bind_eq_Ok Let_def ret_def)
next
  case (Suc visit)
  then show ?case by (fastforce simp: bind_eq_Ok Let_def ret_def simp del: steps.simps split: if_splits intro: le_SucI)
qed

lemma call_mark_visit: "call_mark mk t vw visit st = Ok v st' \<Longrightarrow> v \<le> visit"
  using marktail_visit by (cases mk) (auto simp: call_mark_def bind_eq_Ok ret_def fault_def marklist_def)

lemma scan_block_visit: "vmrun (scan_block h visit) g = Some (v, g') \<Longrightarrow> v \<le> visit"
  using call_mark_visit by (auto simp: vmrun_def scan_block_def bind_eq_Ok ret_def split: outcome.splits option.splits if_splits)

lemma sweep_enough: "visit \<le> n \<Longrightarrow> visit \<le> m \<Longrightarrow> sweep n visit mflag prev g = sweep m visit mflag prev g"
proof (induction n arbitrary: m visit prev g)
  case 0
  then show ?case by (subst (1 2) sweep.simps) simp
next
  case (Suc n)
  show ?case
  proof (cases "visit = 0")
    case True
    then show ?thesis by (subst (1 2) sweep.simps) simp
  next
    case False
    then obtain k where m: "m = Suc k" using Suc.prems(2) by (cases m) auto
    have "sweep n (v - 1) mflag prev g = sweep k (v - 1) mflag prev g" if "v \<le> visit" for v prev g
      using Suc.IH [of "v - 1" k] Suc.prems m that by simp
    note ih = this [unfolded One_nat_def]
    note eq = sweep.simps [of _ visit mflag prev g, unfolded if_not_P [OF False]]
    show ?thesis unfolding m eq nat.case
      by (auto simp: Let_def ih scan_block_visit split: option.splits bool.splits)
  qed
qed


section \<open>Properties\<close>

text \<open>C23: On a block of a type with a pointer map, marking turns exactly the blocks that the mapped words point at, and that are not
  of the mutator's colour, to the propagator's colour, and sets \<open>nprop\<close> exactly if there is one; nothing else changes.\<close>

theorem markheap_marks:
  assumes "v_types st t = Some x" "t \<noteq> nil" "t_np x = int (length (t_map x))" "mapped (v_mem st) vw (t_map x) \<subseteq> dom (v_heaps st)"
  shows "markheap t vw st = Ok () (marked (mapped (v_mem st) vw (t_map x)) st)"
  using assms by (rule markheap_marked)

text \<open>The block at 4148 points at the one at 4276.\<close>

definition mark_state :: vm where
  "mark_state = (g_vm gc_state)\<lparr>v_mem := st32 (\<lambda>_. 0) 4148 4276, v_mutator := 1\<rparr>"

theorem markheap_marks_witness:
  "markheap 400 4148 mark_state = Ok () (mark_state\<lparr>v_heaps := (v_heaps mark_state)(4264 \<mapsto> \<lparr>h_color = propagator, h_ref = 7, h_t = 400\<rparr>), v_nprop := True\<rparr>)"
proof -
  let ?m = "v_mem mark_state"
  have u: "unat (ld32 ?m 4148) = 4276" by (simp add: mark_state_def)
  have "j = 0" if "j < 8" "bit (0x80 :: byte) (7 - j)" for j :: nat
  proof -
    have "j \<in> {0, 1, 2, 3, 4, 5, 6, 7}" using that(1) by auto
    then show ?thesis using that(2) by auto
  qed
  then have "{j \<in> {..<8}. bit (0x80 :: byte) (7 - j) \<and> unat (ld32 ?m (4148 + 4 * j)) \<noteq> H} = {0}"
    using u by (auto simp: H_def)
  then have mp: "mapped ?m 4148 [0x80] = {4264}" using u by (simp add: ptrs_of_def D2H_def sizeof_Heap_def)
  have "v_types mark_state 400 = Some gc_type" "t_map gc_type = [0x80]" "t_np gc_type = 1" "mapped ?m 4148 [0x80] \<subseteq> dom (v_heaps mark_state)"
    unfolding mp by (simp_all add: mark_state_def gc_state_def gc_type_def type_of_def)
  then have "markheap 400 4148 mark_state = Ok () (marked {4264} mark_state)"
    using markheap_marks [of mark_state 400 gc_type 4148] mp by (simp add: nil_def)
  moreover have "hue {4264} 1 (v_heaps mark_state) = (v_heaps mark_state)(4264 \<mapsto> \<lparr>h_color = propagator, h_ref = 7, h_t = 400\<rparr>)"
    by (auto simp: hue_def fun_eq_iff mark_state_def gc_state_def)
  moreover have "fresh_marks {4264} 1 (v_heaps mark_state)" "v_mutator mark_state = 1" by (simp_all add: fresh_marks_def mark_state_def gc_state_def)
  ultimately show ?thesis by (simp add: marked_def)
qed

text \<open>C13: When \<open>rungc\<close> returns (it does not when a structure it follows is broken or endless) the state of the collector
  is well formed if it was before: the pool is in good order; the mutator's colour is that of the epoch, the marker's that of
  the epoch before and the sweeper's that of the one before that (or they have the values they are initialised with), also
  when \<open>gccolor\<close> wraps around; and the pool only loses blocks.\<close>

theorem rungc_well_formed:
  assumes "gc_ok g" "rungc mflag root g = Some g'"
  shows "gc_ok g' \<and> live (g_pool g') \<subseteq>\<^sub>m live (g_pool g)"
  using assms by (rule rungc_ok)

theorem rungc_well_formed_witness:
  "\<exists>g'. rungc 0 nil gc_state = Some g' \<and> v_gccolor (g_vm g') = 7 \<and> gc_ok g'"
  using gc_state_runs rungc_well_formed [OF gc_state_ok(1)] by blast

text \<open>C2: The collector frees nothing but garbage. Suppose that no garbage (no block of the sweeper's colour) is a module
  link, so that sweeping unloads no module. Then a block that does not have the sweeper's colour when \<open>rungc\<close> starts is
  still there when it returns, with its reference count and its type, also while blocks that point at it are swept. It has
  not become garbage either as long as the epoch lasts; and a block that was reached in this epoch (it has the mutator's or
  the propagator's colour) has not when the call has begun the next epoch.\<close>

theorem rungc_spares_reached:
  assumes "gc_ok g" "\<forall>h x. v_heaps (g_vm g) h = Some x \<longrightarrow> h_color x = g_sweeper g \<longrightarrow> no_link (g_vm g) h"
    and "rungc mflag root g = Some g'" "v_heaps (g_vm g) h = Some x" "h_color x \<noteq> g_sweeper g"
  shows "\<exists>x'. v_heaps (g_vm g') h = Some x' \<and> h_ref x' = h_ref x \<and> h_t x' = h_t x \<and>
    (h_color x \<in> {v_mutator (g_vm g), propagator} \<or> v_gccolor (g_vm g') = v_gccolor (g_vm g) \<longrightarrow> h_color x' \<noteq> g_sweeper g')"
  using rungc_spares [OF assms] unfolding kin_def by blast

theorem rungc_spares_reached_witness:
  "\<exists>g' x'. rungc 0 nil gc_state = Some g' \<and> v_heaps (g_vm g') 4136 = None \<and> v_heaps (g_vm g') 4264 = Some x' \<and> h_ref x' = 7 \<and>
     v_gccolor (g_vm g') = 7 \<and> h_color x' \<noteq> g_sweeper g'"
proof -
  obtain g' where g': "rungc 0 nil gc_state = Some g'" "v_heaps (g_vm g') = [4264 \<mapsto> \<lparr>h_color = 0, h_ref = 7, h_t = 400\<rparr>]"
    "v_gccolor (g_vm g') = 7"
    using gc_state_runs by blast
  have "v_heaps (g_vm gc_state) 4264 = Some \<lparr>h_color = 0, h_ref = 7, h_t = 400\<rparr>" "h_color \<lparr>h_color = 0, h_ref = 7, h_t = 400\<rparr> \<noteq> g_sweeper gc_state"
    "v_mutator (g_vm gc_state) = 0"
    by (simp_all add: gc_state_def zero_vm_def)
  from rungc_spares_reached [OF gc_state_ok(1) _ g'(1) this(1,2)] gc_state_ok(2) this(3) show ?thesis using g' by auto
qed

text \<open>The loop of \<open>rungc\<close> ends within its quantum: each turn uses up a visit, so a larger bound on the iterations changes nothing.\<close>

theorem sweep_ends:
  assumes "Quanta \<le> n"
  shows "sweep n Quanta mflag prev g = sweep Quanta Quanta mflag prev g"
  using sweep_enough [of Quanta n Quanta] assms by simp

theorem sweep_ends_witness: "sweep 1000 Quanta 0 nil gc_state = sweep Quanta Quanta 0 nil gc_state"
  by (rule sweep_ends) (simp add: Quanta_def)

end
