(* ===== verification/Styx.thy ===== *)
theory Styx
  imports Prelude
begin

text \<open>
  The messages of the Styx file protocol: \<open>include/styx.h\<close> and the conversions \<open>convS2M\<close>, \<open>convM2S\<close>,
  \<open>convD2M\<close>, \<open>convM2D\<close> of \<open>emu/styx.c\<close>.

  Memory is a function from addresses to bytes. A writer (the \<open>P\<close> macros of the code) stores at the
  pointer \<open>p\<close> and advances it, a reader (the \<open>G\<close> macros) assigns a field of the structure \<open>f\<close> from
  the bytes at \<open>p\<close> and advances it. The member \<open>data\<close> of an \<open>Fcall\<close> is an address in the same
  memory: a decoded message does not own its data, it points into the buffer. \<open>char\<close> is signed and
  a \<open>long\<close> has 32 bits, as on the 386.

  The reference for both directions is the datatype \<open>message\<close>, one constructor for each kind of
  message with the fields this kind carries, and \<open>msg_of\<close>, which reads it off an \<open>Fcall\<close>.
\<close>

section \<open>Structures\<close>

type_synonym store = "nat \<Rightarrow> byte"

definition NAMELEN :: nat where "NAMELEN = 28"
definition ERRLEN :: nat where "ERRLEN = 64"
definition DIRLEN :: nat where "DIRLEN = 116"
definition MAXFDATA :: nat where "MAXFDATA = 8192"
definition MAXMSG :: nat where "MAXMSG = 128"

record Qid =
  path :: u32
  vers :: u32

record Dir =
  dir_name :: "byte list"
  dir_uid :: "byte list"
  dir_gid :: "byte list"
  dir_qid :: Qid
  dir_mode :: u32
  dir_atime :: u32
  dir_mtime :: u32
  dir_length :: u32
  dir_type :: u16
  dir_dev :: u16

record Fcall =
  f_type :: byte
  f_fid :: u16
  f_tag :: u16
  f_oldtag :: u16
  f_qid :: Qid
  f_uname :: "byte list"
  f_aname :: "byte list"
  f_ename :: "byte list"
  f_perm :: u32
  f_newfid :: u16
  f_name :: "byte list"
  f_mode :: byte
  f_offset :: u32
  f_count :: u32
  f_data :: nat
  f_stat :: "byte list"

text \<open>The sizes of the arrays inside the structures.\<close>

definition fcall_ok :: "Fcall \<Rightarrow> bool" where
  "fcall_ok f \<longleftrightarrow> length (f_uname f) = NAMELEN \<and> length (f_aname f) = NAMELEN \<and>
     length (f_ename f) = ERRLEN \<and> length (f_name f) = NAMELEN \<and> length (f_stat f) = DIRLEN"

definition dir_ok :: "Dir \<Rightarrow> bool" where
  "dir_ok d \<longleftrightarrow> length (dir_name d) = NAMELEN \<and> length (dir_uid d) = NAMELEN \<and>
     length (dir_gid d) = NAMELEN"

text \<open>The message types, in the order of the enumeration.\<close>

definition Tnop :: int where "Tnop = 0"
definition Rnop :: int where "Rnop = 1"
definition Terror :: int where "Terror = 2"
definition Rerror :: int where "Rerror = 3"
definition Tflush :: int where "Tflush = 4"
definition Rflush :: int where "Rflush = 5"
definition Tclone :: int where "Tclone = 6"
definition Rclone :: int where "Rclone = 7"
definition Twalk :: int where "Twalk = 8"
definition Rwalk :: int where "Rwalk = 9"
definition Topen :: int where "Topen = 10"
definition Ropen :: int where "Ropen = 11"
definition Tcreate :: int where "Tcreate = 12"
definition Rcreate :: int where "Rcreate = 13"
definition Tread :: int where "Tread = 14"
definition Rread :: int where "Rread = 15"
definition Twrite :: int where "Twrite = 16"
definition Rwrite :: int where "Rwrite = 17"
definition Tclunk :: int where "Tclunk = 18"
definition Rclunk :: int where "Rclunk = 19"
definition Tremove :: int where "Tremove = 20"
definition Rremove :: int where "Rremove = 21"
definition Tstat :: int where "Tstat = 22"
definition Rstat :: int where "Rstat = 23"
definition Twstat :: int where "Twstat = 24"
definition Rwstat :: int where "Rwstat = 25"
definition Tsession :: int where "Tsession = 26"
definition Rsession :: int where "Rsession = 27"
definition Tattach :: int where "Tattach = 28"
definition Rattach :: int where "Rattach = 29"
definition Tmax :: int where "Tmax = 30"

lemmas styx_types = Tnop_def Rnop_def Terror_def Rerror_def Tflush_def Rflush_def Tclone_def
  Rclone_def Twalk_def Rwalk_def Topen_def Ropen_def Tcreate_def Rcreate_def Tread_def Rread_def
  Twrite_def Rwrite_def Tclunk_def Rclunk_def Tremove_def Rremove_def Tstat_def Rstat_def
  Twstat_def Rwstat_def Tsession_def Rsession_def Tattach_def Rattach_def Tmax_def

lemmas styx_sizes = NAMELEN_def ERRLEN_def DIRLEN_def

text \<open>\<open>f->type\<close> where it is used as a number: a signed \<open>char\<close>.\<close>

definition ftype :: "Fcall \<Rightarrow> int" where
  "ftype f = sint (f_type f)"

section \<open>Writers\<close>

type_synonym writer = "store \<times> nat \<Rightarrow> store \<times> nat"

text \<open>\<open>memmove(p, q, n)\<close> within one memory, and the store of a list of bytes.\<close>

definition move :: "nat \<Rightarrow> nat \<Rightarrow> nat \<Rightarrow> store \<Rightarrow> store" where
  "move p q n m = (\<lambda>i. if p \<le> i \<and> i < p + n then m (q + (i - p)) else m i)"

definition put :: "byte list \<Rightarrow> writer" where
  "put bs = (\<lambda>(m, p). (\<lambda>i. if p \<le> i \<and> i < p + length bs then bs ! (i - p) else m i, p + length bs))"

definition PCHAR :: "byte \<Rightarrow> writer" where
  "PCHAR x = put [x]"

definition PSHORT :: "int \<Rightarrow> writer" where
  "PSHORT x = put [uchar x, uchar (drop_bit 8 x)]"

definition PLONG :: "int \<Rightarrow> writer" where
  "PLONG x = put [uchar x, uchar (drop_bit 8 x), uchar (drop_bit 16 x), uchar (drop_bit 24 x)]"

definition PVLONG :: "int \<Rightarrow> writer" where
  "PVLONG x = put [uchar x, uchar (drop_bit 8 x), uchar (drop_bit 16 x), uchar (drop_bit 24 x),
     0, 0, 0, 0]"

definition PSTRING :: "byte list \<Rightarrow> nat \<Rightarrow> writer" where
  "PSTRING x n = put (take n x)"

text \<open>\<open>p++\<close> over the padding byte, which keeps what it held, and \<open>PSTRING(data, f->count)\<close>, where
  the count is a \<open>size_t\<close> to \<open>memmove\<close> and a signed \<open>long\<close> to the pointer.\<close>

definition PPAD :: writer where
  "PPAD = (\<lambda>(m, p). (m, p + 1))"

definition PDATA :: "nat \<Rightarrow> u32 \<Rightarrow> writer" where
  "PDATA q count = (\<lambda>(m, p). (move p q (unat count) m, nat (int p + sint count)))"

definition puts :: "writer list \<Rightarrow> writer" where
  "puts ws = fold (\<lambda>w s. w s) ws"

section \<open>Readers\<close>

type_synonym 'r reader = "store \<Rightarrow> 'r \<times> nat \<Rightarrow> 'r \<times> nat"

definition get16 :: "store \<Rightarrow> nat \<Rightarrow> u32" where
  "get16 m p = ucast (m p) OR push_bit 8 (ucast (m (p + 1)))"

definition get32 :: "store \<Rightarrow> nat \<Rightarrow> u32" where
  "get32 m p = ucast (m p) OR push_bit 8 (ucast (m (p + 1))) OR push_bit 16 (ucast (m (p + 2))) OR
     push_bit 24 (ucast (m (p + 3)))"

text \<open>Each takes the assignment to the field; \<open>GSHORT\<close> and the others hand it the \<open>int\<close> they computed.\<close>

definition GCHAR :: "(byte \<Rightarrow> 'r \<Rightarrow> 'r) \<Rightarrow> 'r reader" where
  "GCHAR x = (\<lambda>m (f, p). (x (m p) f, p + 1))"

definition GSHORT :: "(u32 \<Rightarrow> 'r \<Rightarrow> 'r) \<Rightarrow> 'r reader" where
  "GSHORT x = (\<lambda>m (f, p). (x (get16 m p) f, p + 2))"

definition GLONG :: "(u32 \<Rightarrow> 'r \<Rightarrow> 'r) \<Rightarrow> 'r reader" where
  "GLONG x = (\<lambda>m (f, p). (x (get32 m p) f, p + 4))"

definition GVLONG :: "(u32 \<Rightarrow> 'r \<Rightarrow> 'r) \<Rightarrow> 'r reader" where
  "GVLONG x = (\<lambda>m (f, p). (x (get32 m p) f, p + 8))"

definition GSTRING :: "(byte list \<Rightarrow> 'r \<Rightarrow> 'r) \<Rightarrow> nat \<Rightarrow> 'r reader" where
  "GSTRING x n = (\<lambda>m (f, p). (x (bytes_at (ptr_add m p) n) f, p + n))"

definition gets :: "'r reader list \<Rightarrow> 'r reader" where
  "gets rs m = fold (\<lambda>r s. r m s) rs"

section \<open>Directory entries\<close>

definition set_qid_path :: "u32 \<Rightarrow> Qid \<Rightarrow> Qid" where
  "set_qid_path v q = q\<lparr>path := v\<rparr>"

definition set_qid_vers :: "u32 \<Rightarrow> Qid \<Rightarrow> Qid" where
  "set_qid_vers v q = q\<lparr>vers := v\<rparr>"

definition convD2M :: "Dir \<Rightarrow> nat \<Rightarrow> store \<Rightarrow> nat \<times> store" where
  "convD2M f ap m =
    (let (m', p) = puts [
       PSTRING (dir_name f) NAMELEN,
       PSTRING (dir_uid f) NAMELEN,
       PSTRING (dir_gid f) NAMELEN,
       PLONG (uint (path (dir_qid f))),
       PLONG (uint (vers (dir_qid f))),
       PLONG (uint (dir_mode f)),
       PLONG (sint (dir_atime f)),
       PLONG (sint (dir_mtime f)),
       PVLONG (uint (dir_length f)),
       PSHORT (uint (dir_type f)),
       PSHORT (uint (dir_dev f))] (m, ap)
     in (p - ap, m'))"

definition convM2D :: "store \<Rightarrow> nat \<Rightarrow> Dir \<Rightarrow> nat \<times> Dir" where
  "convM2D m ap f =
    (let (f', p) = gets [
       GSTRING (\<lambda>v f. f\<lparr>dir_name := v\<rparr>) NAMELEN,
       GSTRING (\<lambda>v f. f\<lparr>dir_uid := v\<rparr>) NAMELEN,
       GSTRING (\<lambda>v f. f\<lparr>dir_gid := v\<rparr>) NAMELEN,
       GLONG (\<lambda>v f. f\<lparr>dir_qid := set_qid_path v (dir_qid f)\<rparr>),
       GLONG (\<lambda>v f. f\<lparr>dir_qid := set_qid_vers v (dir_qid f)\<rparr>),
       GLONG (\<lambda>v f. f\<lparr>dir_mode := v\<rparr>),
       GLONG (\<lambda>v f. f\<lparr>dir_atime := v\<rparr>),
       GLONG (\<lambda>v f. f\<lparr>dir_mtime := v\<rparr>),
       GVLONG (\<lambda>v f. f\<lparr>dir_length := v\<rparr>),
       GSHORT (\<lambda>v f. f\<lparr>dir_type := ucast v\<rparr>),
       GSHORT (\<lambda>v f. f\<lparr>dir_dev := ucast v\<rparr>)] m (f, ap)
     in (p - ap, f'))"

section \<open>Messages\<close>

definition S_fid :: "Fcall \<Rightarrow> writer" where
  "S_fid f = PSHORT (sint (f_fid f))"

definition S_qid :: "Fcall \<Rightarrow> writer list" where
  "S_qid f = [PLONG (uint (path (f_qid f))), PLONG (uint (vers (f_qid f)))]"

text \<open>The body of each kind of message, as the cases of \<open>convS2M\<close> write it; \<open>None\<close> for the default.\<close>

definition S_body :: "Fcall \<Rightarrow> writer list option" where
  "S_body f = (let t = ftype f in
    if t = Tnop then Some []
    else if t = Tflush then Some [PSHORT (uint (f_oldtag f))]
    else if t = Tattach then
      Some [S_fid f, PSTRING (f_uname f) NAMELEN, PSTRING (f_aname f) NAMELEN]
    else if t = Tclone then Some [S_fid f, PSHORT (sint (f_newfid f))]
    else if t = Twalk then Some [S_fid f, PSTRING (f_name f) NAMELEN]
    else if t = Topen then Some [S_fid f, PCHAR (f_mode f)]
    else if t = Tcreate then
      Some [S_fid f, PSTRING (f_name f) NAMELEN, PLONG (sint (f_perm f)), PCHAR (f_mode f)]
    else if t = Tread then
      Some [S_fid f, PVLONG (sint (f_offset f)), PSHORT (sint (f_count f))]
    else if t = Twrite then
      Some [S_fid f, PVLONG (sint (f_offset f)), PSHORT (sint (f_count f)), PPAD,
        PDATA (f_data f) (f_count f)]
    else if t = Tclunk then Some [S_fid f]
    else if t = Tremove then Some [S_fid f]
    else if t = Tstat then Some [S_fid f]
    else if t = Twstat then Some [S_fid f, PSTRING (f_stat f) DIRLEN]
    else if t = Rnop then Some []
    else if t = Rerror then Some [PSTRING (f_ename f) ERRLEN]
    else if t = Rflush then Some []
    else if t = Rattach then Some (S_fid f # S_qid f)
    else if t = Rclone then Some [S_fid f]
    else if t = Rwalk then Some (S_fid f # S_qid f)
    else if t = Ropen then Some (S_fid f # S_qid f)
    else if t = Rcreate then Some (S_fid f # S_qid f)
    else if t = Rread then
      Some [S_fid f, PSHORT (sint (f_count f)), PPAD, PDATA (f_data f) (f_count f)]
    else if t = Rwrite then Some [S_fid f, PSHORT (sint (f_count f))]
    else if t = Rclunk then Some [S_fid f]
    else if t = Rremove then Some [S_fid f]
    else if t = Rstat then Some [S_fid f, PSTRING (f_stat f) DIRLEN]
    else if t = Rwstat then Some [S_fid f]
    else None)"

text \<open>\<open>convS2M(f, ap)\<close>: the length of the message, or -1, and the memory.\<close>

definition convS2M :: "Fcall \<Rightarrow> nat \<Rightarrow> store \<Rightarrow> int \<times> store" where
  "convS2M f ap m =
    (let (m1, p) = puts [PCHAR (f_type f), PSHORT (uint (f_tag f))] (m, ap)
     in case S_body f of
          None \<Rightarrow> (-1, m1)
        | Some ws \<Rightarrow> let (m2, q) = puts ws (m1, p) in (int q - int ap, m2))"

text \<open>\<open>msglen\<close>: 28 initial values for an array of \<open>Tmax\<close>, the rest of which is zero.\<close>

definition msglen_init :: "int list" where
  "msglen_init = [3, 3, 0, 67, 5, 3, 7, 5, 33, 13, 6, 13, 38, 13, 15, 8, 16, 7, 5, 5, 5, 5, 5, 121,
     121, 5, 5 + 2 * int NAMELEN, 13]"

text \<open>\<open>None\<close> stands for an index outside the array.\<close>

definition msglen :: "int \<Rightarrow> int option" where
  "msglen t = (if t < 0 \<or> t \<ge> Tmax then None
     else Some (if nat t < length msglen_init then msglen_init ! nat t else 0))"

definition G_fid :: "Fcall reader" where
  "G_fid = GSHORT (\<lambda>v f. f\<lparr>f_fid := ucast v\<rparr>)"

definition G_qid :: "Fcall reader list" where
  "G_qid = [GLONG (\<lambda>v f. f\<lparr>f_qid := set_qid_path v (f_qid f)\<rparr>),
     GLONG (\<lambda>v f. f\<lparr>f_qid := set_qid_vers v (f_qid f)\<rparr>)]"

definition G_name :: "Fcall reader" where
  "G_name = GSTRING (\<lambda>v f. f\<lparr>f_name := v\<rparr>) NAMELEN"

definition G_stat :: "Fcall reader" where
  "G_stat = GSTRING (\<lambda>v f. f\<lparr>f_stat := v\<rparr>) DIRLEN"

definition G_offset :: "Fcall reader" where
  "G_offset = GVLONG (\<lambda>v f. f\<lparr>f_offset := v\<rparr>)"

definition G_count :: "Fcall reader" where
  "G_count = GSHORT (\<lambda>v f. f\<lparr>f_count := v\<rparr>)"

definition G_mode :: "Fcall reader" where
  "G_mode = GCHAR (\<lambda>v f. f\<lparr>f_mode := v\<rparr>)"

text \<open>What a case of \<open>convM2S\<close> reads, and whether it goes on to the test of the count and the data.\<close>

definition G_body :: "int \<Rightarrow> (Fcall reader list \<times> bool) option" where
  "G_body t = (
    if t = Tnop then Some ([], False)
    else if t = Tflush then Some ([GSHORT (\<lambda>v f. f\<lparr>f_oldtag := ucast v\<rparr>)], False)
    else if t = Tattach then
      Some ([G_fid, GSTRING (\<lambda>v f. f\<lparr>f_uname := v\<rparr>) NAMELEN,
        GSTRING (\<lambda>v f. f\<lparr>f_aname := v\<rparr>) NAMELEN], False)
    else if t = Tclone then Some ([G_fid, GSHORT (\<lambda>v f. f\<lparr>f_newfid := ucast v\<rparr>)], False)
    else if t = Twalk then Some ([G_fid, G_name], False)
    else if t = Topen then Some ([G_fid, G_mode], False)
    else if t = Tcreate then
      Some ([G_fid, G_name, GLONG (\<lambda>v f. f\<lparr>f_perm := v\<rparr>), G_mode], False)
    else if t = Tread then Some ([G_fid, G_offset, G_count], False)
    else if t = Twrite then Some ([G_fid, G_offset, G_count], True)
    else if t = Tclunk then Some ([G_fid], False)
    else if t = Tremove then Some ([G_fid], False)
    else if t = Tstat then Some ([G_fid], False)
    else if t = Twstat then Some ([G_fid, G_stat], False)
    else if t = Rnop then Some ([], False)
    else if t = Rerror then Some ([GSTRING (\<lambda>v f. f\<lparr>f_ename := v\<rparr>) ERRLEN], False)
    else if t = Rflush then Some ([], False)
    else if t = Rattach then Some (G_fid # G_qid, False)
    else if t = Rclone then Some ([G_fid], False)
    else if t = Rwalk then Some (G_fid # G_qid, False)
    else if t = Ropen then Some (G_fid # G_qid, False)
    else if t = Rcreate then Some (G_fid # G_qid, False)
    else if t = Rread then Some ([G_fid, G_count], True)
    else if t = Rwrite then Some ([G_fid, G_count], False)
    else if t = Rclunk then Some ([G_fid], False)
    else if t = Rremove then Some ([G_fid], False)
    else if t = Rstat then Some ([G_fid, G_stat], False)
    else if t = Rwstat then Some ([G_fid], False)
    else None)"

text \<open>
  \<open>convM2S(ap, f, n)\<close>: the structure and the result; the number of bytes of the message, 0 if the
  \<open>n\<close> bytes are not a whole message, -1 for an unknown type. \<open>None\<close> where \<open>msglen\<close> is read outside
  the array. The second half starts at the test of the length.
\<close>

definition M2S_body :: "store \<Rightarrow> nat \<Rightarrow> int \<Rightarrow> Fcall \<times> nat \<Rightarrow> (Fcall \<times> int) option" where
  "M2S_body m ap n = (\<lambda>(f1, p1).
     case msglen (ftype f1) of
       None \<Rightarrow> None
     | Some len \<Rightarrow>
         if n < len then Some (f1, 0)
         else (case G_body (ftype f1) of
           None \<Rightarrow> Some (f1, -1)
         | Some (rs, carries) \<Rightarrow>
             let (f2, p2) = gets rs m (f1, p1) in
             if \<not> carries then Some (f2, int p2 - int ap)
             else if n < len + sint (f_count f2) then Some (f2, 0)
             else let p = p2 + 1; f3 = f2\<lparr>f_data := p\<rparr>
                  in Some (f3, int p + sint (f_count f3) - int ap)))"

definition convM2S :: "store \<Rightarrow> nat \<Rightarrow> Fcall \<Rightarrow> int \<Rightarrow> (Fcall \<times> int) option" where
  "convM2S m ap f n =
    (if n < 3 then Some (f, 0)
     else M2S_body m ap n
       (gets [GCHAR (\<lambda>v f. f\<lparr>f_type := v\<rparr>), GSHORT (\<lambda>v f. f\<lparr>f_tag := ucast v\<rparr>)] m (f, ap)))"

section \<open>What a message says\<close>

datatype message =
    Nop_T
  | Flush_T u16
  | Attach_T u16 "byte list" "byte list"
  | Clone_T u16 u16
  | Walk_T u16 "byte list"
  | Open_T u16 byte
  | Create_T u16 "byte list" u32 byte
  | Read_T u16 u32 u32
  | Write_T u16 u32 "byte list"
  | Clunk_T u16
  | Remove_T u16
  | Stat_T u16
  | Wstat_T u16 "byte list"
  | Nop_R
  | Error_R "byte list"
  | Flush_R
  | Attach_R u16 Qid
  | Clone_R u16
  | Walk_R u16 Qid
  | Open_R u16 Qid
  | Create_R u16 Qid
  | Read_R u16 "byte list"
  | Write_R u16 u32
  | Clunk_R u16
  | Remove_R u16
  | Stat_R u16 "byte list"
  | Wstat_R u16

definition data_of :: "store \<Rightarrow> Fcall \<Rightarrow> byte list" where
  "data_of m f = bytes_at (ptr_add m (f_data f)) (unat (f_count f))"

definition msg_of :: "store \<Rightarrow> Fcall \<Rightarrow> message option" where
  "msg_of m f = (let t = ftype f; fid = f_fid f in
    if t = Tnop then Some Nop_T
    else if t = Tflush then Some (Flush_T (f_oldtag f))
    else if t = Tattach then Some (Attach_T fid (f_uname f) (f_aname f))
    else if t = Tclone then Some (Clone_T fid (f_newfid f))
    else if t = Twalk then Some (Walk_T fid (f_name f))
    else if t = Topen then Some (Open_T fid (f_mode f))
    else if t = Tcreate then Some (Create_T fid (f_name f) (f_perm f) (f_mode f))
    else if t = Tread then Some (Read_T fid (f_offset f) (f_count f))
    else if t = Twrite then Some (Write_T fid (f_offset f) (data_of m f))
    else if t = Tclunk then Some (Clunk_T fid)
    else if t = Tremove then Some (Remove_T fid)
    else if t = Tstat then Some (Stat_T fid)
    else if t = Twstat then Some (Wstat_T fid (f_stat f))
    else if t = Rnop then Some Nop_R
    else if t = Rerror then Some (Error_R (f_ename f))
    else if t = Rflush then Some Flush_R
    else if t = Rattach then Some (Attach_R fid (f_qid f))
    else if t = Rclone then Some (Clone_R fid)
    else if t = Rwalk then Some (Walk_R fid (f_qid f))
    else if t = Ropen then Some (Open_R fid (f_qid f))
    else if t = Rcreate then Some (Create_R fid (f_qid f))
    else if t = Rread then Some (Read_R fid (data_of m f))
    else if t = Rwrite then Some (Write_R fid (f_count f))
    else if t = Rclunk then Some (Clunk_R fid)
    else if t = Rremove then Some (Remove_R fid)
    else if t = Rstat then Some (Stat_R fid (f_stat f))
    else if t = Rwstat then Some (Wstat_R fid)
    else None)"

text \<open>The kinds that carry data, and the kinds that have a count at all.\<close>

definition has_data :: "Fcall \<Rightarrow> bool" where
  "has_data f \<longleftrightarrow> ftype f = Twrite \<or> ftype f = Rread"

definition has_count :: "Fcall \<Rightarrow> bool" where
  "has_count f \<longleftrightarrow> has_data f \<or> ftype f = Tread \<or> ftype f = Rwrite"

text \<open>The number of a kind, and the bytes that stand for a message on the wire.\<close>

fun kind :: "message \<Rightarrow> int" where
  "kind Nop_T = Tnop"
| "kind (Flush_T _) = Tflush"
| "kind (Attach_T _ _ _) = Tattach"
| "kind (Clone_T _ _) = Tclone"
| "kind (Walk_T _ _) = Twalk"
| "kind (Open_T _ _) = Topen"
| "kind (Create_T _ _ _ _) = Tcreate"
| "kind (Read_T _ _ _) = Tread"
| "kind (Write_T _ _ _) = Twrite"
| "kind (Clunk_T _) = Tclunk"
| "kind (Remove_T _) = Tremove"
| "kind (Stat_T _) = Tstat"
| "kind (Wstat_T _ _) = Twstat"
| "kind Nop_R = Rnop"
| "kind (Error_R _) = Rerror"
| "kind Flush_R = Rflush"
| "kind (Attach_R _ _) = Rattach"
| "kind (Clone_R _) = Rclone"
| "kind (Walk_R _ _) = Rwalk"
| "kind (Open_R _ _) = Ropen"
| "kind (Create_R _ _) = Rcreate"
| "kind (Read_R _ _) = Rread"
| "kind (Write_R _ _) = Rwrite"
| "kind (Clunk_R _) = Rclunk"
| "kind (Remove_R _) = Rremove"
| "kind (Stat_R _ _) = Rstat"
| "kind (Wstat_R _) = Rwstat"

definition le16 :: "u16 \<Rightarrow> byte list" where
  "le16 w = [ucast w, ucast (drop_bit 8 w)]"

definition le32 :: "u32 \<Rightarrow> byte list" where
  "le32 w = [ucast w, ucast (drop_bit 8 w), ucast (drop_bit 16 w), ucast (drop_bit 24 w)]"

definition le64 :: "u32 \<Rightarrow> byte list" where
  "le64 w = le32 w @ [0, 0, 0, 0]"

definition le_qid :: "Qid \<Rightarrow> byte list" where
  "le_qid q = le32 (path q) @ le32 (vers q)"

fun wire_body :: "byte \<Rightarrow> message \<Rightarrow> byte list" where
  "wire_body pad Nop_T = []"
| "wire_body pad (Flush_T old) = le16 old"
| "wire_body pad (Attach_T fid u a) = le16 fid @ u @ a"
| "wire_body pad (Clone_T fid new) = le16 fid @ le16 new"
| "wire_body pad (Walk_T fid x) = le16 fid @ x"
| "wire_body pad (Open_T fid mode) = le16 fid @ [mode]"
| "wire_body pad (Create_T fid x perm mode) = le16 fid @ x @ le32 perm @ [mode]"
| "wire_body pad (Read_T fid off n) = le16 fid @ le64 off @ le16 (ucast n)"
| "wire_body pad (Write_T fid off bs) =
     le16 fid @ le64 off @ le16 (of_nat (length bs)) @ [pad] @ bs"
| "wire_body pad (Clunk_T fid) = le16 fid"
| "wire_body pad (Remove_T fid) = le16 fid"
| "wire_body pad (Stat_T fid) = le16 fid"
| "wire_body pad (Wstat_T fid st) = le16 fid @ st"
| "wire_body pad Nop_R = []"
| "wire_body pad (Error_R e) = e"
| "wire_body pad Flush_R = []"
| "wire_body pad (Attach_R fid q) = le16 fid @ le_qid q"
| "wire_body pad (Clone_R fid) = le16 fid"
| "wire_body pad (Walk_R fid q) = le16 fid @ le_qid q"
| "wire_body pad (Open_R fid q) = le16 fid @ le_qid q"
| "wire_body pad (Create_R fid q) = le16 fid @ le_qid q"
| "wire_body pad (Read_R fid bs) = le16 fid @ le16 (of_nat (length bs)) @ [pad] @ bs"
| "wire_body pad (Write_R fid n) = le16 fid @ le16 (ucast n)"
| "wire_body pad (Clunk_R fid) = le16 fid"
| "wire_body pad (Remove_R fid) = le16 fid"
| "wire_body pad (Stat_R fid st) = le16 fid @ st"
| "wire_body pad (Wstat_R fid) = le16 fid"

definition wire :: "byte \<Rightarrow> u16 \<Rightarrow> message \<Rightarrow> byte list" where
  "wire pad tag g = uchar (kind g) # le16 tag @ wire_body pad g"

text \<open>The arrays of a message have their sizes, and a count or the data fit in two bytes.\<close>

fun message_ok :: "message \<Rightarrow> bool" where
  "message_ok (Attach_T _ u a) = (length u = NAMELEN \<and> length a = NAMELEN)"
| "message_ok (Walk_T _ x) = (length x = NAMELEN)"
| "message_ok (Create_T _ x _ _) = (length x = NAMELEN)"
| "message_ok (Read_T _ _ n) = (unat n < 65536)"
| "message_ok (Write_T _ _ bs) = (length bs < 65536)"
| "message_ok (Wstat_T _ st) = (length st = DIRLEN)"
| "message_ok (Error_R e) = (length e = ERRLEN)"
| "message_ok (Read_R _ bs) = (length bs < 65536)"
| "message_ok (Write_R _ n) = (unat n < 65536)"
| "message_ok (Stat_R _ st) = (length st = DIRLEN)"
| "message_ok _ = True"

text \<open>
  What a caller of \<open>convS2M\<close> has to see to: a count that fits in two bytes, and data that does not
  lie where the header is written, except behind its end (\<open>exportfs\<close> puts the data where it has to
  go).
\<close>

definition data_start :: "Fcall \<Rightarrow> nat" where
  "data_start f = (if ftype f = Twrite then 16 else 8)"

definition sendable :: "Fcall \<Rightarrow> nat \<Rightarrow> bool" where
  "sendable f ap \<longleftrightarrow> fcall_ok f \<and> (has_count f \<longrightarrow> unat (f_count f) < 65536) \<and>
     (has_data f \<longrightarrow> f_data f + unat (f_count f) \<le> ap \<or> ap + data_start f \<le> f_data f)"

section \<open>Writing and reading back\<close>

named_theorems styx_run \<open>readers over what the writers left\<close>

lemma puts_simps [simp]:
  "puts [] s = s"
  "puts (w # ws) s = puts ws (w s)"
  by (simp_all add: puts_def)

lemma gets_simps [simp]:
  "gets [] m s = s"
  "gets (r # rs) m s = gets rs m (r m s)"
  by (simp_all add: gets_def)

lemma put_put [simp]: "put bs (put as (m, p)) = put (as @ bs) (m, p)"
  by (rule prod_eqI) (auto simp: put_def nth_append fun_eq_iff)

lemma snd_put: "snd (put bs (m, p)) = p + length bs"
  by (simp add: put_def)

lemma holds_put: "holds (ptr_add (fst (put bs (m, p))) p) bs"
  by (simp add: holds_def put_def)

lemma put_outside: "i < p \<or> p + length bs \<le> i \<Longrightarrow> fst (put bs (m, p)) i = m i"
  by (auto simp: put_def)

lemmas writer_defs = PCHAR_def PSHORT_def PLONG_def PVLONG_def PSTRING_def S_fid_def S_qid_def

text \<open>The bytes of a number, as the writers compute them and as the wire format has them.\<close>

lemma bytes_of_short:
  fixes w :: u16
  shows "uchar (sint w) = ucast w" "uchar (uint w) = ucast w"
    "uchar (drop_bit 8 (sint w)) = ucast (drop_bit 8 w)"
    "uchar (drop_bit 8 (uint w)) = ucast (drop_bit 8 w)"
  by (auto simp: uchar_def bit_simps intro!: bit_word_eqI)

lemma bytes_of_long:
  fixes w :: u32
  shows "uchar (sint w) = ucast w" "uchar (uint w) = ucast w"
    "uchar (drop_bit 8 (sint w)) = ucast (drop_bit 8 w)"
    "uchar (drop_bit 8 (uint w)) = ucast (drop_bit 8 w)"
    "uchar (drop_bit 16 (sint w)) = ucast (drop_bit 16 w)"
    "uchar (drop_bit 16 (uint w)) = ucast (drop_bit 16 w)"
    "uchar (drop_bit 24 (sint w)) = ucast (drop_bit 24 w)"
    "uchar (drop_bit 24 (uint w)) = ucast (drop_bit 24 w)"
  by (auto simp: uchar_def bit_simps intro!: bit_word_eqI)

lemma count_run:
  fixes w :: u32
  shows "PSHORT (sint w) = put (le16 (ucast w))"
proof -
  have "uchar (sint w) = ucast (ucast w :: u16)"
    "uchar (drop_bit 8 (sint w)) = ucast (drop_bit 8 (ucast w :: u16))"
    by (auto simp: uchar_def bit_simps intro!: bit_word_eqI)
  then show ?thesis by (simp only: PSHORT_def le16_def)
qed

lemma writer_run [styx_run]:
  "PCHAR c = put [c]"
  "PSHORT (sint (v :: u16)) = put (le16 v)"
  "PSHORT (uint (v :: u16)) = put (le16 v)"
  "PLONG (sint w) = put (le32 w)"
  "PLONG (uint w) = put (le32 w)"
  "PVLONG (sint w) = put (le64 w)"
  "PVLONG (uint w) = put (le64 w)"
  "PSTRING s n = put (take n s)"
  "S_fid f = put (le16 (f_fid f))"
  "S_qid f = [put (le32 (path (f_qid f))), put (le32 (vers (f_qid f)))]"
  by (simp_all add: PCHAR_def PSHORT_def PLONG_def PVLONG_def PSTRING_def S_fid_def S_qid_def
      le16_def le32_def le64_def bytes_of_short bytes_of_long count_run)

lemmas styx_run_count = count_run [styx_run]

lemma length_le [simp]:
  "length (le16 v) = 2" "length (le32 w) = 4" "length (le64 w) = 8" "length (le_qid q) = 8"
  by (simp_all add: le16_def le32_def le64_def le_qid_def)

text \<open>What the readers make of these bytes.\<close>

lemma get16_le16 [simp]:
  assumes "holds (ptr_add m p) (le16 v)"
  shows "get16 m p = ucast v"
proof (rule bit_word_eqI)
  fix n assume "n < LENGTH(32)"
  then consider "n < 8" | "8 \<le> n" "n < 16" | "16 \<le> n" "n < 32"
    by fastforce
  then show "bit (get16 m p) n = bit (ucast v :: u32) n"
    using assms
    by cases (auto simp: get16_def le16_def bit_simps less_diff_conv2 dest: bit_imp_le_length)
qed

lemma get32_le32 [simp]:
  assumes "holds (ptr_add m p) (le32 w)"
  shows "get32 m p = w"
proof (rule bit_word_eqI)
  fix n assume "n < LENGTH(32)"
  then consider "n < 8" | "8 \<le> n" "n < 16" | "16 \<le> n" "n < 24" | "24 \<le> n" "n < 32"
    by fastforce
  then show "bit (get32 m p) n = bit w n"
    using assms by cases (simp_all add: get32_def le32_def bit_simps less_diff_conv2 numeral_3_eq_3)
qed

lemma get32_le64 [simp]: "holds (ptr_add m p) (le64 w) \<Longrightarrow> get32 m p = w"
  by (simp add: le64_def)

lemma holds_bytes [simp]: "holds (ptr_add m p) bs \<Longrightarrow> bytes_at (ptr_add m p) (length bs) = bs"
  by (simp add: holds_iff_bytes_at)

lemma ucast_short [simp]: "ucast (ucast (v :: u16) :: u32) = v"
  by (rule bit_word_eqI) (simp add: bit_simps)

lemma ucast_count:
  fixes w :: u32
  assumes "unat w < 65536"
  shows "ucast (ucast w :: u16) = w"
proof -
  have "uint w < 65536"
    using assms by (simp only: unat_eq_nat_uint zless_nat_eq_int_zless nat_less_iff)
  then have "take_bit 16 (uint w) = uint w"
    by (simp add: take_bit_eq_mod)
  then show ?thesis
    by (simp only: word_uint_eq_iff unsigned_ucast_eq) (simp add: unsigned_take_bit_eq)
qed

lemma dir_image:
  assumes "dir_ok d"
  defines "bs \<equiv> dir_name d @ dir_uid d @ dir_gid d @ le_qid (dir_qid d) @ le32 (dir_mode d) @
    le32 (dir_atime d) @ le32 (dir_mtime d) @ le64 (dir_length d) @ le16 (dir_type d) @ le16 (dir_dev d)"
  shows "convD2M d ap m = (DIRLEN, fst (put bs (m, ap)))"
    and "holds (ptr_add m' ap) bs \<Longrightarrow> convM2D m' ap d0 = (DIRLEN, d)"
proof -
  have len: "length (dir_name d) = 28" "length (dir_uid d) = 28" "length (dir_gid d) = 28"
    using assms(1) by (simp_all add: dir_ok_def styx_sizes)
  show "convD2M d ap m = (DIRLEN, fst (put bs (m, ap)))"
    by (simp add: convD2M_def styx_run bs_def len styx_sizes case_prod_unfold snd_put le_qid_def)
  assume "holds (ptr_add m' ap) bs"
  then show "convM2D m' ap d0 = (DIRLEN, d)"
    unfolding bs_def convM2D_def
    by (simp add: GSHORT_def GLONG_def GVLONG_def GSTRING_def len styx_sizes le_qid_def)
      (insert len, cases d, cases "dir_qid d", cases d0,
        clarsimp simp: set_qid_path_def set_qid_vers_def, simp add: holds_iff_bytes_at)
qed


section \<open>The wire format\<close>

lemmas G_defs = G_fid_def G_qid_def G_name_def G_stat_def G_offset_def G_count_def G_mode_def

lemmas G_run = GCHAR_def GSHORT_def GLONG_def GVLONG_def GSTRING_def

lemma kind_range: "0 \<le> kind g" "kind g < Tmax"
  by (cases g; simp add: styx_types)+

lemma ftype_kind [simp]: "sint (uchar (kind g)) = kind g"
  by (cases g) (simp_all add: uchar_def styx_types)

text \<open>The length that \<open>msglen\<close> holds for a kind, and what it is short of the message.\<close>

lemma msglen_kind:
  "msglen (kind g) = Some (if kind g = Tattach \<or> kind g = Rattach then 0
     else case g of Write_T _ _ _ \<Rightarrow> 16 | Read_R _ _ \<Rightarrow> 8 | _ \<Rightarrow> int (length (wire pad tag g)))"
  if "message_ok g"
  using that by (cases g) (simp_all add: msglen_def msglen_init_def styx_types styx_sizes wire_def)

lemma convM2S_start:
  assumes "holds (ptr_add m ap) (uchar (kind g) # le16 tag)" "3 \<le> n"
  shows "convM2S m ap f0 n = M2S_body m ap n (f0\<lparr>f_type := uchar (kind g), f_tag := tag\<rparr>, ap + 3)"
  using assms by (clarsimp simp: convM2S_def G_run numeral_3_eq_3)

lemma length_wire:
  "length (wire pad tag g) = 3 + length (wire_body pad g)"
  by (simp add: wire_def)

lemma sint_count:
  fixes w :: u32
  assumes "unat w < 65536"
  shows "sint w = int (unat w)"
proof -
  have "uint w < 65536"
    using assms by (simp only: unat_eq_nat_uint zless_nat_eq_int_zless nat_less_iff)
  then show ?thesis
    by (simp add: sint_uint signed_take_bit_eq_if_positive bit_iff_odd take_bit_eq_mod)
qed

lemma set_qid [simp]: "set_qid_vers (vers q) (set_qid_path (path q) q0) = q"
  by (simp add: set_qid_vers_def set_qid_path_def)

lemma of_nat_count:
  assumes "k < 65536"
  shows "ucast (of_nat k :: u16) = (of_nat k :: u32)" "unat (of_nat k :: u32) = k" "sint (of_nat k :: u32) = int k"
proof -
  show u: "unat (of_nat k :: u32) = k"
    using assms by (simp add: unat_of_nat take_bit_eq_mod)
  then show "sint (of_nat k :: u32) = int k"
    using assms by (simp add: sint_count)
  have "ucast (of_nat k :: u16) = (ucast (ucast (of_nat k :: u32) :: u16) :: u32)"
    by (rule bit_word_eqI) (auto simp: bit_simps)
  then show "ucast (of_nat k :: u16) = (of_nat k :: u32)"
    using ucast_count [of "of_nat k"] u assms by simp
qed

lemma decode_wire:
  assumes ok: "message_ok g" and mem: "holds (ptr_add m ap) (wire pad tag g)"
    and n: "int (length (wire pad tag g)) \<le> n"
  shows "\<exists>f. convM2S m ap f0 n = Some (f, int (length (wire pad tag g))) \<and> f_tag f = tag \<and>
    (\<forall>m'. holds (ptr_add m' ap) (wire pad tag g) \<longrightarrow> msg_of m' f = Some g)"
proof -
  have body: "holds (ptr_add m (ap + 3)) (wire_body pad g)" and
    start: "holds (ptr_add m ap) (uchar (kind g) # le16 tag)"
    using mem by (simp_all add: wire_def numeral_3_eq_3)
  have later: "holds (ptr_add m' (ap + 3)) (wire_body pad g)" if "holds (ptr_add m' ap) (wire pad tag g)" for m'
    using that by (simp add: wire_def numeral_3_eq_3)
  have conv: "convM2S m ap f0 n =
      M2S_body m ap n (f0\<lparr>f_type := uchar (kind g), f_tag := tag\<rparr>, ap + 3)"
    using n by (intro convM2S_start start) (simp add: length_wire)
  note run = M2S_body_def conv ftype_def msglen_def msglen_init_def G_body_def G_defs G_run styx_types styx_sizes
    msg_of_def length_wire uchar_def
  have "\<exists>f. convM2S m ap f0 n = Some (f, int (length (wire pad tag g))) \<and> f_tag f = tag \<and>
    (\<forall>m'. holds (ptr_add m' (ap + 3)) (wire_body pad g) \<longrightarrow> msg_of m' f = Some g)"
    using ok n body
    by (cases g; simp; (simp add: le_qid_def)?; (elim conjE)?;
      simp add: run ucast_count of_nat_count data_of_def; (simp add: holds_iff_bytes_at)?)
  then show ?thesis using later by blast
qed

text \<open>
  Fewer bytes than the message has are not taken for a message, because the header of the type says
  how long it is; this is not so for \<open>Tattach\<close> and \<open>Rattach\<close>, whose entries of \<open>msglen\<close> are zero.
\<close>

lemma short_wire:
  assumes ok: "message_ok g" and mem: "holds (ptr_add m ap) (take k (wire pad tag g))"
    and k: "k < length (wire pad tag g)" and kind: "kind g \<noteq> Tattach" "kind g \<noteq> Rattach"
  shows "\<exists>f. convM2S m ap f0 (int k) = Some (f, 0)"
proof (cases "k < 3")
  case True
  then show ?thesis by (simp add: convM2S_def)
next
  case False
  then have start: "holds (ptr_add m ap) (uchar (kind g) # le16 tag)"
    and body: "holds (ptr_add m (ap + 3)) (take (k - 3) (wire_body pad g))"
    using mem by (simp_all add: wire_def take_Cons' numeral_3_eq_3)
  have conv: "convM2S m ap f0 (int k) =
      M2S_body m ap (int k) (f0\<lparr>f_type := uchar (kind g), f_tag := tag\<rparr>, ap + 3)"
    using False by (intro convM2S_start start) simp
  note run = M2S_body_def conv ftype_def msglen_def msglen_init_def G_body_def G_defs G_run styx_types
    styx_sizes length_wire uchar_def
  have w: "get16 m (13 + ap) = of_nat (length bs)" if "g = Write_T fid off bs" "\<not> k < 16" for fid off bs
    using body ok that by (clarsimp simp: take_Cons' of_nat_count add.commute)
  have r: "get16 m (5 + ap) = of_nat (length bs)" if "g = Read_R fid bs" "\<not> k < 8" for fid bs
    using body ok that by (clarsimp simp: take_Cons' of_nat_count add.commute)
  show ?thesis
    using ok k kind w r
    by (cases g; simp; simp add: run of_nat_count; cases "k < 16"; simp add: of_nat_count)
qed

text \<open>What \<open>convS2M\<close> writes. The padding byte keeps what the buffer held.\<close>

lemma PPAD_put [styx_run]: "PPAD (put bs (m, p)) = put (bs @ [m (p + length bs)]) (m, p)"
proof -
  have "p \<le> i \<Longrightarrow> i < p + Suc (length bs) \<Longrightarrow> \<not> i - p < length bs \<Longrightarrow> i = p + length bs" for i by linarith
  then show ?thesis by (intro prod_eqI) (auto simp: PPAD_def put_def fun_eq_iff nth_append)
qed

lemma PDATA_put:
  assumes "unat count < 65536" "q + unat count \<le> p \<or> p + length bs \<le> q"
  shows "PDATA q count (put bs (m, p)) =
    put (bs @ bytes_at (ptr_add m q) (unat count)) (m, p)"
  using assms
  by (intro prod_eqI)
    (auto simp: PDATA_def put_def move_def fun_eq_iff nth_append bytes_at_def sint_count nat_add_distrib)

lemma ftype_byte: "f_type f = uchar (ftype f)"
  by (simp add: ftype_def uchar_def)

lemma known_types:
  assumes "msg_of m f = Some g"
  shows "ftype f \<in> {0, 1, 3, 4, 5, 6, 7, 8, 9, 10, 11, 12, 13, 14, 15, 16, 17, 18, 19, 20, 21, 22, 23,
    24, 25, 28, 29}"
  using assms by (simp add: msg_of_def Let_def styx_types split: if_splits)

lemma encode_wire:
  assumes f: "sendable f ap" and g: "msg_of m f = Some g"
  shows "message_ok g \<and> (\<exists>pad. convS2M f ap m =
    (int (length (wire pad (f_tag f) g)), fst (put (wire pad (f_tag f) g) (m, ap))))"
proof -
  note run = convS2M_def S_body_def msg_of_def styx_types styx_sizes styx_run snd_put case_prod_unfold
    wire_def ftype_byte [of f] data_of_def sendable_def fcall_ok_def has_count_def has_data_def data_start_def
  from known_types [OF g] f g show ?thesis
    by (simp only: insert_iff empty_iff HOL.simp_thms; elim disjE; simp add: run; elim conjE; hypsubst?; simp add: PDATA_put ucast_count of_nat_count styx_types styx_sizes le_qid_def Let_def snd_put; blast)
qed

section \<open>Properties\<close>

lemma convS2M_wire:
  assumes "sendable f ap" "msg_of m f = Some g" "convS2M f ap m = (k, m')"
  shows "message_ok g" "\<exists>pad. k = int (length (wire pad (f_tag f) g)) \<and> holds (ptr_add m' ap) (wire pad (f_tag f) g)"
    "i < ap \<or> int ap + k \<le> int i \<Longrightarrow> m' i = m i"
proof -
  obtain pad where w: "k = int (length (wire pad (f_tag f) g))" "m' = fst (put (wire pad (f_tag f) g) (m, ap))"
    using encode_wire [OF assms(1,2)] assms(3) by auto
  then show "\<exists>pad. k = int (length (wire pad (f_tag f) g)) \<and> holds (ptr_add m' ap) (wire pad (f_tag f) g)"
    using holds_put by blast
  show "message_ok g" using encode_wire [OF assms(1,2)] by blast
  show "m' i = m i" if "i < ap \<or> int ap + k \<le> int i"
    using that unfolding w by (intro put_outside) linarith
qed

text \<open>C5: \<open>convM2S\<close> reads back what \<open>convS2M\<close> wrote. For every kind of message, the number of bytes it
  returns is the number written, the tag and all fields the kind carries are the same (for \<open>Twrite\<close>
  and \<open>Rread\<close> this is the data, found in the buffer), whatever the structure held before, and no
  byte outside the message was written.
\<close>

lemma styx_roundtrip:
  assumes "sendable f ap" "msg_of m f = Some g" "convS2M f ap m = (k, m')" "k \<le> n"
  shows "(\<exists>f'. convM2S m' ap f0 n = Some (f', k) \<and> f_tag f' = f_tag f \<and> msg_of m' f' = Some g) \<and>
    (\<forall>i. i < ap \<or> int ap + k \<le> int i \<longrightarrow> m' i = m i)"
proof -
  obtain pad where "k = int (length (wire pad (f_tag f) g))" "holds (ptr_add m' ap) (wire pad (f_tag f) g)"
    using convS2M_wire(2) [OF assms(1,2,3)] by blast
  then show ?thesis
    using decode_wire [OF convS2M_wire(1) [OF assms(1,2,3)]] convS2M_wire(3) [OF assms(1,2,3)] assms(4) by blast
qed

text \<open>\<open>convM2D\<close> reads back the directory entry that \<open>convD2M\<close> wrote, of \<open>DIRLEN\<close> bytes.
\<close>

lemma dir_roundtrip:
  assumes "dir_ok d" "convD2M d ap m = (k, m')"
  shows "k = DIRLEN \<and> convM2D m' ap d0 = (k, d) \<and> (\<forall>i. i < ap \<or> ap + k \<le> i \<longrightarrow> m' i = m i)"
proof -
  have len: "length (dir_name d @ dir_uid d @ dir_gid d @ le_qid (dir_qid d) @ le32 (dir_mode d) @
    le32 (dir_atime d) @ le32 (dir_mtime d) @ le64 (dir_length d) @ le16 (dir_type d) @ le16 (dir_dev d)) = DIRLEN"
    using assms(1) by (simp add: dir_ok_def styx_sizes)
  then show ?thesis
    using assms dir_image [OF assms(1)] holds_put put_outside by (metis Pair_inject)
qed

section \<open>Examples\<close>

definition ex_fcall :: Fcall where
  "ex_fcall = \<lparr>f_type = 16, f_fid = 7, f_tag = 300, f_oldtag = 0, f_qid = \<lparr>path = 0, vers = 0\<rparr>,
     f_uname = replicate 28 0, f_aname = replicate 28 0, f_ename = replicate 64 0, f_perm = 0,
     f_newfid = 0, f_name = replicate 28 0, f_mode = 0, f_offset = 1000, f_count = 3, f_data = 500,
     f_stat = replicate 116 0\<rparr>"

definition ex_store :: store where
  "ex_store = (\<lambda>i. if i = 500 then 72 else if i = 501 then 105 else if i = 502 then 33 else 9)"

lemma ex_fcall_facts:
  "sendable ex_fcall 100" "msg_of ex_store ex_fcall = Some (Write_T 7 1000 [72, 105, 33])"
  by (simp_all add: sendable_def fcall_ok_def has_count_def has_data_def ftype_def data_start_def
      msg_of_def styx_types styx_sizes ex_fcall_def data_of_def bytes_at_def ex_store_def upt_rec Let_def)

lemma styx_roundtrip_witness:
  "\<exists>k m' f'. convS2M ex_fcall 100 ex_store = (k, m') \<and> convM2S m' 100 ex_fcall k = Some (f', k) \<and>
    f_tag f' = 300 \<and> msg_of m' f' = Some (Write_T 7 1000 [72, 105, 33])"
  using styx_roundtrip [OF ex_fcall_facts, of "fst (convS2M ex_fcall 100 ex_store)" "snd (convS2M ex_fcall 100 ex_store)"
      "fst (convS2M ex_fcall 100 ex_store)" ex_fcall]
  by (metis order_refl prod.collapse ex_fcall_def Fcall.select_convs(3))

definition ex_dir :: Dir where
  "ex_dir = \<lparr>dir_name = replicate 28 65, dir_uid = replicate 28 66, dir_gid = replicate 28 67,
     dir_qid = \<lparr>path = 70000, vers = 2\<rparr>, dir_mode = 0x800001ED, dir_atime = 5, dir_mtime = -1,
     dir_length = 100000, dir_type = 77, dir_dev = 3\<rparr>"

lemma dir_roundtrip_witness:
  "\<exists>m'. convD2M ex_dir 0 ex_store = (116, m') \<and> convM2D m' 0 ex_dir = (116, ex_dir)"
proof -
  have "dir_ok ex_dir" by (simp add: dir_ok_def ex_dir_def styx_sizes)
  then show ?thesis
    using dir_roundtrip [of ex_dir 0 ex_store "fst (convD2M ex_dir 0 ex_store)" "snd (convD2M ex_dir 0 ex_store)" ex_dir]
    by (simp add: DIRLEN_def) (metis prod.collapse)
qed

end
