(* ===== verification/Mntread.thy ===== *)
theory Mntread
  imports Styx
begin

text \<open>
  How the mount driver reads a message, \<open>mntrpcread\<close> of \<open>emu/devmnt.c\<close>. The connection delivers bytes in
  pieces that have nothing to do with the messages; what is left over after a message is kept in
  \<open>part\<close> for the next call.

  The connection is the list of what its reads will answer: bytes that have arrived, of which a read
  returns as many as it asks for, or an error, after which \<open>mntflush\<close> either succeeds or fails. A
  read of no bytes is the end of the file, until more arrive. \<open>Blocked\<close> is a read for which nothing
  arrives.
\<close>

definition MAXRPC :: nat where "MAXRPC = MAXFDATA + MAXMSG"

datatype answer = Bytes "byte list" | Fails bool

datatype outcome =
    Message store Fcall nat "answer list"   \<comment> \<open>memory, the reply, \<open>npart\<close>, what the connection still has\<close>
  | Blocked store Fcall
  | Interrupted                             \<comment> \<open>\<open>nexterror()\<close> when the flush could not be sent\<close>
  | Hungup                                  \<comment> \<open>\<open>error(Ehungup)\<close>\<close>
  | Bad_type                                \<comment> \<open>\<open>error("bad message type in devmnt")\<close>\<close>
  | Negative_size                           \<comment> \<open>\<open>panic("negative size in devmnt")\<close>\<close>
  | Outside                                 \<comment> \<open>\<open>msglen\<close> read outside the array\<close>

text \<open>What a read of at most \<open>len\<close> bytes takes of the bytes that have arrived, and what it leaves.\<close>

definition read_rest :: "nat \<Rightarrow> byte list \<Rightarrow> answer list \<Rightarrow> answer list" where
  "read_rest len bs as = (if length bs \<le> len then as else Bytes (drop len bs) # as)"

text \<open>
  The code at the label \<open>chk\<close>, with \<open>n\<close> bytes in the buffer: \<open>Inl\<close> is how the function ends,
  \<open>Inr\<close> the reply with which the loop goes on.
\<close>

definition chk :: "nat \<Rightarrow> nat \<Rightarrow> nat \<Rightarrow> store \<Rightarrow> Fcall \<Rightarrow> answer list \<Rightarrow> outcome + Fcall" where
  "chk rpc part n m f as =
    (case convM2S m rpc f (int n) of
       None \<Rightarrow> Inl Outside
     | Some (f', cn) \<Rightarrow>
         if cn < 0 then Inl Bad_type
         else if cn > 0 then
           (if int n - cn < 0 then Inl Negative_size
            else let npart = nat (int n - cn);
                     m' = (if npart \<noteq> 0 then move part (rpc + nat cn) npart m else m)
                 in Inl (Message m' f' npart as))
         else Inr f')"

definition weight :: "answer list \<Rightarrow> nat" where
  "weight as = (\<Sum>a \<leftarrow> as. case a of Bytes bs \<Rightarrow> 2 * length bs + 2 | Fails b \<Rightarrow> 2)"

lemma weight_simps [simp]:
  "weight [] = 0"
  "weight (Bytes bs # as) = 2 * length bs + 2 + weight as"
  "weight (Fails b # as) = 2 + weight as"
  by (simp_all add: weight_def)

lemma weight_rest:
  "weight (read_rest len bs as) + 2 * length (take len bs) \<le> weight (Bytes bs # as)"
  by (auto simp: read_rest_def min_def)

text \<open>The loop; \<open>got\<close> is \<open>buf - r->rpc\<close>, so that \<open>len\<close> is what is left of \<open>MAXRPC\<close>.\<close>

function read_loop :: "nat \<Rightarrow> nat \<Rightarrow> bool \<Rightarrow> nat \<Rightarrow> store \<Rightarrow> Fcall \<Rightarrow> answer list \<Rightarrow> outcome" where
  "read_loop rpc part eof got m f [] = Blocked m (f\<lparr>f_tag := 0, f_type := 0\<rparr>)"
| "read_loop rpc part eof got m f (Fails flushed # as) =
    (if flushed then read_loop rpc part eof got m (f\<lparr>f_tag := 0, f_type := 0\<rparr>) as else Interrupted)"
| "read_loop rpc part eof got m f (Bytes bs # as) =
    (let f1 = f\<lparr>f_tag := 0, f_type := 0\<rparr>; xs = take (MAXRPC - got) bs; as' = read_rest (MAXRPC - got) bs as
     in if xs = [] then (if eof then Hungup else read_loop rpc part True got m f1 as')
        else let m1 = fst (put xs (m, rpc + got))
             in case chk rpc part (got + length xs) m1 f1 as' of
                  Inl r \<Rightarrow> r
                | Inr f2 \<Rightarrow> read_loop rpc part False (got + length xs) m1 f2 as')"
  by pat_completeness auto
termination
proof (relation "measure (\<lambda>(rpc, part, eof, got, m, f, as). weight as + (if eof then 0 else 1))", goal_cases)
  case (3 rpc part eof got m f bs as f1 xs as')
  then show ?case using weight_rest [of "MAXRPC - got" bs as] by (auto simp: read_rest_def)
next
  case (4 rpc part eof got m f bs as f1 xs as' m1 f2)
  then obtain x ys where "xs = x # ys" by (meson neq_Nil_conv)
  moreover have "weight as' + 2 * length xs \<le> weight (Bytes bs # as)"
    using weight_rest [of "MAXRPC - got" bs as] by (simp only: 4)
  ultimately show ?case by simp
qed auto

definition mntrpcread :: "nat \<Rightarrow> nat \<Rightarrow> nat \<Rightarrow> store \<Rightarrow> Fcall \<Rightarrow> answer list \<Rightarrow> outcome" where
  "mntrpcread rpc part npart m f as =
    (if npart > 0 then
       let m1 = move rpc part npart m
       in case chk rpc part npart m1 f as of
            Inl r \<Rightarrow> r
          | Inr f2 \<Rightarrow> read_loop rpc part False npart m1 f2 as
     else read_loop rpc part False 0 m f as)"

section \<open>Reassembly\<close>

text \<open>The bytes that have arrived, when reads do not end early and flushes can be sent.\<close>

fun arrived :: "answer list \<Rightarrow> byte list" where
  "arrived [] = []"
| "arrived (Bytes bs # as) = bs @ arrived as"
| "arrived (Fails b # as) = arrived as"

definition steady :: "answer list \<Rightarrow> bool" where
  "steady as \<longleftrightarrow> Bytes [] \<notin> set as \<and> Fails False \<notin> set as"

definition apart :: "nat \<Rightarrow> nat \<Rightarrow> bool" where
  "apart rpc part \<longleftrightarrow> rpc + MAXRPC \<le> part \<or> part + MAXRPC \<le> rpc"

text \<open>A message that fits the buffer and whose length its type tells.\<close>

definition framed :: "message \<Rightarrow> bool" where
  "framed g \<longleftrightarrow> message_ok g \<and> kind g \<noteq> Tattach \<and> kind g \<noteq> Rattach \<and> length (wire 0 0 g) \<le> MAXRPC"

lemma length_wire_any: "length (wire pad tag g) = length (wire 0 0 g)"
  by (cases g) (simp_all add: wire_def)

lemma steady_Cons [simp]:
  "steady (Bytes bs # as) \<longleftrightarrow> bs \<noteq> [] \<and> steady as"
  "steady (Fails b # as) \<longleftrightarrow> b \<and> steady as"
  "steady []"
  by (auto simp: steady_def)

lemma read_rest_facts:
  assumes "bs \<noteq> []" "steady as"
  shows "take len bs @ arrived (read_rest len bs as) = bs @ arrived as" "steady (read_rest len bs as)"
  using assms by (auto simp: read_rest_def)

text \<open>What \<open>chk\<close> does with a buffer that starts with (part of) the message.\<close>

lemma chk_short:
  assumes "framed g" "n < length (wire pad tag g)" "bytes_at (ptr_add m rpc) n = take n (wire pad tag g)"
  shows "\<exists>f'. chk rpc part n m f as = Inr f'"
proof -
  have "holds (ptr_add m rpc) (take n (wire pad tag g))"
    using assms(2,3) by (simp add: holds_iff_bytes_at)
  then obtain f' where "convM2S m rpc f (int n) = Some (f', 0)"
    using short_wire [of g m rpc n pad tag f] assms(1,2) by (auto simp: framed_def)
  then show ?thesis by (simp add: chk_def)
qed

lemma bytes_at_append: "bytes_at p (j + k) = bytes_at p j @ bytes_at (ptr_add p j) k"
proof -
  have "[0..<j + k] = [0..<j] @ map (\<lambda>i. j + i) [0..<k]"
    by (rule nth_equalityI) (auto simp: nth_append)
  then show ?thesis by (simp add: bytes_at_def comp_def)
qed

lemma bytes_at_0 [simp]: "bytes_at p 0 = []"
  by (simp add: bytes_at_def)

lemma bytes_at_take: "bytes_at p n = xs @ ys \<Longrightarrow> bytes_at p (length xs) = xs \<and> bytes_at (ptr_add p (length xs)) (length ys) = ys"
proof -
  assume a: "bytes_at p n = xs @ ys"
  then have "n = length xs + length ys" by (metis length_append length_bytes_at)
  then show ?thesis using a by (simp add: bytes_at_append)
qed

lemma bytes_at_frame:
  "(\<And>i. i < n \<Longrightarrow> p i = q i) \<Longrightarrow> bytes_at p n = bytes_at q n"
  unfolding bytes_at_def by (rule map_cong) auto

lemma bytes_at_move: "bytes_at (ptr_add (move p q n m) p) n = bytes_at (ptr_add m q) n"
  by (rule bytes_at_frame) (simp add: move_def)

lemma bytes_at_put:
  "bytes_at (ptr_add (fst (put xs (m, rpc + got))) rpc) (got + length xs) = bytes_at (ptr_add m rpc) got @ xs"
proof -
  have "bytes_at (ptr_add (fst (put xs (m, rpc + got))) rpc) got = bytes_at (ptr_add m rpc) got"
    by (rule bytes_at_frame) (simp add: put_outside)
  moreover have "bytes_at (ptr_add (fst (put xs (m, rpc + got))) (rpc + got)) (length xs) = xs"
    using holds_put by (simp add: holds_iff_bytes_at)
  ultimately show ?thesis by (simp add: bytes_at_append)
qed

text \<open>The result that a call should have: the message, and the rest in \<open>part\<close> and on the way.\<close>

definition delivers :: "nat \<Rightarrow> nat \<Rightarrow> store \<Rightarrow> u16 \<Rightarrow> message \<Rightarrow> byte list \<Rightarrow> outcome \<Rightarrow> bool" where
  "delivers rpc part m tag g rest r \<longleftrightarrow> (\<exists>m' f npart as. r = Message m' f npart as \<and> f_tag f = tag \<and>
     msg_of m' f = Some g \<and> npart \<le> MAXRPC \<and> steady as \<and>
     bytes_at (ptr_add m' part) npart @ arrived as = rest \<and>
     (\<forall>i. (i < rpc \<or> rpc + MAXRPC \<le> i) \<and> (i < part \<or> part + MAXRPC \<le> i) \<longrightarrow> m' i = m i))"

lemma chk_whole:
  assumes g: "framed g" and b: "apart rpc part" and n: "n \<le> MAXRPC"
    and m: "bytes_at (ptr_add m rpc) n = wire pad tag g @ xs" and as: "steady as"
  shows "\<exists>r. chk rpc part n m f as = Inl r \<and> delivers rpc part m tag g (xs @ arrived as) r"
proof -
  let ?w = "wire pad tag g"
  have len: "n = length ?w + length xs" by (metis m length_append length_bytes_at)
  have w: "holds (ptr_add m rpc) ?w" using bytes_at_take [OF m] by (simp add: holds_iff_bytes_at)
  obtain f' where f': "convM2S m rpc f (int n) = Some (f', int (length ?w))" "f_tag f' = tag"
    "\<And>m'. holds (ptr_add m' rpc) ?w \<Longrightarrow> msg_of m' f' = Some g"
    using decode_wire [of g m rpc pad tag "int n" f] w g len by (auto simp: framed_def)
  define m' where "m' = (if xs \<noteq> [] then move part (rpc + length ?w) (length xs) m else m)"
  have pos: "0 < length ?w" by (simp add: length_wire)
  have chk: "chk rpc part n m f as = Inl (Message m' f' (length xs) as)"
    using f'(1) pos by (simp add: chk_def m'_def len Let_def)
  have out: "m' i = m i" if "i < part \<or> part + MAXRPC \<le> i" for i
    using that n len by (auto simp: m'_def move_def)
  have "bytes_at (ptr_add m' rpc) (length ?w) = bytes_at (ptr_add m rpc) (length ?w)"
    using b n len by (intro bytes_at_frame) (auto simp: apart_def intro!: out)
  then have "holds (ptr_add m' rpc) ?w" using w by (simp add: holds_iff_bytes_at)
  then have msg: "msg_of m' f' = Some g" by (rule f'(3))
  have "bytes_at (ptr_add m' part) (length xs) = bytes_at (ptr_add m (rpc + length ?w)) (length xs)"
    by (cases "xs = []") (simp_all add: m'_def bytes_at_move)
  then have part: "bytes_at (ptr_add m' part) (length xs) = xs"
    using bytes_at_take [OF m] by simp
  show ?thesis
    using chk f'(2) msg part out n len as unfolding delivers_def by auto
qed

lemma begins_short: "xs @ ys = ws @ rest \<Longrightarrow> length xs < length ws \<Longrightarrow> xs = take (length xs) ws"
  by (auto simp: append_eq_append_conv2)

lemma begins_whole: "xs @ ys = ws @ rest \<Longrightarrow> \<not> length xs < length ws \<Longrightarrow> \<exists>zs. xs = ws @ zs \<and> zs @ ys = rest"
  by (auto simp: append_eq_append_conv2)

lemma deliversI_frame:
  assumes "delivers rpc part m1 tag g rest r" "apart rpc part"
    and "\<And>i. i < rpc \<or> rpc + MAXRPC \<le> i \<Longrightarrow> m1 i = m i"
  shows "delivers rpc part m tag g rest r"
  using assms unfolding delivers_def by fastforce

lemma read_loop_delivers:
  assumes g: "framed g"
    and "apart rpc part" "steady as" "got < length (wire pad tag g)"
    and "bytes_at (ptr_add m rpc) got @ arrived as = wire pad tag g @ rest"
  shows "delivers rpc part m tag g rest (read_loop rpc part eof got m f as)"
  using assms(2-)
proof (induction rpc part eof got m f as rule: read_loop.induct)
  case (1 rpc part eof got m f)
  then show ?case by (metis append_Nil2 arrived.simps(1) length_append length_bytes_at not_add_less1)
next
  case (2 rpc part eof got m f flushed as)
  then show ?case by simp
next
  case (3 rpc part eof got m f bs as)
  let ?w = "wire pad tag g" and ?xs = "take (MAXRPC - got) bs" and ?as = "read_rest (MAXRPC - got) bs as"
  let ?m1 = "fst (put ?xs (m, rpc + got))" and ?f1 = "f\<lparr>f_tag := 0, f_type := 0\<rparr>" and ?n = "got + length ?xs"
  have w: "length ?w \<le> MAXRPC" using g length_wire_any [of pad tag g] by (simp add: framed_def)
  note b = "3.prems"(1)
  have bs: "bs \<noteq> []" "steady as" using "3.prems"(2) by auto
  have xs: "?xs \<noteq> []" "?n \<le> MAXRPC" using bs(1) w "3.prems"(3) by auto
  have as: "?xs @ arrived ?as = bs @ arrived as" "steady ?as" by (rule read_rest_facts [OF bs])+
  have buf: "bytes_at (ptr_add ?m1 rpc) ?n = bytes_at (ptr_add m rpc) got @ ?xs" by (rule bytes_at_put)
  have all: "bytes_at (ptr_add ?m1 rpc) ?n @ arrived ?as = ?w @ rest"
    unfolding buf append_assoc as(1) using "3.prems"(4) by (simp only: arrived.simps)
  have frame: "?m1 i = m i" if "i < rpc \<or> rpc + MAXRPC \<le> i" for i
    using that xs(2) by (intro put_outside) auto
  show ?case
  proof (cases "?n < length ?w")
    case True
    then have "bytes_at (ptr_add ?m1 rpc) ?n = take ?n ?w"
      using begins_short [OF all] by simp
    then obtain f2 where f2: "chk rpc part ?n ?m1 ?f1 ?as = Inr f2"
      using chk_short [OF g True] by blast
    have "delivers rpc part ?m1 tag g rest (read_loop rpc part False ?n ?m1 f2 ?as)"
      using "3.IH"(2) [OF refl refl refl xs(1) refl f2] as(2) True all "3.prems" by blast
    then show ?thesis using xs(1) f2 deliversI_frame [OF _ b frame] by (simp add: Let_def)
  next
    case False
    then obtain ys where ys: "bytes_at (ptr_add ?m1 rpc) ?n = ?w @ ys" "ys @ arrived ?as = rest"
      using begins_whole [OF all] by auto
    then obtain r where "chk rpc part ?n ?m1 ?f1 ?as = Inl r" "delivers rpc part ?m1 tag g rest r"
      using chk_whole [OF g b xs(2) ys(1) as(2)] by blast
    then show ?thesis using xs(1) deliversI_frame [OF _ b frame] by (simp add: Let_def)
  qed
qed

lemma mntrpcread_delivers:
  assumes g: "framed g" and b: "apart rpc part" and as: "steady as" and n: "npart \<le> MAXRPC"
    and s: "bytes_at (ptr_add m part) npart @ arrived as = wire pad tag g @ rest"
  shows "delivers rpc part m tag g rest (mntrpcread rpc part npart m f as)"
proof (cases "npart = 0")
  case True
  then show ?thesis
    using read_loop_delivers [OF g b as, of 0 pad tag m rest False f] s
    by (simp add: mntrpcread_def length_wire)
next
  case False
  let ?m1 = "move rpc part npart m"
  have buf: "bytes_at (ptr_add ?m1 rpc) npart @ arrived as = wire pad tag g @ rest"
    unfolding bytes_at_move by (rule s)
  have frame: "?m1 i = m i" if "i < rpc \<or> rpc + MAXRPC \<le> i" for i
    using that n by (auto simp: move_def)
  show ?thesis
  proof (cases "npart < length (wire pad tag g)")
    case True
    then have "bytes_at (ptr_add ?m1 rpc) npart = take npart (wire pad tag g)"
      using begins_short [OF buf] by simp
    then obtain f2 where "chk rpc part npart ?m1 f as = Inr f2" using chk_short [OF g True] by blast
    then show ?thesis
      using read_loop_delivers [OF g b as True buf, of False f2] False deliversI_frame [OF _ b frame]
      by (simp add: mntrpcread_def)
  next
    case whole: False
    then obtain ys where ys: "bytes_at (ptr_add ?m1 rpc) npart = wire pad tag g @ ys" "ys @ arrived as = rest"
      using begins_whole [OF buf] by auto
    then obtain r where "chk rpc part npart ?m1 f as = Inl r" "delivers rpc part ?m1 tag g rest r"
      using chk_whole [OF g b n ys(1) as] by blast
    then show ?thesis using False deliversI_frame [OF _ b frame] by (simp add: mntrpcread_def)
  qed
qed

text \<open>Call after call: what the messages were.\<close>

fun read_all :: "nat \<Rightarrow> nat \<Rightarrow> nat \<Rightarrow> nat \<Rightarrow> store \<Rightarrow> Fcall \<Rightarrow> answer list \<Rightarrow> (u16 \<times> message option) list option" where
  "read_all 0 rpc part npart m f as = Some []"
| "read_all (Suc k) rpc part npart m f as =
    (case mntrpcread rpc part npart m f as of
       Message m' f' npart' as' \<Rightarrow>
         map_option (Cons (f_tag f', msg_of m' f')) (read_all k rpc part npart' m' f' as')
     | _ \<Rightarrow> None)"

definition stream :: "(byte \<times> u16 \<times> message) list \<Rightarrow> byte list" where
  "stream gs = concat (map (\<lambda>(pad, tag, g). wire pad tag g) gs)"

lemma read_all_stream:
  assumes "\<forall>(pad, tag, g) \<in> set gs. framed g" "apart rpc part" "steady as" "npart \<le> MAXRPC"
    "bytes_at (ptr_add m part) npart @ arrived as = stream gs @ rest"
  shows "read_all (length gs) rpc part npart m f as = Some (map (\<lambda>(pad, tag, g). (tag, Some g)) gs)"
  using assms
proof (induction gs arbitrary: npart m f as)
  case Nil
  then show ?case by simp
next
  case (Cons x gs)
  obtain pad tag g where x: "x = (pad, tag, g)" by (cases x)
  have "bytes_at (ptr_add m part) npart @ arrived as = wire pad tag g @ stream gs @ rest"
    using Cons.prems(5) by (simp only: x stream_def list.map concat.simps append_assoc prod.case)
  then have "delivers rpc part m tag g (stream gs @ rest) (mntrpcread rpc part npart m f as)"
    using Cons.prems(1-4) x by (intro mntrpcread_delivers) auto
  then obtain m' f' npart' as' where r: "mntrpcread rpc part npart m f as = Message m' f' npart' as'"
    "f_tag f' = tag" "msg_of m' f' = Some g" "npart' \<le> MAXRPC" "steady as'"
    "bytes_at (ptr_add m' part) npart' @ arrived as' = stream gs @ rest"
    unfolding delivers_def by blast
  then show ?case using Cons.IH [OF _ Cons.prems(2) r(5,4,6)] Cons.prems(1) x by simp
qed

section \<open>Properties\<close>

text \<open>C6: A stream of well-formed messages that fit the buffer, none of them an attach or the reply to one (whose
  length the table does not have), arrives in reads that bring at least one byte each, and every flush can be sent. However
  its bytes are cut into reads, and however often a read is interrupted, the calls of \<open>mntrpcread\<close> return the
  messages one after the other, each with its tag and its data.
\<close>

lemma mntrpcread_stream:
  assumes "\<forall>(pad, tag, g) \<in> set gs. framed g" "apart rpc part" "steady as"
    "arrived as = stream gs @ rest"
  shows "read_all (length gs) rpc part 0 m f as = Some (map (\<lambda>(pad, tag, g). (tag, Some g)) gs)"
  using read_all_stream [OF assms(1-3), of 0 m rest f] assms(4) by (simp add: bytes_at_def)

text \<open>C30: The reply to an attach that arrives in two pieces, the first of at least three bytes and
  shorter than the reply, is taken for whole, and \<open>mntrpcread\<close> panics with a negative size.
\<close>

lemma split_attach_panics:
  assumes "3 \<le> k" "k < length (wire pad tag (Attach_R fid q))" "k < MAXRPC"
  shows "mntrpcread rpc part 0 m f (Bytes (take k (wire pad tag (Attach_R fid q))) # as) = Negative_size"
proof -
  let ?w = "wire pad tag (Attach_R fid q)"
  let ?m1 = "fst (put (take k ?w) (m, rpc))" and ?f1 = "f\<lparr>f_tag := 0, f_type := 0\<rparr>"
  have len: "length ?w = 13" by (simp add: length_wire)
  have "holds (ptr_add ?m1 rpc) (take k ?w)" by (rule holds_put)
  then have "holds (ptr_add ?m1 rpc) (uchar (kind (Attach_R fid q)) # le16 tag)"
    using assms(1) by (simp add: wire_def take_Cons' del: kind.simps)
  then have "\<exists>f'. convM2S ?m1 rpc ?f1 (int k) = Some (f', 13)"
    using assms(1) by (subst convM2S_start [where g = "Attach_R fid q" and tag = tag])
      (simp_all add: M2S_body_def ftype_def msglen_def msglen_init_def G_body_def G_defs G_run styx_types uchar_def)
  then show ?thesis
    using assms len by (auto simp: mntrpcread_def chk_def Let_def MAXRPC_def MAXFDATA_def MAXMSG_def)
qed

section \<open>Examples\<close>

definition ex_stream :: "(byte \<times> u16 \<times> message) list" where
  "ex_stream = [(0, 1, Read_R 7 [104, 105]), (0, 2, Clunk_R 7)]"

lemma mntrpcread_stream_witness:
  "read_all 2 0 10000 0 (\<lambda>i. 0) ex_fcall (map (\<lambda>b. Bytes [b]) (stream ex_stream)) =
    Some [(1, Some (Read_R 7 [104, 105])), (2, Some (Clunk_R 7))]"
proof -
  have a: "arrived (map (\<lambda>b. Bytes [b]) bs) = bs" for bs by (induction bs) simp_all
  have "read_all (length ex_stream) 0 10000 0 (\<lambda>i. 0) ex_fcall (map (\<lambda>b. Bytes [b]) (stream ex_stream)) =
    Some (map (\<lambda>(pad, tag, g). (tag, Some g)) ex_stream)"
    by (rule mntrpcread_stream [where rest = "[]"])
      (auto simp: a ex_stream_def framed_def apart_def steady_def MAXRPC_def MAXFDATA_def MAXMSG_def
        styx_types length_wire)
  moreover have "length ex_stream = 2" by (simp add: ex_stream_def)
  moreover have "map (\<lambda>(pad, tag, g). (tag, Some g)) ex_stream =
      [(1, Some (Read_R 7 [104, 105])), (2, Some (Clunk_R 7))]"
    by (simp add: ex_stream_def)
  ultimately show ?thesis by (simp only:)
qed

lemma split_attach_panics_witness:
  "mntrpcread 0 10000 0 (\<lambda>i. 0) ex_fcall [Bytes (take 5 (wire 0 9 (Attach_R 1 \<lparr>path = 5, vers = 0\<rparr>)))] = Negative_size"
  by (rule split_attach_panics) (simp_all add: length_wire MAXRPC_def MAXFDATA_def MAXMSG_def)

end
