(* ===== verification/Mnt.thy ===== *)
theory Mnt
  imports Mntread Linked
begin

text \<open>
  Multiplexing of calls over one connection: \<open>mountio\<close> of \<open>emu/devmnt.c\<close> and the functions it uses.

  Every kernel process that makes a call has an \<open>Mntrpc\<close> in the queue of the mount point. One of the
  processes at a time reads from the connection (\<open>rip\<close>); it hands each reply to the call with that
  tag (\<open>mountmux\<close>) until its own has come, and then wakes another (\<open>mntgate\<close>). A process that is
  interrupted sends a flush and goes on waiting, for the reply to its request or to the flush.

  The state \<open>mst\<close> is the mount point, the \<open>Mntrpc\<close> structures, and for each process the place in
  \<open>mountio\<close> where it is (\<open>pc\<close>). The links \<open>r->list\<close> are a map of their own, \<open>rlist\<close>; \<open>rend\<close> is the
  process asleep at the \<open>Rendez\<close> of a call, 0 for none. \<open>r_tags\<close> is history: the tags under which something
  was sent for the present call.

  A step is a section under the lock of the mount point or of a \<open>Rendez\<close>, with what follows it on
  data of the process alone; the hand-over of a reply (\<open>mountmux\<close> after its \<open>unlock\<close>, with \<open>Wakeup\<close>) is one step
  with the search before it. Messages are read as \<open>Mntread\<close> describes; here a message is the reply it leaves in
  \<open>r->reply\<close>.
\<close>

section \<open>State\<close>

record Mntrpc =
  r_tag :: u16
  r_reply :: Fcall
  r_rpc :: addr
  r_done :: bool
  r_flushed :: bool
  r_flushtag :: u16
  r_tags :: "u16 set"

text \<open>How a call ends: \<open>mountio\<close> returns, or an error is raised.\<close>

datatype ending = Returned | Raised

datatype pc =
    Idle                      \<comment> \<open>not in a call\<close>
  | Ready addr                \<comment> \<open>has its \<open>Mntrpc\<close>\<close>
  | Sending addr              \<comment> \<open>in the queue, about to transmit\<close>
  | Gate addr                 \<comment> \<open>at the head of the loop that gates the readers\<close>
  | Sleeping addr             \<comment> \<open>calls \<open>Sleep\<close>\<close>
  | Asleep addr               \<comment> \<open>in \<open>rendezvous\<close>\<close>
  | Awake addr                \<comment> \<open>\<open>Sleep\<close> has returned\<close>
  | Reading addr              \<comment> \<open>at the head of the loop of the reader\<close>
  | Flushing addr bool        \<comment> \<open>calls \<open>mntflush\<close>, as the reader or not\<close>
  | Flush_sent addr bool      \<comment> \<open>writes the flush\<close>
  | Gating addr ending        \<comment> \<open>calls \<open>mntgate\<close>\<close>
  | Waking addr addr ending   \<comment> \<open>\<open>mntgate\<close> has chosen whom to wake\<close>
  | Back addr ending          \<comment> \<open>out of \<open>mountio\<close>\<close>
  | Stuck addr                \<comment> \<open>in \<open>Sleep\<close>, where \<open>swiproc\<close> holds the lock for ever\<close>

record mst =
  rpcs :: "addr \<rightharpoonup> Mntrpc"
  rlist :: nextfn
  queue :: addr
  rip :: nat
  flushtag :: u16
  flushbase :: u16
  rpcfree :: addr
  rpctag :: u32
  rend :: "addr \<Rightarrow> nat"
  pcs :: "nat \<Rightarrow> pc"

definition Tagspace :: u16 where "Tagspace = 1"
definition Tagfls :: u16 where "Tagfls = 0x8000"
definition Tagend :: u16 where "Tagend = 0xfffe"

definition set_rpc :: "addr \<Rightarrow> Mntrpc \<Rightarrow> mst \<Rightarrow> mst" where
  "set_rpc r x s = s\<lparr>rpcs := (rpcs s)(r \<mapsto> x)\<rparr>"

definition goto :: "nat \<Rightarrow> pc \<Rightarrow> mst \<Rightarrow> mst" where
  "goto p l s = s\<lparr>pcs := (pcs s)(p := l)\<rparr>"

section \<open>Operations\<close>

text \<open>What \<open>memset\<close> makes of the reply of a new structure.\<close>

definition zero_fcall :: Fcall where
  "zero_fcall = \<lparr>f_type = 0, f_fid = 0, f_tag = 0, f_oldtag = 0, f_qid = \<lparr>path = 0, vers = 0\<rparr>,
     f_uname = replicate NAMELEN 0, f_aname = replicate NAMELEN 0, f_ename = replicate ERRLEN 0,
     f_perm = 0, f_newfid = 0, f_name = replicate NAMELEN 0, f_mode = 0, f_offset = 0, f_count = 0,
     f_data = 0, f_stat = replicate DIRLEN 0\<rparr>"

text \<open>\<open>mntralloc\<close>: from the free list, or with what \<open>malloc\<close> returns.\<close>

definition mntralloc :: "addr \<Rightarrow> addr \<Rightarrow> mst \<Rightarrow> (addr \<times> mst) option" where
  "mntralloc new buf s =
    (if rpcfree s \<noteq> nil then
       (case (rpcs s (rpcfree s), rlist s (rpcfree s)) of
          (Some x, Some l) \<Rightarrow>
            Some (rpcfree s, set_rpc (rpcfree s) (x\<lparr>r_done := False, r_flushed := False, r_tags := {}\<rparr>) (s\<lparr>rpcfree := l\<rparr>))
        | _ \<Rightarrow> None)
     else if new = nil then None
     else Some (new, set_rpc new \<lparr>r_tag = ucast (rpctag s), r_reply = zero_fcall, r_rpc = buf, r_done = False,
              r_flushed = False, r_flushtag = 0, r_tags = {}\<rparr>
            (s\<lparr>rlist := (rlist s)(new \<mapsto> nil), rpctag := rpctag s + 1\<rparr>)))"

definition mntfree :: "addr \<Rightarrow> mst \<Rightarrow> mst" where
  "mntfree r s = s\<lparr>rlist := (rlist s)(r \<mapsto> rpcfree s), rpcfree := r\<rparr>"

text \<open>The head of \<open>mountio\<close>: the call goes to the front of the queue.\<close>

definition enter :: "addr \<Rightarrow> mst \<Rightarrow> mst option" where
  "enter r s =
    (case rpcs s r of
       None \<Rightarrow> None
     | Some x \<Rightarrow> Some (set_rpc r (x\<lparr>r_flushed := False, r_tags := {r_tag x}\<rparr>)
         (s\<lparr>rlist := (rlist s)(r \<mapsto> queue s), queue := r\<rparr>)))"

text \<open>\<open>*l = r->list\<close>, where \<open>l\<close> is the link that leads to \<open>r\<close>; nothing happens when \<open>r\<close> is not in the queue.\<close>

definition unlink :: "addr \<Rightarrow> mst \<Rightarrow> mst option" where
  "unlink r s =
    (case findprev (rlist s) r nil (queue s) of
       None \<Rightarrow> None
     | Some None \<Rightarrow> Some s
     | Some (Some prev) \<Rightarrow>
         (case rlist s r of
            None \<Rightarrow> None
          | Some l \<Rightarrow> Some (if prev = nil then s\<lparr>queue := l\<rparr> else s\<lparr>rlist := (rlist s)(prev \<mapsto> l)\<rparr>)))"

definition mntqrm :: "addr \<Rightarrow> mst \<Rightarrow> mst option" where
  "mntqrm r s =
    (case rpcs s r of
       None \<Rightarrow> None
     | Some x \<Rightarrow> unlink r (set_rpc r (x\<lparr>r_done := True, r_flushed := False\<rparr>) s))"

text \<open>The first call in the queue with a property, nil when there is none.\<close>

partial_function (option) seek :: "nextfn \<Rightarrow> (addr \<Rightarrow> bool) \<Rightarrow> addr \<Rightarrow> addr option" where
  "seek next P q =
    (if q = nil then Some nil
     else if P q then Some q
     else (case next q of None \<Rightarrow> None | Some l \<Rightarrow> seek next P l))"

definition wakeup :: "addr \<Rightarrow> mst \<Rightarrow> mst" where
  "wakeup q s = (if rend s q = 0 then s else goto (rend s q) (Awake q) (s\<lparr>rend := (rend s)(q := 0)\<rparr>))"

definition rdone :: "mst \<Rightarrow> addr \<Rightarrow> bool" where
  "rdone s r = (case rpcs s r of None \<Rightarrow> False | Some x \<Rightarrow> r_done x)"

definition matches :: "mst \<Rightarrow> u16 \<Rightarrow> addr \<Rightarrow> bool" where
  "matches s t q = (case rpcs s q of None \<Rightarrow> False
     | Some y \<Rightarrow> r_tag y = t \<or> r_flushed y \<and> r_flushtag y = t)"

text \<open>\<open>mountmux\<close>: the reply in \<open>r\<close> goes to the call it answers, which takes the buffer with it.\<close>

definition mountmux :: "addr \<Rightarrow> mst \<Rightarrow> mst option" where
  "mountmux r s =
    (case rpcs s r of
       None \<Rightarrow> None
     | Some x \<Rightarrow>
         (case seek (rlist s) (matches s (f_tag (r_reply x))) (queue s) of
            None \<Rightarrow> None
          | Some q \<Rightarrow>
              if q = nil then Some s
              else (case (unlink q s, rpcs s q) of
                (Some s1, Some y) \<Rightarrow>
                  if q \<noteq> r then
                    Some (wakeup q (set_rpc q (y\<lparr>r_rpc := r_rpc x, r_reply := r_reply x, r_done := True\<rparr>)
                      (set_rpc r (x\<lparr>r_rpc := r_rpc y\<rparr>) s1)))
                  else Some (set_rpc q (y\<lparr>r_done := True\<rparr>) s1)
              | _ \<Rightarrow> None)))"

text \<open>\<open>mntgate\<close> under the lock: the reader gives up its place, and the call to wake, or nil.\<close>

definition mntgate :: "mst \<Rightarrow> (addr \<times> mst) option" where
  "mntgate s =
    (case seek (rlist s) (\<lambda>q. \<not> rdone s q \<and> rend s q \<noteq> 0) (queue s) of
       None \<Rightarrow> None
     | Some q \<Rightarrow> Some (q, s\<lparr>rip := 0\<rparr>))"

text \<open>\<open>mntflush\<close> under the lock: a tag for the flush.\<close>

definition flush_tag :: "addr \<Rightarrow> mst \<Rightarrow> mst option" where
  "flush_tag r s =
    (case rpcs s r of
       None \<Rightarrow> None
     | Some x \<Rightarrow> Some (set_rpc r (x\<lparr>r_flushtag := flushtag s, r_flushed := True,
           r_tags := insert (flushtag s) (r_tags x)\<rparr>)
         (s\<lparr>flushtag := (if flushtag s + 1 = Tagend then flushbase s else flushtag s + 1)\<rparr>)))"

definition set_reply :: "addr \<Rightarrow> Fcall \<Rightarrow> mst \<Rightarrow> mst option" where
  "set_reply r f s = map_option (\<lambda>x. set_rpc r (x\<lparr>r_reply := f\<rparr>) s) (rpcs s r)"

section \<open>Steps\<close>

text \<open>Where a process goes on without changing anything else.\<close>

inductive hop :: "mst \<Rightarrow> pc \<Rightarrow> pc \<Rightarrow> bool" for s where
  sent: "hop s (Sending r) (Gate r)"
| not_sent: "hop s (Sending r) (Flushing r False)"
| gated: "rip s \<noteq> 0 \<Longrightarrow> hop s (Gate r) (Sleeping r)"
| no_sleep: "rdone s r \<or> rip s = 0 \<Longrightarrow> hop s (Sleeping r) (Awake r)"
| answered: "rdone s r \<Longrightarrow> hop s (Awake r) (Back r Returned)"
| again: "\<not> rdone s r \<Longrightarrow> hop s (Awake r) (Gate r)"
| read_done: "rdone s r \<Longrightarrow> hop s (Reading r) (Gating r Returned)"
| read_fails: "\<not> rdone s r \<Longrightarrow> hop s (Reading r) (Flushing r True)"
| flushed: "hop s (Flush_sent r b) (if b then Reading r else Gate r)"

text \<open>
  A step of process \<open>p\<close>. \<open>Flush_lost\<close> marks the failure to write a flush, \<open>Hangup\<close> an error of
  \<open>mntrpcread\<close> that is raised outside its \<open>waserror()\<close>: \<open>error(Ehungup)\<close> and the bad message type.
  \<open>Seized\<close> is an interrupt in the first lines of \<open>Sleep\<close>: \<open>up->r\<close> is set and \<open>r->l\<close> not yet locked, so
  \<open>swiproc\<close> (\<open>emu/proc.c\<close>) takes the lock and waits in \<open>rendezvous\<close> for a process that waits for the lock. Neither goes on, and
  nobody else gets the lock of that \<open>Rendez\<close>: a hand-over to this call and a wakeup of it are no longer possible.
\<close>

datatype label = Normal | Flush_lost | Hangup | Seized

definition seized :: "mst \<Rightarrow> addr \<Rightarrow> bool" where
  "seized s q \<longleftrightarrow> (\<exists>p. pcs s p = Stuck q)"

inductive mnt_step :: "label \<Rightarrow> mst \<Rightarrow> mst \<Rightarrow> bool" where
  local: "pcs s p = l \<Longrightarrow> hop s l l' \<Longrightarrow> mnt_step Normal s (goto p l' s)"
| alloc: "pcs s p = Idle \<Longrightarrow> p \<noteq> 0 \<Longrightarrow> new \<notin> dom (rpcs s) \<Longrightarrow> \<forall>x \<in> ran (rpcs s). r_rpc x \<noteq> buf \<Longrightarrow>
    mntralloc new buf s = Some (r, s') \<Longrightarrow> mnt_step Normal s (goto p (Ready r) s')"
| start: "pcs s p = Ready r \<Longrightarrow> enter r s = Some s' \<Longrightarrow> mnt_step Normal s (goto p (Sending r) s')"
| open_gate: "pcs s p = Gate r \<Longrightarrow> rip s = 0 \<Longrightarrow> mnt_step Normal s (goto p (Reading r) (s\<lparr>rip := p\<rparr>))"
| sleep: "pcs s p = Sleeping r \<Longrightarrow> \<not> rdone s r \<Longrightarrow> rip s \<noteq> 0 \<Longrightarrow> rend s r = 0 \<Longrightarrow>
    mnt_step Normal s (goto p (Asleep r) (s\<lparr>rend := (rend s)(r := p)\<rparr>))"
| interrupt: "pcs s p = Asleep r \<Longrightarrow> rend s r = p \<Longrightarrow>
    mnt_step Normal s (goto p (Flushing r False) (s\<lparr>rend := (rend s)(r := 0)\<rparr>))"
| seize: "pcs s p = Sleeping r \<Longrightarrow> mnt_step Seized s (goto p (Stuck r) s)"
| flush: "pcs s p = Flushing r b \<Longrightarrow> flush_tag r s = Some s' \<Longrightarrow>
    mnt_step Normal s (goto p (Flush_sent r b) s')"
| flush_fails: "pcs s p = Flush_sent r b \<Longrightarrow> mntqrm r s = Some s' \<Longrightarrow>
    mnt_step Flush_lost s (goto p (if b then Gating r Raised else Back r Raised) s')"
| receive: "pcs s p = Reading r \<Longrightarrow> \<not> rdone s r \<Longrightarrow> set_reply r f s = Some s1 \<Longrightarrow> mountmux r s1 = Some s2 \<Longrightarrow>
    \<forall>q. seized s q \<longrightarrow> rdone s2 q = rdone s q \<Longrightarrow> mnt_step Normal s s2"
| hangup: "pcs s p = Reading r \<Longrightarrow> \<not> rdone s r \<Longrightarrow> mnt_step Hangup s (goto p (Back r Raised) s)"
| gate: "pcs s p = Gating r e \<Longrightarrow> mntgate s = Some (q, s') \<Longrightarrow>
    mnt_step Normal s (goto p (if q = nil then Back r e else Waking r q e) s')"
| wake: "pcs s p = Waking r q e \<Longrightarrow> \<not> seized s q \<Longrightarrow> mnt_step Normal s (goto p (Back r e) (wakeup q s))"
| finish: "pcs s p = Back r e \<Longrightarrow> mnt_step Normal s (goto p Idle (mntfree r s))"

definition mnt_init :: mst where
  "mnt_init = \<lparr>rpcs = Map.empty, rlist = Map.empty, queue = nil, rip = 0, flushtag = Tagfls, flushbase = Tagfls,
     rpcfree = nil, rpctag = ucast Tagspace, rend = (\<lambda>_. 0), pcs = (\<lambda>_. Idle)\<rparr>"

text \<open>What is reachable by steps with certain labels.\<close>

inductive reach :: "label set \<Rightarrow> mst \<Rightarrow> bool" for L where
  init: "reach L mnt_init"
| step: "reach L s \<Longrightarrow> mnt_step l s s' \<Longrightarrow> l \<in> L \<Longrightarrow> reach L s'"

section \<open>Invariant\<close>

fun pc_rpc :: "pc \<Rightarrow> addr option" where
  "pc_rpc Idle = None"
| "pc_rpc (Ready r) = Some r"
| "pc_rpc (Sending r) = Some r"
| "pc_rpc (Gate r) = Some r"
| "pc_rpc (Sleeping r) = Some r"
| "pc_rpc (Asleep r) = Some r"
| "pc_rpc (Awake r) = Some r"
| "pc_rpc (Reading r) = Some r"
| "pc_rpc (Flushing r b) = Some r"
| "pc_rpc (Flush_sent r b) = Some r"
| "pc_rpc (Gating r e) = Some r"
| "pc_rpc (Waking r q e) = Some r"
| "pc_rpc (Back r e) = Some r"
| "pc_rpc (Stuck r) = Some r"

fun reader :: "pc \<Rightarrow> bool" where
  "reader (Reading r) = True"
| "reader (Flushing r b) = b"
| "reader (Flush_sent r b) = b"
| "reader (Gating r e) = True"
| "reader _ = False"

fun ended :: "pc \<Rightarrow> ending option" where
  "ended (Gating r e) = Some e"
| "ended (Waking r q e) = Some e"
| "ended (Back r e) = Some e"
| "ended _ = None"

definition waits :: "pc \<Rightarrow> addr option" where
  "waits l = (case l of Ready r \<Rightarrow> None | _ \<Rightarrow> pc_rpc l)"

text \<open>What holds between the place of a process and its call.\<close>

definition call_ok :: "pc \<Rightarrow> Mntrpc \<Rightarrow> bool" where
  "call_ok l x \<longleftrightarrow>
     (waits l = None \<longrightarrow> \<not> r_done x) \<and> (ended l \<noteq> None \<longrightarrow> r_done x) \<and>
     ((\<exists>r. l = Asleep r) \<longrightarrow> \<not> r_done x) \<and>
     (waits l \<noteq> None \<longrightarrow> r_tag x \<in> r_tags x \<and> (r_flushed x \<longrightarrow> r_flushtag x \<in> r_tags x)) \<and>
     (r_done x \<longrightarrow> ended l \<noteq> Some Raised \<longrightarrow> f_tag (r_reply x) \<in> r_tags x)"

definition calls_ok :: "mst \<Rightarrow> bool" where
  "calls_ok s \<longleftrightarrow> (\<forall>p r. pc_rpc (pcs s p) = Some r \<longrightarrow> r \<noteq> nil \<and> (\<exists>x. rpcs s r = Some x \<and> call_ok (pcs s p) x))"

definition procs_ok :: "mst \<Rightarrow> bool" where
  "procs_ok s \<longleftrightarrow> pcs s 0 = Idle \<and> (\<forall>p. reader (pcs s p) \<longrightarrow> rip s = p) \<and>
     (rip s \<noteq> 0 \<longrightarrow> reader (pcs s (rip s))) \<and> (\<forall>p r. pcs s p = Asleep r \<longleftrightarrow> p \<noteq> 0 \<and> rend s r = p) \<and>
     (\<forall>p p' r. pc_rpc (pcs s p) = Some r \<longrightarrow> pc_rpc (pcs s p') = Some r \<longrightarrow> p = p')"

definition queue_ok :: "mst \<Rightarrow> bool" where
  "queue_ok s \<longleftrightarrow> (\<exists>xs. llist (rlist s) (queue s) xs \<and>
     (\<forall>r. r \<in> set xs \<longleftrightarrow> (\<exists>p. waits (pcs s p) = Some r) \<and> \<not> rdone s r))"

definition free_ok :: "mst \<Rightarrow> bool" where
  "free_ok s \<longleftrightarrow> (\<exists>ys. llist (rlist s) (rpcfree s) ys \<and> set ys \<subseteq> dom (rpcs s) \<and>
     (\<forall>p r. pc_rpc (pcs s p) = Some r \<longrightarrow> r \<notin> set ys))"

definition bufs_ok :: "mst \<Rightarrow> bool" where
  "bufs_ok s \<longleftrightarrow> (\<forall>r r' x x'. rpcs s r = Some x \<longrightarrow> rpcs s r' = Some x' \<longrightarrow> r_rpc x = r_rpc x' \<longrightarrow> r = r')"

definition mnt_ok :: "mst \<Rightarrow> bool" where
  "mnt_ok s \<longleftrightarrow> procs_ok s \<and> calls_ok s \<and> queue_ok s \<and> free_ok s \<and> bufs_ok s"

lemma mnt_ok_init: "mnt_ok mnt_init"
  by (simp add: mnt_ok_def procs_ok_def calls_ok_def queue_ok_def free_ok_def bufs_ok_def mnt_init_def
      waits_def llist_def rdone_def exI [where x = "[]"]) auto

text \<open>The list operations.\<close>

lemma seek_lseg:
  "lseg nx q xs nil \<Longrightarrow> seek nx P q = Some (case find P xs of None \<Rightarrow> nil | Some x \<Rightarrow> x)"
proof (induction xs arbitrary: q)
  case Nil
  then show ?case by (subst seek.simps) simp
next
  case (Cons a xs)
  then show ?case by (subst seek.simps) (auto split: option.splits)
qed

lemma unlink_llist:
  assumes "llist (rlist s) (queue s) xs" "r \<in> set xs"
  shows "\<exists>qu rl. unlink r s = Some (s\<lparr>queue := qu, rlist := rl\<rparr>) \<and> llist rl qu (remove1 r xs) \<and>
    (\<forall>y. y \<notin> set xs \<longrightarrow> rl y = rlist s y)"
proof -
  obtain us ys where xs: "xs = us @ r # ys" "r \<notin> set us" using assms(2) by (meson split_list_first)
  have l: "lseg (rlist s) (queue s) (us @ r # ys) nil" "distinct (us @ r # ys)"
    using assms(1) xs(1) by (auto simp: llist_def)
  have f: "findprev (rlist s) r nil (queue s) = Some (Some (if us = [] then nil else last us))"
    by (rule findprev_at [OF l])
  obtain n where n: "rlist s r = Some n" using lseg_not_nil [OF l(1), of r] by auto
  have rem: "remove1 r xs = us @ ys" using xs by (simp add: remove1_append)
  show ?thesis
  proof (cases "us = []")
    case True
    then have "llist (rlist s) n (us @ ys)" using l n by (auto simp: llist_def)
    then show ?thesis using f n True rem by (intro exI [of _ n] exI [of _ "rlist s"]) (simp add: unlink_def)
  next
    case False
    then obtain vs a where us: "us = vs @ [a]" by (meson rev_exhaust)
    then have "lseg ((rlist s)(a \<mapsto> n)) (queue s) (vs @ a # ys) nil"
      using lseg_unlink [of "rlist s" "queue s" vs a r ys nil n] l n by simp
    moreover have "a \<noteq> nil" using lseg_not_nil [OF l(1), of a] us by simp
    ultimately show ?thesis using f n us rem l(2)
      by (intro exI [of _ "queue s"] exI [of _ "(rlist s)(a \<mapsto> n)"]) (auto simp: unlink_def llist_def xs(1))
  qed
qed

lemmas mst_simps = set_rpc_def goto_def

lemma mountmux_effect:
  assumes xs: "llist (rlist s) (queue s) xs" and x: "rpcs s r = Some x" and m: "mountmux r s = Some s'"
    and nd: "\<not> r_done x"
  obtains (none) "s' = s" "\<forall>q \<in> set xs. \<not> matches s (f_tag (r_reply x)) q"
  | (own) qu rl where "r \<in> set xs" "matches s (f_tag (r_reply x)) r" "llist rl qu (remove1 r xs)"
      "\<forall>z. z \<notin> set xs \<longrightarrow> rl z = rlist s z" "s' = set_rpc r (x\<lparr>r_done := True\<rparr>) (s\<lparr>queue := qu, rlist := rl\<rparr>)"
  | (other) q y qu rl where "q \<in> set xs" "q \<noteq> r" "rpcs s q = Some y" "matches s (f_tag (r_reply x)) q"
      "llist rl qu (remove1 q xs)" "\<forall>z. z \<notin> set xs \<longrightarrow> rl z = rlist s z"
      "s' = wakeup q (set_rpc q (y\<lparr>r_rpc := r_rpc x, r_reply := r_reply x, r_done := True\<rparr>)
         (set_rpc r (x\<lparr>r_rpc := r_rpc y\<rparr>) (s\<lparr>queue := qu, rlist := rl\<rparr>)))"
proof -
  have l: "lseg (rlist s) (queue s) xs nil" using xs by (simp add: llist_def)
  let ?P = "matches s (f_tag (r_reply x))"
  have k: "seek (rlist s) ?P (queue s) = Some (case find ?P xs of None \<Rightarrow> nil | Some x \<Rightarrow> x)"
    by (rule seek_lseg [OF l])
  show ?thesis
  proof (cases "find ?P xs")
    case None
    then have "\<forall>q \<in> set xs. \<not> ?P q" by (auto simp: find_None_iff)
    moreover have "s' = s" using m k x None by (simp add: mountmux_def)
    ultimately show ?thesis by (intro none)
  next
    case (Some q)
    then have q: "q \<in> set xs" "?P q" by (auto simp: find_Some_iff)
    then have "q \<noteq> nil" using lseg_not_nil [OF l] by blast
    obtain qu rl where u: "unlink q s = Some (s\<lparr>queue := qu, rlist := rl\<rparr>)" "llist rl qu (remove1 q xs)"
      "\<forall>z. z \<notin> set xs \<longrightarrow> rl z = rlist s z" using unlink_llist [OF xs q(1)] by blast
    show ?thesis
    proof (cases "q = r")
      case True
      then show ?thesis using m k x Some \<open>q \<noteq> nil\<close> u q by (intro own [of rl qu]) (auto simp: mountmux_def)
    next
      case False
      obtain y where "rpcs s q = Some y" using q(2) by (auto simp: matches_def split: option.splits)
      then show ?thesis using m k x Some \<open>q \<noteq> nil\<close> u q False by (intro other [of q y rl qu]) (auto simp: mountmux_def)
    qed
  qed
qed

lemma mntqrm_effect:
  assumes xs: "llist (rlist s) (queue s) xs" and m: "mntqrm r s = Some s'" and r: "r \<noteq> nil"
  obtains x qu rl where "rpcs s r = Some x" "llist rl qu (remove1 r xs)" "\<forall>z. z \<notin> set xs \<longrightarrow> rl z = rlist s z"
    "s' = set_rpc r (x\<lparr>r_done := True, r_flushed := False\<rparr>) (s\<lparr>queue := qu, rlist := rl\<rparr>)"
proof -
  obtain x where x: "rpcs s r = Some x" using m by (auto simp: mntqrm_def split: option.splits)
  let ?s = "set_rpc r (x\<lparr>r_done := True, r_flushed := False\<rparr>) s"
  have m': "unlink r ?s = Some s'" using m x by (simp add: mntqrm_def)
  have l: "llist (rlist ?s) (queue ?s) xs" using xs by (simp add: mst_simps)
  show ?thesis
  proof (cases "r \<in> set xs")
    case True
    then obtain qu rl where "unlink r ?s = Some (?s\<lparr>queue := qu, rlist := rl\<rparr>)" "llist rl qu (remove1 r xs)"
      "\<forall>y. y \<notin> set xs \<longrightarrow> rl y = rlist s y" using unlink_llist [OF l True] by (auto simp: mst_simps)
    then show ?thesis using m' x by (intro that [of x rl qu]) (auto simp: mst_simps)
  next
    case False
    have "findprev (rlist ?s) r nil (queue ?s) = Some None"
      using findprev_absent [OF _ False r] l by (simp add: llist_def)
    then have "s' = ?s" using m' by (simp add: unlink_def)
    then show ?thesis using x xs False by (intro that [of x "rlist s" "queue s"]) (auto simp: mst_simps remove1_idem)
  qed
qed

end
