(* ===== verification/Mntrun.thy ===== *)
theory Mntrun
  imports Mnt
begin

text \<open>
  The invariant of the mount driver (\<open>mnt_ok\<close> of \<open>Mnt\<close>) is kept by every step that is not an error of the reader;
  what follows from it for the calls, and what such an error does.
\<close>

section \<open>Frame rules\<close>

lemma pc_rpc_waits: "waits l = Some r \<Longrightarrow> pc_rpc l = Some r"
  by (cases l) (auto simp: waits_def)

lemma hop_facts:
  assumes "hop s l l'"
  shows "pc_rpc l' = pc_rpc l \<and> pc_rpc l \<noteq> None \<and> waits l' = waits l \<and> waits l \<noteq> None \<and>
    reader l' = reader l \<and> (\<forall>r. l \<noteq> Asleep r \<and> l' \<noteq> Asleep r) \<and> ended l = None \<and> ended l' \<noteq> Some Raised \<and>
    (ended l' \<noteq> None \<longrightarrow> (\<forall>r. pc_rpc l = Some r \<longrightarrow> rdone s r))"
  using assms by (cases rule: hop.cases) (auto simp: waits_def)

lemma goto_simps [simp]:
  "rpcs (goto p l s) = rpcs s" "rlist (goto p l s) = rlist s" "queue (goto p l s) = queue s"
  "rip (goto p l s) = rip s" "rpcfree (goto p l s) = rpcfree s" "rend (goto p l s) = rend s"
  "flushtag (goto p l s) = flushtag s" "flushbase (goto p l s) = flushbase s" "rpctag (goto p l s) = rpctag s"
  "pcs (goto p l s) = (pcs s)(p := l)" "rdone (goto p l s) r = rdone s r"
  by (simp_all add: goto_def rdone_def)

text \<open>What keeps each part of the invariant.\<close>

lemma procs_okI:
  assumes "pcs s 0 = Idle" "\<And>p. reader (pcs s p) \<Longrightarrow> rip s = p" "rip s \<noteq> 0 \<Longrightarrow> reader (pcs s (rip s))"
    "\<And>p r. pcs s p = Asleep r \<longleftrightarrow> p \<noteq> 0 \<and> rend s r = p"
    "\<And>p p' r. pc_rpc (pcs s p) = Some r \<Longrightarrow> pc_rpc (pcs s p') = Some r \<Longrightarrow> p = p'"
  shows "procs_ok s"
  using assms by (simp add: procs_ok_def)

lemma procs_okD:
  assumes "procs_ok s"
  shows "pcs s 0 = Idle" "reader (pcs s p) \<Longrightarrow> rip s = p" "rip s \<noteq> 0 \<Longrightarrow> reader (pcs s (rip s))"
    "pcs s p = Asleep r \<longleftrightarrow> p \<noteq> 0 \<and> rend s r = p"
    "pc_rpc (pcs s p) = Some r \<Longrightarrow> pc_rpc (pcs s p') = Some r \<Longrightarrow> p = p'"
  using assms unfolding procs_ok_def by blast+

lemma procs_frame:
  assumes "procs_ok s" "pcs s p = l" "pcs s' = (pcs s)(p := l')" "rip s' = rip s" "rend s' = rend s"
    "pc_rpc l' = pc_rpc l" "pc_rpc l \<noteq> None" "reader l' = reader l" "\<forall>r. l \<noteq> Asleep r" "\<forall>r. l' \<noteq> Asleep r"
  shows "procs_ok s'"
proof -
  have p: "pc_rpc (pcs s' q) = pc_rpc (pcs s q)" "reader (pcs s' q) = reader (pcs s q)"
    "pcs s' q = Asleep r \<longleftrightarrow> pcs s q = Asleep r" for q r using assms by auto
  have "p \<noteq> 0" using assms unfolding procs_ok_def by (metis pc_rpc.simps(1))
  then have "pcs s' 0 = pcs s 0" using assms(3) by simp
  then show ?thesis using assms(1,4,5) unfolding procs_ok_def p by simp
qed

lemma calls_frame:
  assumes "procs_ok s" "calls_ok s" "pc_rpc (pcs s p) = Some r" "pc_rpc l' = Some r" "call_ok l' x'"
    "pcs s' = (pcs s)(p := l')" "rpcs s' = (rpcs s)(r \<mapsto> x')"
  shows "calls_ok s'"
  unfolding calls_ok_def
proof (intro allI impI)
  fix q r' assume q: "pc_rpc (pcs s' q) = Some r'"
  show "r' \<noteq> nil \<and> (\<exists>x. rpcs s' r' = Some x \<and> call_ok (pcs s' q) x)"
  proof (cases "q = p")
    case True
    then show ?thesis using q assms unfolding calls_ok_def by auto
  next
    case False
    then have "pc_rpc (pcs s q) = Some r'" using q assms(6) by simp
    moreover have "r' \<noteq> r" using False calculation assms(1,3) unfolding procs_ok_def by blast
    ultimately show ?thesis using assms(2,6,7) False unfolding calls_ok_def by simp
  qed
qed

lemma calls_mono:
  assumes "calls_ok s" "pcs s' = pcs s"
    "\<And>r x. rpcs s r = Some x \<Longrightarrow> \<exists>x'. rpcs s' r = Some x' \<and> (\<forall>l. call_ok l x \<longrightarrow> call_ok l x')"
  shows "calls_ok s'"
  unfolding calls_ok_def assms(2)
proof (intro allI impI)
  fix p r assume "pc_rpc (pcs s p) = Some r"
  then obtain x where "r \<noteq> nil" "rpcs s r = Some x" "call_ok (pcs s p) x"
    using assms(1) unfolding calls_ok_def by blast
  then show "r \<noteq> nil \<and> (\<exists>x. rpcs s' r = Some x \<and> call_ok (pcs s p) x)" using assms(3) [of r x] by blast
qed

lemma queue_frame:
  assumes "queue_ok s" "rlist s' = rlist s" "queue s' = queue s"
    "\<And>r. (\<exists>q. waits (pcs s' q) = Some r) \<longleftrightarrow> (\<exists>q. waits (pcs s q) = Some r)" "\<And>r. rdone s' r = rdone s r"
  shows "queue_ok s'"
  using assms unfolding queue_ok_def by simp

lemma free_frame:
  assumes "free_ok s" "rpcfree s' = rpcfree s" "dom (rpcs s) \<subseteq> dom (rpcs s')"
    "\<And>y. (\<forall>q. pc_rpc (pcs s q) \<noteq> Some y) \<Longrightarrow> rlist s' y = rlist s y"
    "\<And>q r. pc_rpc (pcs s' q) = Some r \<Longrightarrow> \<exists>q'. pc_rpc (pcs s q') = Some r"
  shows "free_ok s'"
proof -
  obtain ys where ys: "llist (rlist s) (rpcfree s) ys" "set ys \<subseteq> dom (rpcs s)"
    "\<forall>p r. pc_rpc (pcs s p) = Some r \<longrightarrow> r \<notin> set ys" using assms(1) unfolding free_ok_def by blast
  have "rlist s' y = rlist s y" if "y \<in> set ys" for y using ys(3) that assms(4) by blast
  then have "llist (rlist s') (rpcfree s') ys"
    using ys(1) lseg_cong [of ys "rlist s" "rlist s'"] assms(2) by (auto simp: llist_def)
  then show ?thesis using ys(2,3) assms(3,5) unfolding free_ok_def by blast
qed

lemma bufs_frame:
  assumes "bufs_ok s" "\<And>r x'. rpcs s' r = Some x' \<Longrightarrow> \<exists>x. rpcs s r = Some x \<and> r_rpc x = r_rpc x'"
  shows "bufs_ok s'"
  using assms unfolding bufs_ok_def by metis

lemma queue_move:
  assumes "queue_ok s" "rlist s' = rlist s" "queue s' = queue s" "\<And>r. rdone s' r = rdone s r"
    "pcs s' = (pcs s)(p := l')" "waits l' = waits (pcs s p)"
  shows "queue_ok s'"
proof (rule queue_frame [OF assms(1-3) _ assms(4)])
  show "(\<exists>q. waits (pcs s' q) = Some r) \<longleftrightarrow> (\<exists>q. waits (pcs s q) = Some r)" for r
    unfolding assms(5) using assms(6) by (metis fun_upd_apply)
qed

lemma free_move:
  assumes "free_ok s" "rpcfree s' = rpcfree s" "dom (rpcs s) \<subseteq> dom (rpcs s')"
    "\<And>y. (\<forall>q. pc_rpc (pcs s q) \<noteq> Some y) \<Longrightarrow> rlist s' y = rlist s y"
    "pcs s' = (pcs s)(p := l')" "pc_rpc l' = pc_rpc (pcs s p)"
  shows "free_ok s'"
proof (rule free_frame [OF assms(1-4)])
  show "\<exists>q'. pc_rpc (pcs s q') = Some r" if "pc_rpc (pcs s' q) = Some r" for q r
    using that unfolding assms(5) using assms(6) by (metis fun_upd_apply)
qed

lemma mnt_okD:
  assumes "mnt_ok s"
  shows "procs_ok s" "calls_ok s" "queue_ok s" "free_ok s" "bufs_ok s"
  using assms by (simp_all add: mnt_ok_def)

lemma call_of:
  assumes "mnt_ok s" "pc_rpc (pcs s p) = Some r"
  obtains x where "rpcs s r = Some x" "call_ok (pcs s p) x" "r \<noteq> nil" "p \<noteq> 0"
  using assms by (metis calls_ok_def mnt_okD(1,2) option.distinct(1) pc_rpc.simps(1) procs_ok_def)

lemma call_ofD:
  assumes "mnt_ok s" "pc_rpc (pcs s p) = Some r" "rpcs s r = Some x"
  shows "call_ok (pcs s p) x"
  using mnt_okD(2) [OF assms(1)] assms(2,3) unfolding calls_ok_def by fastforce

text \<open>The steps.\<close>

lemma move_ok:
  assumes ok: "mnt_ok s" and l: "pcs s p = l"
    and f: "pc_rpc l' = pc_rpc l" "pc_rpc l \<noteq> None" "waits l' = waits l" "reader l' = reader l"
      "\<forall>r. l \<noteq> Asleep r" "\<forall>r. l' \<noteq> Asleep r"
    and c: "\<And>r x. pc_rpc l = Some r \<Longrightarrow> rpcs s r = Some x \<Longrightarrow> call_ok l x \<Longrightarrow> call_ok l' x"
  shows "mnt_ok (goto p l' s)"
proof -
  let ?s = "goto p l' s"
  obtain r where r: "pc_rpc l = Some r" using f(2) by blast
  then obtain x where x: "rpcs s r = Some x" "call_ok l x" using call_of [OF ok, of p r] l by blast
  note p = mnt_okD [OF ok]
  have "calls_ok ?s" using calls_frame [OF p(1,2), of p r l' x ?s] r x l f(1) c by (auto simp: fun_upd_idem)
  moreover have "procs_ok ?s" using procs_frame [OF p(1) l] f by simp
  moreover have "queue_ok ?s" using f(3) l by (intro queue_move [OF p(3), of _ p l']) auto
  moreover have "free_ok ?s" using f(1) l by (intro free_move [OF p(4), of _ p l']) auto
  moreover have "bufs_ok ?s" by (intro bufs_frame [OF p(5)]) auto
  ultimately show ?thesis by (simp add: mnt_ok_def)
qed

lemma hop_ok:
  assumes "mnt_ok s" "pcs s p = l" "hop s l l'"
  shows "mnt_ok (goto p l' s)"
  using hop_facts [OF assms(3)]
  by (intro move_ok [OF assms(1,2)]) (auto simp: call_ok_def rdone_def)

lemma flush_ok:
  assumes ok: "mnt_ok s" and l: "pcs s p = Flushing r b" and h: "flush_tag r s = Some s1"
  shows "mnt_ok (goto p (Flush_sent r b) s1)"
proof -
  let ?s = "goto p (Flush_sent r b) s1"
  obtain x where x: "rpcs s r = Some x" "call_ok (pcs s p) x" using call_of [OF ok, of p r] l by auto
  note p = mnt_okD [OF ok]
  let ?x = "x\<lparr>r_flushtag := flushtag s, r_flushed := True, r_tags := insert (flushtag s) (r_tags x)\<rparr>"
  have s1: "s1 = set_rpc r ?x (s\<lparr>flushtag := (if flushtag s + 1 = Tagend then flushbase s else flushtag s + 1)\<rparr>)"
    using h x by (simp add: flush_tag_def)
  have s: "pcs ?s = (pcs s)(p := Flush_sent r b)" "rpcs ?s = (rpcs s)(r \<mapsto> ?x)" "rip ?s = rip s" "rend ?s = rend s"
    "rlist ?s = rlist s" "queue ?s = queue s" "rpcfree ?s = rpcfree s"
    by (simp_all add: s1 set_rpc_def)
  have d: "rdone ?s z = rdone s z" for z using x unfolding rdone_def s by simp
  have w: "waits (Flush_sent r b) = waits (pcs s p)" by (simp add: l waits_def)
  have "call_ok (Flush_sent r b) ?x" using x l by (auto simp: call_ok_def waits_def)
  then have "calls_ok ?s" using calls_frame [OF p(1,2), of p r "Flush_sent r b" ?x ?s] s l by simp
  moreover have "procs_ok ?s" using procs_frame [OF p(1) l, of ?s "Flush_sent r b"] s by simp
  moreover have "queue_ok ?s" using s d w by (intro queue_move [OF p(3), of _ p "Flush_sent r b"])
  moreover have "free_ok ?s" using s l by (intro free_move [OF p(4), of _ p "Flush_sent r b"]) auto
  moreover have "bufs_ok ?s" using s x by (intro bufs_frame [OF p(5)]) (auto split: if_splits)
  ultimately show ?thesis by (simp add: mnt_ok_def)
qed

lemma start_ok:
  assumes ok: "mnt_ok s" and l: "pcs s p = Ready r" and h: "enter r s = Some s1"
  shows "mnt_ok (goto p (Sending r) s1)"
proof -
  let ?s = "goto p (Sending r) s1"
  obtain x where x: "rpcs s r = Some x" "call_ok (pcs s p) x" "r \<noteq> nil" using call_of [OF ok, of p r] l by auto
  note p = mnt_okD [OF ok]
  let ?x = "x\<lparr>r_flushed := False, r_tags := {r_tag x}\<rparr>"
  have s: "pcs ?s = (pcs s)(p := Sending r)" "rpcs ?s = (rpcs s)(r \<mapsto> ?x)" "rip ?s = rip s" "rend ?s = rend s"
    "rlist ?s = (rlist s)(r \<mapsto> queue s)" "queue ?s = r" "rpcfree ?s = rpcfree s"
    using h x by (auto simp: enter_def set_rpc_def)
  have nd: "\<not> r_done x" using x(2) l by (simp add: call_ok_def waits_def)
  then have "call_ok (Sending r) ?x" by (simp add: call_ok_def waits_def)
  then have "calls_ok ?s" using calls_frame [OF p(1,2), of p r "Sending r" ?x ?s] s l by simp
  moreover have "procs_ok ?s" using procs_frame [OF p(1) l, of ?s "Sending r"] s by simp
  moreover have "queue_ok ?s"
  proof -
    obtain xs where xs: "llist (rlist s) (queue s) xs" "\<And>z. z \<in> set xs \<longleftrightarrow> (\<exists>q. waits (pcs s q) = Some z) \<and> \<not> rdone s z"
      using p(3) unfolding queue_ok_def by blast
    have own: "waits (pcs s q) \<noteq> Some r" for q
    proof
      assume w: "waits (pcs s q) = Some r"
      then have "q = p" using p(1) l pc_rpc_waits unfolding procs_ok_def by (metis pc_rpc.simps(2))
      then show False using w l by (simp add: waits_def)
    qed
    then have "r \<notin> set xs" using xs(2) by blast
    then have "llist (rlist ?s) (queue ?s) (r # xs)" using xs(1) x(3) unfolding s by (simp add: llist_def)
    moreover have "z \<in> set (r # xs) \<longleftrightarrow> (\<exists>q. waits (pcs ?s q) = Some z) \<and> \<not> rdone ?s z" for z
    proof (cases "z = r")
      case True
      then show ?thesis using nd unfolding rdone_def s by (auto simp: waits_def)
    next
      case False
      then have "waits (pcs ?s q) = Some z \<longleftrightarrow> waits (pcs s q) = Some z" for q
        using l unfolding s by (simp add: waits_def)
      then show ?thesis using xs(2) False unfolding rdone_def s by simp
    qed
    ultimately show ?thesis unfolding queue_ok_def by blast
  qed
  moreover have "rlist ?s y = rlist s y" if "\<forall>q. pc_rpc (pcs s q) \<noteq> Some y" for y
    using that [rule_format, of p] l unfolding s by simp
  then have "free_ok ?s" using s l by (intro free_move [OF p(4), of _ p "Sending r"]) auto
  moreover have "bufs_ok ?s" using s x by (intro bufs_frame [OF p(5)]) (auto split: if_splits)
  ultimately show ?thesis by (simp add: mnt_ok_def)
qed

lemma gate_opens_ok:
  assumes ok: "mnt_ok s" and l: "pcs s p = Gate r" and h: "rip s = 0"
  shows "mnt_ok (goto p (Reading r) (s\<lparr>rip := p\<rparr>))"
proof -
  let ?s = "goto p (Reading r) (s\<lparr>rip := p\<rparr>)"
  obtain x where x: "rpcs s r = Some x" "call_ok (pcs s p) x" "p \<noteq> 0" using call_of [OF ok, of p r] l by auto
  note p = mnt_okD [OF ok]
  have s: "pcs ?s = (pcs s)(p := Reading r)" "rpcs ?s = rpcs s" "rip ?s = p" "rend ?s = rend s"
    "rlist ?s = rlist s" "queue ?s = queue s" "rpcfree ?s = rpcfree s" by simp_all
  have "call_ok (Reading r) x" using x(2) l by (simp add: call_ok_def waits_def)
  then have "calls_ok ?s" using calls_frame [OF p(1,2), of p r "Reading r" x ?s] x(1) l by (simp add: fun_upd_idem)
  moreover have "procs_ok ?s"
  proof -
    have nr: "\<not> reader (pcs s q)" for q using p(1) h unfolding procs_ok_def by (metis reader.simps(5))
    have "pc_rpc (pcs ?s q) = pc_rpc (pcs s q)" "pcs ?s q = Asleep z \<longleftrightarrow> pcs s q = Asleep z"
      "reader (pcs ?s q) \<longleftrightarrow> q = p" for q z using nr l by auto
    then show ?thesis using p(1) x(3) unfolding procs_ok_def by simp
  qed
  moreover have "queue_ok ?s" using l by (intro queue_move [OF p(3), of _ p "Reading r"]) (auto simp: rdone_def waits_def)
  moreover have "free_ok ?s" using l by (intro free_move [OF p(4), of _ p "Reading r"]) auto
  moreover have "bufs_ok ?s" by (intro bufs_frame [OF p(5)]) auto
  ultimately show ?thesis by (simp add: mnt_ok_def)
qed

lemma sleep_ok:
  assumes ok: "mnt_ok s" and l: "pcs s p = Sleeping r" and h: "\<not> rdone s r" "rend s r = 0"
  shows "mnt_ok (goto p (Asleep r) (s\<lparr>rend := (rend s)(r := p)\<rparr>))"
proof -
  let ?s = "goto p (Asleep r) (s\<lparr>rend := (rend s)(r := p)\<rparr>)"
  obtain x where x: "rpcs s r = Some x" "call_ok (pcs s p) x" "p \<noteq> 0" using call_of [OF ok, of p r] l by auto
  note p = mnt_okD [OF ok]
  have "call_ok (Asleep r) x" using x(1,2) l h(1) by (simp add: call_ok_def waits_def rdone_def)
  then have "calls_ok ?s" using calls_frame [OF p(1,2), of p r "Asleep r" x ?s] x(1) l by (simp add: fun_upd_idem)
  moreover have "procs_ok ?s"
  proof -
    have q: "pc_rpc (pcs ?s q) = pc_rpc (pcs s q)" "reader (pcs ?s q) = reader (pcs s q)" for q using l by auto
    have a: "pcs s q = Asleep z \<longleftrightarrow> q \<noteq> 0 \<and> rend s z = q" for q z using p(1) unfolding procs_ok_def by blast
    have "pcs ?s q = Asleep z \<longleftrightarrow> q \<noteq> 0 \<and> rend ?s z = q" for q z
      using a [of q z] a [of p z] l x(3) h(2) by auto
    then show ?thesis using p(1) x(3) unfolding procs_ok_def q by simp
  qed
  moreover have "queue_ok ?s" using l by (intro queue_move [OF p(3), of _ p "Asleep r"]) (auto simp: rdone_def waits_def)
  moreover have "free_ok ?s" using l by (intro free_move [OF p(4), of _ p "Asleep r"]) auto
  moreover have "bufs_ok ?s" by (intro bufs_frame [OF p(5)]) auto
  ultimately show ?thesis by (simp add: mnt_ok_def)
qed

text \<open>Whoever sleeps at a call leaves the \<open>Rendez\<close>: woken, or pulled out.\<close>

lemma leave_ok:
  assumes ok: "mnt_ok s" and l: "pcs s p = Asleep r" and l': "l' = Awake r \<or> l' = Flushing r False"
  shows "mnt_ok (goto p l' (s\<lparr>rend := (rend s)(r := 0)\<rparr>))"
proof -
  let ?s = "goto p l' (s\<lparr>rend := (rend s)(r := 0)\<rparr>)"
  obtain x where x: "rpcs s r = Some x" "call_ok (pcs s p) x" "p \<noteq> 0" using call_of [OF ok, of p r] l by auto
  note p = mnt_okD [OF ok]
  have "call_ok l' x" using x(2) l l' by (auto simp: call_ok_def waits_def)
  then have "calls_ok ?s" using calls_frame [OF p(1,2), of p r l' x ?s] x(1) l l' by (auto simp: fun_upd_idem)
  moreover have "procs_ok ?s"
  proof -
    have q: "pc_rpc (pcs ?s q) = pc_rpc (pcs s q)" "reader (pcs ?s q) = reader (pcs s q)" for q using l l' by auto
    have a: "pcs s q = Asleep z \<longleftrightarrow> q \<noteq> 0 \<and> rend s z = q" for q z using p(1) unfolding procs_ok_def by blast
    have "pcs ?s q = Asleep z \<longleftrightarrow> q \<noteq> 0 \<and> rend ?s z = q" for q z
      using a [of q z] a [of p z] a [of p r] l l' x(3) by auto
    then show ?thesis using p(1) x(3) unfolding procs_ok_def q by simp
  qed
  moreover have "queue_ok ?s" using l l' by (intro queue_move [OF p(3), of _ p l']) (auto simp: rdone_def waits_def)
  moreover have "free_ok ?s" using l l' by (intro free_move [OF p(4), of _ p l']) auto
  moreover have "bufs_ok ?s" by (intro bufs_frame [OF p(5)]) auto
  ultimately show ?thesis by (simp add: mnt_ok_def)
qed

lemma wakeup_ok:
  assumes "mnt_ok s"
  shows "mnt_ok (wakeup q s)"
proof (cases "rend s q = 0")
  case False
  then have "pcs s (rend s q) = Asleep q" using mnt_okD(1) [OF assms] unfolding procs_ok_def by blast
  then show ?thesis using leave_ok [OF assms, of "rend s q" q "Awake q"] False by (simp add: wakeup_def)
qed (use assms in \<open>simp add: wakeup_def\<close>)

lemma wakeup_leaves:
  assumes "mnt_ok s"
  shows "rend (wakeup q s) q = 0" "pcs (wakeup q s) p \<noteq> Asleep q"
    "pcs s p \<noteq> Asleep q \<Longrightarrow> pcs (wakeup q s) p = pcs s p"
  using mnt_okD(1) [OF assms] unfolding procs_ok_def wakeup_def by auto

lemma wakeup_simps [simp]:
  "rpcs (wakeup q s) = rpcs s" "queue (wakeup q s) = queue s" "rlist (wakeup q s) = rlist s"
  "rip (wakeup q s) = rip s" "rpcfree (wakeup q s) = rpcfree s" "rdone (wakeup q s) r = rdone s r"
  by (simp_all add: wakeup_def goto_def rdone_def)

lemma wakeup_cong:
  "pcs s' = pcs s \<Longrightarrow> rend s' = rend s \<Longrightarrow> pcs (wakeup q s') = pcs (wakeup q s) \<and> rend (wakeup q s') = rend (wakeup q s)"
  by (simp add: wakeup_def)

lemma wakeup_waits:
  assumes "mnt_ok s"
  shows "waits (pcs (wakeup q s) p) = waits (pcs s p)"
proof (cases "rend s q \<noteq> 0 \<and> p = rend s q")
  case True
  then have "pcs s p = Asleep q" using procs_okD(4) [OF mnt_okD(1) [OF assms], of p q] by simp
  then show ?thesis using True by (simp add: wakeup_def waits_def)
qed (auto simp: wakeup_def)

text \<open>A call that is answered or given up leaves the queue.\<close>

lemma queue_leaves:
  assumes xs: "llist (rlist s) (queue s) xs" "\<And>z. z \<in> set xs \<longleftrightarrow> (\<exists>q. waits (pcs s q) = Some z) \<and> \<not> rdone s z"
    and l: "llist (rlist s') (queue s') (remove1 r xs)"
    and w: "\<And>z. (\<exists>q. waits (pcs s' q) = Some z) \<longleftrightarrow> (\<exists>q. waits (pcs s q) = Some z)"
    and d: "rdone s' r" "\<And>z. z \<noteq> r \<Longrightarrow> rdone s' z = rdone s z"
  shows "queue_ok s'"
proof -
  have "distinct xs" using xs(1) by (simp add: llist_def)
  then have "z \<in> set (remove1 r xs) \<longleftrightarrow> (\<exists>q. waits (pcs s' q) = Some z) \<and> \<not> rdone s' z" for z
    using xs(2) [of z] w [of z] d by (cases "z = r") auto
  then show ?thesis using l unfolding queue_ok_def by blast
qed

lemma queue_list:
  assumes "mnt_ok s"
  obtains xs where "llist (rlist s) (queue s) xs"
    "\<And>z. z \<in> set xs \<longleftrightarrow> (\<exists>q. waits (pcs s q) = Some z) \<and> \<not> rdone s z"
proof -
  obtain xs where "llist (rlist s) (queue s) xs"
    "\<forall>z. z \<in> set xs \<longleftrightarrow> (\<exists>q. waits (pcs s q) = Some z) \<and> \<not> rdone s z"
    using mnt_okD(3) [OF assms] unfolding queue_ok_def by blast
  then show ?thesis by (intro that) auto
qed

lemma flush_fails_ok:
  assumes ok: "mnt_ok s" and l: "pcs s p = Flush_sent r b" and h: "mntqrm r s = Some s1"
  shows "mnt_ok (goto p (if b then Gating r Raised else Back r Raised) s1)"
proof -
  let ?l = "if b then Gating r Raised else Back r Raised"
  let ?s = "goto p ?l s1"
  obtain x where x: "rpcs s r = Some x" "call_ok (pcs s p) x" "r \<noteq> nil" using call_of [OF ok, of p r] l by auto
  note p = mnt_okD [OF ok]
  obtain xs where xs: "llist (rlist s) (queue s) xs"
    "\<And>z. z \<in> set xs \<longleftrightarrow> (\<exists>q. waits (pcs s q) = Some z) \<and> \<not> rdone s z" by (rule queue_list [OF ok], rule that)
  let ?x = "x\<lparr>r_done := True, r_flushed := False\<rparr>"
  obtain qu rl where e: "llist rl qu (remove1 r xs)" "\<forall>z. z \<notin> set xs \<longrightarrow> rl z = rlist s z"
    "s1 = set_rpc r ?x (s\<lparr>queue := qu, rlist := rl\<rparr>)"
    using mntqrm_effect [OF xs(1) h x(3)] x(1) by (metis option.inject)
  have s: "pcs ?s = (pcs s)(p := ?l)" "rpcs ?s = (rpcs s)(r \<mapsto> ?x)" "rip ?s = rip s" "rend ?s = rend s"
    "rlist ?s = rl" "queue ?s = qu" "rpcfree ?s = rpcfree s" by (simp_all add: e(3) set_rpc_def)
  have w: "waits ?l = waits (pcs s p)" by (simp add: l waits_def)
  have "call_ok ?l ?x" using x(2) l by (auto simp: call_ok_def waits_def)
  then have "calls_ok ?s" using calls_frame [OF p(1,2), of p r ?l ?x ?s] s l by simp
  moreover have "procs_ok ?s" using procs_frame [OF p(1) l, of ?s ?l] s by simp
  moreover have "queue_ok ?s"
  proof (rule queue_leaves [OF xs])
    show "llist (rlist ?s) (queue ?s) (remove1 r xs)" using e(1) unfolding s .
    show "(\<exists>q. waits (pcs ?s q) = Some z) \<longleftrightarrow> (\<exists>q. waits (pcs s q) = Some z)" for z
      unfolding s using w by (metis fun_upd_apply)
    show "rdone ?s r" "\<And>z. z \<noteq> r \<Longrightarrow> rdone ?s z = rdone s z" unfolding rdone_def s by simp_all
  qed
  moreover have "rlist ?s y = rlist s y" if "\<forall>q. pc_rpc (pcs s q) \<noteq> Some y" for y
    using that e(2) xs(2) [of y] pc_rpc_waits unfolding s by blast
  then have "free_ok ?s" using s l by (intro free_move [OF p(4), of _ p ?l]) auto
  moreover have "bufs_ok ?s" using s x by (intro bufs_frame [OF p(5)]) (auto split: if_splits)
  ultimately show ?thesis by (simp add: mnt_ok_def)
qed

lemma gate_ok:
  assumes ok: "mnt_ok s" and l: "pcs s p = Gating r e" and h: "mntgate s = Some (q, s1)"
  shows "mnt_ok (goto p (if q = nil then Back r e else Waking r q e) s1)"
proof -
  let ?l = "if q = nil then Back r e else Waking r q e"
  let ?s = "goto p ?l s1"
  obtain x where x: "rpcs s r = Some x" "call_ok (pcs s p) x" "p \<noteq> 0" using call_of [OF ok, of p r] l by auto
  note p = mnt_okD [OF ok]
  have s1: "s1 = s\<lparr>rip := 0\<rparr>" using h by (auto simp: mntgate_def split: option.splits)
  have "call_ok ?l x" using x(2) l by (auto simp: call_ok_def waits_def)
  then have "calls_ok ?s" using calls_frame [OF p(1,2), of p r ?l x ?s] x(1) l by (auto simp: fun_upd_idem s1)
  moreover have "procs_ok ?s"
  proof -
    have "rip s = p" using p(1) l unfolding procs_ok_def by (metis reader.simps(4))
    then have nr: "q' \<noteq> p \<Longrightarrow> \<not> reader (pcs s q')" for q' using p(1) unfolding procs_ok_def by metis
    have "pc_rpc (pcs ?s q') = pc_rpc (pcs s q')" "pcs ?s q' = Asleep z \<longleftrightarrow> pcs s q' = Asleep z"
      "\<not> reader (pcs ?s q')" for q' z using nr l by (auto simp: s1)
    then show ?thesis using p(1) x(3) unfolding procs_ok_def by (simp add: s1)
  qed
  moreover have "queue_ok ?s" using l by (intro queue_move [OF p(3), of _ p ?l]) (auto simp: rdone_def waits_def s1)
  moreover have "free_ok ?s" using l by (intro free_move [OF p(4), of _ p ?l]) (auto simp: s1)
  moreover have "bufs_ok ?s" by (intro bufs_frame [OF p(5)]) (auto simp: s1)
  ultimately show ?thesis by (simp add: mnt_ok_def)
qed

lemma wake_ok:
  assumes ok: "mnt_ok s" and l: "pcs s p = Waking r q e"
  shows "mnt_ok (goto p (Back r e) (wakeup q s))"
proof -
  have "pcs (wakeup q s) p = Waking r q e" using wakeup_leaves(3) [OF ok, of p q] l by simp
  then show ?thesis by (intro move_ok [OF wakeup_ok [OF ok]]) (auto simp: call_ok_def waits_def)
qed

lemma finish_ok:
  assumes ok: "mnt_ok s" and l: "pcs s p = Back r e"
  shows "mnt_ok (goto p Idle (mntfree r s))"
proof -
  let ?s = "goto p Idle (mntfree r s)"
  obtain x where x: "rpcs s r = Some x" "call_ok (pcs s p) x" "r \<noteq> nil" "p \<noteq> 0" using call_of [OF ok, of p r] l by auto
  note p = mnt_okD [OF ok]
  have s: "pcs ?s = (pcs s)(p := Idle)" "rpcs ?s = rpcs s" "rip ?s = rip s" "rend ?s = rend s"
    "rlist ?s = (rlist s)(r \<mapsto> rpcfree s)" "queue ?s = queue s" "rpcfree ?s = r" by (simp_all add: mntfree_def)
  have own: "pc_rpc (pcs s q) = Some r \<Longrightarrow> q = p" for q using p(1) l unfolding procs_ok_def by (metis pc_rpc.simps(13))
  have sub: "pc_rpc (pcs ?s q) = Some z \<Longrightarrow> q \<noteq> p \<and> pc_rpc (pcs s q) = Some z \<and> z \<noteq> r" for q z
    using own unfolding s by (auto split: if_splits)
  have d: "rdone s r" using x(1,2) l by (simp add: rdone_def call_ok_def)
  have "calls_ok ?s" using p(2) sub unfolding calls_ok_def by (metis fun_upd_other s(1,2))
  moreover have "procs_ok ?s"
  proof -
    have r: "pcs ?s q = Asleep z \<longleftrightarrow> pcs s q = Asleep z" "reader (pcs ?s q) \<longleftrightarrow> reader (pcs s q)" for q z
      using x(2) l unfolding s by (auto split: if_splits)
    have inj: "pc_rpc (pcs ?s q) = Some z \<Longrightarrow> pc_rpc (pcs ?s q') = Some z \<Longrightarrow> q = q'" for q q' z
      using sub p(1) unfolding procs_ok_def by blast
    show ?thesis
    proof (rule procs_okI)
      show "pcs ?s 0 = Idle" using p(1) unfolding procs_ok_def s by simp
      show "rip ?s = q" if "reader (pcs ?s q)" for q using that procs_okD(2) [OF p(1)] unfolding s(3) r by simp
      show "reader (pcs ?s (rip ?s))" if "rip ?s \<noteq> 0" using that procs_okD(3) [OF p(1)] unfolding s(3) r by simp
      show "pcs ?s q = Asleep z \<longleftrightarrow> q \<noteq> 0 \<and> rend ?s z = q" for q z
        unfolding s(4) r by (rule procs_okD(4) [OF p(1)])
    qed (rule inj)
  qed
  moreover have "queue_ok ?s"
  proof -
    obtain xs where xs: "llist (rlist s) (queue s) xs"
      "\<And>z. z \<in> set xs \<longleftrightarrow> (\<exists>q. waits (pcs s q) = Some z) \<and> \<not> rdone s z" by (rule queue_list [OF ok], rule that)
    have "r \<notin> set xs" using xs(2) d by blast
    then have "llist (rlist ?s) (queue ?s) xs" using xs(1) unfolding s llist_def by simp
    moreover have "waits (pcs ?s q) = Some z \<longleftrightarrow> waits (pcs s q) = Some z \<and> z \<noteq> r" for q z
      using own pc_rpc_waits l unfolding s by (auto simp: waits_def)
    then have "z \<in> set xs \<longleftrightarrow> (\<exists>q. waits (pcs ?s q) = Some z) \<and> \<not> rdone ?s z" for z
      using xs(2) [of z] d unfolding rdone_def s(2) by blast
    ultimately show ?thesis unfolding queue_ok_def by blast
  qed
  moreover have "free_ok ?s"
  proof -
    obtain ys where ys: "llist (rlist s) (rpcfree s) ys" "set ys \<subseteq> dom (rpcs s)"
      "\<forall>p r. pc_rpc (pcs s p) = Some r \<longrightarrow> r \<notin> set ys" using p(4) unfolding free_ok_def by blast
    then have "r \<notin> set ys" using l by (metis pc_rpc.simps(13))
    then have "llist (rlist ?s) (rpcfree ?s) (r # ys)" using ys(1) x(3) unfolding s llist_def by simp
    moreover have "set (r # ys) \<subseteq> dom (rpcs ?s)" using ys(2) x(1) unfolding s by auto
    moreover have "z \<notin> set (r # ys)" if "pc_rpc (pcs ?s q) = Some z" for q z
      using sub [OF that] ys(3) by auto
    ultimately show ?thesis unfolding free_ok_def by blast
  qed
  moreover have "bufs_ok ?s" using s by (intro bufs_frame [OF p(5)]) auto
  ultimately show ?thesis by (simp add: mnt_ok_def)
qed

lemma alloc_ok:
  assumes ok: "mnt_ok s" and l: "pcs s p = Idle" "p \<noteq> 0" and n: "new \<notin> dom (rpcs s)"
    and b: "\<forall>x \<in> ran (rpcs s). r_rpc x \<noteq> buf" and h: "mntralloc new buf s = Some (r, s1)"
  shows "mnt_ok (goto p (Ready r) s1)"
proof -
  let ?s = "goto p (Ready r) s1"
  note p = mnt_okD [OF ok]
  obtain ys where ys: "llist (rlist s) (rpcfree s) ys" "set ys \<subseteq> dom (rpcs s)"
    "\<forall>p r. pc_rpc (pcs s p) = Some r \<longrightarrow> r \<notin> set ys" using p(4) unfolding free_ok_def by blast
  obtain xs where xs: "llist (rlist s) (queue s) xs"
    "\<And>z. z \<in> set xs \<longleftrightarrow> (\<exists>q. waits (pcs s q) = Some z) \<and> \<not> rdone s z" by (rule queue_list [OF ok], rule that)
  have owned: "pc_rpc (pcs s q) = Some z \<Longrightarrow> z \<in> dom (rpcs s)" for q z using p(2) unfolding calls_ok_def by blast
  obtain x zs where e: "r \<noteq> nil" "\<And>q. pc_rpc (pcs s q) \<noteq> Some r" "\<not> r_done x" "rpcs s1 = (rpcs s)(r \<mapsto> x)"
    "pcs s1 = pcs s" "rip s1 = rip s" "rend s1 = rend s" "queue s1 = queue s"
    "\<And>z. z \<noteq> r \<Longrightarrow> rlist s1 z = rlist s z" "llist (rlist s1) (rpcfree s1) zs" "set zs \<subseteq> set ys" "r \<notin> set zs"
    "bufs_ok s1"
  proof (cases "rpcfree s = nil")
    case True
    let ?x = "\<lparr>r_tag = ucast (rpctag s), r_reply = zero_fcall, r_rpc = buf, r_done = False,
              r_flushed = False, r_flushtag = 0, r_tags = {}\<rparr>"
    have s1: "r = new" "r \<noteq> nil" "s1 = set_rpc new ?x (s\<lparr>rlist := (rlist s)(new \<mapsto> nil), rpctag := rpctag s + 1\<rparr>)"
      using h True by (auto simp: mntralloc_def split: if_splits)
    have "bufs_ok s1" using p(5) b n unfolding bufs_ok_def s1 by (auto simp: set_rpc_def ran_def split: if_splits)
    then show ?thesis using s1 n owned True by (intro that [of ?x "[]"]) (auto simp: set_rpc_def llist_def)
  next
    case False
    then obtain zs where zs: "ys = rpcfree s # zs" using ys(1) by (cases ys) (auto simp: llist_def)
    obtain y k where y: "rpcs s (rpcfree s) = Some y" "rlist s (rpcfree s) = Some k"
      using h False by (auto simp: mntralloc_def split: option.splits)
    let ?x = "y\<lparr>r_done := False, r_flushed := False, r_tags := {}\<rparr>"
    have s1: "r = rpcfree s" "s1 = set_rpc r ?x (s\<lparr>rpcfree := k\<rparr>)" using h False y by (auto simp: mntralloc_def)
    have "bufs_ok s1" using y(1) s1(1) unfolding s1(2)
      by (intro bufs_frame [OF p(5)]) (auto simp: set_rpc_def split: if_splits)
    then show ?thesis using s1 ys zs y False by (intro that [of ?x zs]) (auto simp: set_rpc_def llist_def)
  qed
  have s: "pcs ?s = (pcs s)(p := Ready r)" "rpcs ?s = (rpcs s)(r \<mapsto> x)" "rip ?s = rip s" "rend ?s = rend s"
    "queue ?s = queue s" "rlist ?s = rlist s1" "rpcfree ?s = rpcfree s1" by (simp_all add: e)
  have "calls_ok ?s"
    unfolding calls_ok_def
  proof (intro allI impI)
    fix q z assume q: "pc_rpc (pcs ?s q) = Some z"
    show "z \<noteq> nil \<and> (\<exists>x. rpcs ?s z = Some x \<and> call_ok (pcs ?s q) x)"
    proof (cases "q = p")
      case True
      then show ?thesis using q e(1,3) unfolding s by (simp add: call_ok_def waits_def)
    next
      case False
      then have "pc_rpc (pcs s q) = Some z" using q unfolding s by simp
      then show ?thesis using e(2) [of q] p(2) False unfolding calls_ok_def s by auto
    qed
  qed
  moreover have "procs_ok ?s"
  proof (rule procs_okI)
    show "pcs ?s 0 = Idle" using procs_okD(1) [OF p(1)] l(2) unfolding s by simp
    show "rip ?s = q" if "reader (pcs ?s q)" for q
      using that procs_okD(2) [OF p(1), of q] unfolding s by (auto split: if_splits)
    show "reader (pcs ?s (rip ?s))" if "rip ?s \<noteq> 0"
      using that procs_okD(3) [OF p(1)] l unfolding s by auto
    show "pcs ?s q = Asleep z \<longleftrightarrow> q \<noteq> 0 \<and> rend ?s z = q" for q z
      using procs_okD(4) [OF p(1), of q z] l unfolding s by auto
    show "q = q'" if "pc_rpc (pcs ?s q) = Some z" "pc_rpc (pcs ?s q') = Some z" for q q' z
      using that e(2) procs_okD(5) [OF p(1), of q z q'] unfolding s by (auto split: if_splits)
  qed
  moreover have "queue_ok ?s"
  proof -
    have r: "r \<notin> set xs" using xs(2) [of r] e(2) pc_rpc_waits by blast
    have "rlist s1 z = rlist s z" if "z \<in> set xs" for z using e(9) [of z] that r by auto
    then have "llist (rlist ?s) (queue ?s) xs"
      using xs(1) lseg_cong [of xs "rlist s" "rlist s1"] unfolding s llist_def by auto
    moreover have "waits (pcs ?s q) = Some z \<longleftrightarrow> waits (pcs s q) = Some z" for q z
      using l unfolding s by (simp add: waits_def)
    then have w: "(\<exists>q. waits (pcs ?s q) = Some z) \<longleftrightarrow> (\<exists>q. waits (pcs s q) = Some z)" for z by blast
    have "z \<in> set xs \<longleftrightarrow> (\<exists>q. waits (pcs ?s q) = Some z) \<and> \<not> rdone ?s z" for z
    proof (cases "z = r")
      case True
      then have "\<nexists>q. waits (pcs s q) = Some z" using e(2) pc_rpc_waits by blast
      then show ?thesis using r w True by blast
    next
      case False
      then show ?thesis using xs(2) [of z] w unfolding rdone_def s(2) by simp
    qed
    ultimately show ?thesis unfolding queue_ok_def by blast
  qed
  moreover have "free_ok ?s"
  proof -
    have "set zs \<subseteq> dom (rpcs ?s)" using ys(2) e(11) unfolding s by auto
    moreover have "z \<notin> set zs" if "pc_rpc (pcs ?s q) = Some z" for q z
      using that ys(3) e(11,12) unfolding s by (auto split: if_splits)
    ultimately show ?thesis using e(10) unfolding free_ok_def s(6,7) by blast
  qed
  moreover have "bufs_ok ?s" using e(13) unfolding bufs_ok_def by simp
  ultimately show ?thesis by (simp add: mnt_ok_def)
qed

text \<open>The reader has put a reply into its own structure, and hands it on.\<close>

lemma reply_ok:
  assumes ok: "mnt_ok s" and x: "rpcs s r = Some x" "\<not> r_done x"
  shows "mnt_ok (set_rpc r (x\<lparr>r_reply := f\<rparr>) s)"
proof -
  let ?x = "x\<lparr>r_reply := f\<rparr>" let ?s = "set_rpc r ?x s"
  note p = mnt_okD [OF ok]
  have s: "pcs ?s = pcs s" "rpcs ?s = (rpcs s)(r \<mapsto> ?x)" "rip ?s = rip s" "rend ?s = rend s"
    "queue ?s = queue s" "rlist ?s = rlist s" "rpcfree ?s = rpcfree s" by (simp_all add: set_rpc_def)
  have d: "rdone ?s z = rdone s z" for z using x unfolding rdone_def s by simp
  have "call_ok l x \<Longrightarrow> call_ok l ?x" for l using x(2) by (simp add: call_ok_def)
  then have "calls_ok ?s" using x(1) by (intro calls_mono [OF p(2) s(1)]) (auto simp: s(2))
  moreover have "procs_ok ?s" using p(1) unfolding procs_ok_def s .
  moreover have "queue_ok ?s" using p(3) unfolding queue_ok_def s d .
  moreover have "free_ok ?s" using p(4) x(1) unfolding free_ok_def s by (metis dom_fun_upd insert_absorb domI option.distinct(1))
  moreover have "bufs_ok ?s" using s x by (intro bufs_frame [OF p(5)]) (auto split: if_splits)
  ultimately show ?thesis by (simp add: mnt_ok_def)
qed

lemma deliver_ok:
  assumes ok: "mnt_ok s" and xs: "llist (rlist s) (queue s) xs"
      "\<And>z. z \<in> set xs \<longleftrightarrow> (\<exists>q. waits (pcs s q) = Some z) \<and> \<not> rdone s z"
    and q: "q \<in> set xs" "rpcs s q = Some y" "f_tag f \<in> r_tags y" "rend s q = 0"
    and l: "llist rl qu (remove1 q xs)" "\<forall>z. z \<notin> set xs \<longrightarrow> rl z = rlist s z"
    and s: "pcs s' = pcs s" "rip s' = rip s" "rend s' = rend s" "queue s' = qu" "rlist s' = rl" "rpcfree s' = rpcfree s"
      "rpcs s' q = Some (y\<lparr>r_rpc := b, r_reply := f, r_done := True\<rparr>)" "bufs_ok s'"
    and o: "\<And>z x. z \<noteq> q \<Longrightarrow> rpcs s z = Some x \<Longrightarrow> \<exists>c. rpcs s' z = Some (x\<lparr>r_rpc := c\<rparr>)"
      "\<And>z. z \<noteq> q \<Longrightarrow> rpcs s z = None \<Longrightarrow> rpcs s' z = None"
  shows "mnt_ok s'"
proof -
  note p = mnt_okD [OF ok]
  have d: "rdone s' q" "z \<noteq> q \<Longrightarrow> rdone s' z = rdone s z" for z
    using s(7) o [of z] unfolding rdone_def by (auto split: option.splits)
  have "calls_ok s'"
    unfolding calls_ok_def s
  proof (intro allI impI)
    fix k z assume k: "pc_rpc (pcs s k) = Some z"
    then obtain x where x: "z \<noteq> nil" "rpcs s z = Some x" "call_ok (pcs s k) x" using p(2) unfolding calls_ok_def by blast
    show "z \<noteq> nil \<and> (\<exists>x. rpcs s' z = Some x \<and> call_ok (pcs s k) x)"
    proof (cases "z = q")
      case True
      then have "x = y" using x q by simp
      have "\<not> rdone s q" "\<exists>k. waits (pcs s k) = Some q" using xs(2) q(1) by blast+
      then have "waits (pcs s k) \<noteq> None"
        using procs_okD(5) [OF p(1)] k True pc_rpc_waits by (metis option.distinct(1))
      moreover have "\<forall>r. pcs s k \<noteq> Asleep r"
        using procs_okD(4) [OF p(1), of k q] k True q(4) by (metis option.inject pc_rpc.simps(6))
      ultimately have "call_ok (pcs s k) (y\<lparr>r_rpc := b, r_reply := f, r_done := True\<rparr>)"
        using x(3) q(3) \<open>x = y\<close> by (auto simp: call_ok_def)
      then show ?thesis using x(1) True s(7) by simp
    next
      case False
      then show ?thesis using x o(1) [OF False x(2)] by (auto simp: call_ok_def)
    qed
  qed
  moreover have "procs_ok s'" using p(1) unfolding procs_ok_def s .
  moreover have "queue_ok s'"
    by (rule queue_leaves [OF xs, where r = q]) (use l(1) d in \<open>simp_all add: s\<close>)
  moreover have "free_ok s'"
  proof -
    have dom: "dom (rpcs s) \<subseteq> dom (rpcs s')"
    proof
      fix z assume "z \<in> dom (rpcs s)"
      then obtain a where "rpcs s z = Some a" by blast
      then show "z \<in> dom (rpcs s')" using o(1) [of z a] s(7) by (cases "z = q") auto
    qed
    have rl: "rlist s' z = rlist s z" if "\<forall>k. pc_rpc (pcs s k) \<noteq> Some z" for z
    using that l(2) xs(2) [of z] pc_rpc_waits unfolding s by blast
    show ?thesis by (rule free_frame [OF p(4) s(6) dom rl]) (use s(1) in auto)
  qed
  ultimately show ?thesis using s(8) by (simp add: mnt_ok_def)
qed

lemma same_buf [simp]: "\<exists>c. x = x\<lparr>r_rpc := c\<rparr>"
  by (rule exI [of _ "r_rpc x"]) simp

lemma bufs_swap:
  assumes "bufs_ok s" "rpcs s r = Some x" "rpcs s q = Some y" "q \<noteq> r"
    and "rpcs s' = (rpcs s)(r \<mapsto> x', q \<mapsto> y')" "r_rpc x' = r_rpc y" "r_rpc y' = r_rpc x"
  shows "bufs_ok s'"
proof -
  define t where "t z = (if z = r then q else if z = q then r else z)" for z
  have t: "\<exists>b. rpcs s (t z) = Some b \<and> r_rpc b = r_rpc a" if "rpcs s' z = Some a" for z a
    using that assms unfolding t_def by (auto split: if_splits)
  have "z = z'" if "rpcs s' z = Some a" "rpcs s' z' = Some a'" "r_rpc a = r_rpc a'" for z z' a a'
  proof -
    have "t z = t z'" using t [OF that(1)] t [OF that(2)] that(3) assms(1) unfolding bufs_ok_def by metis
    then show ?thesis by (auto simp: t_def split: if_splits)
  qed
  then show ?thesis unfolding bufs_ok_def by blast
qed

lemma receive_ok:
  assumes ok: "mnt_ok s" and l: "pcs s p = Reading r" and nd: "\<not> rdone s r"
    and f: "set_reply r f s = Some s1" and m: "mountmux r s1 = Some s2"
  shows "mnt_ok s2"
proof -
  obtain x where x: "rpcs s r = Some x" using f by (auto simp: set_reply_def)
  then have "\<not> r_done x" using nd by (simp add: rdone_def)
  note x = x this
  let ?x = "x\<lparr>r_reply := f\<rparr>"
  have s1: "s1 = set_rpc r ?x s" using f x by (simp add: set_reply_def)
  have ok1: "mnt_ok s1" using reply_ok [OF ok x] s1 by simp
  have x1: "rpcs s1 r = Some ?x" "\<not> r_done ?x" using x by (simp_all add: s1 set_rpc_def)
  note p = mnt_okD [OF ok1]
  obtain xs where xs: "llist (rlist s1) (queue s1) xs"
    "\<And>z. z \<in> set xs \<longleftrightarrow> (\<exists>q. waits (pcs s1 q) = Some z) \<and> \<not> rdone s1 z" by (rule queue_list [OF ok1], rule that)
  have tag: "t \<in> r_tags y" if t: "q \<in> set xs" "matches s1 t q" "rpcs s1 q = Some y" for q t y
  proof -
    obtain k where k: "waits (pcs s1 k) = Some q" using t(1) xs(2) by blast
    have "call_ok (pcs s1 k) y" by (rule call_ofD [OF ok1 pc_rpc_waits [OF k] t(3)])
    then show ?thesis using k t(2,3) by (auto simp: call_ok_def matches_def)
  qed
  show ?thesis using xs(1) x1(1) m x1(2)
  proof (cases rule: mountmux_effect)
    case none
    then show ?thesis using ok1 by simp
  next
    case (own qu rl)
    have "pcs s1 p = Reading r" using l by (simp add: s1 set_rpc_def)
    then have "rend s1 r = 0"
      using procs_okD(4) [OF p(1), of "rend s1 r" r] procs_okD(5) [OF p(1), of p r "rend s1 r"] by fastforce
    then show ?thesis
      using own tag [OF own(1,2) x1(1)] x1(1)
      by (intro deliver_ok [OF ok1 xs own(1) x1(1), where f = f and b = "r_rpc x" and qu = qu and rl = rl])
        (auto simp: set_rpc_def intro!: bufs_frame [OF p(5)] split: if_splits)
  next
    case (other q y qu rl)
    let ?w = "wakeup q s1"
    have okw: "mnt_ok ?w" by (rule wakeup_ok [OF ok1])
    define u where "u = set_rpc q (y\<lparr>r_rpc := r_rpc ?x, r_reply := r_reply ?x, r_done := True\<rparr>)
       (set_rpc r (?x\<lparr>r_rpc := r_rpc y\<rparr>) (s1\<lparr>queue := qu, rlist := rl\<rparr>))"
    have "pcs u = pcs s1" "rend u = rend s1" by (simp_all add: u_def set_rpc_def)
    then have s2: "pcs s2 = pcs ?w" "rend s2 = rend ?w"
      using wakeup_cong [of u s1 q] other(7) by (simp_all add: u_def)
    have r2: "rpcs s2 = (rpcs s1)(r \<mapsto> ?x\<lparr>r_rpc := r_rpc y\<rparr>,
        q \<mapsto> y\<lparr>r_rpc := r_rpc x, r_reply := f, r_done := True\<rparr>)"
      by (simp add: other(7) set_rpc_def)
    have "bufs_ok s2" by (rule bufs_swap [OF p(5) x1(1) other(3,2) r2]) simp_all
    have rest: "rip s2 = rip s1" "queue s2 = qu" "rlist s2 = rl" "rpcfree s2 = rpcfree s1"
      by (simp_all add: other(7) set_rpc_def)
    show ?thesis
    proof (rule deliver_ok [OF okw, where xs = xs and q = q and y = y and f = f and b = "r_rpc x" and qu = qu and rl = rl])
      show "llist (rlist ?w) (queue ?w) xs" using xs(1) by simp
      show "z \<in> set xs \<longleftrightarrow> (\<exists>k. waits (pcs ?w k) = Some z) \<and> \<not> rdone ?w z" for z
        unfolding wakeup_waits [OF ok1] wakeup_simps by (rule xs(2))
      show "q \<in> set xs" "rpcs ?w q = Some y" "llist rl qu (remove1 q xs)" using other(1,3,5) by simp_all
      show "f_tag f \<in> r_tags y" using tag [OF other(1,4,3)] by simp
      show "rend ?w q = 0" by (rule wakeup_leaves(1) [OF ok1])
      show "\<forall>z. z \<notin> set xs \<longrightarrow> rl z = rlist ?w z" using other(6) by simp
      show "rpcs s2 q = Some (y\<lparr>r_rpc := r_rpc x, r_reply := f, r_done := True\<rparr>)" by (simp add: r2)
      show "\<exists>c. rpcs s2 z = Some (a\<lparr>r_rpc := c\<rparr>)" if "z \<noteq> q" "rpcs ?w z = Some a" for z a
        using that x1(1) by (cases "z = r") (auto simp: r2)
      show "rpcs s2 z = None" if "z \<noteq> q" "rpcs ?w z = None" for z
        using that x1(1) by (auto simp: r2)
    qed (simp_all add: s2 rest \<open>bufs_ok s2\<close>)
  qed
qed

section \<open>Reachable states\<close>

lemma seize_ok: "mnt_ok s \<Longrightarrow> pcs s p = Sleeping r \<Longrightarrow> mnt_ok (goto p (Stuck r) s)"
  by (rule move_ok) (auto simp: call_ok_def waits_def)

lemma step_ok:
  assumes "mnt_step l s s'" "l \<noteq> Hangup" "mnt_ok s"
  shows "mnt_ok s'"
  using assms
  by (induction rule: mnt_step.induct)
    (blast intro: hop_ok alloc_ok start_ok gate_opens_ok sleep_ok leave_ok flush_ok flush_fails_ok receive_ok
      gate_ok wake_ok finish_ok seize_ok)+

lemma reach_ok: "reach L s \<Longrightarrow> Hangup \<notin> L \<Longrightarrow> mnt_ok s"
proof (induction rule: reach.induct)
  case init
  show ?case by (rule mnt_ok_init)
next
  case (step s l s')
  then show ?case by (metis step_ok)
qed

lemma one_reader:
  assumes "mnt_ok s" "reader (pcs s p)" "reader (pcs s q)"
  shows "p = q"
  using procs_okD(2) [OF mnt_okD(1) [OF assms(1)]] assms(2,3) by blast

lemma back_answered:
  assumes ok: "mnt_ok s" and p: "pcs s p = Back r Returned"
  obtains x where "rpcs s r = Some x" "r_done x" "f_tag (r_reply x) \<in> r_tags x"
proof -
  obtain x where "rpcs s r = Some x" "call_ok (pcs s p) x" using call_of [OF ok, of p r] p by auto
  then show ?thesis using p by (intro that) (auto simp: call_ok_def)
qed

text \<open>A step touches the call of the process that takes it, a call that is not done, or one nobody has.\<close>

lemma step_keeps_done:
  assumes "mnt_step l s s'" and ok: "mnt_ok s" and p: "pcs s p = Back r e" "pcs s' p = Back r e"
  shows "rpcs s' r = rpcs s r"
proof -
  obtain x where x: "rpcs s r = Some x" "r_done x" "r \<noteq> nil"
    using call_of [OF ok, of p r] p(1) by (auto simp: call_ok_def)
  have other: "r' \<noteq> r" if "pc_rpc (pcs s q) = Some r'" "pcs s q \<noteq> Back r e" for q r'
    using procs_okD(5) [OF mnt_okD(1) [OF ok], of q r p] that p(1) by auto
  show ?thesis using assms(1)
  proof (cases rule: mnt_step.cases)
    case (local q k k')
    then show ?thesis by simp
  next
    case (alloc q new buf r' s1)
    have "r' \<noteq> r"
    proof -
      obtain ys where ys: "llist (rlist s) (rpcfree s) ys" "\<forall>p r. pc_rpc (pcs s p) = Some r \<longrightarrow> r \<notin> set ys"
        using mnt_okD(4) [OF ok] unfolding free_ok_def by blast
      have "r \<notin> set ys" using ys(2) p(1) by (metis pc_rpc.simps(13))
      then have "rpcfree s \<noteq> nil \<Longrightarrow> rpcfree s \<noteq> r" using ys(1) by (cases ys) (auto simp: llist_def)
      then show ?thesis using alloc x(1) by (auto simp: mntralloc_def split: if_splits option.splits)
    qed
    then show ?thesis using alloc by (auto simp: mntralloc_def set_rpc_def split: if_splits option.splits)
  next
    case (start q r' s1)
    then show ?thesis using other [of q r'] p by (auto simp: enter_def set_rpc_def split: option.splits)
  next
    case (flush q r' b s1)
    then show ?thesis using other [of q r'] p by (auto simp: flush_tag_def set_rpc_def split: option.splits)
  next
    case (flush_fails q r' b s1)
    then have "r' \<noteq> r" using other [of q r'] p by auto
    obtain xs where xs: "llist (rlist s) (queue s) xs"
      "\<And>z. z \<in> set xs \<longleftrightarrow> (\<exists>q. waits (pcs s q) = Some z) \<and> \<not> rdone s z" by (rule queue_list [OF ok], rule that)
    have "r' \<noteq> nil" using call_of [OF ok, of q r'] flush_fails(3) by auto
    then obtain x' qu rl where "s1 = set_rpc r' (x'\<lparr>r_done := True, r_flushed := False\<rparr>) (s\<lparr>queue := qu, rlist := rl\<rparr>)"
      using mntqrm_effect [OF xs(1) flush_fails(4)] by metis
    then show ?thesis using \<open>r' \<noteq> r\<close> flush_fails(2) by (simp add: set_rpc_def)
  next
    case (receive q r' f s1)
    then have r': "r' \<noteq> r" using other [of q r'] p by auto
    obtain x' where x': "rpcs s r' = Some x'" using receive(4) by (auto simp: set_reply_def)
    have s1: "s1 = set_rpc r' (x'\<lparr>r_reply := f\<rparr>) s" using receive(4) x' by (simp add: set_reply_def)
    have nd: "\<not> r_done x'" using receive(3) x' by (simp add: rdone_def)
    have ok1: "mnt_ok s1" unfolding s1 by (rule reply_ok [OF ok x' nd])
    obtain xs where xs: "llist (rlist s1) (queue s1) xs"
      "\<And>z. z \<in> set xs \<longleftrightarrow> (\<exists>q. waits (pcs s1 q) = Some z) \<and> \<not> rdone s1 z" by (rule queue_list [OF ok1], rule that)
    have "rdone s1 r" using x r' by (simp add: s1 set_rpc_def rdone_def)
    then have rx: "r \<notin> set xs" using xs(2) by blast
    have x1: "rpcs s1 r' = Some (x'\<lparr>r_reply := f\<rparr>)" "\<not> r_done (x'\<lparr>r_reply := f\<rparr>)" using nd by (simp_all add: s1 set_rpc_def)
    have "rpcs s' r = rpcs s1 r" using xs(1) x1(1) receive(5) x1(2)
      by (cases rule: mountmux_effect) (use rx r' in \<open>auto simp: set_rpc_def\<close>)
    then show ?thesis using r' by (simp add: s1 set_rpc_def)
  qed (auto simp: mntgate_def mntfree_def split: option.splits)
qed

section \<open>Wakeups\<close>

text \<open>A process that will go on to the gate by itself, or is about to wake one that sleeps.\<close>

definition will_read :: "mst \<Rightarrow> nat \<Rightarrow> bool" where
  "will_read s p = (case pcs s p of
     Sending r \<Rightarrow> \<not> rdone s r
   | Gate r \<Rightarrow> \<not> rdone s r
   | Sleeping r \<Rightarrow> \<not> rdone s r
   | Awake r \<Rightarrow> \<not> rdone s r
   | Flushing r b \<Rightarrow> \<not> rdone s r
   | Flush_sent r b \<Rightarrow> \<not> rdone s r
   | Waking r q e \<Rightarrow> rend s q \<noteq> 0
   | _ \<Rightarrow> False)"

definition awake_ok :: "mst \<Rightarrow> bool" where
  "awake_ok s \<longleftrightarrow> (rip s = 0 \<longrightarrow> (\<exists>p r. pcs s p = Asleep r) \<longrightarrow> (\<exists>p. will_read s p))"

lemma will_read_cong:
  assumes "pcs s' p = pcs s p" "\<And>r. pc_rpc (pcs s p) = Some r \<Longrightarrow> rdone s' r = rdone s r" "rend s' = rend s"
  shows "will_read s' p = will_read s p"
  using assms unfolding will_read_def by (auto split: pc.splits)

lemma asleep_undone:
  assumes "mnt_ok s" "pcs s p = Asleep r"
  shows "\<not> rdone s r" "rend s r = p" "p \<noteq> 0"
  using call_ofD [OF assms(1), of p r] call_of [OF assms(1), of p r] assms(2) procs_okD(4) [OF mnt_okD(1) [OF assms(1)], of p r]
  by (auto simp: call_ok_def rdone_def split: option.splits)

text \<open>A process moves; the others stay as they were.\<close>

lemma awake_move:
  assumes a: "awake_ok s" and s': "pcs s' = (pcs s)(p := l')" "rip s' = rip s" "rend s' = rend s"
    and d: "\<And>q r. pc_rpc (pcs s q) = Some r \<Longrightarrow> rdone s' r = rdone s r"
    and n: "\<forall>r. l' \<noteq> Asleep r" and w: "will_read s p \<Longrightarrow> rip s = 0 \<Longrightarrow> will_read s' p"
  shows "awake_ok s'"
  unfolding awake_ok_def
proof (intro impI)
  assume r: "rip s' = 0" and "\<exists>q z. pcs s' q = Asleep z"
  then obtain q z where "pcs s' q = Asleep z" by blast
  then have "pcs s q = Asleep z" using s'(1) n by (auto split: if_splits)
  then obtain k where k: "will_read s k" using a r s'(2) unfolding awake_ok_def by auto
  show "\<exists>p. will_read s' p"
  proof (cases "k = p")
    case True
    then show ?thesis using w k r s'(2) by auto
  next
    case False
    then have "will_read s' k = will_read s k" using s' d by (intro will_read_cong) auto
    then show ?thesis using k by blast
  qed
qed

lemma awake_busy: "rip s \<noteq> 0 \<Longrightarrow> awake_ok s"
  by (simp add: awake_ok_def)

lemma hop_awake:
  assumes ok: "mnt_ok s" and a: "awake_ok s" and l: "pcs s p = l" and h: "hop s l l'"
  shows "awake_ok (goto p l' s)"
proof (rule awake_move [OF a])
  show "\<forall>r. l' \<noteq> Asleep r" using hop_facts [OF h] by blast
  assume w: "will_read s p" and r: "rip s = 0"
  have nr: "\<not> reader (pcs s p)" using procs_okD(1,2) [OF mnt_okD(1) [OF ok]] r by (metis reader.simps(5))
  show "will_read (goto p l' s) p" using h w r nr l
    by (cases rule: hop.cases) (auto simp: will_read_def)
qed auto

lemma step_awake:
  assumes "mnt_step l s s'" "l = Normal" and ok: "mnt_ok s" and a: "awake_ok s"
  shows "awake_ok s'"
  using assms(1)
proof (cases rule: mnt_step.cases)
  case (local p k k')
  then show ?thesis using hop_awake [OF ok a] by blast
next
  case (alloc p new buf r s1)
  have e: "pcs s1 = pcs s" "rip s1 = rip s" "rend s1 = rend s"
    using alloc(7) by (auto simp: mntralloc_def set_rpc_def split: if_splits option.splits)
  have "rdone s1 z = rdone s z" if "pc_rpc (pcs s q) = Some z" for q z
  proof -
    obtain ys where ys: "llist (rlist s) (rpcfree s) ys" "\<forall>p r. pc_rpc (pcs s p) = Some r \<longrightarrow> r \<notin> set ys"
      using mnt_okD(4) [OF ok] unfolding free_ok_def by blast
    have "z \<notin> set ys" using ys(2) that by blast
    then have "rpcfree s \<noteq> nil \<Longrightarrow> rpcfree s \<noteq> z" using ys(1) by (cases ys) (auto simp: llist_def)
    moreover have "z \<in> dom (rpcs s)" using mnt_okD(2) [OF ok] that unfolding calls_ok_def by blast
    ultimately have "rpcs s1 z = rpcs s z"
      using alloc(5,7) by (auto simp: mntralloc_def set_rpc_def split: if_splits option.splits)
    then show ?thesis by (simp add: rdone_def)
  qed
  then show ?thesis
    using alloc e by (intro awake_move [OF a, of _ p "Ready r"]) (auto simp: will_read_def)
next
  case (start p r s1)
  obtain x where x: "rpcs s r = Some x" using start(4) by (auto simp: enter_def split: option.splits)
  have s1: "s1 = set_rpc r (x\<lparr>r_flushed := False, r_tags := {r_tag x}\<rparr>) (s\<lparr>rlist := (rlist s)(r \<mapsto> queue s), queue := r\<rparr>)"
    using start(4) x by (simp add: enter_def)
  have "rdone s1 z = rdone s z" for z using x by (simp add: s1 set_rpc_def rdone_def)
  moreover have "pcs s1 = pcs s" "rip s1 = rip s" "rend s1 = rend s" by (simp_all add: s1 set_rpc_def)
  ultimately show ?thesis
    using start by (intro awake_move [OF a, of _ p "Sending r"]) (auto simp: will_read_def)
next
  case (open_gate p r)
  then show ?thesis using call_of [OF ok, of p r] by (intro awake_busy) auto
next
  case (sleep p r)
  then show ?thesis by (intro awake_busy) auto
next
  case (interrupt p r)
  then show ?thesis using asleep_undone [OF ok, of p r]
    unfolding awake_ok_def by (intro impI exI [of _ p]) (simp add: will_read_def rdone_def)
next
  case (flush p r b s1)
  obtain x where x: "rpcs s r = Some x" using flush(4) by (auto simp: flush_tag_def split: option.splits)
  let ?t = "if flushtag s + 1 = Tagend then flushbase s else flushtag s + 1"
  have s1: "s1 = set_rpc r (x\<lparr>r_flushtag := flushtag s, r_flushed := True,
      r_tags := insert (flushtag s) (r_tags x)\<rparr>) (s\<lparr>flushtag := ?t\<rparr>)"
    using flush(4) x by (auto simp: flush_tag_def)
  have "rdone s1 z = rdone s z" for z using x by (simp add: s1 set_rpc_def rdone_def)
  moreover have "pcs s1 = pcs s" "rip s1 = rip s" "rend s1 = rend s" by (simp_all add: s1 set_rpc_def)
  ultimately show ?thesis
    using flush by (intro awake_move [OF a, of _ p "Flush_sent r b"]) (auto simp: will_read_def)
next
  case (receive p r f s1)
  have "rip s = p" using procs_okD(2) [OF mnt_okD(1) [OF ok], of p] receive(2) by simp
  moreover have "rip s' = rip s"
  proof -
    obtain x where x: "rpcs s r = Some x" using receive(4) by (auto simp: set_reply_def)
    have s1: "s1 = set_rpc r (x\<lparr>r_reply := f\<rparr>) s" using receive(4) x by (simp add: set_reply_def)
    have nd: "\<not> r_done x" using receive(3) x by (simp add: rdone_def)
    have ok1: "mnt_ok s1" unfolding s1 by (rule reply_ok [OF ok x nd])
    obtain xs where xs: "llist (rlist s1) (queue s1) xs"
      "\<And>z. z \<in> set xs \<longleftrightarrow> (\<exists>q. waits (pcs s1 q) = Some z) \<and> \<not> rdone s1 z" by (rule queue_list [OF ok1], rule that)
    have x1: "rpcs s1 r = Some (x\<lparr>r_reply := f\<rparr>)" "\<not> r_done (x\<lparr>r_reply := f\<rparr>)" using nd by (simp_all add: s1 set_rpc_def)
    have "rip s' = rip s1" using xs(1) x1(1) receive(5) x1(2)
      by (cases rule: mountmux_effect) (auto simp: set_rpc_def wakeup_def goto_def)
    then show ?thesis by (simp add: s1 set_rpc_def)
  qed
  ultimately show ?thesis using call_of [OF ok, of p r] receive(2) procs_okD(1) [OF mnt_okD(1) [OF ok]]
    by (intro awake_busy) auto
next
  case (gate p r e q s1)
  obtain xs where xs: "llist (rlist s) (queue s) xs"
    "\<And>z. z \<in> set xs \<longleftrightarrow> (\<exists>q. waits (pcs s q) = Some z) \<and> \<not> rdone s z" by (rule queue_list [OF ok], rule that)
  have l: "lseg (rlist s) (queue s) xs nil" using xs(1) by (simp add: llist_def)
  let ?P = "\<lambda>q. \<not> rdone s q \<and> rend s q \<noteq> 0"
  have q: "q = (case find ?P xs of None \<Rightarrow> nil | Some x \<Rightarrow> x)" and s1: "s1 = s\<lparr>rip := 0\<rparr>"
    using gate(4) seek_lseg [OF l, of ?P] by (auto simp: mntgate_def)
  show ?thesis
  proof (cases "find ?P xs")
    case None
    then have n: "\<forall>z \<in> set xs. \<not> ?P z" by (simp add: find_None_iff)
    have "pcs s k \<noteq> Asleep z" for k z
    proof
      assume k: "pcs s k = Asleep z"
      then have "waits (pcs s k) = Some z" by (simp add: waits_def)
      then have "z \<in> set xs" using xs(2) asleep_undone(1) [OF ok k] by blast
      then show False using n asleep_undone [OF ok k] by auto
    qed
    then show ?thesis using gate(2) None q by (simp add: awake_ok_def s1)
  next
    case (Some z)
    then have "z \<in> set xs" "?P z" by (auto simp: find_Some_iff)
    then have "q = z" "q \<noteq> nil" "rend s q \<noteq> 0" using q Some lseg_not_nil [OF l, of z] by auto
    then show ?thesis using gate(2) unfolding awake_ok_def
      by (intro impI exI [of _ p]) (simp add: will_read_def s1)
  qed
next
  case (wake p r q e)
  show ?thesis
  proof (cases "rend s q = 0")
    case True
    then show ?thesis using wake
      by (intro awake_move [OF a, of _ p "Back r e"]) (auto simp: will_read_def wakeup_def)
  next
    case False
    let ?o = "rend s q"
    have o: "pcs s ?o = Asleep q" using procs_okD(4) [OF mnt_okD(1) [OF ok], of ?o q] False by simp
    then have "?o \<noteq> p" using wake(3) by auto
    moreover have "\<not> rdone s q" by (rule asleep_undone(1) [OF ok o])
    ultimately have "will_read s' ?o" using wake(2) False
      by (simp add: will_read_def wakeup_def goto_def rdone_def)
    then show ?thesis unfolding awake_ok_def by blast
  qed
next
  case (finish p r e)
  then show ?thesis
    by (intro awake_move [OF a, of _ p Idle]) (auto simp: will_read_def mntfree_def rdone_def)
qed (use assms(2) in auto)

lemma awake_ok_reach: "reach {Normal} s \<Longrightarrow> awake_ok s"
proof (induction rule: reach.induct)
  case init
  show ?case by (simp add: awake_ok_def mnt_init_def)
next
  case (step s l s')
  have "mnt_ok s" by (rule reach_ok [OF step.hyps(1)]) simp
  then show ?case using step step_awake by blast
qed

text \<open>A process that will read gets there by itself when nobody reads.\<close>

lemma to_reader:
  assumes "pcs s p = Gate r" "rip s = 0" "p \<noteq> 0"
  shows "\<exists>s'. (mnt_step Normal)\<^sup>*\<^sup>* s s' \<and> rip s' \<noteq> 0"
  using assms by (intro exI [of _ "goto p (Reading r) (s\<lparr>rip := p\<rparr>)"] conjI r_into_rtranclp mnt_step.open_gate) simp_all

lemma hop_to_reader:
  assumes "pcs s p = l" "hop s l (Gate r)" "rip s = 0" "p \<noteq> 0"
  shows "\<exists>s'. (mnt_step Normal)\<^sup>*\<^sup>* s s' \<and> rip s' \<noteq> 0"
proof -
  obtain s' where "(mnt_step Normal)\<^sup>*\<^sup>* (goto p (Gate r) s) s'" "rip s' \<noteq> 0"
    using to_reader [of "goto p (Gate r) s" p r] assms(3,4) by auto
  then show ?thesis using mnt_step.local [OF assms(1,2)] by (meson converse_rtranclp_into_rtranclp)
qed

lemma awake_to_reader:
  assumes "pcs s p = Awake r" "\<not> rdone s r" "rip s = 0" "p \<noteq> 0"
  shows "\<exists>s'. (mnt_step Normal)\<^sup>*\<^sup>* s s' \<and> rip s' \<noteq> 0"
  using hop_to_reader [of s p "Awake r" r] assms by (auto intro: hop.again)

lemma flush_to_reader:
  assumes "pcs s p = Flush_sent r False" "rip s = 0" "p \<noteq> 0"
  shows "\<exists>s'. (mnt_step Normal)\<^sup>*\<^sup>* s s' \<and> rip s' \<noteq> 0"
  using hop_to_reader [of s p "Flush_sent r False" r] hop.flushed [of s r False] assms by auto

lemma will_read_reads:
  assumes ok: "mnt_ok s" and w: "will_read s p" and rip: "rip s = 0"
  shows "\<exists>s'. (mnt_step Normal)\<^sup>*\<^sup>* s s' \<and> rip s' \<noteq> 0"
proof -
  have p0: "p \<noteq> 0" using w procs_okD(1) [OF mnt_okD(1) [OF ok]] by (cases "p = 0") (auto simp: will_read_def)
  have nr: "\<not> reader (pcs s p)" using procs_okD(2) [OF mnt_okD(1) [OF ok], of p] rip p0 by auto
  show ?thesis
  proof (cases "pcs s p")
    case (Sending r)
    then show ?thesis using hop_to_reader [OF Sending hop.sent rip p0] by blast
  next
    case (Gate r)
    then show ?thesis using to_reader rip p0 by blast
  next
    case (Sleeping r)
    let ?s = "goto p (Awake r) s"
    have "mnt_step Normal s ?s" using mnt_step.local [OF Sleeping hop.no_sleep] rip by simp
    moreover obtain s' where "(mnt_step Normal)\<^sup>*\<^sup>* ?s s'" "rip s' \<noteq> 0"
      using awake_to_reader [of ?s p r] w Sleeping rip p0 by (auto simp: will_read_def)
    ultimately show ?thesis by (meson converse_rtranclp_into_rtranclp)
  next
    case (Awake r)
    then show ?thesis using awake_to_reader [OF Awake _ rip p0] w by (simp add: will_read_def)
  next
    case (Flushing r b)
    then have b: "b = False" using nr by simp
    obtain x where x: "rpcs s r = Some x" using call_of [OF ok, of p r] Flushing by auto
    then obtain s1 where s1: "flush_tag r s = Some s1" "rip s1 = rip s" by (auto simp: flush_tag_def set_rpc_def)
    have "mnt_step Normal s (goto p (Flush_sent r b) s1)" using Flushing s1(1) by (rule mnt_step.flush)
    moreover obtain s' where "(mnt_step Normal)\<^sup>*\<^sup>* (goto p (Flush_sent r b) s1) s'" "rip s' \<noteq> 0"
      using flush_to_reader [of "goto p (Flush_sent r b) s1" p r] b s1(2) rip p0 by auto
    ultimately show ?thesis by (meson converse_rtranclp_into_rtranclp)
  next
    case (Flush_sent r b)
    then show ?thesis using flush_to_reader [of s p r] nr rip p0 by simp
  next
    case (Waking r q e)
    let ?o = "rend s q"
    let ?s = "goto p (Back r e) (wakeup q s)"
    have q: "?o \<noteq> 0" using w Waking by (simp add: will_read_def)
    have o: "pcs s ?o = Asleep q" using procs_okD(4) [OF mnt_okD(1) [OF ok], of ?o q] q by simp
    then have "?o \<noteq> p" using Waking by auto
    moreover have "\<not> rdone s q" by (rule asleep_undone(1) [OF ok o])
    ultimately obtain s' where "(mnt_step Normal)\<^sup>*\<^sup>* ?s s'" "rip s' \<noteq> 0"
      using awake_to_reader [of ?s ?o q] q rip by (auto simp: wakeup_def goto_def rdone_def)
    moreover have "\<not> seized s q"
    proof
      assume "seized s q"
      then obtain k where k: "pcs s k = Stuck q" by (auto simp: seized_def)
      then have "k = ?o" using procs_okD(5) [OF mnt_okD(1) [OF ok], of k q ?o] o by simp
      then show False using k o by simp
    qed
    then have "mnt_step Normal s ?s" using Waking mnt_step.wake by blast
    ultimately show ?thesis by (meson converse_rtranclp_into_rtranclp)
  qed (use w in \<open>simp_all add: will_read_def\<close>)
qed

section \<open>An error outside the handler\<close>

text \<open>Nobody reads, and \<open>rip\<close> says that somebody does: so it stays.\<close>

definition orphaned :: "mst \<Rightarrow> bool" where
  "orphaned s \<longleftrightarrow> rip s \<noteq> 0 \<and> (\<forall>p. \<not> reader (pcs s p))"

lemma hop_reader: "hop s l l' \<Longrightarrow> reader l' \<Longrightarrow> reader l"
  by (cases rule: hop.cases) (auto split: if_splits)

lemma orphaned_goto: "orphaned s \<Longrightarrow> \<not> reader l \<Longrightarrow> orphaned (goto p l s)"
  by (simp add: orphaned_def goto_def)

lemma unlink_frame: "unlink r s = Some s' \<Longrightarrow> pcs s' = pcs s \<and> rip s' = rip s"
  by (auto simp: unlink_def split: option.splits if_splits)

lemma step_orphaned:
  assumes "mnt_step l s s'" "orphaned s"
  shows "orphaned s'"
  using assms(1)
proof (cases rule: mnt_step.cases)
  case (local p k k')
  then have "\<not> reader k'" using hop_reader [of s k k'] assms(2) unfolding orphaned_def by metis
  then show ?thesis using local(2) orphaned_goto [OF assms(2)] by blast
next
  case (alloc p new buf r s1)
  have "pcs s1 = pcs s \<and> rip s1 = rip s"
    using alloc(7) by (auto simp: mntralloc_def set_rpc_def split: if_splits option.splits)
  then have "orphaned s1" using assms(2) by (simp add: orphaned_def)
  then show ?thesis using alloc(2) orphaned_goto [of s1 "Ready r" p] by simp
next
  case (start p r s1)
  have "pcs s1 = pcs s \<and> rip s1 = rip s"
    using start(4) by (auto simp: enter_def set_rpc_def split: option.splits)
  then have "orphaned s1" using assms(2) by (simp add: orphaned_def)
  then show ?thesis using start(2) orphaned_goto [of s1 "Sending r" p] by simp
next
  case (flush p r b s1)
  have "\<not> b" using flush(3) assms(2) unfolding orphaned_def by (metis reader.simps(2))
  moreover have "pcs s1 = pcs s \<and> rip s1 = rip s"
    using flush(4) by (auto simp: flush_tag_def set_rpc_def split: option.splits)
  then have "orphaned s1" using assms(2) by (simp add: orphaned_def)
  ultimately show ?thesis using flush(2) orphaned_goto [of s1 "Flush_sent r b" p] by simp
next
  case (flush_fails p r b s1)
  have "\<not> b" using flush_fails(3) assms(2) unfolding orphaned_def by (metis reader.simps(3))
  moreover have "pcs s1 = pcs s \<and> rip s1 = rip s"
    using flush_fails(4) unlink_frame [of r _ s1] by (auto simp: mntqrm_def set_rpc_def split: option.splits)
  then have "orphaned s1" using assms(2) by (simp add: orphaned_def)
  ultimately show ?thesis using flush_fails(2) orphaned_goto [of s1 "Back r Raised" p] by simp
next
  case (wake p r q e)
  have "orphaned (wakeup q s)" using assms(2) by (auto simp: wakeup_def orphaned_def goto_def)
  then show ?thesis using wake(2) orphaned_goto by simp
next
  case (gate p r e q s1)
  have "reader (pcs s p)" using gate(3) by simp
  then show ?thesis using assms(2) unfolding orphaned_def by blast
next
  case (receive p r f s1)
  have "reader (pcs s p)" using receive(2) by simp
  then show ?thesis using assms(2) unfolding orphaned_def by blast
qed (use assms(2) in \<open>auto simp: orphaned_def goto_def mntfree_def\<close>)

lemma run_orphaned: "(\<lambda>a b. \<exists>l. mnt_step l a b)\<^sup>*\<^sup>* s s' \<Longrightarrow> orphaned s \<Longrightarrow> orphaned s'"
  by (induction rule: rtranclp_induct) (auto intro: step_orphaned)

lemma hangup_orphaned:
  assumes "mnt_step Hangup s s'" and ok: "mnt_ok s"
  shows "orphaned s'"
  using assms(1)
proof (cases rule: mnt_step.cases)
  case (hangup p r)
  have "rip s = p" using procs_okD(2) [OF mnt_okD(1) [OF ok], of p] hangup(2) by simp
  moreover have "p \<noteq> 0" using procs_okD(1) [OF mnt_okD(1) [OF ok]] hangup(2) by (cases "p = 0") auto
  moreover have "\<not> reader (pcs s q)" if "q \<noteq> p" for q
    using procs_okD(2) [OF mnt_okD(1) [OF ok], of q] calculation that by auto
  ultimately show ?thesis using hangup(1) by (auto simp: orphaned_def goto_def)
qed

section \<open>Execution\<close>

definition unseized :: "mst \<Rightarrow> bool" where
  "unseized s \<longleftrightarrow> (\<forall>p r. pcs s p \<noteq> Stuck r)"

lemma unseized_goto: "unseized s \<Longrightarrow> \<forall>r. l \<noteq> Stuck r \<Longrightarrow> unseized (goto p l s)"
  by (simp add: unseized_def goto_def)

lemma unseized_cong: "pcs s' = pcs s \<Longrightarrow> unseized s \<Longrightarrow> unseized s'"
  by (simp add: unseized_def)

lemma unseized_wakeup: "unseized s \<Longrightarrow> unseized (wakeup q s)"
  by (auto simp: wakeup_def unseized_def goto_def)

lemma unseized_mux: "mountmux r s = Some s' \<Longrightarrow> unseized s \<Longrightarrow> unseized s'"
  by (auto simp: mountmux_def set_rpc_def unseized_def wakeup_def goto_def dest!: unlink_frame split: option.splits if_splits)

lemma unseized_step:
  assumes "mnt_step l s s'" "l \<noteq> Seized" "unseized s"
  shows "unseized s'"
  using assms(1)
proof (cases rule: mnt_step.cases)
  case (local p k k')
  have "k' \<noteq> Stuck r" for r using local(4) by (cases rule: hop.cases) auto
  then show ?thesis using local unseized_goto [OF assms(3)] by blast
next
  case (alloc p new buf r s1)
  have "pcs s1 = pcs s" using alloc(7) by (auto simp: mntralloc_def set_rpc_def split: if_splits option.splits)
  then show ?thesis using alloc(2) unseized_goto unseized_cong [OF _ assms(3)] by blast
next
  case (start p r s1)
  have "pcs s1 = pcs s" using start(4) by (auto simp: enter_def set_rpc_def split: option.splits)
  then show ?thesis using start(2) unseized_goto unseized_cong [OF _ assms(3)] by blast
next
  case (flush p r b s1)
  have "pcs s1 = pcs s" using flush(4) by (auto simp: flush_tag_def set_rpc_def split: option.splits)
  then show ?thesis using flush(2) unseized_goto unseized_cong [OF _ assms(3)] by blast
next
  case (flush_fails p r b s1)
  have "pcs s1 = pcs s" using flush_fails(4) unlink_frame [of r _ s1] by (auto simp: mntqrm_def set_rpc_def split: option.splits)
  then show ?thesis using flush_fails(2) unseized_goto [OF unseized_cong [OF _ assms(3)]] by auto
next
  case (receive p r f s1)
  have "pcs s1 = pcs s" using receive(4) by (auto simp: set_reply_def set_rpc_def)
  then show ?thesis using unseized_mux [OF receive(5)] unseized_cong [OF _ assms(3)] by blast
next
  case (gate p r e q s1)
  have "pcs s1 = pcs s" using gate(4) by (auto simp: mntgate_def split: option.splits)
  then show ?thesis using gate(2) unseized_goto [OF unseized_cong [OF _ assms(3)]] by auto
next
  case (wake p r q e)
  then show ?thesis using unseized_goto [OF unseized_wakeup [OF assms(3)]] by blast
qed (use assms(2,3) in \<open>auto simp: unseized_def goto_def mntfree_def\<close>)

lemma reach_unseized: "reach L s \<Longrightarrow> Seized \<notin> L \<Longrightarrow> unseized s"
proof (induction rule: reach.induct)
  case init
  show ?case by (simp add: unseized_def mnt_init_def)
qed (metis unseized_step)

text \<open>The next step of a process that is in a call; \<open>f\<close> is the reply when it reads one.\<close>

definition mnt_exec :: "nat \<Rightarrow> Fcall \<Rightarrow> mst \<Rightarrow> mst option" where
  "mnt_exec p f s = (case pcs s p of
     Idle \<Rightarrow> None
   | Ready r \<Rightarrow> map_option (goto p (Sending r)) (enter r s)
   | Sending r \<Rightarrow> Some (goto p (Gate r) s)
   | Gate r \<Rightarrow> Some (if rip s = 0 then goto p (Reading r) (s\<lparr>rip := p\<rparr>) else goto p (Sleeping r) s)
   | Sleeping r \<Rightarrow>
       if rdone s r \<or> rip s = 0 then Some (goto p (Awake r) s)
       else if rend s r = 0 then Some (goto p (Asleep r) (s\<lparr>rend := (rend s)(r := p)\<rparr>))
       else None
   | Asleep r \<Rightarrow> if rend s r = p then Some (goto p (Flushing r False) (s\<lparr>rend := (rend s)(r := 0)\<rparr>)) else None
   | Awake r \<Rightarrow> Some (goto p (if rdone s r then Back r Returned else Gate r) s)
   | Reading r \<Rightarrow>
       if rdone s r then Some (goto p (Gating r Returned) s)
       else Option.bind (set_reply r f s) (mountmux r)
   | Flushing r b \<Rightarrow> map_option (goto p (Flush_sent r b)) (flush_tag r s)
   | Flush_sent r b \<Rightarrow> Some (goto p (if b then Reading r else Gate r) s)
   | Gating r e \<Rightarrow> map_option (\<lambda>(q, s'). goto p (if q = nil then Back r e else Waking r q e) s') (mntgate s)
   | Waking r q e \<Rightarrow> Some (goto p (Back r e) (wakeup q s))
   | Back r e \<Rightarrow> Some (goto p Idle (mntfree r s))
   | Stuck r \<Rightarrow> None)"

lemma mnt_exec_step:
  assumes "mnt_exec p f s = Some s'" "unseized s"
  shows "mnt_step Normal s s'"
proof (cases "pcs s p")
  case (Reading r)
  then show ?thesis using assms
    by (auto simp: mnt_exec_def Option.bind_eq_Some_conv unseized_def seized_def split: if_splits
        intro: mnt_step.local mnt_step.receive hop.intros)
next
  case (Awake r)
  then show ?thesis using assms mnt_step.local [OF Awake hop.answered] mnt_step.local [OF Awake hop.again]
    by (auto simp: mnt_exec_def)
next
  case (Gate r)
  then show ?thesis using assms mnt_step.local [OF Gate hop.gated] mnt_step.open_gate [OF Gate]
    by (auto simp: mnt_exec_def)
next
  case (Flush_sent r b)
  then show ?thesis using assms mnt_step.local [OF Flush_sent hop.flushed] by (simp add: mnt_exec_def)
next
  case (Gating r e)
  then obtain q s1 where "mntgate s = Some (q, s1)" using assms by (auto simp: mnt_exec_def)
  then show ?thesis using assms mnt_step.gate [OF Gating] Gating by (simp add: mnt_exec_def)
next
  case (Waking r q e)
  then show ?thesis using assms mnt_step.wake [OF Waking] by (auto simp: mnt_exec_def unseized_def seized_def)
qed (use assms in \<open>auto simp: mnt_exec_def split: if_splits intro: mnt_step.intros hop.intros\<close>)

fun mnt_execs :: "nat list \<Rightarrow> Fcall \<Rightarrow> mst \<Rightarrow> mst option" where
  "mnt_execs [] f s = Some s"
| "mnt_execs (p # ps) f s = Option.bind (mnt_exec p f s) (mnt_execs ps f)"

lemma mnt_execs_reach: "mnt_execs ps f s = Some s' \<Longrightarrow> reach L s \<Longrightarrow> Normal \<in> L \<Longrightarrow> Seized \<notin> L \<Longrightarrow> reach L s'"
proof (induction ps arbitrary: s)
  case (Cons p ps)
  then obtain s1 where s1: "mnt_exec p f s = Some s1" "mnt_execs ps f s1 = Some s'"
    by (auto simp: Option.bind_eq_Some_conv)
  have "mnt_step Normal s s1" by (rule mnt_exec_step [OF s1(1) reach_unseized [OF Cons.prems(2,4)]])
  then show ?case using Cons.IH [OF s1(2) reach.step] Cons.prems by blast
qed simp

lemma mnt_execs_run: "mnt_execs ps f s = Some s' \<Longrightarrow> unseized s \<Longrightarrow> (\<lambda>a b. \<exists>l. mnt_step l a b)\<^sup>*\<^sup>* s s'"
proof (induction ps arbitrary: s)
  case (Cons p ps)
  then obtain s1 where s1: "mnt_exec p f s = Some s1" "mnt_execs ps f s1 = Some s'"
    by (auto simp: Option.bind_eq_Some_conv)
  show ?case
  proof (rule converse_rtranclp_into_rtranclp)
    show "\<exists>l. mnt_step l s s1" using mnt_exec_step [OF s1(1) Cons.prems(2)] by blast
    show "(\<lambda>a b. \<exists>l. mnt_step l a b)\<^sup>*\<^sup>* s1 s'"
      by (rule Cons.IH [OF s1(2) unseized_step [OF mnt_exec_step [OF s1(1) Cons.prems(2)] _ Cons.prems(2)]]) simp
  qed
qed simp

text \<open>Three processes that have their structures.\<close>

definition allocated :: "nat \<Rightarrow> addr \<Rightarrow> addr \<Rightarrow> mst \<Rightarrow> mst" where
  "allocated p new buf s = goto p (Ready new) (snd (the (mntralloc new buf s)))"

definition three_ready :: mst where
  "three_ready = allocated 3 3000 24 (allocated 2 2000 16 (allocated 1 1000 8 mnt_init))"

lemma allocated_reach:
  assumes "reach L s" "Normal \<in> L" "pcs s p = Idle" "p \<noteq> 0" "rpcs s new = None" "\<forall>x \<in> ran (rpcs s). r_rpc x \<noteq> buf"
    "rpcfree s = nil" "new \<noteq> nil"
  shows "reach L (allocated p new buf s)"
proof -
  have "mntralloc new buf s = Some (new, snd (the (mntralloc new buf s)))" using assms(7,8) by (simp add: mntralloc_def)
  then have "mnt_step Normal s (allocated p new buf s)" unfolding allocated_def
    using assms(3-6) by (intro mnt_step.alloc) auto
  then show ?thesis using assms(1,2) reach.step by blast
qed

lemma reach_three_ready:
  assumes "Normal \<in> L"
  shows "reach L three_ready"
  unfolding three_ready_def
  by (intro allocated_reach reach.init)
    (auto simp: assms allocated_def mnt_init_def mntralloc_def nil_def goto_def set_rpc_def)

lemmas mnt_eval = three_ready_def allocated_def mntqrm_def mnt_exec_def mnt_init_def mntralloc_def nil_def goto_def set_rpc_def enter_def
  rdone_def mntgate_def mountmux_def wakeup_def set_reply_def matches_def unlink_def flush_tag_def
  mntfree_def Tagspace_def Tagfls_def Tagend_def


text \<open>A reply with a tag; two processes make a call, and the second sleeps until the first has its reply.\<close>

definition reply :: "u16 \<Rightarrow> Fcall" where
  "reply t = zero_fcall\<lparr>f_tag := t\<rparr>"

definition first_gates :: "mst option" where
  "first_gates = mnt_execs [1, 1, 1, 2, 2, 2, 2, 1, 1, 1] (reply 1) three_ready"

lemma first_gates_state:
  "\<exists>s. first_gates = Some s \<and> rip s = 0 \<and> pcs s 2 = Asleep 2000 \<and> pcs s 1 = Waking 1000 2000 Returned"
  by (simp add: first_gates_def reply_def mnt_eval seek.simps findprev.simps)

lemma first_gates_reach: "first_gates = Some s \<Longrightarrow> Normal \<in> L \<Longrightarrow> Seized \<notin> L \<Longrightarrow> reach L s"
  unfolding first_gates_def by (rule mnt_execs_reach [OF _ reach_three_ready])

section \<open>What a call gets\<close>

text \<open>C7: As long as the reader meets no error outside its handler, a call from which \<open>mountio\<close> returns has its
  reply: the tag of the reply is that of its request or of a flush sent for it, no other process has
  the structure, and no step of any process changes it while the caller looks at it.
\<close>

theorem mountio_answered:
  assumes "reach L s" "Hangup \<notin> L" "pcs s p = Back r Returned"
  shows "\<exists>x. rpcs s r = Some x \<and> r_done x \<and> f_tag (r_reply x) \<in> r_tags x \<and>
    (\<forall>q. pc_rpc (pcs s q) = Some r \<longrightarrow> q = p) \<and>
    (\<forall>l s'. mnt_step l s s' \<longrightarrow> pcs s' p = Back r Returned \<longrightarrow> rpcs s' r = Some x)"
proof -
  have ok: "mnt_ok s" by (rule reach_ok [OF assms(1,2)])
  obtain x where "rpcs s r = Some x" "r_done x" "f_tag (r_reply x) \<in> r_tags x"
    by (rule back_answered [OF ok assms(3)])
  moreover have "q = p" if "pc_rpc (pcs s q) = Some r" for q
    using procs_okD(5) [OF mnt_okD(1) [OF ok] that, of p] assms(3) by simp
  moreover have "rpcs s' r = rpcs s r" if "mnt_step l s s'" "pcs s' p = Back r Returned" for l s'
    by (rule step_keeps_done [OF that(1) ok assms(3) that(2)])
  ultimately show ?thesis by auto
qed

theorem mountio_answered_witness:
  "\<exists>s x. mnt_execs [1] (reply 1) (the first_gates) = Some s \<and> pcs s 1 = Back 1000 Returned \<and>
    rpcs s 1000 = Some x \<and> f_tag (r_reply x) \<in> r_tags x"
proof -
  obtain s0 where s0: "first_gates = Some s0" "pcs s0 1 = Waking 1000 2000 Returned"
    using first_gates_state by blast
  then obtain s where s: "mnt_execs [1] (reply 1) s0 = Some s" "pcs s 1 = Back 1000 Returned"
    by (auto simp: mnt_exec_def goto_def)
  have "reach {Normal} s" by (rule mnt_execs_reach [OF s(1) first_gates_reach [OF s0(1)]]) simp_all
  then obtain x where "rpcs s 1000 = Some x" "f_tag (r_reply x) \<in> r_tags x"
    using mountio_answered [of "{Normal}" s 1 1000] s(2) by auto
  moreover have "mnt_execs [1] (reply 1) (the first_gates) = Some s" using s(1) by (simp only: s0(1) option.sel)
  ultimately show ?thesis using s(2) by blast
qed

text \<open>C16: As long as the reader meets no error outside its handler, at most one process reads from the connection, and
  \<open>rip\<close> is set exactly when one does.\<close>

theorem mnt_one_reader:
  assumes "reach L s" "Hangup \<notin> L"
  shows "(\<forall>p q. reader (pcs s p) \<longrightarrow> reader (pcs s q) \<longrightarrow> p = q) \<and> (rip s \<noteq> 0 \<longleftrightarrow> (\<exists>p. reader (pcs s p)))"
proof -
  have ok: "mnt_ok s" by (rule reach_ok [OF assms])
  show ?thesis
  proof (intro conjI allI impI iffI)
    show "p = q" if "reader (pcs s p)" "reader (pcs s q)" for p q by (rule one_reader [OF ok that])
    show "\<exists>p. reader (pcs s p)" if "rip s \<noteq> 0" using procs_okD(3) [OF mnt_okD(1) [OF ok] that] by blast
    show "rip s \<noteq> 0" if r: "\<exists>p. reader (pcs s p)"
    proof -
      obtain p where p: "reader (pcs s p)" using r by blast
      then have "p \<noteq> 0" using procs_okD(1) [OF mnt_okD(1) [OF ok]] by (cases "p = 0") auto
      then show ?thesis using procs_okD(2) [OF mnt_okD(1) [OF ok] p] by simp
    qed
  qed
qed

theorem mnt_one_reader_witness:
  "\<exists>s. mnt_execs [1, 1, 1, 2, 2, 2] (reply 1) three_ready = Some s \<and> rip s = 1 \<and> (\<forall>q. reader (pcs s q) \<longrightarrow> q = 1)"
proof -
  obtain s where s: "mnt_execs [1, 1, 1, 2, 2, 2] (reply 1) three_ready = Some s" "rip s = 1" "pcs s 1 = Reading 1000"
    by (simp add: reply_def mnt_eval)
  have "reach {Normal} s" by (rule mnt_execs_reach [OF s(1) reach_three_ready]) simp_all
  then show ?thesis using mnt_one_reader [of "{Normal}" s] s by (intro exI [of _ s]) auto
qed

text \<open>C8: No wakeup is lost as long as every flush can be written, the reader meets no error outside its handler, and no
  interrupt catches a process in \<open>Sleep\<close> before it has the lock: when nobody reads and a process sleeps, some process
  is on its way to the gate or about to wake a sleeper, and steps lead from there to a reader.
\<close>

theorem mnt_no_lost_wakeup:
  assumes "reach {Normal} s" "rip s = 0" "pcs s p = Asleep r"
  shows "\<exists>q. will_read s q \<and> (\<exists>s'. (mnt_step Normal)\<^sup>*\<^sup>* s s' \<and> rip s' \<noteq> 0)"
proof -
  have ok: "mnt_ok s" by (rule reach_ok [OF assms(1)]) simp
  obtain q where "will_read s q" using awake_ok_reach [OF assms(1)] assms(2,3) unfolding awake_ok_def by blast
  then show ?thesis using will_read_reads [OF ok _ assms(2)] by blast
qed

theorem mnt_no_lost_wakeup_witness:
  "\<exists>s s'. first_gates = Some s \<and> pcs s 2 = Asleep 2000 \<and> (mnt_step Normal)\<^sup>*\<^sup>* s s' \<and> rip s' \<noteq> 0"
proof -
  obtain s where s: "first_gates = Some s" "rip s = 0" "pcs s 2 = Asleep 2000"
    using first_gates_state by blast
  have "reach {Normal} s" by (rule first_gates_reach [OF s(1)]) simp_all
  then show ?thesis using mnt_no_lost_wakeup [of s 2 2000] s by blast
qed

text \<open>
  The first reader has chosen the second process; that one is interrupted, and its flush cannot be written.
  The third sleeps.
\<close>

definition flush_lost :: "mst option" where
  "flush_lost =
     Option.bind (mnt_execs [1, 1, 1, 3, 3, 3, 3, 2, 2, 2, 2, 1, 1, 1, 2, 2] (reply 1) three_ready) (\<lambda>s.
     Option.bind (mntqrm 2000 s) (\<lambda>s1.
     mnt_execs [1, 1, 2] (reply 1) (goto 2 (Back 2000 Raised) s1)))"

lemma flush_lost_chosen:
  "\<exists>s. mnt_execs [1, 1, 1, 3, 3, 3, 3, 2, 2, 2, 2, 1, 1, 1, 2, 2] (reply 1) three_ready = Some s \<and>
     pcs s 2 = Flush_sent 2000 False \<and> rip s = 0"
  by (simp add: reply_def mnt_eval seek.simps findprev.simps)

lemma flush_lost_end:
  "\<exists>s. flush_lost = Some s \<and> rip s = 0 \<and> pcs s = (\<lambda>_. Idle)(3 := Asleep 3000)"
  by (simp add: flush_lost_def reply_def mnt_eval seek.simps findprev.simps fun_eq_iff)

text \<open>C31: When the flush of the process that \<open>mntgate\<close> has chosen cannot be written, the wakeup is lost: a state is
  reached where nobody reads, one process sleeps in its call, and all others are out of theirs.
\<close>

theorem mnt_flush_lost_wakeup:
  "\<exists>s. reach {Normal, Flush_lost} s \<and> rip s = 0 \<and> pcs s = (\<lambda>_. Idle)(3 := Asleep 3000)"
proof -
  obtain s where s: "mnt_execs [1, 1, 1, 3, 3, 3, 3, 2, 2, 2, 2, 1, 1, 1, 2, 2] (reply 1) three_ready = Some s"
    "pcs s 2 = Flush_sent 2000 False" using flush_lost_chosen by blast
  obtain s' where s': "flush_lost = Some s'" "rip s' = 0" "pcs s' = (\<lambda>_. Idle)(3 := Asleep 3000)"
    using flush_lost_end by blast
  obtain s1 where s1: "mntqrm 2000 s = Some s1" "mnt_execs [1, 1, 2] (reply 1) (goto 2 (Back 2000 Raised) s1) = Some s'"
    using s'(1) s(1) by (auto simp: flush_lost_def Option.bind_eq_Some_conv simp del: mnt_execs.simps)
  have "reach {Normal, Flush_lost} s" by (rule mnt_execs_reach [OF s(1) reach_three_ready]) simp_all
  moreover have "mnt_step Flush_lost s (goto 2 (Back 2000 Raised) s1)"
    using mnt_step.flush_fails [OF s(2) s1(1)] by simp
  ultimately have "reach {Normal, Flush_lost} (goto 2 (Back 2000 Raised) s1)" by (rule reach.step) simp
  then have "reach {Normal, Flush_lost} s'" by (rule mnt_execs_reach [OF s1(2)]) simp_all
  then show ?thesis using s'(2,3) by blast
qed

text \<open>C17: After an error of \<open>mntrpcread\<close> outside its handler the connection is stuck: whatever any process does
  later, \<open>rip\<close> stays set and no process reads replies again.
\<close>

theorem mnt_hangup_stuck:
  assumes "reach L s" "Hangup \<notin> L" "mnt_step Hangup s s1" "(\<lambda>a b. \<exists>l. mnt_step l a b)\<^sup>*\<^sup>* s1 s'"
  shows "rip s' \<noteq> 0 \<and> (\<forall>p. \<not> reader (pcs s' p))"
  using run_orphaned [OF assms(4) hangup_orphaned [OF assms(3) reach_ok [OF assms(1,2)]]]
  by (simp add: orphaned_def)

theorem mnt_hangup_stuck_witness:
  "\<exists>s s1 s'. mnt_execs [1, 1, 1] (reply 1) three_ready = Some s \<and> mnt_step Hangup s s1 \<and>
    mnt_execs [1, 2, 2, 2, 2] (reply 1) s1 = Some s' \<and> rip s' \<noteq> 0 \<and> pcs s' 2 = Asleep 2000 \<and>
    (\<forall>p. \<not> reader (pcs s' p))"
proof -
  let ?c = "\<lambda>s. goto 1 (Back 1000 Raised) s"
  obtain s where s: "mnt_execs [1, 1, 1] (reply 1) three_ready = Some s" "pcs s 1 = Reading 1000" "\<not> rdone s 1000"
    and e: "\<exists>s'. mnt_execs [1, 2, 2, 2, 2] (reply 1) (?c s) = Some s' \<and> pcs s' 2 = Asleep 2000"
    by (simp add: reply_def mnt_eval)
  obtain s' where s': "mnt_execs [1, 2, 2, 2, 2] (reply 1) (?c s) = Some s'" "pcs s' 2 = Asleep 2000" using e by blast
  have r: "reach {Normal} s" by (rule mnt_execs_reach [OF s(1) reach_three_ready]) simp_all
  have h: "mnt_step Hangup s (?c s)" using s(2,3) by (rule mnt_step.hangup)
  have "unseized (?c s)" using unseized_step [OF h _ reach_unseized [OF r]] by simp
  then have "(\<lambda>a b. \<exists>l. mnt_step l a b)\<^sup>*\<^sup>* (?c s) s'" by (rule mnt_execs_run [OF s'(1)])
  then have "rip s' \<noteq> 0 \<and> (\<forall>p. \<not> reader (pcs s' p))" using mnt_hangup_stuck [OF r _ h] by simp
  then show ?thesis using s(1) h s' by blast
qed

end
