(* ===== verification/Spec2Isabelle.thy ===== *)
theory Spec2Isabelle
  imports Gcrun Mntrun
begin

text \<open>
  Verification library for the Dis virtual machine of Inferno and for the parts of the system it runs on.

  \<^bold>\<open>The program.\<close> The Limbo compiler writes an object file (\<open>limbo/dis.c\<close>). The loader reads it into
  modules (\<open>interp/load.c\<close>) and links them (\<open>interp/link.c\<close>). The interpreter decodes the operands of each
  instruction (\<open>interp/dec.c\<close>) and executes it (\<open>interp/xec.c\<close>), over a heap of typed, reference-counted
  blocks (\<open>interp/heap.c\<close>), strings (\<open>interp/string.c\<close>), stacks that grow by extents (\<open>interp/stack.c\<close>) and
  channels (\<open>interp/alt.c\<close>). The progs of the machine take turns through the queues of \<open>emu/dis.c\<close>. Blocks
  come from the pools of \<open>emu/alloc.c\<close>, and what reference counts miss is found by the collector of
  \<open>interp/gc.c\<close>, which runs between quanta. Text goes through the codec of \<open>lib9/rune.c\<close> and the number
  conversions of \<open>lib9\<close> and \<open>libk\<close>. Remote files are reached by messages of the Styx protocol
  (\<open>emu/styx.c\<close>), which the mount driver (\<open>emu/devmnt.c\<close>) exchanges over one connection for all processes.

  \<^bold>\<open>Theories and sources.\<close> One theory models a component; where its properties are long they have a theory of
  their own.

  \<^item> \<open>Prelude\<close>: C integer types, pointers to bytes, bit operations as arithmetic.
  \<^item> \<open>Rune\<close>: \<open>lib9/rune.c\<close>, \<open>lib9/utflen.c\<close>, \<open>lib9/utfrune.c\<close>, \<open>utfnlen\<close> of \<open>interp/runt.c\<close>. Decoding inverts
    encoding, only shortest forms are accepted, and no byte beyond those \<open>fullrune\<close> asks for is read.
  \<^item> \<open>Conv\<close>: \<open>numbconv\<close>, \<open>strtol\<close>, \<open>strtoll\<close>. What is printed in decimal is read back.
  \<^item> \<open>Isa\<close>, \<open>Disfile\<close>: \<open>include/isa.h\<close>, the emitter \<open>limbo/dis.c\<close> and the item decoders of \<open>interp/load.c\<close>;
    round trips between them through the locale \<open>codec\<close>, sorting of the frame elements, growth of the data cache.
  \<^item> \<open>Vmstate\<close>: the structs of \<open>include/interp.h\<close> as records, byte memory, and the monad of the operations: \<open>Ok\<close>,
    \<open>Raise\<close> (a call of \<open>error()\<close>) or \<open>Fault\<close> (a trap or a panic), each with the state it leaves.
  \<^item> \<open>Linked\<close>: singly linked lists, shared by the queues; the locale \<open>fifo\<close>.
  \<^item> \<open>Heapc\<close>, \<open>Heapk\<close>: \<open>interp/heap.c\<close>, \<open>unload\<close>, \<open>destroylinks\<close>; what destroying a value leaves alone.
  \<^item> \<open>Loader\<close>: \<open>interp/load.c\<close> and \<open>interp/link.c\<close>.
  \<^item> \<open>Regs\<close>, \<open>Dec\<close>, \<open>Moves\<close>, \<open>Stackc\<close>, \<open>Xec\<close>, \<open>Control\<close>: operands, the decoder, data movement, stack extents, all
    instructions with \<open>optab\<close> and the loop, and the properties of case tables, calls and returns.
  \<^item> \<open>Str\<close>, \<open>Strval\<close>: \<open>interp/string.c\<close>; the meaning of a string value is its list of characters.
  \<^item> \<open>Sched\<close>, \<open>Chan\<close>: the queues of \<open>emu/dis.c\<close>; \<open>isend\<close>, \<open>irecv\<close> and \<open>alt\<close>. Queues refine lists.
  \<^item> \<open>Alloc\<close>, \<open>Freetree\<close>, \<open>Arena\<close>, \<open>Poolops\<close>: \<open>emu/alloc.c\<close>. \<open>Freetree\<close> shows that the free tree implements a set of
    blocks ordered by size, \<open>Arena\<close> that blocks tile the arenas, \<open>Poolops\<close> the contract for clients (locale
    \<open>allocator\<close>).
  \<^item> \<open>Gc\<close>, \<open>Gcrun\<close>: \<open>interp/gc.c\<close> over the heap pool.
  \<^item> \<open>Styx\<close>: \<open>emu/styx.c\<close>. An abstract message has a wire format (\<open>wire\<close>); \<open>convS2M\<close> writes it and \<open>convM2S\<close> reads
    it back.
  \<^item> \<open>Mntread\<close>: \<open>mntrpcread\<close> of \<open>emu/devmnt.c\<close>, a function of the answers of the read operation; how messages are put
    together from pieces.
  \<^item> \<open>Mnt\<close>, \<open>Mntrun\<close>: \<open>mountio\<close> and what it calls, with \<open>Sleep\<close>, \<open>Wakeup\<close> and the interruption of a sleeper of
    \<open>emu/proc.c\<close>, as a step relation on the calls and places of all processes. \<open>mnt_ok\<close> is its invariant;
    \<open>Mntrun\<close> shows that steps keep it, what it means for a caller, which process reads, when wakeups are
    lost, and what an error of the reader does.

  \<^bold>\<open>Correspondence.\<close> A definition has the name of the C function, with a suffix where that name is taken in HOL. A
  struct is a record, and each kind of struct has its own store, a map from addresses to records, except that
  what Dis instructions address byte by byte lies in one byte memory at the layout of the 386. Integers
  have the width they have in C, and \<open>char\<close> is signed. Macros that read or write operands are operations on
  that memory. A static variable is a field of the state record of its component.

  \<^bold>\<open>Bounds and fuel.\<close> Loops over linked structures and scans for a terminator, which may not end in C, are
  \<open>partial_function (option)\<close>: not ending is \<open>None\<close>, and the properties say that the result is there. Loops
  with an obvious bound are structural. The depth of \<open>destroy\<close> is a number because the code bounds it by
  \<open>gchalt\<close>: \<open>Heapk.destroy_depth\<close> shows that a larger number changes nothing. \<open>sweep\<close> takes the
  quantum of the collector as its bound, and \<open>Gcrun.sweep_ends\<close> shows that it is enough. \<open>load_data\<close> takes
  the size of the object file, because an item takes at least a byte.

  \<^bold>\<open>Parameters.\<close> What is not in the repository, or is hardware, is an argument: floating-point
  arithmetic (\<open>fpu\<close>), the host's \<open>sbrk\<close> (a field of a pool; its answers are assumed to be intervals that do not
  overlap what it gave before, as the host documents), files, signatures and the native compiler
  during loading (\<open>host\<close>), waking kernel processes and debuggers (\<open>kern\<close>), builtin modules.
  For the connection of the mount driver, the answers of its read operation are a list (\<open>answer\<close>), and a step of
  the reader may receive any reply.
  For the collector, \<open>tame\<close> says that a block whose \<open>free\<close> function the collector calls is plain data
  or a channel: the other functions destroy values, which changes the counts of blocks that stay.

  \<^bold>\<open>Not modelled.\<close> Printing for debugging (\<open>interp/conv.c\<close>, \<open>poolread\<close>, \<open>validaddr\<close>), locks around operations that
  are single steps here, the native compilers (\<open>comp-*.c\<close>), the compiler's front end, graphics, the toolkit and
  the builtin modules behind \<open>e_runt\<close>, and the devices and name spaces of the hosted kernel: these are I/O or
  separate programs on top of the machine. Of \<open>emu/dis.c\<close> the hand-over between kernel processes is left out. Of the mount driver,
  the operations that fill in requests and look at replies (\<open>mntattach\<close> to \<open>mntrdwr\<close>), the table of mount points and
  \<open>fcallconv\<close>, which prints messages, are left out; the hand-over of a reply by \<open>mountmux\<close> is one step with the
  search before it, and a leaving mount point (\<open>mntpntfree\<close>) does not occur.
\<close>

end
